(* ===== verification/SyncPrelude.thy ===== *)
theory SyncPrelude
  imports Main "HOL-Library.Word" "HOL-Library.AList" "HOL-Library.Char_ord" "HOL-Library.List_Lexorder"
begin

text \<open>
  Shared vocabulary of the development: the machine integer types of the C++ code, error
  codes (\<^verbatim>\<open>src/SyncLog/Err.hpp\<close> and the errno values the code uses), the outcome type that
  makes failed assertions and undefined behaviour visible, and a sorted association list
  that stands for \<^verbatim>\<open>std::map\<close> where the code iterates over one in key order.
\<close>

unbundle bit_operations_syntax

named_theorems outcome_simps
named_theorems file_simps

section \<open>Machine integers and byte strings\<close>

type_synonym u8 = "8 word"
type_synonym u16 = "16 word"
type_synonym u32 = "32 word"
type_synonym u64 = "64 word"

text \<open>A \<^verbatim>\<open>std::string\<close> that carries data is a list of bytes; file names are \<^typ>\<open>string\<close>.\<close>

type_synonym bytes = "u8 list"

section \<open>Outcomes\<close>

text \<open>
  A C++ operation returns, or the process stops: a failed \<^verbatim>\<open>assert\<close>, an exception nobody
  catches, or undefined behaviour. The model never picks a value for the latter cases.
\<close>

datatype fault =
    Assertion_failed
  | Out_of_bounds
  | Null_pointer
  | Uninitialised_read
  | Signed_overflow
  | Length_error
  | Dangling_pointer
  | Bad_cast

datatype 'a outcome = Done 'a | Abort fault

fun obind :: "'a outcome \<Rightarrow> ('a \<Rightarrow> 'b outcome) \<Rightarrow> 'b outcome" where
  "obind (Done x) f = f x"
| "obind (Abort e) f = Abort e"

definition assert_that :: "bool \<Rightarrow> unit outcome" where
  "assert_that b = (if b then Done () else Abort Assertion_failed)"

lemma obind_Done_iff [outcome_simps]:
  "obind m f = Done y \<longleftrightarrow> (\<exists>x. m = Done x \<and> f x = Done y)"
  by (cases m) auto

lemma obind_Abort_iff [outcome_simps]:
  "obind m f = Abort e \<longleftrightarrow> m = Abort e \<or> (\<exists>x. m = Done x \<and> f x = Abort e)"
  by (cases m) auto

lemma obind_assoc: "obind (obind m f) g = obind m (\<lambda>x. obind (f x) g)"
  by (cases m) auto

lemma obind_cong [fundef_cong]:
  "m = n \<Longrightarrow> (\<And>x. n = Done x \<Longrightarrow> f x = g x) \<Longrightarrow> obind m f = obind n g"
  by (cases n) auto

lemma assert_that_simps [simp]:
  "assert_that True = Done ()" "assert_that False = Abort Assertion_failed"
  by (simp_all add: assert_that_def)

lemma assert_that_Done [outcome_simps]: "assert_that b = Done u \<longleftrightarrow> b"
  by (simp add: assert_that_def)

section \<open>Error codes\<close>

text \<open>
  \<^verbatim>\<open>int err\<close> of the code: 0, one of the enumerators of \<^verbatim>\<open>Err::_err\<close>, or an errno value.
\<close>

datatype err =
    E_OK
  | E_TABLE_NOT_EXIST
  | E_TABLE_EXIST
  | E_KEY_NOT_EXIST
  | E_KEY_EXIST
  | E_CRC_CHECK_FAILED
  | E_BASE64_DECODE_FAILED
  | ENOENT
  | EINTR
  | EIO
  | EBADF
  | EEXIST
  | EINVAL
  | EAGAIN
  | EDEADLK
  | ENOTSOCK
  | ECONNRESET
  | EINPROGRESS

fun err_code :: "err \<Rightarrow> int" where
  "err_code E_OK = 0"
| "err_code E_TABLE_NOT_EXIST = 1000"
| "err_code E_TABLE_EXIST = 1001"
| "err_code E_KEY_NOT_EXIST = 1002"
| "err_code E_KEY_EXIST = 1003"
| "err_code E_CRC_CHECK_FAILED = 1004"
| "err_code E_BASE64_DECODE_FAILED = 1005"
| "err_code ENOENT = 2"
| "err_code EINTR = 4"
| "err_code EIO = 5"
| "err_code EBADF = 9"
| "err_code EEXIST = 17"
| "err_code EINVAL = 22"
| "err_code EAGAIN = 11"
| "err_code EDEADLK = 35"
| "err_code ENOTSOCK = 88"
| "err_code ECONNRESET = 104"
| "err_code EINPROGRESS = 115"

lemma err_code_inj: "err_code a = err_code b \<Longrightarrow> a = b"
  by (cases a; cases b; simp)

lemma err_code_zero_iff [simp]: "err_code e = 0 \<longleftrightarrow> e = E_OK"
  by (cases e) auto

section \<open>std::map as a sorted association list\<close>

text \<open>
  \<^verbatim>\<open>insert\<close> keeps an existing entry, as \<^verbatim>\<open>std::map::insert\<close> does; iteration is the list
  itself, in ascending key order.
\<close>

fun smap_insert :: "'k::linorder \<Rightarrow> 'v \<Rightarrow> ('k \<times> 'v) list \<Rightarrow> ('k \<times> 'v) list" where
  "smap_insert k v [] = [(k, v)]"
| "smap_insert k v ((k', v') # m) =
     (if k < k' then (k, v) # (k', v') # m
      else if k = k' then (k', v') # m
      else (k', v') # smap_insert k v m)"

abbreviation smap_sorted :: "('k::linorder \<times> 'v) list \<Rightarrow> bool" where
  "smap_sorted m \<equiv> sorted_wrt (<) (map fst m)"

lemma set_keys_smap_insert [simp]: "fst ` set (smap_insert k v m) = insert k (fst ` set m)"
  by (induction k v m rule: smap_insert.induct) auto

lemma smap_sorted_insert: "smap_sorted m \<Longrightarrow> smap_sorted (smap_insert k v m)"
proof (induction k v m rule: smap_insert.induct)
  case (2 k v k' v' m)
  have "set (map fst (smap_insert k v m)) = insert k (set (map fst m))"
    by simp
  with 2 show ?case
    by (auto simp del: set_map)
qed simp

lemma map_of_smap_insert:
  "smap_sorted m \<Longrightarrow> map_of (smap_insert k v m) x =
     (if x = k \<and> map_of m k = None then Some v else map_of m x)"
proof (induction k v m rule: smap_insert.induct)
  case (2 k v k' v' m)
  have "map_of m k = None" if "k < k'"
    using that "2.prems" by (force simp: map_of_eq_None_iff)
  with 2 show ?case by auto
qed simp

lemma smap_insert_append:
  "(\<forall>x \<in> fst ` set m. x < k) \<Longrightarrow> smap_insert k v m = m @ [(k, v)]"
  by (induction k v m rule: smap_insert.induct) auto

lemma smap_insert_member: "smap_sorted m \<Longrightarrow> k \<in> fst ` set m \<Longrightarrow> smap_insert k v m = m"
  by (induction k v m rule: smap_insert.induct) auto

lemma distinct_smap_sorted: "smap_sorted m \<Longrightarrow> distinct (map fst m)"
  by (simp only: strict_sorted_iff)

end
