(* ===== verification/DataStore.thy ===== *)
theory DataStore
  imports SyncPrelude
begin

text \<open>
  The in-memory database, \<^verbatim>\<open>src/SyncLog/DataStore.hpp\<close> and \<^verbatim>\<open>DataStore.cpp\<close>: a table is
  a string-to-string map (\<^verbatim>\<open>SimpleDataTable\<close>), the store maps table names to tables. The
  abstract class \<^verbatim>\<open>DataTable\<close> is the locale \<open>data_table\<close>, interpreted on
  \<^verbatim>\<open>SimpleDataTable\<close>; the store refines a flat map from (table, key) pairs to values.
\<close>

section \<open>SimpleDataTable\<close>

record simple_table =
  mTableName :: bytes
  mTable :: "bytes \<rightharpoonup> bytes"

definition new_table :: "bytes \<Rightarrow> simple_table" where
  "new_table name = \<lparr>mTableName = name, mTable = Map.empty\<rparr>"

definition DoAdd :: "bytes \<Rightarrow> bytes \<Rightarrow> simple_table \<Rightarrow> err \<times> simple_table" where
  "DoAdd key value t =
     (case mTable t key of
        Some _ \<Rightarrow> (E_KEY_EXIST, t)
      | None \<Rightarrow> (E_OK, t\<lparr>mTable := (mTable t)(key \<mapsto> value)\<rparr>))"

definition DoPut :: "bytes \<Rightarrow> bytes \<Rightarrow> simple_table \<Rightarrow> err \<times> simple_table" where
  "DoPut key value t =
     (case mTable t key of
        None \<Rightarrow> (E_OK, t\<lparr>mTable := (mTable t)(key \<mapsto> value)\<rparr>)
      | Some _ \<Rightarrow> (E_OK, t\<lparr>mTable := (mTable t)(key := Some value)\<rparr>))"

definition DoDel :: "bytes \<Rightarrow> simple_table \<Rightarrow> err \<times> simple_table" where
  "DoDel key t =
     (case mTable t key of
        Some _ \<Rightarrow> (E_OK, t\<lparr>mTable := (mTable t)(key := None)\<rparr>)
      | None \<Rightarrow> (E_OK, t))"

text \<open>The out-parameter \<^verbatim>\<open>value\<close> keeps what it held when the key is missing.\<close>

definition DoGet :: "bytes \<Rightarrow> bytes \<Rightarrow> simple_table \<Rightarrow> err \<times> bytes" where
  "DoGet key value t =
     (case mTable t key of
        Some v \<Rightarrow> (E_OK, v)
      | None \<Rightarrow> (E_KEY_NOT_EXIST, value))"

section \<open>The DataTable interface\<close>

text \<open>
  What \<^verbatim>\<open>DataStore\<close> relies on when it calls the four virtual functions of \<^verbatim>\<open>DataTable\<close>:
  \<open>view\<close> is the map the table stands for.
\<close>

locale data_table =
  fixes put :: "bytes \<Rightarrow> bytes \<Rightarrow> 't \<Rightarrow> err \<times> 't"
    and add :: "bytes \<Rightarrow> bytes \<Rightarrow> 't \<Rightarrow> err \<times> 't"
    and del :: "bytes \<Rightarrow> 't \<Rightarrow> err \<times> 't"
    and lookup :: "bytes \<Rightarrow> bytes \<Rightarrow> 't \<Rightarrow> err \<times> bytes"
    and view :: "'t \<Rightarrow> bytes \<rightharpoonup> bytes"
  assumes put_err: "fst (put k v t) = E_OK"
    and put_view: "view (snd (put k v t)) = (view t)(k \<mapsto> v)"
    and add_err: "fst (add k v t) = (if view t k = None then E_OK else E_KEY_EXIST)"
    and add_view: "view (snd (add k v t)) =
          (if view t k = None then (view t)(k \<mapsto> v) else view t)"
    and del_err: "fst (del k t) = E_OK"
    and del_view: "view (snd (del k t)) = (view t)(k := None)"
    and lookup_res: "lookup k d t =
          (case view t k of Some v \<Rightarrow> (E_OK, v) | None \<Rightarrow> (E_KEY_NOT_EXIST, d))"
begin

lemmas table_laws = put_err put_view add_err add_view del_err del_view lookup_res

lemma lookup_put: "lookup k d (snd (put k' v t)) = (if k = k' then (E_OK, v) else lookup k d t)"
  by (simp add: table_laws)

lemma lookup_del:
  "lookup k d (snd (del k' t)) = (if k = k' then (E_KEY_NOT_EXIST, d) else lookup k d t)"
  by (simp add: table_laws)

lemma lookup_add:
  "lookup k d (snd (add k' v t)) =
     (if k = k' \<and> fst (add k' v t) = E_OK then (E_OK, v) else lookup k d t)"
  by (auto simp: table_laws split: option.splits)

text \<open>
  Applying a table write twice leaves the table where the first application left it: a
  record replayed once more at recovery does no harm to the table.
\<close>

lemma put_idem: "view (snd (put k v (snd (put k v t)))) = view (snd (put k v t))"
  by (simp add: table_laws)

lemma add_idem: "view (snd (add k v (snd (add k v t)))) = view (snd (add k v t))"
  by (simp add: table_laws)

lemma del_idem: "view (snd (del k (snd (del k t)))) = view (snd (del k t))"
  by (simp add: table_laws)

lemmas lookup_after = lookup_put lookup_del lookup_add

end

interpretation sdt: data_table DoPut DoAdd DoDel DoGet mTable
  by unfold_locales
    (auto simp: DoPut_def DoAdd_def DoDel_def DoGet_def fun_eq_iff split: option.splits)

lemma mTableName_ops [simp]:
  "mTableName (snd (DoPut k v t)) = mTableName t"
  "mTableName (snd (DoAdd k v t)) = mTableName t"
  "mTableName (snd (DoDel k t)) = mTableName t"
  by (auto simp: DoPut_def DoAdd_def DoDel_def split: option.splits)

section \<open>DataStore\<close>

type_synonym data_store = "bytes \<rightharpoonup> simple_table"

definition Put :: "bytes \<Rightarrow> bytes \<Rightarrow> bytes \<Rightarrow> data_store \<Rightarrow> err \<times> data_store" where
  "Put tableName key value s =
     (case s tableName of
        None \<Rightarrow> (E_TABLE_NOT_EXIST, s)
      | Some table \<Rightarrow>
          (let (err, table') = DoPut key value table in (err, s(tableName \<mapsto> table'))))"

definition Add :: "bytes \<Rightarrow> bytes \<Rightarrow> bytes \<Rightarrow> data_store \<Rightarrow> err \<times> data_store" where
  "Add tableName key value s =
     (case s tableName of
        None \<Rightarrow> (E_TABLE_NOT_EXIST, s)
      | Some table \<Rightarrow>
          (let (err, table') = DoAdd key value table in (err, s(tableName \<mapsto> table'))))"

definition Del :: "bytes \<Rightarrow> bytes \<Rightarrow> data_store \<Rightarrow> err \<times> data_store" where
  "Del tableName key s =
     (case s tableName of
        None \<Rightarrow> (E_TABLE_NOT_EXIST, s)
      | Some table \<Rightarrow>
          (let (err, table') = DoDel key table in (err, s(tableName \<mapsto> table'))))"

definition Get :: "bytes \<Rightarrow> bytes \<Rightarrow> bytes \<Rightarrow> data_store \<Rightarrow> err \<times> bytes" where
  "Get tableName key value s =
     (case s tableName of
        None \<Rightarrow> (E_TABLE_NOT_EXIST, value)
      | Some table \<Rightarrow> DoGet key value table)"

definition CreateTable :: "bytes \<Rightarrow> data_store \<Rightarrow> err \<times> data_store" where
  "CreateTable tableName s =
     (case s tableName of
        Some _ \<Rightarrow> (E_TABLE_EXIST, s)
      | None \<Rightarrow> (E_OK, s(tableName \<mapsto> new_table tableName)))"

definition DropTable :: "bytes \<Rightarrow> data_store \<Rightarrow> err \<times> data_store" where
  "DropTable tableName s =
     (case s tableName of
        Some _ \<Rightarrow> (E_OK, s(tableName := None))
      | None \<Rightarrow> (E_OK, s))"

lemmas store_ops = Put_def Add_def Del_def CreateTable_def DropTable_def

section \<open>Well-formedness\<close>

text \<open>Every table is filed under its own name.\<close>

definition store_wf :: "data_store \<Rightarrow> bool" where
  "store_wf s \<longleftrightarrow> (\<forall>n t. s n = Some t \<longrightarrow> mTableName t = n)"

datatype kv_op =
    KPut bytes bytes bytes
  | KAdd bytes bytes bytes
  | KDel bytes bytes
  | KDropTable bytes
  | KAddTable bytes

fun exec_op :: "kv_op \<Rightarrow> data_store \<Rightarrow> err \<times> data_store" where
  "exec_op (KPut t k v) s = Put t k v s"
| "exec_op (KAdd t k v) s = Add t k v s"
| "exec_op (KDel t k) s = Del t k s"
| "exec_op (KDropTable t) s = DropTable t s"
| "exec_op (KAddTable t) s = CreateTable t s"

lemma store_wf_empty: "store_wf Map.empty"
  by (simp add: store_wf_def)

lemma snd_case_prod_let: "snd (let (a, b) = p in (a, f b)) = f (snd p)"
  by (simp add: split_beta)

lemma exec_op_wf: "store_wf s \<Longrightarrow> store_wf (snd (exec_op x s))"
  by (cases x)
    (auto simp: store_wf_def store_ops new_table_def split_beta split: option.splits)

section \<open>Refinement of a flat key-value map\<close>

text \<open>
  The abstract state: the existing tables, and one flat map from (table, key) to value that
  is empty outside them.
\<close>

record flat_store =
  tables :: "bytes set"
  cells :: "bytes \<times> bytes \<rightharpoonup> bytes"

definition flatten :: "data_store \<Rightarrow> flat_store" where
  "flatten s = \<lparr>tables = dom s, cells = (\<lambda>(t, k). Option.bind (s t) (\<lambda>tb. mTable tb k))\<rparr>"

definition flat_write :: "(err \<times> bytes option) \<Rightarrow> bytes \<Rightarrow> bytes \<Rightarrow> flat_store \<Rightarrow> err \<times> flat_store" where
  "flat_write r t k f =
     (if t \<in> tables f then (fst r, f\<lparr>cells := (cells f)((t, k) := snd r)\<rparr>)
      else (E_TABLE_NOT_EXIST, f))"

fun flat_op :: "kv_op \<Rightarrow> flat_store \<Rightarrow> err \<times> flat_store" where
  "flat_op (KPut t k v) f = flat_write (E_OK, Some v) t k f"
| "flat_op (KAdd t k v) f =
     flat_write (case cells f (t, k) of None \<Rightarrow> (E_OK, Some v) | Some w \<Rightarrow> (E_KEY_EXIST, Some w)) t k f"
| "flat_op (KDel t k) f = flat_write (E_OK, None) t k f"
| "flat_op (KDropTable t) f =
     (E_OK, \<lparr>tables = tables f - {t}, cells = (\<lambda>(t', k). if t' = t then None else cells f (t', k))\<rparr>)"
| "flat_op (KAddTable t) f =
     (if t \<in> tables f then (E_TABLE_EXIST, f) else (E_OK, f\<lparr>tables := insert t (tables f)\<rparr>))"

lemma flatten_simps [simp]:
  "tables (flatten s) = dom s"
  "cells (flatten s) (t, k) = Option.bind (s t) (\<lambda>tb. mTable tb k)"
  by (simp_all add: flatten_def)

lemma flat_store_eqI:
  fixes f g :: flat_store
  assumes "tables f = tables g" and "\<And>t k. cells f (t, k) = cells g (t, k)"
  shows "f = g"
proof -
  have "cells f = cells g"
    by (rule ext) (metis assms(2) surj_pair)
  with assms(1) show ?thesis by simp
qed

lemma exec_op_flat_err: "fst (exec_op x s) = fst (flat_op x (flatten s))"
  by (cases x)
    (auto simp: store_ops flat_write_def split_beta dom_def sdt.table_laws split: option.splits)

lemma exec_op_flat_state: "flatten (snd (exec_op x s)) = snd (flat_op x (flatten s))"
  by (rule flat_store_eqI; cases x)
    (auto simp: store_ops flat_write_def split_beta dom_def sdt.table_laws new_table_def
      split: option.splits if_splits)

lemma Get_flat:
  "Get t k d s =
     (if t \<notin> tables (flatten s) then (E_TABLE_NOT_EXIST, d)
      else case cells (flatten s) (t, k) of None \<Rightarrow> (E_KEY_NOT_EXIST, d) | Some v \<Rightarrow> (E_OK, v))"
  by (auto simp: Get_def sdt.lookup_res split: option.splits)

section \<open>Properties\<close>

text \<open>C23: Every database operation (put, add, delete, create table, drop table) behaves, in the
  error it returns and in the state it leaves, as the corresponding operation on one flat map
  from (table, key) pairs to values with a set of existing tables; the nested tables of the
  code are an implementation of that map.\<close>

theorem store_refines_flat_map:
  "flat_op x (flatten s) = (fst (exec_op x s), flatten (snd (exec_op x s)))"
  by (simp add: exec_op_flat_err exec_op_flat_state)

text \<open>What a get returns after a put: the value just put for that table and key if the
  table exists, and what it returned before for every other table or key; the put fails,
  leaving the store alone, exactly when the table does not exist.\<close>

theorem get_after_put:
  "fst (Put t k v s) = (if t \<in> dom s then E_OK else E_TABLE_NOT_EXIST) \<and>
   Get t' k' d (snd (Put t k v s)) =
     (if t \<in> dom s \<and> t' = t \<and> k' = k then (E_OK, v) else Get t' k' d s)"
  by (auto simp: Put_def Get_def split_beta sdt.put_err sdt.lookup_put split: option.splits)

end
