(* ===== verification/FileSys.thy ===== *)
theory FileSys
  imports SyncPrelude
begin

text \<open>
  The POSIX calls the log code makes, over a small file system: \<open>files\<close> is what reads see,
  \<open>durable\<close> what the last \<^verbatim>\<open>fsync\<close> of each file left on disk, and \<open>resp\<close> the answers
  the kernel will give to the coming calls (transfer everything, transfer part, fail with an
  errno). The log files are opened with \<^verbatim>\<open>O_APPEND\<close>: POSIX lets \<^verbatim>\<open>pwrite\<close> write at its
  offset then, Linux appends whatever the offset, and \<open>appending\<close> says which of the two
  kernels it is. An empty list of answers stands for calls that do all that is asked. A successful
  transfer of a regular file moves at least one byte unless a read is at the end of file.
\<close>

datatype sysresp = RFull | RShort nat | RFail err

record world =
  files :: "(string \<times> bytes) list"
  durable :: "(string \<times> bytes) list"
  resp :: "sysresp list"
  appending :: bool

definition file_of :: "world \<Rightarrow> string \<Rightarrow> bytes" where
  "file_of w n = (case map_of (files w) n of Some c \<Rightarrow> c | None \<Rightarrow> [])"

definition durable_of :: "world \<Rightarrow> string \<Rightarrow> bytes" where
  "durable_of w n = (case map_of (durable w) n of Some c \<Rightarrow> c | None \<Rightarrow> [])"

definition exists_file :: "world \<Rightarrow> string \<Rightarrow> bool" where
  "exists_file w n \<longleftrightarrow> n \<in> fst ` set (files w)"

definition set_file :: "string \<Rightarrow> bytes \<Rightarrow> world \<Rightarrow> world" where
  "set_file n c w = w\<lparr>files := AList.update n c (files w)\<rparr>"

text \<open>A failing call sets a non-zero errno, so a failure with \<^const>\<open>E_OK\<close> is none.\<close>

definition next_resp :: "world \<Rightarrow> sysresp \<times> world" where
  "next_resp w =
     (case resp w of [] \<Rightarrow> (RFull, w)
      | r # rs \<Rightarrow> (if r = RFail E_OK then RFull else r, w\<lparr>resp := rs\<rparr>))"

definition benign :: "world \<Rightarrow> bool" where
  "benign w \<longleftrightarrow> (\<forall>r \<in> set (resp w). \<forall>e. r \<noteq> RFail e)"

section \<open>System calls\<close>

text \<open>A descriptor is the name of the open file, \<^const>\<open>None\<close> is -1.\<close>

type_synonym fd = "string option"

definition sys_open :: "string \<Rightarrow> bool \<Rightarrow> world \<Rightarrow> fd \<times> world" where
  "sys_open n creat w =
     (let (r, w1) = next_resp w in
      case r of RFail e \<Rightarrow> (None, w1)
      | _ \<Rightarrow>
        if exists_file w1 n then (Some n, w1)
        else if creat then (Some n, set_file n [] w1)
        else (None, w1))"

fun transfer :: "sysresp \<Rightarrow> nat \<Rightarrow> nat" where
  "transfer (RShort k) n = min (Suc k) n"
| "transfer _ n = n"

definition sys_pread :: "fd \<Rightarrow> nat \<Rightarrow> nat \<Rightarrow> world \<Rightarrow> (err + bytes) \<times> world" where
  "sys_pread fd n off w =
     (case fd of None \<Rightarrow> (Inl EBADF, w)
      | Some name \<Rightarrow>
        (let (r, w1) = next_resp w in
         case r of RFail e \<Rightarrow> (Inl e, w1)
         | _ \<Rightarrow> (Inr (take (transfer r n) (drop off (file_of w1 name))), w1)))"

text \<open>Writing past the end fills the gap with zeros.\<close>

definition write_at :: "bytes \<Rightarrow> nat \<Rightarrow> bytes \<Rightarrow> bytes" where
  "write_at c off d =
     take off c @ replicate (off - length c) 0 @ d @ drop (off + length d) c"

definition sys_pwrite :: "fd \<Rightarrow> bytes \<Rightarrow> nat \<Rightarrow> world \<Rightarrow> (err + nat) \<times> world" where
  "sys_pwrite fd d off w =
     (case fd of None \<Rightarrow> (Inl EBADF, w)
      | Some name \<Rightarrow>
        (let (r, w1) = next_resp w in
         case r of RFail e \<Rightarrow> (Inl e, w1)
         | _ \<Rightarrow>
           (let k = transfer r (length d);
                c = file_of w1 name
            in (Inr k, set_file name (write_at c (if appending w1 then length c else off) (take k d)) w1))))"

definition sys_fsync :: "fd \<Rightarrow> world \<Rightarrow> err \<times> world" where
  "sys_fsync fd w =
     (case fd of None \<Rightarrow> (EBADF, w)
      | Some name \<Rightarrow>
        (let (r, w1) = next_resp w in
         case r of RFail e \<Rightarrow> (e, w1)
         | _ \<Rightarrow> (E_OK, w1\<lparr>durable := AList.update name (file_of w1 name) (durable w1)\<rparr>)))"

definition sys_ftruncate :: "fd \<Rightarrow> nat \<Rightarrow> world \<Rightarrow> err \<times> world" where
  "sys_ftruncate fd len w =
     (case fd of None \<Rightarrow> (EBADF, w)
      | Some name \<Rightarrow>
        (let (r, w1) = next_resp w in
         case r of RFail e \<Rightarrow> (e, w1)
         | _ \<Rightarrow>
           (let c = file_of w1 name in
            (E_OK, set_file name (take len c @ replicate (len - length c) 0) w1))))"

section \<open>Facts about the file system\<close>

lemma file_of_set_file [simp]:
  "file_of (set_file n c w) m = (if m = n then c else file_of w m)"
  by (simp add: file_of_def set_file_def update_conv')

lemma exists_set_file [simp]: "exists_file (set_file n c w) m \<longleftrightarrow> m = n \<or> exists_file w m"
proof -
  have "dom (map_of (AList.update n c (files w))) = insert n (dom (map_of (files w)))"
    by (simp add: update_conv')
  then show ?thesis by (simp add: exists_file_def set_file_def dom_map_of_conv_image_fst)
qed

lemma durable_set_file [simp]:
  "durable_of (set_file n c w) m = durable_of w m" "resp (set_file n c w) = resp w"
  "durable (set_file n c w) = durable w"
  by (simp_all add: durable_of_def set_file_def)

lemma benign_set_file [simp]: "benign (set_file n c w) = benign w"
  by (simp add: benign_def)

lemma next_resp_world:
  assumes "next_resp w = (r, w1)"
  shows "files w1 = files w" "durable w1 = durable w" "file_of w1 n = file_of w n"
    "exists_file w1 n = exists_file w n" "durable_of w1 n = durable_of w n"
    "benign w \<Longrightarrow> benign w1" "benign w \<Longrightarrow> r \<noteq> RFail e" "r \<noteq> RFail E_OK"
  using assms
  by (auto simp: next_resp_def benign_def file_of_def exists_file_def durable_of_def
      split: list.splits if_splits)

lemma next_resp_RFail_shorter: "next_resp w = (RFail e, w1) \<Longrightarrow> length (resp w1) < length (resp w)"
  by (auto simp: next_resp_def split: list.splits if_splits)

lemma transfer_le: "transfer r n \<le> n"
  by (cases r) auto

lemma transfer_pos: "0 < n \<Longrightarrow> 0 < transfer r n"
  by (cases r) auto

lemma write_at_end [simp]: "off = length c \<Longrightarrow> write_at c off d = c @ d"
  by (simp add: write_at_def)

lemma write_at_Nil: "off \<le> length c \<Longrightarrow> write_at c off [] = c"
  by (simp add: write_at_def)

lemma write_at_write_at:
  "write_at (write_at c off d) (off + length d) e = write_at c off (d @ e)"
  by (cases "off \<le> length c") (auto simp: write_at_def min_def add.commute add.left_commute)

lemma length_write_at: "length (write_at c off d) = max (length c) (off + length d)"
  by (auto simp: write_at_def)

lemma set_file_twice [simp]: "set_file n c (set_file n d w) = set_file n c w"
proof -
  have "AList.update n c (AList.update n d xs) = AList.update n c xs" for xs
    by (induction xs) auto
  then show ?thesis by (simp add: set_file_def)
qed

text \<open>Two worlds that agree on everything but one file.\<close>

definition same_but :: "string \<Rightarrow> world \<Rightarrow> world \<Rightarrow> bool" where
  "same_but n w w' \<longleftrightarrow>
     (\<forall>m. m \<noteq> n \<longrightarrow> map_of (files w') m = map_of (files w) m \<and>
        map_of (durable w') m = map_of (durable w) m)"

lemma same_but_refl [simp]: "same_but n w w"
  by (simp add: same_but_def)

lemma same_but_trans: "same_but n u v \<Longrightarrow> same_but n v w \<Longrightarrow> same_but n u w"
  by (simp add: same_but_def)

lemma same_but_set_file [simp]: "same_but n w (set_file n c w')  \<longleftrightarrow> same_but n w w'"
  by (simp add: same_but_def set_file_def update_conv')

lemma same_but_next_resp: "next_resp w = (r, w1) \<Longrightarrow> same_but n w w1"
  by (simp add: same_but_def next_resp_world)

lemma same_but_file_of: "same_but n w w' \<Longrightarrow> m \<noteq> n \<Longrightarrow> file_of w' m = file_of w m"
  by (simp add: same_but_def file_of_def)

lemma same_but_durable_of: "same_but n w w' \<Longrightarrow> m \<noteq> n \<Longrightarrow> durable_of w' m = durable_of w m"
  by (simp add: same_but_def durable_of_def)

lemma same_but_exists: "same_but n w w' \<Longrightarrow> m \<noteq> n \<Longrightarrow> exists_file w' m = exists_file w m"
  by (metis same_but_def exists_file_def map_of_eq_None_iff)

end
