(* ===== verification/ByteBuffer.thy ===== *)
theory ByteBuffer
  imports SyncPrelude
begin

text \<open>
  Raw byte access: integers in memory on the little-endian hosts the build targets, the
  byte-order functions, and the readers and writers of \<^verbatim>\<open>src/Common/src/Util.cpp\<close>. A
  \<^verbatim>\<open>char *\<close> into a buffer is the buffer with an offset; every access is checked and an
  access outside the buffer is the fault \<^const>\<open>Out_of_bounds\<close>.
\<close>

section \<open>Integers in memory\<close>

fun le_word :: "bytes \<Rightarrow> 'a::len word" where
  "le_word [] = 0"
| "le_word (b # bs) = ucast b OR push_bit 8 (le_word bs)"

definition le_bytes :: "nat \<Rightarrow> 'a::len word \<Rightarrow> bytes" where
  "le_bytes n w = map (\<lambda>i. ucast (drop_bit (8 * i) w)) [0..<n]"

lemma length_le_bytes [simp]: "length (le_bytes n w) = n"
  by (simp add: le_bytes_def)

lemma nth_le_bytes [simp]: "i < n \<Longrightarrow> le_bytes n w ! i = ucast (drop_bit (8 * i) w)"
  by (simp add: le_bytes_def)

lemma bit_le_word:
  "bit (le_word bs :: 'a::len word) i \<longleftrightarrow>
     i < LENGTH('a) \<and> i div 8 < length bs \<and> bit (bs ! (i div 8)) (i mod 8)"
proof (induction bs arbitrary: i)
  case (Cons b bs)
  show ?case
  proof (cases "i < 8")
    case True
    then show ?thesis by (auto simp: bit_simps)
  next
    case False
    then have "i div 8 = Suc ((i - 8) div 8)" and "i mod 8 = (i - 8) mod 8"
      by (simp_all add: le_div_geq le_mod_geq)
    moreover have "\<not> bit b i"
      using False bit_imp_le_length [of b i] by auto
    ultimately show ?thesis
      using False Cons.IH [of "i - 8"] by (auto simp: bit_simps)
  qed
qed simp

lemma le_word_le_bytes:
  fixes w :: "'a::len word"
  assumes "LENGTH('a) = 8 * n"
  shows "le_word (le_bytes n w) = w"
proof (rule bit_word_eqI)
  fix i assume i: "i < LENGTH('a)"
  with assms have "i div 8 < n" by auto
  with i show "bit (le_word (le_bytes n w) :: 'a word) i = bit w i"
    by (simp add: bit_le_word bit_simps)
qed

lemma le_bytes_le_word:
  assumes "LENGTH('a) = 8 * length bs"
  shows "le_bytes (length bs) (le_word bs :: 'a::len word) = bs"
proof (rule nth_equalityI)
  fix i assume "i < length (le_bytes (length bs) (le_word bs :: 'a word))"
  then have i: "i < length bs" by simp
  show "le_bytes (length bs) (le_word bs :: 'a word) ! i = bs ! i"
  proof (rule bit_word_eqI)
    fix j assume j: "j < LENGTH(8)"
    then have "8 * i + j < LENGTH('a)" and "(8 * i + j) div 8 = i" and "(8 * i + j) mod 8 = j"
      using assms i by auto
    with i j show "bit (le_bytes (length bs) (le_word bs :: 'a word) ! i) j = bit (bs ! i) j"
      by (simp add: bit_simps bit_le_word)
  qed
qed simp

section \<open>Byte order\<close>

text \<open>\<^verbatim>\<open>htonl\<close>, \<^verbatim>\<open>ntohl\<close>, \<^verbatim>\<open>htons\<close> and \<^verbatim>\<open>ntohs\<close> reverse the bytes on a little-endian host.\<close>

definition htonl :: "u32 \<Rightarrow> u32" where
  "htonl w = le_word (rev (le_bytes 4 w))"

definition ntohl :: "u32 \<Rightarrow> u32" where
  "ntohl w = htonl w"

definition htons :: "u16 \<Rightarrow> u16" where
  "htons w = le_word (rev (le_bytes 2 w))"

definition ntohs :: "u16 \<Rightarrow> u16" where
  "ntohs w = htons w"

definition ntohll :: "u64 \<Rightarrow> u64" where
  "ntohll input = le_word
     [ucast (drop_bit 56 input), ucast (drop_bit 48 input), ucast (drop_bit 40 input),
      ucast (drop_bit 32 input), ucast (drop_bit 24 input), ucast (drop_bit 16 input),
      ucast (drop_bit 8 input), ucast (drop_bit 0 input)]"

definition htonll :: "u64 \<Rightarrow> u64" where
  "htonll input = ntohll input"

lemma le_bytes_htonl: "le_bytes 4 (htonl w) = rev (le_bytes 4 w)"
  using le_bytes_le_word [where 'a = 32, of "rev (le_bytes 4 w)"] by (simp add: htonl_def)

lemma le_bytes_htons: "le_bytes 2 (htons w) = rev (le_bytes 2 w)"
  using le_bytes_le_word [where 'a = 16, of "rev (le_bytes 2 w)"] by (simp add: htons_def)

lemma ntohl_htonl [simp]: "ntohl (htonl w) = w"
proof -
  have "htonl (htonl w) = le_word (rev (le_bytes 4 (htonl w)))"
    by (simp add: htonl_def [of "htonl w"])
  then show ?thesis
    by (simp add: ntohl_def le_bytes_htonl le_word_le_bytes)
qed

lemma ntohs_htons [simp]: "ntohs (htons w) = w"
proof -
  have "htons (htons w) = le_word (rev (le_bytes 2 (htons w)))"
    by (simp add: htons_def [of "htons w"])
  then show ?thesis
    by (simp add: ntohs_def le_bytes_htons le_word_le_bytes)
qed

lemma ntohll_rev: "ntohll w = le_word (rev (le_bytes 8 w))"
  by (simp add: ntohll_def le_bytes_def upt_rec)

lemma ntohll_htonll [simp]: "ntohll (htonll w) = w"
proof -
  have "le_bytes 8 (ntohll w) = rev (le_bytes 8 w)"
    using le_bytes_le_word [where 'a = 64, of "rev (le_bytes 8 w)"] by (simp add: ntohll_rev)
  then show ?thesis
    by (simp add: htonll_def ntohll_rev [of "ntohll w"] le_word_le_bytes)
qed

section \<open>Checked memory access\<close>

definition peek :: "bytes \<Rightarrow> nat \<Rightarrow> nat \<Rightarrow> bytes outcome" where
  "peek buf p n = (if p + n \<le> length buf then Done (take n (drop p buf)) else Abort Out_of_bounds)"

definition poke :: "bytes \<Rightarrow> nat \<Rightarrow> bytes \<Rightarrow> bytes outcome" where
  "poke buf p d =
     (if p + length d \<le> length buf
      then Done (take p buf @ d @ drop (p + length d) buf) else Abort Out_of_bounds)"

lemma peek_Done_iff:
  "peek buf p n = Done bs \<longleftrightarrow> p + n \<le> length buf \<and> bs = take n (drop p buf)"
  by (auto simp: peek_def)

lemma peek_append: "peek (xs @ d @ ys) (length xs) (length d) = Done d"
  by (simp add: peek_def)

lemma poke_append: "length d = length e \<Longrightarrow> poke (xs @ e @ ys) (length xs) d = Done (xs @ d @ ys)"
  by (simp add: poke_def)

section \<open>Readers and writers of Util.cpp\<close>

definition readInt :: "bytes \<Rightarrow> nat \<Rightarrow> (u32 \<times> nat) outcome" where
  "readInt buf p = obind (peek buf p 4) (\<lambda>bs. Done (ntohl (le_word bs), p + 4))"

definition read64Int :: "bytes \<Rightarrow> nat \<Rightarrow> (u64 \<times> nat) outcome" where
  "read64Int buf p = obind (peek buf p 8) (\<lambda>bs. Done (ntohll (le_word bs), p + 8))"

definition readBytes :: "bytes \<Rightarrow> nat \<Rightarrow> u32 \<Rightarrow> (bytes \<times> nat) outcome" where
  "readBytes buf p len = obind (peek buf p (unat len)) (\<lambda>bs. Done (bs, p + unat len))"

text \<open>
  \<^verbatim>\<open>readCString\<close> allocates \<^verbatim>\<open>len + 1\<close> bytes in 32-bit arithmetic, zeroes them and copies
  \<^verbatim>\<open>len\<close> bytes in; the result is the whole allocated block.
\<close>

definition readCString :: "bytes \<Rightarrow> nat \<Rightarrow> (bytes \<times> nat) outcome" where
  "readCString buf p =
     obind (readInt buf p) (\<lambda>(len, p1).
     let temp = replicate (unat (len + 1)) 0 in
     obind (readBytes buf p1 len) (\<lambda>(bs, p2).
     obind (poke temp 0 bs) (\<lambda>out. Done (out, p2))))"

definition readString :: "bytes \<Rightarrow> nat \<Rightarrow> (bytes \<times> nat) outcome" where
  "readString buf p =
     obind (readInt buf p) (\<lambda>(len, p1).
     obind (peek buf p1 (unat len)) (\<lambda>data. Done (data, p1 + unat len)))"

definition writeInt :: "bytes \<Rightarrow> nat \<Rightarrow> u32 \<Rightarrow> (bytes \<times> nat) outcome" where
  "writeInt buf p value =
     obind (poke buf p (le_bytes 4 (htonl value))) (\<lambda>buf'. Done (buf', p + 4))"

definition write64Int :: "bytes \<Rightarrow> nat \<Rightarrow> u64 \<Rightarrow> (bytes \<times> nat) outcome" where
  "write64Int buf p value =
     obind (poke buf p (le_bytes 8 (htonll value))) (\<lambda>buf'. Done (buf', p + 8))"

definition writeBytes :: "bytes \<Rightarrow> nat \<Rightarrow> bytes \<Rightarrow> (bytes \<times> nat) outcome" where
  "writeBytes buf p inp = obind (poke buf p inp) (\<lambda>buf'. Done (buf', p + length inp))"

definition writeCString :: "bytes \<Rightarrow> nat \<Rightarrow> bytes \<Rightarrow> (bytes \<times> nat) outcome" where
  "writeCString buf p inp =
     obind (writeInt buf p (of_nat (length inp))) (\<lambda>(buf1, p1). writeBytes buf1 p1 inp)"

definition writeString :: "bytes \<Rightarrow> nat \<Rightarrow> bytes \<Rightarrow> (bytes \<times> nat) outcome" where
  "writeString buf p data =
     obind (writeInt buf p (of_nat (length data))) (\<lambda>(buf1, p1). writeBytes buf1 p1 data)"

section \<open>Round trips\<close>

text \<open>The bytes of a string on the wire: big-endian length, then the data.\<close>

definition be32 :: "u32 \<Rightarrow> bytes" where
  "be32 w = le_bytes 4 (htonl w)"

definition str_bytes :: "bytes \<Rightarrow> bytes" where
  "str_bytes s = be32 (of_nat (length s)) @ s"

lemma length_be32 [simp]: "length (be32 w) = 4"
  by (simp add: be32_def)

lemma length_str_bytes [simp]: "length (str_bytes s) = 4 + length s"
  by (simp add: str_bytes_def)

lemma ntohl_be32 [simp]: "ntohl (le_word (be32 w)) = w"
  by (simp add: be32_def le_word_le_bytes)

lemma le_word_be32: "le_word (be32 w) = htonl w"
  by (simp add: be32_def le_word_le_bytes)

lemma be32_inj [simp]: "be32 v = be32 w \<longleftrightarrow> v = w"
  using ntohl_be32 by metis

lemma readInt_be32: "p = length xs \<Longrightarrow> readInt (xs @ be32 v @ ys) p = Done (v, p + 4)"
  using peek_append [of xs "be32 v" ys] by (simp add: readInt_def)

lemma readString_str_bytes:
  assumes "length s < 2 ^ 32" and "p = length xs"
  shows "readString (xs @ str_bytes s @ ys) p = Done (s, p + 4 + length s)"
proof -
  have n: "unat (of_nat (length s) :: u32) = length s"
    using assms(1) by (simp add: unat_of_nat)
  have "peek ((xs @ be32 (of_nat (length s))) @ s @ ys)
      (length (xs @ be32 (of_nat (length s)))) (length s) = Done s"
    by (rule peek_append)
  then show ?thesis
    using assms(2) readInt_be32 [of p xs "of_nat (length s)" "s @ ys"]
    by (simp add: readString_def str_bytes_def n)
qed

lemma poke_Done_iff:
  "poke buf p d = Done b \<longleftrightarrow>
     p + length d \<le> length buf \<and> b = take p buf @ d @ drop (p + length d) buf"
  by (auto simp: poke_def)

lemma split_buffer:
  assumes "p + n + m \<le> length (buf :: bytes)"
  shows "\<exists>xs e f ys. buf = xs @ e @ f @ ys \<and> length xs = p \<and> length e = n \<and> length f = m"
proof (intro exI conjI)
  have "take m (drop (p + n) buf) @ drop (p + n + m) buf = drop (p + n) buf"
    using append_take_drop_id [of m "drop (p + n) buf"] by (simp add: add.commute)
  moreover have "take n (drop p buf) @ drop (p + n) buf = drop p buf"
    using append_take_drop_id [of n "drop p buf"] by (simp add: add.commute)
  ultimately show "buf = take p buf @ take n (drop p buf) @ take m (drop (p + n) buf) @ drop (p + n + m) buf"
    by simp
qed (use assms in auto)

lemma writeString_str_bytes:
  assumes "length s < 2 ^ 32" and "length xs = p" and "length e = 4 + length s"
  shows "writeString (xs @ e @ ys) p s = Done (xs @ str_bytes s @ ys, p + 4 + length s)"
proof -
  have e: "e = take 4 e @ drop 4 e" by simp
  have 1: "poke (xs @ take 4 e @ (drop 4 e @ ys)) (length xs) (be32 (of_nat (length s))) =
      Done (xs @ be32 (of_nat (length s)) @ (drop 4 e @ ys))"
    by (rule poke_append) (use assms(3) in simp)
  have 2: "poke ((xs @ be32 (of_nat (length s))) @ drop 4 e @ ys)
      (length (xs @ be32 (of_nat (length s)))) s =
      Done ((xs @ be32 (of_nat (length s))) @ s @ ys)"
    by (rule poke_append) (use assms(3) in simp)
  show ?thesis
    using 1 2 assms(2)
    by (subst e) (simp add: writeString_def writeInt_def writeBytes_def be32_def str_bytes_def
        del: append_take_drop_id)
qed

text \<open>The string codec of Util.cpp round-trips: whatever the buffer holds, writing a string
  of less than 4 GiB at an offset where it fits and reading at that offset gives the string
  back, both calls advance the pointer by the same amount, and the rest of the buffer keeps
  its bytes.\<close>

lemma readString_writeString:
  assumes "length s < 2 ^ 32" and "p + 4 + length s \<le> length buf"
  shows "\<exists>buf' q. writeString buf p s = Done (buf', q) \<and> readString buf' p = Done (s, q) \<and>
    take p buf' = take p buf \<and> drop q buf' = drop q buf \<and> length buf' = length buf"
proof -
  from assms(2) obtain xs e f ys where b: "buf = xs @ (e @ f) @ ys"
    and l: "length xs = p" "length e = 4" "length f = length s"
    using split_buffer [of p 4 "length s" buf] by auto
  have "length (e @ f) = 4 + length s" using l by simp
  from writeString_str_bytes [OF assms(1) l(1) this, of ys]
    readString_str_bytes [OF assms(1) l(1) [symmetric], of ys] l
  show ?thesis by (intro exI [of _ "xs @ str_bytes s @ ys"] exI [of _ "p + 4 + length s"])
      (simp add: b)
qed

theorem readString_writeString_witness:
  "\<exists>buf' q. writeString (replicate 9 7) 2 [1, 2, 3] = Done (buf', q) \<and>
     readString buf' 2 = Done ([1, 2, 3], q)"
proof -
  have "length [1 :: u8, 2, 3] < 2 ^ 32" and "2 + 4 + length [1 :: u8, 2, 3] \<le> length (replicate 9 (7 :: u8))"
    by simp_all
  from readString_writeString [OF this] show ?thesis by blast
qed

text \<open>The 64-bit integer codec of Util.cpp round-trips at every offset of every buffer
  with room for it, and \<^verbatim>\<open>ntohll\<close> undoes \<^verbatim>\<open>htonll\<close>.\<close>

lemma read64Int_write64Int:
  assumes "p + 8 \<le> length buf"
  shows "obind (write64Int buf p v) (\<lambda>(buf', q). read64Int buf' p) = Done (v, p + 8)"
proof -
  from assms obtain xs e ys where b: "buf = xs @ e @ ys" and l: "length xs = p" "length e = 8"
    using split_buffer [of p 8 0 buf] by auto
  then have "poke buf p (le_bytes 8 (htonll v)) = Done (xs @ le_bytes 8 (htonll v) @ ys)"
    using poke_append [of "le_bytes 8 (htonll v)" e xs ys] by simp
  moreover have "peek (xs @ le_bytes 8 (htonll v) @ ys) p 8 = Done (le_bytes 8 (htonll v))"
    using peek_append [of xs "le_bytes 8 (htonll v)" ys] l by simp
  ultimately show ?thesis
    by (simp add: write64Int_def read64Int_def le_word_le_bytes)
qed

theorem read64Int_write64Int_witness:
  "obind (write64Int (replicate 10 0) 1 77) (\<lambda>(buf', q). read64Int buf' 1) = Done (77, 9)"
  using read64Int_write64Int [of 1 "replicate 10 0" 77] by simp

end
