(* ===== verification/AppendLog.thy ===== *)
theory AppendLog
  imports SyncPrelude "HOL-Library.Sublist"
begin

text \<open>
  The contract between the layers of the log: a buffered file, a log file of records and the
  rotating log are all written by appending and made durable by flushing. \<open>content\<close> is
  everything appended so far, \<open>stable\<close> what survives a crash. \<open>append_all\<close> is a client:
  appends in a row, up to the first error.
\<close>

primrec append_all :: "('a \<Rightarrow> 's \<Rightarrow> (err \<times> 's) outcome) \<Rightarrow> 'a list \<Rightarrow> 's \<Rightarrow> (err \<times> 's) outcome" where
  "append_all emit [] s = Done (E_OK, s)"
| "append_all emit (x # xs) s =
     obind (emit x s) (\<lambda>(e, s1). if e \<noteq> E_OK then Done (e, s1) else append_all emit xs s1)"

lemma append_all_single: "append_all f [x] s = f x s"
  by (cases "f x s") auto

locale append_log =
  fixes emit :: "'a \<Rightarrow> 's \<Rightarrow> (err \<times> 's) outcome"
    and commit :: "'s \<Rightarrow> (err \<times> 's) outcome"
    and ok :: "'s \<Rightarrow> bool"
    and fits :: "'a \<Rightarrow> bool"
    and calm :: "'s \<Rightarrow> bool"
    and content :: "'s \<Rightarrow> 'b list"
    and stable :: "'s \<Rightarrow> 'b list"
    and enc :: "'a \<Rightarrow> 'b list"
  assumes emit_law: "ok s \<Longrightarrow> fits x \<Longrightarrow> emit x s = Done (e, s') \<Longrightarrow>
      e = E_OK \<and> ok s' \<and> content s' = content s @ enc x \<and> prefix (stable s) (stable s')"
    and commit_law: "ok s \<Longrightarrow> commit s = Done (e, s') \<Longrightarrow>
      e = E_OK \<and> ok s' \<and> content s' = content s \<and> stable s' = content s"
    and stable_law: "ok s \<Longrightarrow> prefix (stable s) (content s)"
    and emit_runs: "ok s \<Longrightarrow> fits x \<Longrightarrow> calm s \<Longrightarrow>
      \<exists>s'. emit x s = Done (E_OK, s') \<and> calm s'"
    and commit_runs: "ok s \<Longrightarrow> calm s \<Longrightarrow> \<exists>s'. commit s = Done (E_OK, s') \<and> calm s'"
begin

lemma append_all_law:
  "ok s \<Longrightarrow> \<forall>x \<in> set xs. fits x \<Longrightarrow> append_all emit xs s = Done (e, s') \<Longrightarrow>
    e = E_OK \<and> ok s' \<and> content s' = content s @ concat (map enc xs) \<and> prefix (stable s) (stable s')"
proof (induction xs arbitrary: s)
  case (Cons x xs)
  then obtain e1 s1 where w: "emit x s = Done (e1, s1)"
    by (cases "emit x s") auto
  from emit_law [OF Cons.prems(1) _ w] Cons.prems
  have "e1 = E_OK" "ok s1" "content s1 = content s @ enc x" "prefix (stable s) (stable s1)" by auto
  with Cons.IH [of s1] Cons.prems w show ?case
    by (auto intro: prefix_order.trans)
qed simp

lemma append_all_runs:
  "ok s \<Longrightarrow> calm s \<Longrightarrow> \<forall>x \<in> set xs. fits x \<Longrightarrow>
    \<exists>s'. append_all emit xs s = Done (E_OK, s') \<and> calm s'"
proof (induction xs arbitrary: s)
  case (Cons x xs)
  then obtain s1 where w: "emit x s = Done (E_OK, s1)" "calm s1"
    using emit_runs [of s x] by auto
  with Cons.IH [of s1] Cons.prems emit_law [of s x E_OK s1] show ?case by auto
qed simp

lemma append_commit:
  assumes "ok s" "\<forall>x \<in> set xs. fits x" "append_all emit xs s = Done (e1, s1)"
    and "commit s1 = Done (e2, s2)"
  shows "e1 = E_OK \<and> e2 = E_OK \<and> ok s2 \<and> stable s2 = content s @ concat (map enc xs) \<and>
    content s2 = stable s2"
  using append_all_law [OF assms(1-3)] commit_law [of s1 e2 s2] assms(4) by auto

lemma append_commit_runs:
  assumes "ok s" "calm s" "\<forall>x \<in> set xs. fits x"
  shows "\<exists>s1 s2. append_all emit xs s = Done (E_OK, s1) \<and> commit s1 = Done (E_OK, s2) \<and> ok s2 \<and>
    calm s2 \<and> stable s2 = content s @ concat (map enc xs) \<and> content s2 = stable s2"
proof -
  obtain s1 where s1: "append_all emit xs s = Done (E_OK, s1)" "calm s1"
    using append_all_runs [OF assms] by blast
  note law = append_all_law [OF assms(1,3) s1(1)]
  then obtain s2 where s2: "commit s1 = Done (E_OK, s2)" "calm s2"
    using commit_runs s1(2) by blast
  from append_commit [OF assms(1,3) s1(1) s2(1)] s1 s2 show ?thesis by blast
qed

end

end
