(* ===== verification/FileHandler.thy ===== *)
theory FileHandler
  imports FileSys ByteBuffer AppendLog
begin

text \<open>
  \<^verbatim>\<open>src/SyncLog/FileHandler.hpp\<close> and \<^verbatim>\<open>FileHandler.cpp\<close>: positioned reads, and writes
  through a 256 KiB buffer that only reach the file when the buffer runs over, on
  \<^verbatim>\<open>Flush\<close> or on \<^verbatim>\<open>Close\<close>. A handler with one writer
  keeps the contract \<open>append_log\<close>, which is what the log code relies on.
\<close>

section \<open>State\<close>

text \<open>\<^verbatim>\<open>256 << 10\<close>\<close>

definition LOG_FILE_BUFFER_SIZE :: nat where
  "LOG_FILE_BUFFER_SIZE = 256 * 2 ^ 10"

text \<open>
  \<open>mBuffer\<close> holds the first \<^verbatim>\<open>mWriteOffset\<close> bytes of the C buffer, so \<^verbatim>\<open>mWriteOffset\<close> is
  its length.
\<close>

record fhandler =
  mFD :: fd
  mFileName :: string
  mOffset :: nat
  mBuffer :: bytes

definition new_fhandler :: "string \<Rightarrow> fhandler" where
  "new_fhandler name = \<lparr>mFD = None, mFileName = name, mOffset = 0, mBuffer = []\<rparr>"

type_synonym io = "fhandler \<times> world"

section \<open>Opening\<close>

text \<open>
  A failed \<^verbatim>\<open>open\<close> returns -1, which the test \<^verbatim>\<open>mFD < -1\<close> never sees: the descriptor
  stays -1 and the call reports success.
\<close>

definition OpenFile_fh :: "bool \<Rightarrow> io \<Rightarrow> (err \<times> io) outcome" where
  "OpenFile_fh creat s =
     (let (fh, w) = s in
      obind (assert_that (mFD fh = None)) (\<lambda>_.
      if creat \<and> exists_file w (mFileName fh) then Done (EEXIST, s)
      else let (f, w1) = sys_open (mFileName fh) creat w in Done (E_OK, (fh\<lparr>mFD := f\<rparr>, w1))))"

section \<open>Reading\<close>

text \<open>\<^verbatim>\<open>pread\<close> until \<open>toRead\<close> bytes have come; \<open>acc\<close> is what \<open>buf\<close> holds so far.\<close>

function ReadNBytes_loop :: "nat \<Rightarrow> bytes \<Rightarrow> io \<Rightarrow> err \<times> bytes \<times> io" where
  "ReadNBytes_loop toRead acc s =
     (if toRead = 0 then (E_OK, acc, s)
      else let (fh, w) = s in
        case sys_pread (mFD fh) toRead (mOffset fh) w of
          (Inl e, w1) \<Rightarrow> (e, acc, (fh, w1))
        | (Inr bs, w1) \<Rightarrow>
            if bs = [] then (EIO, acc, (fh, w1))
            else ReadNBytes_loop (toRead - length bs) (acc @ bs)
              (fh\<lparr>mOffset := mOffset fh + length bs\<rparr>, w1))"
  by pat_completeness auto
termination
  by (relation "measure (\<lambda>(n, acc, s). n)") auto

declare ReadNBytes_loop.simps [simp del]

definition ReadNBytes :: "nat \<Rightarrow> io \<Rightarrow> err \<times> bytes \<times> io" where
  "ReadNBytes count s = ReadNBytes_loop count [] s"

section \<open>Writing\<close>

text \<open>\<^verbatim>\<open>pwrite\<close> until all of \<open>buf\<close> is written; \<^verbatim>\<open>EINTR\<close> is retried.\<close>

lemma sys_pwrite_shorter:
  "sys_pwrite f d off w = (Inl EINTR, w1) \<Longrightarrow> length (resp w1) < length (resp w)"
  by (auto simp: sys_pwrite_def Let_def split: option.splits prod.splits sysresp.splits
      intro: next_resp_RFail_shorter)

lemma sys_pwrite_progress:
  "sys_pwrite f d off w = (Inr k, w1) \<Longrightarrow> d \<noteq> [] \<Longrightarrow> 0 < k"
  by (auto simp: sys_pwrite_def Let_def split: option.splits prod.splits sysresp.splits)

function WriteToFile_fh :: "bytes \<Rightarrow> io \<Rightarrow> err \<times> io" where
  "WriteToFile_fh buf s =
     (if buf = [] then (E_OK, s)
      else let (fh, w) = s in
        case sys_pwrite (mFD fh) buf (mOffset fh) w of
          (Inl e, w1) \<Rightarrow> if e = EINTR then WriteToFile_fh buf (fh, w1) else (e, (fh, w1))
        | (Inr k, w1) \<Rightarrow> WriteToFile_fh (drop k buf) (fh\<lparr>mOffset := mOffset fh + k\<rparr>, w1))"
  by pat_completeness auto
termination
  by (relation "measures [\<lambda>(buf, s). length buf, \<lambda>(buf, s). length (resp (snd s))]")
    (auto dest!: sym [of _ "sys_pwrite _ _ _ _"] dest: sys_pwrite_shorter sys_pwrite_progress)

declare WriteToFile_fh.simps [simp del]

definition WriteAllBufferToFile :: "io \<Rightarrow> (err \<times> io) outcome" where
  "WriteAllBufferToFile s =
     (let (err, (fh, w)) = WriteToFile_fh (mBuffer (fst s)) s in
      obind (assert_that (err = E_OK)) (\<lambda>_. Done (err, (fh\<lparr>mBuffer := []\<rparr>, w))))"

definition WriteNBytes :: "bytes \<Rightarrow> io \<Rightarrow> (err \<times> io) outcome" where
  "WriteNBytes buf s =
     (if length buf > LOG_FILE_BUFFER_SIZE then
        obind (WriteAllBufferToFile s) (\<lambda>(e1, s1).
        obind (assert_that (e1 = E_OK)) (\<lambda>_.
        let (e2, s2) = WriteToFile_fh buf s1 in
        obind (assert_that (e2 = E_OK)) (\<lambda>_. Done (E_OK, s2))))
      else
        obind (if LOG_FILE_BUFFER_SIZE < length (mBuffer (fst s)) + length buf
               then obind (WriteAllBufferToFile s) (\<lambda>(e, s1).
                 obind (assert_that (e = E_OK)) (\<lambda>_. Done s1))
               else Done s) (\<lambda>(fh, w).
        Done (E_OK, (fh\<lparr>mBuffer := mBuffer fh @ buf\<rparr>, w))))"

definition Sync :: "io \<Rightarrow> err \<times> io" where
  "Sync s = (let (e, w1) = sys_fsync (mFD (fst s)) (snd s) in (e, (fst s, w1)))"

definition Flush :: "io \<Rightarrow> (err \<times> io) outcome" where
  "Flush s =
     obind (WriteAllBufferToFile s) (\<lambda>(e1, s1).
     obind (assert_that (e1 = E_OK)) (\<lambda>_.
     let (e2, s2) = Sync s1 in
     obind (assert_that (e2 = E_OK)) (\<lambda>_. Done (e2, s2))))"

definition Close_fh :: "io \<Rightarrow> (err \<times> io) outcome" where
  "Close_fh s =
     (if mFD (fst s) = None then Done (E_OK, s)
      else obind (Flush s) (\<lambda>(e, (fh, w)).
        obind (assert_that (e = E_OK)) (\<lambda>_. Done (e, (fh\<lparr>mFD := None\<rparr>, w)))))"

text \<open>The destructor closes an open file.\<close>

definition destroy_fh :: "io \<Rightarrow> io outcome" where
  "destroy_fh s =
     (if mFD (fst s) \<noteq> None then obind (Close_fh s) (\<lambda>(e, s1). Done s1) else Done s)"

definition GetOffset :: "io \<Rightarrow> nat" where
  "GetOffset s = mOffset (fst s)"

definition SetOffset :: "nat \<Rightarrow> io \<Rightarrow> io" where
  "SetOffset off s = ((fst s)\<lparr>mOffset := off\<rparr>, snd s)"

definition Truncate :: "nat \<Rightarrow> io \<Rightarrow> err \<times> io" where
  "Truncate off s = (let (e, w1) = sys_ftruncate (mFD (fst s)) off (snd s) in (e, (fst s, w1)))"

text \<open>
  A 32-bit length in network order, then that many bytes; on an error \<open>buf\<close> and \<open>size\<close> are
  left alone.
\<close>

definition ReadCString :: "io \<Rightarrow> err \<times> (bytes \<times> u32) option \<times> io" where
  "ReadCString s =
     (let (e1, lenbuf, s1) = ReadNBytes 4 s in
      if e1 \<noteq> E_OK then (e1, None, s1)
      else
        let tempSize = ntohl (le_word lenbuf :: u32);
            (e2, tempBuf, s2) = ReadNBytes (unat tempSize) s1
        in if e2 \<noteq> E_OK then (e2, None, s2) else (E_OK, Some (tempBuf, tempSize), s2))"

section \<open>Reading is exact\<close>

definition same_files :: "world \<Rightarrow> world \<Rightarrow> bool" where
  "same_files w w' \<longleftrightarrow> files w' = files w \<and> durable w' = durable w \<and> (benign w \<longrightarrow> benign w')"

lemma same_files_refl [simp]: "same_files w w"
  by (simp add: same_files_def)

lemma same_files_trans: "same_files u v \<Longrightarrow> same_files v w \<Longrightarrow> same_files u w"
  by (simp add: same_files_def)

lemma same_files_next_resp: "next_resp w = (r, w1) \<Longrightarrow> same_files w w1"
  by (simp add: same_files_def next_resp_world)

lemma same_filesD:
  assumes "same_files w w'"
  shows "files w' = files w" "file_of w' n = file_of w n" "durable_of w' n = durable_of w n"
    "exists_file w' n = exists_file w n" "benign w \<Longrightarrow> benign w'" "durable w' = durable w"
  using assms by (auto simp: same_files_def file_of_def durable_of_def exists_file_def)

lemma sys_pread_Inr:
  assumes "sys_pread f n off w = (Inr bs, w1)"
  shows "\<exists>name k. f = Some name \<and> k \<le> n \<and> (0 < n \<longrightarrow> 0 < k) \<and>
    bs = take k (drop off (file_of w name)) \<and> same_files w w1"
proof -
  obtain name where f: "f = Some name"
    using assms by (cases f) (auto simp: sys_pread_def)
  obtain r w2 where r: "next_resp w = (r, w2)" by fastforce
  have "bs = take (transfer r n) (drop off (file_of w2 name))" "w1 = w2"
    using assms f r by (auto simp: sys_pread_def split: sysresp.splits)
  then show ?thesis
    using f transfer_le [of r n] transfer_pos [of n r] next_resp_world(3) [OF r, of name]
      same_files_next_resp [OF r] by auto
qed

lemma sys_pread_Inl:
  assumes "sys_pread f n off w = (Inl e, w1)"
  shows "e \<noteq> E_OK \<and> same_files w w1 \<and> (benign w \<longrightarrow> f = None)"
proof (cases f)
  case None
  with assms show ?thesis by (auto simp: sys_pread_def)
next
  case (Some name)
  obtain r w2 where r: "next_resp w = (r, w2)" by fastforce
  have "r = RFail e" "w1 = w2"
    using assms Some r by (auto simp: sys_pread_def split: sysresp.splits)
  with next_resp_world(7,8) [OF r] same_files_next_resp [OF r] show ?thesis by auto
qed

text \<open>
  Everything a read changes is the offset; it succeeds with exactly the bytes of the file at
  the offset, and fails on a well-behaved kernel only past the end, with \<open>EIO\<close>.
\<close>

lemma ReadNBytes_loop_facts:
  assumes "ReadNBytes_loop n acc (fh, w) = (e, bs, (fh', w'))"
  shows "same_files w w' \<and> (\<exists>off. fh' = fh\<lparr>mOffset := off\<rparr>) \<and>
    (e = E_OK \<longrightarrow> fh' = fh\<lparr>mOffset := mOffset fh + n\<rparr> \<and>
       (n = 0 \<and> bs = acc \<or>
        (\<exists>f. mFD fh = Some f \<and> mOffset fh + n \<le> length (file_of w f) \<and>
          bs = acc @ take n (drop (mOffset fh) (file_of w f))))) \<and>
    (\<forall>f. benign w \<longrightarrow> mFD fh = Some f \<longrightarrow>
       e = (if n = 0 \<or> mOffset fh + n \<le> length (file_of w f) then E_OK else EIO))"
  using assms
proof (induction n acc "(fh, w)" arbitrary: fh w rule: ReadNBytes_loop.induct)
  case (1 n acc)
  show ?case
  proof (cases "n = 0")
    case True
    with 1(2) have "e = E_OK" "bs = acc" "fh' = fh" "w' = w"
      by (simp_all add: ReadNBytes_loop.simps)
    with True show ?thesis by (cases fh) auto
  next
    case False
    obtain r w1 where r: "sys_pread (mFD fh) n (mOffset fh) w = (r, w1)"
      by (cases "sys_pread (mFD fh) n (mOffset fh) w")
    show ?thesis
    proof (cases r)
      case (Inl e1)
      with 1(2) False r have "e = e1" "fh' = fh" "w' = w1"
        by (simp_all add: ReadNBytes_loop.simps)
      with sys_pread_Inl [OF r [unfolded Inl]] show ?thesis by (cases fh) auto
    next
      case (Inr cs)
      from sys_pread_Inr [OF r [unfolded Inr]] False obtain f k where f: "mFD fh = Some f"
        and k: "k \<le> n" "0 < k" and cs: "cs = take k (drop (mOffset fh) (file_of w f))"
        and sf: "same_files w w1" by blast
      show ?thesis
      proof (cases "cs = []")
        case True
        with 1(2) False r Inr have "e = EIO" "fh' = fh" "w' = w1"
          by (simp_all add: ReadNBytes_loop.simps)
        moreover have "length (file_of w f) \<le> mOffset fh"
          using True cs k(2) by simp
        ultimately show ?thesis using sf f False by (cases fh) auto
      next
        case ne: False
        let ?fh = "fh\<lparr>mOffset := mOffset fh + length cs\<rparr>"
        have run: "ReadNBytes_loop (n - length cs) (acc @ cs) (?fh, w1) = (e, bs, fh', w')"
          using 1(2) False r Inr ne by (simp add: ReadNBytes_loop.simps [of n])
        have len: "length cs \<le> n" "mOffset fh + length cs \<le> length (file_of w f)"
          using cs k ne by (auto simp: min_def split: if_splits)
        have f1: "file_of w1 f = file_of w f" by (rule same_filesD [OF sf])
        have cat: "cs @ take (n - length cs) (drop (mOffset fh + length cs) (file_of w f)) =
            take n (drop (mOffset fh) (file_of w f))"
        proof -
          have "cs = take (length cs) (drop (mOffset fh) (file_of w f))"
            using cs by (simp add: min_def)
          then show ?thesis
            using len(1) by (metis add.commute drop_drop le_add_diff_inverse take_add)
        qed
        note IH = 1(1) [OF False refl refl r [symmetric] Inr ne run]
        from IH show ?thesis
          using len f f1 cat sf same_files_trans [OF sf] same_filesD(5) [OF sf]
          by (auto simp: add.assoc)
      qed
    qed
  qed
qed

lemma ReadNBytes_facts:
  assumes "ReadNBytes n (fh, w) = (e, bs, (fh', w'))" "mFD fh = Some f"
  shows "same_files w w'" "\<exists>off. fh' = fh\<lparr>mOffset := off\<rparr>"
    "e = E_OK \<Longrightarrow> fh' = fh\<lparr>mOffset := mOffset fh + n\<rparr>"
    "e = E_OK \<Longrightarrow> n = 0 \<or> mOffset fh + n \<le> length (file_of w f)"
    "e = E_OK \<Longrightarrow> bs = take n (drop (mOffset fh) (file_of w f))"
    "benign w \<Longrightarrow> e = (if n = 0 \<or> mOffset fh + n \<le> length (file_of w f) then E_OK else EIO)"
  using ReadNBytes_loop_facts [of n "[]" fh w e bs fh' w'] assms by (auto simp: ReadNBytes_def)

lemma ReadNBytes_run:
  assumes "benign w" "mFD fh = Some f" "mOffset fh + n \<le> length (file_of w f)"
  shows "\<exists>w'. ReadNBytes n (fh, w) =
      (E_OK, take n (drop (mOffset fh) (file_of w f)), (fh\<lparr>mOffset := mOffset fh + n\<rparr>, w')) \<and>
    same_files w w' \<and> benign w'"
proof -
  obtain e bs fh' w' where r: "ReadNBytes n (fh, w) = (e, bs, (fh', w'))"
    by (cases "ReadNBytes n (fh, w)") auto
  show ?thesis
    using ReadNBytes_facts [OF r assms(2)] assms same_filesD(5) r by auto
qed

section \<open>Writing appends\<close>

text \<open>What a write leaves: part of the buffer appended, all of it on success.\<close>

definition appended :: "string \<Rightarrow> bytes \<Rightarrow> io \<Rightarrow> io \<Rightarrow> bool" where
  "appended f d s s' \<longleftrightarrow>
     fst s' = (fst s)\<lparr>mOffset := mOffset (fst s) + length d\<rparr> \<and>
     file_of (snd s') f = file_of (snd s) f @ d \<and>
     durable (snd s') = durable (snd s) \<and> same_but f (snd s) (snd s') \<and>
     exists_file (snd s') f = exists_file (snd s) f"

lemma appended_trans: "appended f d s s' \<Longrightarrow> appended f e s' s'' \<Longrightarrow> appended f (d @ e) s s''"
  by (auto simp: appended_def intro: same_but_trans)

lemma sys_pwrite_appends:
  assumes "sys_pwrite (Some f) d (length (file_of w f)) w = (r, w1)"
    and "exists_file w f"
  shows "(\<exists>k. r = Inr k \<and> k \<le> length d \<and>
      w1 = set_file f (file_of w f @ take k d) w1 \<and> file_of w1 f = file_of w f @ take k d \<and>
      durable w1 = durable w \<and> same_but f w w1 \<and> exists_file w1 f) \<or>
    (\<exists>e. r = Inl e \<and> e \<noteq> E_OK \<and> \<not> benign w \<and> same_files w w1)"
  and "benign w \<Longrightarrow> benign w1" and "same_but f w w1"
proof -
  obtain t w2 where t: "next_resp w = (t, w2)" by fastforce
  note n = next_resp_world [OF t]
  consider (fail) e where "t = RFail e" "r = Inl e" "w1 = w2"
    | (ok) k where "r = Inr k" "k \<le> length d" "w1 = set_file f (file_of w f @ take k d) w2"
    using assms(1) t n(3) [of f] transfer_le [of t "length d"]
    by (cases t) (auto simp: sys_pwrite_def Let_def)
  note cs = this
  show "(\<exists>k. r = Inr k \<and> k \<le> length d \<and>
      w1 = set_file f (file_of w f @ take k d) w1 \<and> file_of w1 f = file_of w f @ take k d \<and>
      durable w1 = durable w \<and> same_but f w w1 \<and> exists_file w1 f) \<or>
    (\<exists>e. r = Inl e \<and> e \<noteq> E_OK \<and> \<not> benign w \<and> same_files w w1)"
    using cs
  proof cases
    case fail
    then show ?thesis using n(7,8) same_files_next_resp [OF t] by blast
  next
    case ok
    then show ?thesis using n(1,2) same_but_next_resp [OF t] by auto
  qed
  show "benign w \<Longrightarrow> benign w1"
    using cs n(6) by cases auto
  show "same_but f w w1"
    using cs same_but_next_resp [OF t] by cases auto
qed

lemma WriteToFile_fh_facts:
  assumes "WriteToFile_fh buf (fh, w) = (e, s')"
    and "mFD fh = Some f" "mOffset fh = length (file_of w f)" "exists_file w f"
  shows "\<exists>k \<le> length buf. appended f (take k buf) (fh, w) s' \<and>
    (e = E_OK \<longrightarrow> k = length buf) \<and> (benign w \<longrightarrow> e = E_OK \<and> benign (snd s'))"
  using assms
proof (induction buf "(fh, w)" arbitrary: fh w rule: WriteToFile_fh.induct)
  case (1 buf)
  show ?case
  proof (cases "buf = []")
    case True
    with 1(3) show ?thesis by (cases fh) (auto simp: WriteToFile_fh.simps appended_def)
  next
    case False
    obtain r w1 where r: "sys_pwrite (mFD fh) buf (mOffset fh) w = (r, w1)"
      by (cases "sys_pwrite (mFD fh) buf (mOffset fh) w")
    from r have "sys_pwrite (Some f) buf (length (file_of w f)) w = (r, w1)"
      by (simp only: 1(4,5))
    note pw = sys_pwrite_appends [OF this 1(6)]
    have run: "(case r of
          Inl x \<Rightarrow> if x = EINTR then WriteToFile_fh buf (fh, w1) else (x, (fh, w1))
        | Inr k \<Rightarrow> WriteToFile_fh (drop k buf) (fh\<lparr>mOffset := mOffset fh + k\<rparr>, w1)) = (e, s')"
      using 1(3) False r by (subst (asm) WriteToFile_fh.simps) (simp split: sum.splits)
    from pw(1) show ?thesis
    proof (elim disjE exE conjE)
      fix k assume k: "r = Inr k" "k \<le> length buf" "file_of w1 f = file_of w f @ take k buf"
        "durable w1 = durable w" "exists_file w1 f"
      let ?fh = "fh\<lparr>mOffset := mOffset fh + k\<rparr>"
      have "WriteToFile_fh (drop k buf) (?fh, w1) = (e, s')"
        using run False r k(1) by simp
      from 1(2) [OF False refl refl r [symmetric] k(1) this] k 1(4,5)
      obtain j where j: "j \<le> length buf - k" "appended f (take j (drop k buf)) (?fh, w1) s'"
        "e = E_OK \<longrightarrow> j = length buf - k" "benign w1 \<longrightarrow> e = E_OK \<and> benign (snd s')" by auto
      have "appended f (take k buf) (fh, w) (?fh, w1)"
        using k pw(3) 1(6) by (simp add: appended_def min_def)
      from appended_trans [OF this j(2)] have "appended f (take (k + j) buf) (fh, w) s'"
        by (simp add: take_add)
      with j k pw(2) show ?thesis by (intro exI [of _ "k + j"]) auto
    next
      fix x assume x: "r = Inl x" "x \<noteq> E_OK" "\<not> benign w" "same_files w w1"
      note sf = same_filesD [OF x(4)]
      show ?thesis
      proof (cases "x = EINTR")
        case True
        have "WriteToFile_fh buf (fh, w1) = (e, s')"
          using run False r x(1) True by simp
        from 1(1) [OF False refl refl r [symmetric] x(1) True this] 1(4,5,6) sf(2,4) [of f]
        obtain j where j: "j \<le> length buf" "appended f (take j buf) (fh, w1) s'"
          "e = E_OK \<longrightarrow> j = length buf" by auto
        have "appended f [] (fh, w) (fh, w1)"
          using sf pw(3) by (simp add: appended_def)
        from appended_trans [OF this j(2)] j x(3) show ?thesis by auto
      next
        case neq: False
        with run False r x(1) have "e = x" "s' = (fh, w1)" by simp_all
        then show ?thesis
          using x sf pw(3) by (intro exI [of _ 0]) (simp add: appended_def)
      qed
    qed
  qed
qed

lemma WriteToFile_fh_run:
  assumes "benign w" "mFD fh = Some f" "mOffset fh = length (file_of w f)" "exists_file w f"
  shows "\<exists>s'. WriteToFile_fh buf (fh, w) = (E_OK, s') \<and> appended f buf (fh, w) s' \<and>
    benign (snd s')"
proof -
  obtain e s' where r: "WriteToFile_fh buf (fh, w) = (e, s')"
    by (meson prod.exhaust)
  from WriteToFile_fh_facts [OF r assms(2-4)] assms(1) r show ?thesis by auto
qed

section \<open>The writer\<close>

text \<open>
  A handler that is the only writer of an open file: its offset is the end of the file. What
  has been written, as later readers will see it, is the file followed by the buffer.
\<close>

definition writer_ok :: "string \<Rightarrow> io \<Rightarrow> bool" where
  "writer_ok f s \<longleftrightarrow>
     mFD (fst s) = Some f \<and> exists_file (snd s) f \<and>
     mOffset (fst s) = length (file_of (snd s) f) \<and>
     length (mBuffer (fst s)) \<le> LOG_FILE_BUFFER_SIZE"

definition written :: "string \<Rightarrow> io \<Rightarrow> bytes" where
  "written f s = file_of (snd s) f @ mBuffer (fst s)"

text \<open>What a step of the writer may do to the world: extend its own file, nothing else.\<close>

definition writer_step :: "string \<Rightarrow> io \<Rightarrow> io \<Rightarrow> bool" where
  "writer_step f s s' \<longleftrightarrow>
     writer_ok f s' \<and> same_but f (snd s) (snd s') \<and>
     mFileName (fst s') = mFileName (fst s) \<and>
     (\<exists>d. file_of (snd s') f = file_of (snd s) f @ d)"

lemma writer_step_trans: "writer_step f s s' \<Longrightarrow> writer_step f s' s'' \<Longrightarrow> writer_step f s s''"
  by (auto simp: writer_step_def intro: same_but_trans)

lemma appended_writer_step:
  assumes "writer_ok f s" "appended f d s s'"
  shows "writer_step f s s'"
  using assms by (auto simp: writer_step_def writer_ok_def appended_def)

lemma WriteAllBufferToFile_facts:
  assumes "WriteAllBufferToFile s = Done (e, s')" "writer_ok f s"
  shows "e = E_OK" "writer_step f s s'" "mBuffer (fst s') = []"
    "file_of (snd s') f = written f s" "durable (snd s') = durable (snd s)"
proof -
  obtain fh w where s: "s = (fh, w)" by fastforce
  obtain e1 s1 where r: "WriteToFile_fh (mBuffer fh) (fh, w) = (e1, s1)"
    by (meson prod.exhaust)
  from assms(1) s r have e: "e1 = E_OK" "e = e1" and s': "s' = ((fst s1)\<lparr>mBuffer := []\<rparr>, snd s1)"
    by (auto simp: WriteAllBufferToFile_def outcome_simps split: prod.splits)
  from WriteToFile_fh_facts [OF r] assms(2) s e(1) have a: "appended f (mBuffer fh) (fh, w) s1"
    by (auto simp: writer_ok_def)
  from e show "e = E_OK" by simp
  from a s s' assms(2) show "mBuffer (fst s') = []" "file_of (snd s') f = written f s"
    "durable (snd s') = durable (snd s)" "writer_step f s s'"
    by (auto simp: appended_def written_def writer_step_def writer_ok_def)
qed

lemma WriteAllBufferToFile_run:
  assumes "writer_ok f s" "benign (snd s)"
  shows "\<exists>s'. WriteAllBufferToFile s = Done (E_OK, s') \<and> benign (snd s')"
proof -
  obtain fh w where s: "s = (fh, w)" by fastforce
  from WriteToFile_fh_run [of w fh f "mBuffer fh"] assms s
  obtain s' where "WriteToFile_fh (mBuffer fh) (fh, w) = (E_OK, s')" "benign (snd s')"
    by (auto simp: writer_ok_def)
  then show ?thesis by (cases s') (auto simp: WriteAllBufferToFile_def s)
qed

lemma WriteNBytes_facts:
  assumes r: "WriteNBytes d s = Done (e, s')" and ok: "writer_ok f s"
  shows "e = E_OK" "writer_step f s s'" "written f s' = written f s @ d"
    "durable (snd s') = durable (snd s)"
proof -
  have "e = E_OK \<and> writer_step f s s' \<and> written f s' = written f s @ d \<and>
    durable (snd s') = durable (snd s)"
  proof (cases "length d > LOG_FILE_BUFFER_SIZE")
    case True
    with r obtain e1 s1 where a: "WriteAllBufferToFile s = Done (e1, s1)"
      by (cases "WriteAllBufferToFile s") (auto simp: WriteNBytes_def)
    obtain e2 s2 where b: "WriteToFile_fh d s1 = (e2, s2)"
      by (meson prod.exhaust)
    from r True a b have s1: "WriteAllBufferToFile s = Done (E_OK, s1)"
      and w: "WriteToFile_fh d s1 = (E_OK, s')" and e: "e = E_OK"
      by (auto simp: WriteNBytes_def outcome_simps)
    note f1 = WriteAllBufferToFile_facts [OF s1 ok]
    have "appended f d s1 s'"
      using WriteToFile_fh_facts [of d "fst s1" "snd s1" E_OK s' f] w f1(2)
      by (auto simp: writer_step_def writer_ok_def)
    moreover from f1(2) have "writer_ok f s1" by (simp add: writer_step_def)
    ultimately show ?thesis
      using f1 appended_writer_step [of f s1 d s'] writer_step_trans [OF f1(2)] e
      by (auto simp: appended_def written_def)
  next
    case False
    show ?thesis
    proof (cases "LOG_FILE_BUFFER_SIZE < length (mBuffer (fst s)) + length d")
      case True
      with r False obtain s1 where s1: "WriteAllBufferToFile s = Done (E_OK, s1)"
        and e: "e = E_OK" "s' = ((fst s1)\<lparr>mBuffer := mBuffer (fst s1) @ d\<rparr>, snd s1)"
        by (auto simp: WriteNBytes_def outcome_simps split: prod.splits)
      note f1 = WriteAllBufferToFile_facts [OF s1 ok]
      show ?thesis
        using f1 e False by (auto simp: written_def writer_step_def writer_ok_def)
    next
      case fits: False
      with r False have "e = E_OK" "s' = ((fst s)\<lparr>mBuffer := mBuffer (fst s) @ d\<rparr>, snd s)"
        by (auto simp: WriteNBytes_def outcome_simps split: prod.splits)
      then show ?thesis
        using ok fits by (auto simp: written_def writer_step_def writer_ok_def)
    qed
  qed
  then show "e = E_OK" "writer_step f s s'" "written f s' = written f s @ d"
    "durable (snd s') = durable (snd s)" by auto
qed

lemma WriteNBytes_run:
  assumes ok: "writer_ok f s" and b: "benign (snd s)"
  shows "\<exists>s'. WriteNBytes d s = Done (E_OK, s') \<and> benign (snd s')"
proof -
  obtain s1 where s1: "WriteAllBufferToFile s = Done (E_OK, s1)" "benign (snd s1)"
    using WriteAllBufferToFile_run [OF ok b] by blast
  have "writer_ok f s1"
    using WriteAllBufferToFile_facts(2) [OF s1(1) ok] by (simp add: writer_step_def)
  then obtain s2 where "WriteToFile_fh d s1 = (E_OK, s2)" "benign (snd s2)"
    using WriteToFile_fh_run [of "snd s1" "fst s1" f d] s1(2) by (auto simp: writer_ok_def)
  with s1 b show ?thesis
    by (cases s; cases s1; cases s2) (auto simp: WriteNBytes_def)
qed

lemma Flush_facts:
  assumes r: "Flush s = Done (e, s')" and ok: "writer_ok f s"
  shows "e = E_OK" "writer_step f s s'" "mBuffer (fst s') = []" "written f s' = written f s"
    "file_of (snd s') f = written f s" "durable_of (snd s') f = written f s"
proof -
  from r obtain s1 w2 where s1: "WriteAllBufferToFile s = Done (E_OK, s1)"
    and y: "sys_fsync (mFD (fst s1)) (snd s1) = (E_OK, w2)" and e: "e = E_OK" "s' = (fst s1, w2)"
    by (auto simp: Flush_def Sync_def outcome_simps split: prod.splits)
  note f1 = WriteAllBufferToFile_facts [OF s1 ok]
  obtain t w1 where t: "next_resp (snd s1) = (t, w1)" by fastforce
  have fd: "mFD (fst s1) = Some f" using f1(2) by (simp add: writer_step_def writer_ok_def)
  have w2: "w2 = w1\<lparr>durable := AList.update f (file_of w1 f) (durable w1)\<rparr>"
    using y t fd next_resp_world(8) [OF t]
    by (auto simp: sys_fsync_def split: sysresp.splits)
  have fw: "files w2 = files (snd s1)"
    using w2 next_resp_world(1) [OF t] by simp
  have fl: "file_of w2 n = file_of (snd s1) n" "exists_file w2 n = exists_file (snd s1) n" for n
    using fw by (simp_all add: file_of_def exists_file_def)
  have sb: "same_but f (snd s1) w2"
    using fw w2 next_resp_world(2) [OF t] by (simp add: same_but_def update_conv')
  show "e = E_OK" "mBuffer (fst s') = []" "written f s' = written f s"
    "file_of (snd s') f = written f s"
    using e f1 fl by (auto simp: written_def)
  have "durable_of w2 f = file_of (snd s1) f"
    using w2 next_resp_world(3) [OF t, of f] by (simp add: durable_of_def update_conv')
  then show "durable_of (snd s') f = written f s" using e f1 by simp
  show "writer_step f s s'"
    using f1(2) e fl sb by (auto simp: writer_step_def writer_ok_def intro: same_but_trans)
qed

lemma Flush_run:
  assumes ok: "writer_ok f s" and b: "benign (snd s)"
  shows "\<exists>s'. Flush s = Done (E_OK, s') \<and> benign (snd s')"
proof -
  obtain s1 where s1: "WriteAllBufferToFile s = Done (E_OK, s1)" "benign (snd s1)"
    using WriteAllBufferToFile_run [OF ok b] by blast
  have fd: "mFD (fst s1) = Some f"
    using WriteAllBufferToFile_facts(2) [OF s1(1) ok] by (simp add: writer_step_def writer_ok_def)
  obtain t w1 where t: "next_resp (snd s1) = (t, w1)" by fastforce
  have "\<exists>w2. sys_fsync (mFD (fst s1)) (snd s1) = (E_OK, w2) \<and> benign w2"
    using fd t next_resp_world(6,7) [OF t] s1(2)
    by (cases t) (auto simp: sys_fsync_def benign_def)
  then show ?thesis using s1 by (auto simp: Flush_def Sync_def)
qed

section \<open>The handler keeps the contract of an append log\<close>

definition writer_inv :: "string \<Rightarrow> io \<Rightarrow> bool" where
  "writer_inv f s \<longleftrightarrow> writer_ok f s \<and> prefix (durable_of (snd s) f) (file_of (snd s) f)"

lemma durable_of_eq: "durable w' = durable w \<Longrightarrow> durable_of w' f = durable_of w f"
  by (simp add: durable_of_def)

lemma writer_inv_step:
  assumes "writer_inv f s" "writer_step f s s'"
    and "durable_of (snd s') f = durable_of (snd s) f \<or> durable_of (snd s') f = file_of (snd s') f"
  shows "writer_inv f s'"
  using assms by (auto simp: writer_inv_def writer_step_def prefix_def)

text \<open>The invariant together with what the writer has left alone since world \<open>w0\<close>.\<close>

definition writer_since :: "string \<Rightarrow> world \<Rightarrow> io \<Rightarrow> bool" where
  "writer_since f w0 s \<longleftrightarrow> writer_inv f s \<and> same_but f w0 (snd s)"

lemma writer_since_step:
  assumes "writer_since f w0 s" "writer_step f s s'"
    and "durable_of (snd s') f = durable_of (snd s) f \<or> durable_of (snd s') f = file_of (snd s') f"
  shows "writer_since f w0 s'"
  using assms writer_inv_step [OF _ assms(2,3)]
  by (auto simp: writer_since_def writer_step_def intro: same_but_trans)

interpretation fh: append_log WriteNBytes Flush "writer_since f w0" "\<lambda>_. True"
  "\<lambda>s. benign (snd s)" "written f" "\<lambda>s. durable_of (snd s) f" "\<lambda>d. d" for f w0
proof (unfold_locales, goal_cases)
  case (1 s x e s')
  then have "writer_ok f s" by (simp add: writer_since_def writer_inv_def)
  note w = WriteNBytes_facts [OF 1(3) this]
  from durable_of_eq [OF w(4), of f] writer_since_step [OF 1(1) w(2)] w show ?case by simp
next
  case (2 s e s')
  then have "writer_ok f s" by (simp add: writer_since_def writer_inv_def)
  note w = Flush_facts [OF 2(2) this]
  from writer_since_step [OF 2(1) w(2)] w show ?case by simp
next
  case (3 s)
  then show ?case by (auto simp: writer_since_def writer_inv_def written_def)
next
  case (4 s x)
  then show ?case using WriteNBytes_run [of f s x] by (auto simp: writer_since_def writer_inv_def)
next
  case (5 s)
  then show ?case using Flush_run [of f s] by (auto simp: writer_since_def writer_inv_def)
qed

section \<open>Properties\<close>

text \<open>C27: whatever short writes and interrupted calls the kernel answers with, buffers written
  with \<^verbatim>\<open>WriteNBytes\<close> and then flushed are on disk after what was there, in order and
  without gaps, and no other file is touched, or the process stopped; with a kernel that
  reports no error it does not stop.\<close>

theorem flushed_writes_are_durable:
  assumes "writer_inv f s"
  shows "(\<forall>e1 s1 e2 s2. append_all WriteNBytes ds s = Done (e1, s1) \<and> Flush s1 = Done (e2, s2) \<longrightarrow>
      e1 = E_OK \<and> e2 = E_OK \<and> writer_inv f s2 \<and> same_but f (snd s) (snd s2) \<and>
      durable_of (snd s2) f = written f s @ concat ds \<and> file_of (snd s2) f = written f s @ concat ds) \<and>
    (benign (snd s) \<longrightarrow>
      (\<exists>s1 s2. append_all WriteNBytes ds s = Done (E_OK, s1) \<and> Flush s1 = Done (E_OK, s2)))"
proof (intro conjI allI impI; (elim conjE)?)
  have start: "writer_since f (snd s) s"
    using assms by (simp add: writer_since_def)
  fix e1 s1 e2 s2
  assume a: "append_all WriteNBytes ds s = Done (e1, s1)" and b: "Flush s1 = Done (e2, s2)"
  have "writer_ok f s1"
    using fh.append_all_law [OF start _ a] by (simp add: writer_since_def writer_inv_def)
  note fl = Flush_facts [OF b this]
  note af = fh.append_commit [OF start _ a b, simplified]
  from af show "e1 = E_OK" "e2 = E_OK" "durable_of (snd s2) f = written f s @ concat ds"
    by simp_all
  from af have "writer_since f (snd s) s2" by simp
  then show "writer_inv f s2" "same_but f (snd s) (snd s2)" by (simp_all add: writer_since_def)
  from af fl show "file_of (snd s2) f = written f s @ concat ds" by simp
next
  assume "benign (snd s)"
  moreover have "writer_since f (snd s) s"
    using assms by (simp add: writer_since_def)
  ultimately show "\<exists>s1 s2. append_all WriteNBytes ds s = Done (E_OK, s1) \<and> Flush s1 = Done (E_OK, s2)"
    using fh.append_commit_runs [of f "snd s" s ds] by auto
qed

theorem flushed_writes_are_durable_witness:
  "\<exists>s1 s2. append_all WriteNBytes [[1, 2], [3]]
      (\<lparr>mFD = Some ''log'', mFileName = ''log'', mOffset = 1, mBuffer = [9]\<rparr>,
       \<lparr>files = [(''log'', [7])], durable = [], resp = [RShort 0], appending = True\<rparr>) = Done (E_OK, s1) \<and>
    Flush s1 = Done (E_OK, s2) \<and> durable_of (snd s2) ''log'' = [7, 9, 1, 2, 3]"
proof -
  let ?s = "(\<lparr>mFD = Some ''log'', mFileName = ''log'', mOffset = 1, mBuffer = [9]\<rparr>,
    \<lparr>files = [(''log'', [7])], durable = [], resp = [RShort 0], appending = True\<rparr>) :: io"
  have inv: "writer_inv ''log'' ?s"
    by (simp add: writer_inv_def writer_ok_def exists_file_def file_of_def durable_of_def
        LOG_FILE_BUFFER_SIZE_def)
  have "benign (snd ?s)" by (simp add: benign_def)
  with flushed_writes_are_durable [OF inv, of "[[1, 2], [3]]"]
  obtain s1 s2 where "append_all WriteNBytes [[1, 2], [3]] ?s = Done (E_OK, s1)"
    "Flush s1 = Done (E_OK, s2)" by blast
  moreover from this flushed_writes_are_durable [OF inv, of "[[1, 2], [3]]"]
  have "durable_of (snd s2) ''log'' = written ''log'' ?s @ concat [[1, 2], [3]]" by blast
  then have "durable_of (snd s2) ''log'' = [7, 9, 1, 2, 3]"
    by (simp add: written_def file_of_def)
  ultimately show ?thesis by blast
qed

text \<open>A successful read returns exactly the bytes of the file at the handler's offset and
  moves the offset past them; on a kernel that reports no error a read fails only beyond the
  end of the file, with \<open>EIO\<close>. Reading changes no file.\<close>

lemma ReadNBytes_exact:
  assumes "mFD fh = Some f" "ReadNBytes n (fh, w) = (e, bs, (fh', w'))"
  shows "files w' = files w \<and> durable w' = durable w \<and>
    (e = E_OK \<longrightarrow> fh' = fh\<lparr>mOffset := mOffset fh + n\<rparr> \<and>
      bs = take n (drop (mOffset fh) (file_of w f)) \<and> length bs = n) \<and>
    (benign w \<longrightarrow> e = (if n = 0 \<or> mOffset fh + n \<le> length (file_of w f) then E_OK else EIO))"
proof -
  note r = ReadNBytes_facts [OF assms(2,1)]
  have "length (take n (drop (mOffset fh) (file_of w f))) = n" if "e = E_OK"
    using r(4) [OF that] by auto
  with r(3,5,6) same_filesD(1,6) [OF r(1)] show ?thesis by blast
qed

theorem ReadNBytes_exact_witness:
  "fst (ReadNBytes 3 (\<lparr>mFD = Some ''log'', mFileName = ''log'', mOffset = 1, mBuffer = []\<rparr>,
     \<lparr>files = [(''log'', [7, 8, 9, 10])], durable = [], resp = [RShort 0, RShort 0], appending = True\<rparr>))
   = E_OK"
proof -
  let ?fh = "\<lparr>mFD = Some ''log'', mFileName = ''log'', mOffset = 1, mBuffer = []\<rparr>"
  let ?w = "\<lparr>files = [(''log'', [7, 8, 9, 10])], durable = [], resp = [RShort 0, RShort 0],
    appending = True\<rparr>"
  obtain e bs fh' w' where r: "ReadNBytes 3 (?fh, ?w) = (e, bs, (fh', w'))"
    by (cases "ReadNBytes 3 (?fh, ?w)") auto
  have "benign ?w" "mFD ?fh = Some ''log''" by (simp_all add: benign_def)
  with ReadNBytes_exact [OF this(2) r] r show ?thesis by (simp add: file_of_def)
qed

text \<open>an open that the kernel refuses is reported as a success, since the test
  \<^verbatim>\<open>mFD < -1\<close> is never true. The failure only shows later: a read fails with \<open>EBADF\<close>, and
  a write is taken into the buffer and stops the process when it is flushed.\<close>

theorem failed_open_reported_as_success:
  assumes "next_resp w = (RFail e, w1)" "\<not> (creat \<and> exists_file w n)" "0 < k"
    and "0 < length d" "length d \<le> LOG_FILE_BUFFER_SIZE"
  shows "OpenFile_fh creat (new_fhandler n, w) = Done (E_OK, (new_fhandler n, w1)) \<and>
    fst (ReadNBytes k (new_fhandler n, w1)) = EBADF \<and>
    (\<exists>s. WriteNBytes d (new_fhandler n, w1) = Done (E_OK, s) \<and> Flush s = Abort Assertion_failed)"
proof (intro conjI exI)
  show "OpenFile_fh creat (new_fhandler n, w) = Done (E_OK, (new_fhandler n, w1))"
    using assms(1,2) by (auto simp: OpenFile_fh_def new_fhandler_def sys_open_def)
  show "fst (ReadNBytes k (new_fhandler n, w1)) = EBADF"
    using assms(3)
    by (simp add: ReadNBytes_def ReadNBytes_loop.simps new_fhandler_def sys_pread_def)
  let ?s = "((new_fhandler n)\<lparr>mBuffer := d\<rparr>, w1)"
  show "WriteNBytes d (new_fhandler n, w1) = Done (E_OK, ?s)"
    using assms(5) by (simp add: WriteNBytes_def new_fhandler_def)
  show "Flush ?s = Abort Assertion_failed"
    using assms(4)
    by (simp add: Flush_def WriteAllBufferToFile_def WriteToFile_fh.simps sys_pwrite_def new_fhandler_def)
qed

theorem failed_open_reported_as_success_witness:
  "OpenFile_fh False (new_fhandler ''log'',
      \<lparr>files = [(''log'', [7])], durable = [], resp = [RFail EIO], appending = True\<rparr>) =
    Done (E_OK, (new_fhandler ''log'',
      \<lparr>files = [(''log'', [7])], durable = [], resp = [], appending = True\<rparr>))"
  using failed_open_reported_as_success [of
      "\<lparr>files = [(''log'', [7])], durable = [], resp = [RFail EIO], appending = True\<rparr>" EIO
      "\<lparr>files = [(''log'', [7])], durable = [], resp = [], appending = True\<rparr>" False "''log''" 1 "[0]"]
  by (simp add: next_resp_def LOG_FILE_BUFFER_SIZE_def)

end
