(* ===== verification/Crc.thy ===== *)
theory Crc
  imports ByteBuffer
begin

text \<open>
  The checksum of a log record, \<^verbatim>\<open>src/Common/src/CRC.c\<close> as it is compiled (FASTCRC, little
  endian): the tables built by \<^verbatim>\<open>mycrc32_init\<close>, the slicing-by-four loop of \<^verbatim>\<open>mycrc32\<close>
  with its alignment prologue, and \<^verbatim>\<open>mycrc32_combine\<close>. The reference is the bit-at-a-time
  code the source keeps in a comment; the algebra is that one shift step is linear over XOR.
\<close>

section \<open>The generator tables\<close>

definition CRC_POLY :: u32 where
  "CRC_POLY = 0xEDB88320"

text \<open>\<^verbatim>\<open>c = (c&1) ? (poly^(c>>1)) : (c>>1)\<close>\<close>

definition crc_shift :: "u32 \<Rightarrow> u32" where
  "crc_shift c = (if c AND 1 \<noteq> 0 then CRC_POLY XOR drop_bit 1 c else drop_bit 1 c)"

definition crc_table0 :: "u32 list" where
  "crc_table0 = map (\<lambda>i.
     crc_shift (crc_shift (crc_shift (crc_shift
       (crc_shift (crc_shift (crc_shift (crc_shift (of_nat i))))))))) [0..<256]"

definition crc_next_entry :: "u32 list \<Rightarrow> u32 \<Rightarrow> u32" where
  "crc_next_entry t0 c = t0 ! unat (c AND 0xff) XOR drop_bit 8 c"

text \<open>
  The static \<^verbatim>\<open>crc_table[4][256]\<close>; the second loop fills rows 1 to 3 of column \<open>i\<close>
  by chaining \<^verbatim>\<open>c\<close>.
\<close>

definition crc_generate_main_tables :: "u32 list list" where
  "crc_generate_main_tables =
     (let t0 = crc_table0;
          t1 = map (\<lambda>i. crc_next_entry t0 (t0 ! i)) [0..<256];
          t2 = map (\<lambda>i. crc_next_entry t0 (t1 ! i)) [0..<256];
          t3 = map (\<lambda>i. crc_next_entry t0 (t2 ! i)) [0..<256]
      in [t0, t1, t2, t3])"

section \<open>The checksum loop\<close>

definition tab :: "u32 list list \<Rightarrow> nat \<Rightarrow> u32 \<Rightarrow> u32" where
  "tab t k c = t ! k ! unat c"

text \<open>\<^verbatim>\<open>CRC_ONE_BYTE\<close> and \<^verbatim>\<open>CRC_FOUR_BYTES\<close>.\<close>

definition crc_one_byte :: "u32 list list \<Rightarrow> u32 \<Rightarrow> u8 \<Rightarrow> u32" where
  "crc_one_byte t crc b = tab t 0 ((crc XOR ucast b) AND 0xff) XOR drop_bit 8 crc"

definition crc_four_bytes :: "u32 list list \<Rightarrow> u32 \<Rightarrow> bytes \<Rightarrow> u32" where
  "crc_four_bytes t crc0 block4 =
     (let crc = crc0 XOR le_word block4 in
      tab t 3 (crc AND 0xff) XOR tab t 2 (drop_bit 8 crc AND 0xff) XOR
      tab t 1 (drop_bit 16 crc AND 0xff) XOR tab t 0 (drop_bit 24 crc))"

text \<open>
  The alignment prologue runs while the block address is not a multiple of 4; \<open>addr\<close> is
  the address of the first byte of the rest.
\<close>

fun crc_align :: "u32 list list \<Rightarrow> nat \<Rightarrow> u32 \<Rightarrow> bytes \<Rightarrow> u32 \<times> bytes" where
  "crc_align t addr crc [] = (crc, [])"
| "crc_align t addr crc (b # block) =
     (if addr mod 4 \<noteq> 0 then crc_align t (addr + 1) (crc_one_byte t crc b) block
      else (crc, b # block))"

definition crc_eight_words :: "u32 list list \<Rightarrow> u32 \<Rightarrow> bytes \<Rightarrow> u32" where
  "crc_eight_words t crc block =
     fold (\<lambda>i crc. crc_four_bytes t crc (take 4 (drop (4 * i) block))) [0..<8] crc"

function crc_loop32 :: "u32 list list \<Rightarrow> u32 \<Rightarrow> bytes \<Rightarrow> u32 \<times> bytes" where
  "crc_loop32 t crc block =
     (if 32 \<le> length block then crc_loop32 t (crc_eight_words t crc block) (drop 32 block)
      else (crc, block))"
  by pat_completeness auto
termination by (relation "measure (\<lambda>(t, crc, block). length block)") auto

function crc_loop4 :: "u32 list list \<Rightarrow> u32 \<Rightarrow> bytes \<Rightarrow> u32 \<times> bytes" where
  "crc_loop4 t crc block =
     (if 4 \<le> length block then crc_loop4 t (crc_four_bytes t crc (take 4 block)) (drop 4 block)
      else (crc, block))"
  by pat_completeness auto
termination by (relation "measure (\<lambda>(t, crc, block). length block)") auto

declare crc_loop32.simps [simp del] crc_loop4.simps [simp del]

definition mycrc32_with :: "u32 list list \<Rightarrow> nat \<Rightarrow> u32 \<Rightarrow> bytes \<Rightarrow> u32" where
  "mycrc32_with t addr crc block =
     (let (crc1, block1) = crc_align t addr (crc XOR 0xFFFFFFFF) block;
          (crc2, block2) = crc_loop32 t crc1 block1;
          (crc3, block3) = crc_loop4 t crc2 block2
      in fold (\<lambda>b crc. crc_one_byte t crc b) block3 crc3 XOR 0xFFFFFFFF)"

text \<open>\<^verbatim>\<open>main\<close> runs \<^verbatim>\<open>mycrc32_init\<close> first; from then on the static tables are these.\<close>

definition mycrc32 :: "nat \<Rightarrow> u32 \<Rightarrow> bytes \<Rightarrow> u32" where
  "mycrc32 addr crc block = mycrc32_with crc_generate_main_tables addr crc block"

section \<open>The reference: one bit at a time\<close>

text \<open>
  The original \<^verbatim>\<open>crc32\<close> in the comment at the top of the source uses a table of eight shift
  steps and one table lookup per byte. \<open>crc_step\<close> is that per-byte step with the table
  entry written out.
\<close>

definition crc_step :: "u8 \<Rightarrow> u32 \<Rightarrow> u32" where
  "crc_step b crc = (crc_shift ^^ 8) (crc XOR ucast b)"

definition crc_raw :: "bytes \<Rightarrow> u32 \<Rightarrow> u32" where
  "crc_raw bs crc = fold crc_step bs crc"

definition crc32_spec :: "u32 \<Rightarrow> bytes \<Rightarrow> u32" where
  "crc32_spec crc bs = crc_raw bs (crc XOR 0xFFFFFFFF) XOR 0xFFFFFFFF"

section \<open>Linearity\<close>

lemma and_1_neq_0: "c AND (1 :: u32) \<noteq> 0 \<longleftrightarrow> bit c 0"
  by (simp add: and_one_eq bit_0 odd_iff_mod_2_eq_one)

lemma crc_shift_bit: "crc_shift c = (if bit c 0 then CRC_POLY XOR drop_bit 1 c else drop_bit 1 c)"
  by (simp add: crc_shift_def and_1_neq_0)

lemma crc_shift_0 [simp]: "crc_shift 0 = 0"
  by (simp add: crc_shift_bit)

lemma crc_shift_xor: "crc_shift (x XOR y) = crc_shift x XOR crc_shift y"
  by (auto simp: crc_shift_bit bit_xor_iff drop_bit_xor xor.assoc xor.left_commute)

lemma crc_shifts_0 [simp]: "(crc_shift ^^ n) 0 = 0"
  by (induction n) simp_all

lemma crc_shifts_xor: "(crc_shift ^^ n) (x XOR y) = (crc_shift ^^ n) x XOR (crc_shift ^^ n) y"
  by (induction n) (simp_all add: crc_shift_xor)

text \<open>While the low bits are clear, a step only shifts.\<close>

lemma crc_shifts_clear:
  "(\<And>i. i < n \<Longrightarrow> \<not> bit x i) \<Longrightarrow> (crc_shift ^^ n) x = drop_bit n x"
proof (induction n arbitrary: x)
  case (Suc n)
  have "crc_shift x = drop_bit 1 x"
    using Suc.prems [of 0] by (simp add: crc_shift_bit)
  moreover have "(crc_shift ^^ n) (drop_bit 1 x) = drop_bit n (drop_bit 1 x)"
    by (rule Suc.IH) (simp add: bit_simps Suc.prems)
  ultimately show ?case by (simp only: funpow_Suc_right comp_apply drop_bit_drop_bit) simp
qed simp

lemma and_ff: "x AND 0xff = take_bit 8 (x :: u32)"
  by (simp add: take_bit_eq_mask mask_eq_exp_minus_1)

lemma split_low_byte: "x = take_bit 8 x XOR push_bit 8 (drop_bit 8 (x :: u32))"
  by (rule bit_word_eqI) (auto simp: bit_simps)

lemma crc_shifts_8: "(crc_shift ^^ 8) x = (crc_shift ^^ 8) (take_bit 8 x) XOR drop_bit 8 x"
proof -
  have "(crc_shift ^^ 8) x =
      (crc_shift ^^ 8) (take_bit 8 x) XOR (crc_shift ^^ 8) (push_bit 8 (drop_bit 8 x))"
    using crc_shifts_xor [of 8 "take_bit 8 x" "push_bit 8 (drop_bit 8 x)"]
    by (simp only: split_low_byte [symmetric])
  also have "(crc_shift ^^ 8) (push_bit 8 (drop_bit 8 x)) = drop_bit 8 (push_bit 8 (drop_bit 8 x))"
    by (rule crc_shifts_clear) (simp add: bit_simps)
  also have "drop_bit 8 (push_bit 8 (drop_bit 8 x)) = drop_bit 8 x"
    by (rule bit_word_eqI) (auto simp: bit_simps dest: bit_imp_le_length)
  finally show ?thesis .
qed

lemma crc_shifts_add_8:
  "(crc_shift ^^ (8 + n)) x =
     (crc_shift ^^ (8 + n)) (take_bit 8 x) XOR (crc_shift ^^ n) (drop_bit 8 x)"
proof -
  have "(crc_shift ^^ (8 + n)) x = (crc_shift ^^ n) ((crc_shift ^^ 8) x)" for x
    by (simp add: add.commute [of 8] funpow_add)
  then show ?thesis
    by (metis crc_shifts_8 crc_shifts_xor)
qed

section \<open>The tables\<close>

lemma unat_take_bit_8: "unat (take_bit 8 x :: u32) < 256"
  using take_bit_nat_less_exp [of 8 "unat x"] by (simp add: unsigned_take_bit_eq)

lemma length_crc_table0 [simp]: "length crc_table0 = 256"
  by (simp add: crc_table0_def)

lemma funpow_8: "(f ^^ 8) x = f (f (f (f (f (f (f (f x)))))))"
  by (simp add: numeral_eq_Suc)

lemma crc_table0_nth: "i < 256 \<Longrightarrow> crc_table0 ! i = (crc_shift ^^ 8) (of_nat i)"
  by (simp add: crc_table0_def funpow_8 del: upt_Suc)

lemma crc_table0_take: "crc_table0 ! unat (take_bit 8 x) = (crc_shift ^^ 8) (take_bit 8 x)"
  by (simp add: crc_table0_nth unat_take_bit_8)

lemma crc_next_entry: "crc_next_entry crc_table0 c = (crc_shift ^^ 8) c"
  by (simp add: crc_next_entry_def and_ff crc_table0_take crc_shifts_8 [of c])

definition crc_rows :: "u32 list list \<Rightarrow> bool" where
  "crc_rows t \<longleftrightarrow>
     (\<forall>k < 4. \<forall>x. unat x < 256 \<longrightarrow> t ! k ! unat x = (crc_shift ^^ (8 + 8 * k)) x)"

lemma funpow_8_8: "(f ^^ 8) ((f ^^ n) x) = (f ^^ (8 + n)) x"
  by (simp add: funpow_add)

lemma crc_rows_main: "crc_rows crc_generate_main_tables"
proof -
  have "crc_generate_main_tables ! k ! unat x = (crc_shift ^^ (8 + 8 * k)) x"
    if "k < 4" and x: "unat x < 256" for k x
  proof -
    from \<open>k < 4\<close> consider "k = 0" | "k = 1" | "k = 2" | "k = 3" by linarith
    then show ?thesis
      using x
      by cases (simp_all add: crc_generate_main_tables_def Let_def crc_table0_nth crc_next_entry
          funpow_8_8 numeral_3_eq_3 numeral_2_eq_2)
  qed
  then show ?thesis by (simp add: crc_rows_def)
qed

lemma tab_take: "crc_rows t \<Longrightarrow> k < 4 \<Longrightarrow> tab t k (take_bit 8 x) = (crc_shift ^^ (8 + 8 * k)) (take_bit 8 x)"
  by (simp add: tab_def crc_rows_def unat_take_bit_8)

section \<open>The loops compute the reference\<close>

lemma drop_bit_ucast_byte [simp]: "drop_bit 8 (ucast (b :: u8) :: u32) = 0"
  by (rule bit_word_eqI) (auto simp: bit_simps dest: bit_imp_le_length)

lemma drop_bit_24: "drop_bit 24 (x :: u32) = take_bit 8 (drop_bit 24 x)"
  by (rule bit_word_eqI) (auto simp: bit_simps dest: bit_imp_le_length)

lemma crc_one_byte_step: "crc_rows t \<Longrightarrow> crc_one_byte t crc b = crc_step b crc"
  using tab_take [of t 0 "crc XOR ucast b"]
  by (simp add: crc_one_byte_def crc_step_def and_ff crc_shifts_8 [of "crc XOR ucast b"]
      drop_bit_xor)

lemma bit_le_word_small: "length bs \<le> 3 \<Longrightarrow> bit (le_word bs :: u32) n \<Longrightarrow> n < 24"
  by (auto simp: bit_le_word)

lemma le_word_Cons_xor:
  "(le_word (b # bs) :: u32) = ucast b XOR push_bit 8 (le_word bs)"
proof (rule bit_word_eqI)
  fix n assume "n < LENGTH(32)"
  have "bit b n \<Longrightarrow> n < 8" using bit_imp_le_length [of b n] by auto
  then show "bit (le_word (b # bs) :: u32) n = bit (ucast b XOR push_bit 8 (le_word bs) :: u32) n"
    by (auto simp: bit_simps)
qed

lemma crc_raw_short:
  "length bs \<le> 4 \<Longrightarrow> crc_raw bs crc = (crc_shift ^^ (8 * length bs)) (crc XOR le_word bs)"
proof (induction bs arbitrary: crc)
  case (Cons b bs)
  let ?w = "le_word bs :: u32"
  have "(crc_shift ^^ 8) (push_bit 8 ?w) = drop_bit 8 (push_bit 8 ?w)"
    by (rule crc_shifts_clear) (simp add: bit_simps)
  also have "drop_bit 8 (push_bit 8 ?w) = ?w"
    by (rule bit_word_eqI) (use Cons.prems bit_le_word_small [of bs] in \<open>auto simp: bit_simps\<close>)
  finally have w: "(crc_shift ^^ 8) (push_bit 8 ?w) = ?w" .
  have "crc_raw (b # bs) crc = (crc_shift ^^ (8 * length bs)) (crc_step b crc XOR ?w)"
    using Cons.IH [of "crc_step b crc"] Cons.prems by (simp add: crc_raw_def)
  also have "crc_step b crc XOR ?w = (crc_shift ^^ 8) (crc XOR le_word (b # bs))"
    by (simp only: crc_step_def le_word_Cons_xor crc_shifts_xor w xor.assoc)
  finally show ?case
    by (simp add: funpow_add add.commute [of 8] del: le_word.simps)
qed (simp add: crc_raw_def)

lemma four_lookups:
  assumes "crc_rows t"
  shows "tab t 3 (x AND 0xff) XOR tab t 2 (drop_bit 8 x AND 0xff) XOR
    tab t 1 (drop_bit 16 x AND 0xff) XOR tab t 0 (drop_bit 24 x) = (crc_shift ^^ 32) x"
proof -
  have "tab t 0 (drop_bit 24 x) = (crc_shift ^^ 8) (drop_bit 24 x)"
    using tab_take [OF assms, of 0 "drop_bit 24 x"] by (simp flip: drop_bit_24)
  moreover have "(crc_shift ^^ 32) x =
      (crc_shift ^^ 32) (take_bit 8 x) XOR (crc_shift ^^ 24) (take_bit 8 (drop_bit 8 x)) XOR
      (crc_shift ^^ 16) (take_bit 8 (drop_bit 16 x)) XOR (crc_shift ^^ 8) (drop_bit 24 x)"
    using crc_shifts_add_8 [of 24 x] crc_shifts_add_8 [of 16 "drop_bit 8 x"]
      crc_shifts_add_8 [of 8 "drop_bit 16 x"]
    by (simp add: xor.assoc)
  ultimately show ?thesis
    using tab_take [OF assms, of 3 x] tab_take [OF assms, of 2 "drop_bit 8 x"]
      tab_take [OF assms, of 1 "drop_bit 16 x"]
    by (simp add: and_ff)
qed

lemma crc_four_bytes_raw:
  assumes "crc_rows t" and "length bs = 4"
  shows "crc_four_bytes t crc bs = crc_raw bs crc"
  using four_lookups [OF assms(1), of "crc XOR le_word bs"] crc_raw_short [of bs crc] assms(2)
  by (simp add: crc_four_bytes_def Let_def del: drop_bit_xor)

lemma crc_raw_append: "crc_raw (xs @ ys) crc = crc_raw ys (crc_raw xs crc)"
  by (simp add: crc_raw_def)

lemma crc_align_raw:
  "crc_rows t \<Longrightarrow> crc_align t addr crc block = (crc', rest) \<Longrightarrow> crc_raw rest crc' = crc_raw block crc"
  by (induction t addr crc block rule: crc_align.induct)
    (auto simp: crc_raw_def crc_one_byte_step split: if_splits)

lemma crc_eight_words_raw:
  assumes "crc_rows t" and "32 \<le> length block"
  shows "crc_eight_words t crc block = crc_raw (take 32 block) crc"
proof -
  have "fold (\<lambda>i crc. crc_four_bytes t crc (take 4 (drop (4 * i) block))) [0..<n] crc =
      crc_raw (take (4 * n) block) crc" if "n \<le> 8" for n
    using that
  proof (induction n)
    case (Suc n)
    have "take (4 * Suc n) block = take (4 * n) block @ take 4 (drop (4 * n) block)"
      by (simp add: take_add add.commute [of 4])
    moreover have "length (take 4 (drop (4 * n) block)) = 4"
      using Suc.prems assms(2) by simp
    ultimately show ?case
      using Suc by (simp add: crc_raw_append crc_four_bytes_raw [OF assms(1)])
  qed (simp add: crc_raw_def)
  from this [of 8] show ?thesis by (simp add: crc_eight_words_def)
qed

lemma crc_loop32_raw:
  "crc_rows t \<Longrightarrow> crc_loop32 t crc block = (crc', rest) \<Longrightarrow> crc_raw rest crc' = crc_raw block crc"
proof (induction t crc block rule: crc_loop32.induct)
  case (1 t crc block)
  have "crc_raw (drop 32 block) (crc_raw (take 32 block) crc) = crc_raw block crc"
    by (simp flip: crc_raw_append)
  then show ?case
    using 1 by (cases "32 \<le> length block")
      (simp_all add: crc_loop32.simps [of t crc block] crc_eight_words_raw)
qed

lemma crc_loop4_raw:
  "crc_rows t \<Longrightarrow> crc_loop4 t crc block = (crc', rest) \<Longrightarrow> crc_raw rest crc' = crc_raw block crc"
proof (induction t crc block rule: crc_loop4.induct)
  case (1 t crc block)
  have "crc_raw (drop 4 block) (crc_raw (take 4 block) crc) = crc_raw block crc"
    by (simp flip: crc_raw_append)
  then show ?case
    using 1 by (cases "4 \<le> length block")
      (simp_all add: crc_loop4.simps [of t crc block] crc_four_bytes_raw)
qed

lemma mycrc32_with_spec:
  assumes "crc_rows t"
  shows "mycrc32_with t addr crc block = crc32_spec crc block"
proof -
  have "fold (\<lambda>b crc. crc_one_byte t crc b) bs c = crc_raw bs c" for bs c
    by (simp add: crc_raw_def crc_one_byte_step [OF assms])
  then show ?thesis
    using crc_align_raw [OF assms] crc_loop32_raw [OF assms] crc_loop4_raw [OF assms]
    by (auto simp: mycrc32_with_def crc32_spec_def split: prod.splits)
qed

lemma mycrc32_correct_aux: "mycrc32 addr crc block = crc32_spec crc block"
  by (simp add: mycrc32_def mycrc32_with_spec crc_rows_main)

section \<open>Combining checksums\<close>

text \<open>
  \<^verbatim>\<open>crc_matrix_square\<close> and the table loop share one inner loop: walk down the rows of a
  matrix and XOR those whose bit is set in \<open>v\<close>, stopping when \<open>v\<close> is 0 or the rows end.
\<close>

fun xor_rows :: "u32 list \<Rightarrow> u32 \<Rightarrow> u32 \<Rightarrow> u32" where
  "xor_rows [] v s = s"
| "xor_rows (r # rs) v s =
     (if v = 0 then s else xor_rows rs (drop_bit 1 v) (if v AND 1 \<noteq> 0 then s XOR r else s))"

definition crc_matrix_square :: "u32 list \<Rightarrow> u32 list" where
  "crc_matrix_square m = map (\<lambda>i. xor_rows m (m ! i) 0) [0..<32]"

definition crc_bit_matrix :: "u32 list" where
  "crc_bit_matrix = CRC_POLY # map (\<lambda>i. push_bit i 1) [0..<31]"

text \<open>The pair is \<open>(m1, m2)\<close>; odd rounds overwrite \<open>m1\<close>, even rounds \<open>m2\<close>.\<close>

fun combine_matrices :: "nat \<Rightarrow> u32 list \<times> u32 list" where
  "combine_matrices 0 =
     (let m2 = crc_matrix_square crc_bit_matrix in (crc_matrix_square m2, m2))"
| "combine_matrices (Suc i) =
     (let (m1, m2) = combine_matrices i in
      if odd i then (crc_matrix_square m2, m2) else (m1, crc_matrix_square m1))"

definition combine_mc :: "nat \<Rightarrow> u32 list" where
  "combine_mc i =
     (if odd i then fst (combine_matrices (Suc i)) else snd (combine_matrices (Suc i)))"

definition crc_generate_combine_tables :: "u32 list list list" where
  "crc_generate_combine_tables =
     map (\<lambda>i. map (\<lambda>j. map (\<lambda>k. xor_rows (drop (j * 8) (combine_mc i)) (of_nat k) 0)
       [0..<256]) [0..<4]) [0..<32]"

definition combine_lookup :: "u32 list list \<Rightarrow> u32 \<Rightarrow> u32" where
  "combine_lookup t crc1 =
     tab t 3 (drop_bit 24 crc1) XOR tab t 2 (drop_bit 16 crc1 AND 0xff) XOR
     tab t 1 (drop_bit 8 crc1 AND 0xff) XOR tab t 0 (crc1 AND 0xff)"

lemma drop_bit_1_less: "l \<noteq> 0 \<Longrightarrow> unat (drop_bit 1 l :: u32) < unat l"
proof -
  assume "l \<noteq> 0"
  have "unat (drop_bit 1 l) = unat l div 2"
    by (simp only: unat_drop_bit_eq drop_bit_eq_div [where 'a = nat] power_one_right)
  moreover have "0 < unat l" using \<open>l \<noteq> 0\<close> by (simp add: unat_gt_0)
  ultimately show ?thesis by (simp only:)
qed

function combine_zeros :: "u32 list list list \<Rightarrow> nat \<Rightarrow> u32 \<Rightarrow> u32 \<Rightarrow> u32" where
  "combine_zeros t i leng2 crc1 =
     (if leng2 = 0 then crc1
      else combine_zeros t (i + 1) (drop_bit 1 leng2)
        (if leng2 AND 1 \<noteq> 0 then combine_lookup (t ! i) crc1 else crc1))"
  by pat_completeness auto
termination
  by (relation "measure (\<lambda>(t, i, leng2, crc1). unat leng2)")
    (auto simp: drop_bit_1_less simp del: One_nat_def)

declare combine_zeros.simps [simp del]

definition mycrc32_combine :: "u32 \<Rightarrow> u32 \<Rightarrow> u32 \<Rightarrow> u32" where
  "mycrc32_combine crc1 crc2 leng2 =
     combine_zeros crc_generate_combine_tables 0 leng2 crc1 XOR crc2"

definition mycrc32_zeroblock :: "u32 \<Rightarrow> u32 \<Rightarrow> u32" where
  "mycrc32_zeroblock crc zeros = mycrc32_combine (crc XOR 0xFFFFFFFF) 0xFFFFFFFF zeros"

definition mycrc32_zeroexpanded :: "nat \<Rightarrow> u32 \<Rightarrow> bytes \<Rightarrow> u32 \<Rightarrow> u32" where
  "mycrc32_zeroexpanded addr crc block zeros = mycrc32_zeroblock (mycrc32 addr crc block) zeros"

definition mycrc32_xorblocks :: "u32 \<Rightarrow> u32 \<Rightarrow> u32 \<Rightarrow> u32 \<Rightarrow> u32" where
  "mycrc32_xorblocks crc crcblock1 crcblock2 leng =
     crcblock1 XOR crcblock2 XOR mycrc32_zeroblock crc leng"

subsection \<open>Matrices over GF(2)\<close>

definition linear :: "(u32 \<Rightarrow> u32) \<Rightarrow> bool" where
  "linear f \<longleftrightarrow> (\<forall>x y. f (x XOR y) = f x XOR f y)"

lemma linear_0: "linear f \<Longrightarrow> f 0 = 0"
  unfolding linear_def by (metis xor_self_eq)

lemma linear_shifts: "linear (crc_shift ^^ n)"
  by (simp add: linear_def crc_shifts_xor)

lemma linear_push: "linear f \<Longrightarrow> linear (\<lambda>x. f (push_bit n x))"
  by (simp add: linear_def push_bit_xor)

lemma split_bit_0: "(v :: u32) = (if bit v 0 then 1 else 0) XOR push_bit 1 (drop_bit 1 v)"
  by (rule bit_word_eqI) (auto simp: bit_simps bit_1_iff simp del: push_bit_Suc One_nat_def,
      metis less_one not_le)

lemma xor_rows_linear:
  assumes "linear f" and "\<And>j. j < length m \<Longrightarrow> m ! j = f (push_bit j 1)"
    and "\<And>n. bit v n \<Longrightarrow> n < length m"
  shows "xor_rows m v s = s XOR f v"
  using assms
proof (induction m arbitrary: f v s)
  case Nil
  then have "v = 0" by (intro bit_word_eqI) auto
  with Nil show ?case by (simp add: linear_0)
next
  case (Cons r rs)
  let ?g = "\<lambda>x. f (push_bit 1 x)"
  have r: "r = f 1" using Cons.prems(2) [of 0] by simp
  have IH: "xor_rows rs (drop_bit 1 v) s' = s' XOR ?g (drop_bit 1 v)" for s'
  proof (rule Cons.IH)
    show "linear ?g" by (rule linear_push) (rule Cons.prems)
    show "rs ! j = ?g (push_bit j 1)" if "j < length rs" for j
      using Cons.prems(2) [of "Suc j"] that
      by (simp add: push_bit_push_bit plus_1_eq_Suc del: push_bit_Suc One_nat_def push_bit_of_1)
    show "n < length rs" if "bit (drop_bit 1 v) n" for n
      using Cons.prems(3) [of "Suc n"] that by (simp add: bit_simps)
  qed
  have "f v = (if bit v 0 then f 1 else 0) XOR ?g (drop_bit 1 v)"
    using Cons.prems(1) linear_0 [OF Cons.prems(1)]
    by (subst split_bit_0) (simp add: linear_def)
  then show ?case
    using IH linear_0 [OF Cons.prems(1)] by (auto simp: and_1_neq_0 r xor.assoc)
qed

definition is_matrix :: "u32 list \<Rightarrow> (u32 \<Rightarrow> u32) \<Rightarrow> bool" where
  "is_matrix m f \<longleftrightarrow> length m = 32 \<and> (\<forall>i < 32. m ! i = f (push_bit i 1))"

lemma bit_less_32: "bit (v :: u32) n \<Longrightarrow> n < 32"
  using bit_imp_le_length [of v n] by simp

lemma is_matrix_square:
  assumes "is_matrix m f" and "linear f"
  shows "is_matrix (crc_matrix_square m) (f \<circ> f)"
  using assms xor_rows_linear [of f m]
  by (simp add: is_matrix_def crc_matrix_square_def bit_less_32 del: upt_Suc)

lemma is_matrix_square_shifts:
  "is_matrix m (crc_shift ^^ n) \<Longrightarrow> is_matrix (crc_matrix_square m) (crc_shift ^^ (2 * n))"
  using is_matrix_square [of m "crc_shift ^^ n"] by (simp add: linear_shifts mult_2 funpow_add)

lemma crc_shift_push: "i < 31 \<Longrightarrow> crc_shift (push_bit (Suc i) 1) = push_bit i 1"
proof -
  assume "i < 31"
  then have "drop_bit 1 (push_bit (Suc i) (1 :: u32)) = push_bit i 1"
    by (intro bit_word_eqI) (auto simp: bit_simps bit_1_iff simp del: push_bit_Suc One_nat_def push_bit_of_1)
  moreover have "\<not> bit (push_bit (Suc i) (1 :: u32)) 0"
    by (simp add: bit_simps del: push_bit_Suc push_bit_of_1)
  ultimately show ?thesis
    by (simp only: crc_shift_bit if_False)
qed

lemma is_matrix_bit: "is_matrix crc_bit_matrix (crc_shift ^^ 1)"
proof -
  have "crc_bit_matrix ! i = crc_shift (push_bit i 1)" if "i < 32" for i
  proof (cases i)
    case 0
    then show ?thesis by (simp add: crc_bit_matrix_def crc_shift_bit)
  next
    case (Suc n)
    with that have "crc_bit_matrix ! i = push_bit n 1" and "n < 31"
      by (simp_all add: crc_bit_matrix_def del: upt_Suc)
    then show ?thesis by (simp only: Suc crc_shift_push)
  qed
  then show ?thesis by (simp add: is_matrix_def) (simp add: crc_bit_matrix_def)
qed

lemma combine_matrices_inv:
  "is_matrix (if even i then fst (combine_matrices i) else snd (combine_matrices i))
     (crc_shift ^^ (4 * 2 ^ i))"
proof (induction i)
  case 0
  show ?case
    using is_matrix_square_shifts [OF is_matrix_square_shifts [OF is_matrix_bit]]
    by (simp add: Let_def)
next
  case (Suc i)
  then show ?case
    using is_matrix_square_shifts [where n = "4 * 2 ^ i"]
    by (cases "even i") (auto simp: split_beta mult.left_commute)
qed

lemma combine_mc_matrix: "is_matrix (combine_mc i) (crc_shift ^^ (8 * 2 ^ i))"
  using combine_matrices_inv [of "Suc i"] by (simp add: combine_mc_def)

lemma combine_table_entry:
  assumes "i < 32" and "j < 4" and "unat k < 256"
  shows "tab (crc_generate_combine_tables ! i) j k = (crc_shift ^^ (8 * 2 ^ i)) (push_bit (8 * j) k)"
proof -
  let ?f = "\<lambda>x. (crc_shift ^^ (8 * 2 ^ i)) (push_bit (8 * j) x)"
  have m: "length (combine_mc i) = 32"
    "\<And>n. n < 32 \<Longrightarrow> combine_mc i ! n = (crc_shift ^^ (8 * 2 ^ i)) (push_bit n 1)"
    using combine_mc_matrix [of i] by (simp_all add: is_matrix_def)
  have "k = take_bit 8 k"
    using assms(3) by (intro unsigned_word_eqI [where 'a = nat]) (simp add: unsigned_take_bit_eq take_bit_nat_eq_self)
  then have bits: "n < 8" if "bit k n" for n
    using that by (metis bit_take_bit_iff)
  have "xor_rows (drop (8 * j) (combine_mc i)) k 0 = 0 XOR ?f k"
  proof (rule xor_rows_linear)
    show "linear ?f" by (rule linear_push [OF linear_shifts])
    show "drop (8 * j) (combine_mc i) ! n = ?f (push_bit n 1)"
      if "n < length (drop (8 * j) (combine_mc i))" for n
      using that m by (simp add: push_bit_push_bit del: push_bit_of_1)
    show "n < length (drop (8 * j) (combine_mc i))" if "bit k n" for n
      using bits [OF that] m(1) assms(2) by simp
  qed
  then show ?thesis
    using assms by (simp add: tab_def crc_generate_combine_tables_def mult.commute del: upt_Suc)
qed

lemma combine_lookup_shift:
  assumes "i < 32"
  shows "combine_lookup (crc_generate_combine_tables ! i) x = (crc_shift ^^ (8 * 2 ^ i)) x"
proof -
  let ?f = "crc_shift ^^ (8 * 2 ^ i)"
  let ?b = "\<lambda>n. take_bit 8 (drop_bit n x)"
  have "x = push_bit 24 (?b 24) XOR push_bit 16 (?b 16) XOR push_bit 8 (?b 8) XOR ?b 0"
  proof (rule bit_word_eqI)
    fix n assume "n < LENGTH(32)"
    then show "bit x n =
        bit (push_bit 24 (?b 24) XOR push_bit 16 (?b 16) XOR push_bit 8 (?b 8) XOR ?b 0) n"
      by (cases "n < 8"; cases "n < 16"; cases "n < 24") (simp_all add: bit_simps less_diff_conv2)
  qed
  then have "?f x = ?f (push_bit 24 (?b 24)) XOR ?f (push_bit 16 (?b 16)) XOR
      ?f (push_bit 8 (?b 8)) XOR ?f (?b 0)"
    by (metis crc_shifts_xor)
  then show ?thesis
    using combine_table_entry [OF assms, of 3 "?b 24"] combine_table_entry [OF assms, of 2 "?b 16"]
      combine_table_entry [OF assms, of 1 "?b 8"] combine_table_entry [OF assms, of 0 "?b 0"]
    using unat_take_bit_8 [of "drop_bit 24 x"]
    by (simp add: combine_lookup_def and_ff unat_take_bit_8 flip: drop_bit_24)
qed

lemma combine_zeros_shift:
  "i \<le> 32 \<Longrightarrow> unat l < 2 ^ (32 - i) \<Longrightarrow>
     combine_zeros crc_generate_combine_tables i l crc = (crc_shift ^^ (8 * 2 ^ i * unat l)) crc"
proof (induction "unat l" arbitrary: i l crc rule: less_induct)
  case less
  show ?case
  proof (cases "l = 0")
    case True
    then show ?thesis by (simp add: combine_zeros.simps)
  next
    case False
    let ?h = "drop_bit 1 l"
    have h: "unat ?h = unat l div 2"
      by (simp only: unat_drop_bit_eq drop_bit_eq_div [where 'a = nat] power_one_right)
    have odd: "bit l 0 \<longleftrightarrow> odd (unat l)"
      by (simp add: bit_0 bit_unsigned_iff flip: bit_0)
    have i: "i < 32"
      using less.prems False by (cases "i = 32") (auto simp: unat_eq_0)
    then have "unat ?h < 2 ^ (32 - (i + 1))"
      using less.prems(2) h by (simp add: less_mult_imp_div_less flip: power_Suc2 Suc_diff_Suc)
    then have IH: "combine_zeros crc_generate_combine_tables (i + 1) ?h c =
        (crc_shift ^^ (8 * 2 ^ (i + 1) * unat ?h)) c" for c
      using less.hyps [of ?h "i + 1" c] drop_bit_1_less [OF False] i by simp
    have "8 * 2 ^ i * unat l =
        8 * 2 ^ (i + 1) * unat ?h + (if bit l 0 then 8 * 2 ^ i else 0)"
      unfolding h odd by (auto simp: algebra_simps elim!: oddE evenE)
    then show ?thesis
      using IH False i
      by (simp add: combine_zeros.simps [of _ i l crc] and_1_neq_0 combine_lookup_shift funpow_add)
  qed
qed

lemma combine_zeros_main:
  "combine_zeros crc_generate_combine_tables 0 l crc = (crc_shift ^^ (8 * unat l)) crc"
  using combine_zeros_shift [of 0 l crc] unsigned_less [of l] by simp

lemma crc_raw_xor:
  "crc_raw bs (x XOR y) = crc_raw bs x XOR (crc_shift ^^ (8 * length bs)) y"
proof (induction bs arbitrary: x y)
  case (Cons b bs)
  have "crc_step b (x XOR y) = crc_step b x XOR (crc_shift ^^ 8) y"
    by (simp add: crc_step_def crc_shifts_xor xor.assoc xor.left_commute xor.commute)
  then show ?case
    using Cons.IH by (simp add: crc_raw_def funpow_add add.commute [of 8])
qed (simp add: crc_raw_def)

lemma crc_raw_zeros: "crc_raw (replicate n 0) x = (crc_shift ^^ (8 * n)) x"
proof -
  have "crc_raw (replicate n 0) 0 = 0"
    by (induction n) (simp_all add: crc_raw_def crc_step_def)
  then show ?thesis using crc_raw_xor [of "replicate n 0" 0 x] by simp
qed

section \<open>Error detection\<close>

text \<open>The top bit of the polynomial is set, so a shift step loses no information.\<close>

lemma crc_shift_eq_0: "crc_shift x = 0 \<longleftrightarrow> x = 0"
proof
  assume z: "crc_shift x = 0"
  have "bit CRC_POLY 31" by (simp add: CRC_POLY_def)
  moreover have "\<not> bit (drop_bit 1 x) 31" using bit_less_32 [of x 32] by (auto simp: bit_simps)
  ultimately have "\<not> bit x 0"
    using z by (auto simp: crc_shift_bit bit_xor_iff dest!: arg_cong [where f = "\<lambda>w. bit w 31"])
  with z have "drop_bit 1 x = 0" by (simp add: crc_shift_bit)
  have "x = (if bit x 0 then 1 else 0) XOR push_bit 1 (drop_bit 1 x)"
    by (rule split_bit_0)
  also have "\<dots> = 0"
    by (simp only: \<open>\<not> bit x 0\<close> \<open>drop_bit 1 x = 0\<close> if_False push_bit_of_0 xor_self_eq)
  finally show "x = 0" .
qed simp

lemma crc_shifts_eq_0: "(crc_shift ^^ n) x = 0 \<longleftrightarrow> x = 0"
  by (induction n) (simp_all add: crc_shift_eq_0)

lemma xor_left_cancel: "x XOR y = x XOR z \<longleftrightarrow> y = (z :: u32)"
  by (metis xor.assoc xor.left_neutral xor_self_eq)

lemma xor_right_cancel: "y XOR x = z XOR x \<longleftrightarrow> y = (z :: u32)"
  by (simp only: xor.commute [of _ x] xor_left_cancel)

lemma xor_shared: "(p XOR q) XOR ((a XOR q) XOR f) = (a XOR p) XOR (f :: u32)"
  by (rule bit_word_eqI) (auto simp: bit_simps)

lemma xor_eq_0_iff: "x XOR y = 0 \<longleftrightarrow> x = (y :: u32)"
  using xor_left_cancel [of x y x] by (simp only: xor_self_eq) auto

lemma crc_shifts_inj: "(crc_shift ^^ n) x = (crc_shift ^^ n) y \<longleftrightarrow> x = y"
  using crc_shifts_eq_0 [of n "x XOR y"] by (simp only: crc_shifts_xor xor_eq_0_iff)

lemma crc_raw_from_0: "crc_raw bs x = crc_raw bs 0 XOR (crc_shift ^^ (8 * length bs)) x"
  using crc_raw_xor [of bs 0 x] by simp

lemma crc_raw_inj: "crc_raw bs x = crc_raw bs y \<longleftrightarrow> x = y"
  by (simp only: crc_raw_from_0 [of bs x] crc_raw_from_0 [of bs y] xor_left_cancel crc_shifts_inj)

lemma le_word_inj:
  assumes "length bs = length cs" and "length bs \<le> 4" and "(le_word bs :: u32) = le_word cs"
  shows "bs = cs"
proof (rule nth_equalityI)
  fix i assume i: "i < length bs"
  show "bs ! i = cs ! i"
  proof (rule bit_word_eqI)
    fix j assume "j < LENGTH(8)"
    then have "(8 * i + j) div 8 = i" "(8 * i + j) mod 8 = j" "8 * i + j < 32"
      using i assms(2) by auto
    then show "bit (bs ! i) j = bit (cs ! i) j"
      using arg_cong [OF assms(3), of "\<lambda>w. bit w (8 * i + j)"] i assms(1)
      by (simp add: bit_le_word)
  qed
qed (rule assms)

section \<open>Properties\<close>

text \<open>C28: The table-driven, four-bytes-at-a-time \<^verbatim>\<open>mycrc32\<close>, with the tables that
  \<^verbatim>\<open>mycrc32_init\<close> builds and whatever the alignment of the block in memory, computes the
  bit-at-a-time CRC-32 that the source documents as the original code.\<close>

theorem mycrc32_correct: "mycrc32 addr crc block = crc32_spec crc block"
  by (simp add: mycrc32_def mycrc32_with_spec crc_rows_main)

text \<open>\<^verbatim>\<open>mycrc32_combine\<close> gives the checksum of a concatenation from the checksums of
  the two parts and the length of the second, for every second part of less than 4 GiB.\<close>

theorem mycrc32_combine_append:
  assumes "length ys < 2 ^ 32"
  shows "mycrc32_combine (mycrc32 a crc xs) (mycrc32 b 0 ys) (of_nat (length ys)) =
    mycrc32 c crc (xs @ ys)"
proof -
  let ?F = "0xFFFFFFFF :: u32"
  let ?z = "crc_shift ^^ (8 * length ys)"
  have n: "unat (of_nat (length ys) :: u32) = length ys"
    using assms by (simp add: unat_of_nat)
  have "mycrc32_combine (mycrc32 a crc xs) (mycrc32 b 0 ys) (of_nat (length ys)) =
      (?z (crc_raw xs (crc XOR ?F)) XOR ?z ?F) XOR ((crc_raw ys 0 XOR ?z ?F) XOR ?F)"
    by (simp only: mycrc32_combine_def combine_zeros_main n mycrc32_correct_aux crc32_spec_def
        crc_shifts_xor crc_raw_from_0 [of ys ?F] xor.left_neutral)
  also have "\<dots> = crc_raw ys (crc_raw xs (crc XOR ?F)) XOR ?F"
    by (simp only: xor_shared crc_raw_from_0 [of ys "crc_raw xs (crc XOR ?F)"])
  finally show ?thesis
    by (simp only: mycrc32_correct_aux crc32_spec_def crc_raw_append)
qed

theorem mycrc32_combine_append_witness:
  "mycrc32_combine (mycrc32 3 0 [1, 2]) (mycrc32 1 0 [3, 4, 5]) 3 = mycrc32 0 0 [1, 2, 3, 4, 5]"
  using mycrc32_combine_append [of "[3, 4, 5]" 3 0 "[1, 2]" 1 0] by simp

lemma crc_burst:
  assumes "length bs = length cs" and "length bs \<le> 4" and "bs \<noteq> cs"
  shows "mycrc32 a crc (xs @ bs @ ys) \<noteq> mycrc32 b crc (xs @ cs @ ys)"
proof
  let ?c = "crc_raw xs (crc XOR 0xFFFFFFFF)"
  assume "mycrc32 a crc (xs @ bs @ ys) = mycrc32 b crc (xs @ cs @ ys)"
  then have "crc_raw bs ?c = crc_raw cs ?c"
    by (simp only: mycrc32_correct_aux crc32_spec_def crc_raw_append crc_raw_inj xor_right_cancel)
  then have "?c XOR le_word bs = ?c XOR le_word cs"
    using assms(1,2) by (simp add: crc_raw_short crc_shifts_inj)
  then have "(le_word bs :: u32) = le_word cs"
    by (simp only: xor_left_cancel)
  with le_word_inj [OF assms(1,2)] assms(3) show False by simp
qed

text \<open>Any corruption confined to four consecutive bytes changes the checksum: a block that
  differs from the original only there has a different \<^verbatim>\<open>mycrc32\<close>.\<close>

lemma mycrc32_detects_burst:
  assumes "length bs = length cs" and "length bs \<le> 4" and "bs \<noteq> cs"
  shows "mycrc32 a crc (xs @ bs @ ys) \<noteq> mycrc32 b crc (xs @ cs @ ys)"
  using assms by (rule crc_burst)

theorem mycrc32_detects_burst_witness:
  "mycrc32 0 0 ([9] @ [1, 2] @ [8, 7]) \<noteq> mycrc32 2 0 ([9] @ [1, 3] @ [8, 7])"
  by (rule mycrc32_detects_burst) simp_all

text \<open>\<^verbatim>\<open>mycrc32_zeroexpanded\<close> of a block is the checksum of the block followed by that
  many zero bytes, and \<^verbatim>\<open>mycrc32_xorblocks\<close> is the checksum of the XOR of two blocks
  of that length, both computed without touching the data again.\<close>

theorem mycrc32_zero_and_xor_macros:
  "mycrc32_zeroexpanded a crc block zeros =
     mycrc32 b crc (block @ replicate (unat zeros) 0) \<and>
   (length xs = length ys \<and> length xs = unat n \<longrightarrow>
     mycrc32_xorblocks crc (mycrc32 a crc xs) (mycrc32 b crc ys) n =
     mycrc32 c crc (map2 (XOR) xs ys))"
proof -
  let ?F = "0xFFFFFFFF :: u32"
  have zeroblock: "mycrc32_zeroblock c z = (crc_shift ^^ (8 * unat z)) (c XOR ?F) XOR ?F" for c z
    by (simp add: mycrc32_zeroblock_def mycrc32_combine_def combine_zeros_main)
  have xor2: "crc_raw (map2 (XOR) us vs) (x XOR y) = crc_raw us x XOR crc_raw vs y"
    if "length us = length vs" for us vs :: bytes and x y
    using that
  proof (induction us vs arbitrary: x y rule: list_induct2)
    case (Cons u us v vs)
    have "ucast (u XOR v) = (ucast u XOR ucast v :: u32)"
      by (rule bit_word_eqI) (auto simp: bit_simps)
    then have "crc_step (u XOR v) (x XOR y) = crc_step u x XOR crc_step v y"
      by (simp add: crc_step_def crc_shifts_xor xor.assoc xor.left_commute xor.commute)
    then show ?case using Cons.IH by (simp add: crc_raw_def)
  qed (simp add: crc_raw_def)
  show ?thesis
  proof (intro conjI impI)
    show "mycrc32_zeroexpanded a crc block zeros = mycrc32 b crc (block @ replicate (unat zeros) 0)"
      by (simp add: mycrc32_zeroexpanded_def zeroblock mycrc32_correct_aux crc32_spec_def
          crc_raw_append crc_raw_zeros xor.assoc)
  next
    assume l: "length xs = length ys \<and> length xs = unat n"
    have "crc_raw (map2 (XOR) xs ys) ((crc XOR ?F) XOR 0) =
        crc_raw xs (crc XOR ?F) XOR crc_raw ys 0"
      using l by (intro xor2) simp
    moreover have "length ys = unat n" using l by simp
    then have "crc_raw ys (crc XOR ?F) = crc_raw ys 0 XOR (crc_shift ^^ (8 * unat n)) (crc XOR ?F)"
      using crc_raw_from_0 [of ys "crc XOR ?F"] by (simp only:)
    ultimately show "mycrc32_xorblocks crc (mycrc32 a crc xs) (mycrc32 b crc ys) n =
        mycrc32 c crc (map2 (XOR) xs ys)"
      by (simp add: mycrc32_xorblocks_def zeroblock mycrc32_correct_aux crc32_spec_def
          xor.assoc xor.left_commute xor.commute)
  qed
qed

theorem mycrc32_zero_and_xor_macros_witness:
  "mycrc32_zeroexpanded 0 0 [1, 2] 2 = mycrc32 0 0 [1, 2, 0, 0] \<and>
   mycrc32_xorblocks 5 (mycrc32 0 5 [1, 2]) (mycrc32 0 5 [3, 3]) 2 = mycrc32 0 5 [2, 1]"
proof -
  have u: "unat (2 :: u32) = Suc (Suc 0)"
    by simp
  have r: "replicate (unat (2 :: u32)) (0 :: u8) = [0, 0]"
    by (simp only: u replicate.simps)
  have x: "map2 (XOR) [1, 2] [3, 3] = [2, 1 :: u8]"
    by simp
  have l: "length [1, 2 :: u8] = length [3, 3 :: u8] \<and> length [1, 2 :: u8] = unat (2 :: u32)"
    by simp
  show ?thesis
    using mycrc32_zero_and_xor_macros [of 0 0 "[1, 2]" 2 0 "[]" "[]" 0 0, THEN conjunct1]
      mycrc32_zero_and_xor_macros [of 0 5 "[]" 0 0 "[1, 2]" "[3, 3]" 2 0, THEN conjunct2, THEN mp, OF l]
    by (simp only: r x append.simps)
qed

end
