(* ===== verification/Base64.thy ===== *)
theory Base64
  imports SyncPrelude
begin

text \<open>
  The body codec, \<^verbatim>\<open>src/Common/include/Base64.hpp\<close>: both the \<^verbatim>\<open>std::string\<close> and the
  \<^verbatim>\<open>char *\<close> versions of encoder and decoder, with the C \<^verbatim>\<open>int\<close> lengths of the code and a
  fault for each write outside the output, and the proof that decoding undoes encoding.
\<close>

section \<open>Sextets\<close>

definition kBase64Alphabet :: "u8 list" where
  "kBase64Alphabet = map (\<lambda>c. of_nat (of_char c))
     ''ABCDEFGHIJKLMNOPQRSTUVWXYZabcdefghijklmnopqrstuvwxyz0123456789+/''"

definition ch_eq :: u8 where
  "ch_eq = 61"

text \<open>The \<^verbatim>\<open>unsigned char\<close> arrays \<^verbatim>\<open>a3\<close> and \<^verbatim>\<open>a4\<close> are lists; a C assignment truncates to 8 bits.\<close>

fun a3_to_a4 :: "bytes \<Rightarrow> bytes" where
  "a3_to_a4 [a, b, c] =
     [drop_bit 2 (a AND 0xfc),
      push_bit 4 (a AND 0x03) + drop_bit 4 (b AND 0xf0),
      push_bit 2 (b AND 0x0f) + drop_bit 6 (c AND 0xc0),
      c AND 0x3f]"
| "a3_to_a4 _ = []"

fun a4_to_a3 :: "bytes \<Rightarrow> bytes" where
  "a4_to_a3 [a, b, c, d] =
     [push_bit 2 a + drop_bit 4 (b AND 0x30),
      push_bit 4 (b AND 0xf) + drop_bit 2 (c AND 0x3c),
      push_bit 6 (c AND 0x3) + d]"
| "a4_to_a3 _ = []"

definition b64_lookup :: "u8 \<Rightarrow> u8" where
  "b64_lookup c =
     (if c \<ge> 65 \<and> c \<le> 90 then c - 65
      else if c \<ge> 97 \<and> c \<le> 122 then c - 71
      else if c \<ge> 48 \<and> c \<le> 57 then c + 4
      else if c = 43 then 62
      else if c = 47 then 63
      else 255)"

definition b64_char :: "u8 \<Rightarrow> u8" where
  "b64_char x = kBase64Alphabet ! unat x"

section \<open>Lengths\<close>

text \<open>Conversion to a C \<^verbatim>\<open>int\<close> (32 bits, two's complement).\<close>

definition to_int32 :: "int \<Rightarrow> int" where
  "to_int32 x = (x + 2 ^ 31) mod 2 ^ 32 - 2 ^ 31"

lemma to_int32_small: "- (2 ^ 31) \<le> x \<Longrightarrow> x < 2 ^ 31 \<Longrightarrow> to_int32 x = x"
  by (simp add: to_int32_def)

definition EncodedLength :: "nat \<Rightarrow> int" where
  "EncodedLength len = to_int32 (int ((len + 2 - (len + 2) mod 3) div 3 * 4))"

text \<open>
  Counting the trailing \<^verbatim>\<open>'='\<close> has no lower bound in the code: on a text of \<^verbatim>\<open>'='\<close> only,
  the empty one included, it reads before the buffer.
\<close>

definition trailing_eq :: "bytes \<Rightarrow> int outcome" where
  "trailing_eq inp =
     (if \<forall>c \<in> set inp. c = ch_eq then Abort Out_of_bounds
      else Done (int (length (takeWhile (\<lambda>c. c = ch_eq) (rev inp)))))"

text \<open>The \<^verbatim>\<open>std::string\<close> version multiplies in \<^verbatim>\<open>int\<close>, the \<^verbatim>\<open>char *\<close> version in \<^verbatim>\<open>size_t\<close>.\<close>

definition DecodedLength_str :: "bytes \<Rightarrow> int outcome" where
  "DecodedLength_str inp =
     obind (trailing_eq inp) (\<lambda>numEq.
     let n = to_int32 (int (length inp)) in
     if \<not> (- (2 ^ 31) \<le> 6 * n \<and> 6 * n < 2 ^ 31) then Abort Signed_overflow
     else Done (sgn n * (6 * \<bar>n\<bar> div 8) - numEq))"

definition DecodedLength_ptr :: "bytes \<Rightarrow> int outcome" where
  "DecodedLength_ptr inp =
     obind (trailing_eq inp) (\<lambda>numEq.
     Done (to_int32 (int (6 * length inp div 8) - numEq)))"

section \<open>Output\<close>

text \<open>
  The output area has \<open>cap\<close> bytes; \<open>out\<close> holds what has been written from its start.
\<close>

definition put :: "nat \<Rightarrow> bytes \<Rightarrow> bytes \<Rightarrow> bytes outcome" where
  "put cap d out = (if length out + length d \<le> cap then Done (out @ d) else Abort Out_of_bounds)"

text \<open>\<^verbatim>\<open>std::string::resize\<close> throws on a size that is negative as an \<^verbatim>\<open>int\<close>.\<close>

definition resize_to :: "int \<Rightarrow> nat outcome" where
  "resize_to n = (if n < 0 then Abort Length_error else Done (nat n))"

text \<open>\<^verbatim>\<open>int input_len = in.size()\<close>: a negative count never reaches 0 before the input ends.\<close>

definition int_input :: "bytes \<Rightarrow> bytes outcome" where
  "int_input inp =
     (let n = to_int32 (int (length inp)) in
      if n < 0 then Abort Out_of_bounds else Done (take (nat n) inp))"

section \<open>Encoder\<close>

text \<open>\<open>a3\<close> holds the \<open>i\<close> bytes read since the last full group.\<close>

fun enc_loop :: "nat \<Rightarrow> bytes \<Rightarrow> bytes \<Rightarrow> bytes \<Rightarrow> (bytes \<times> bytes) outcome" where
  "enc_loop cap [] a3 out = Done (a3, out)"
| "enc_loop cap (x # input) a3 out =
     (let a3' = a3 @ [x] in
      if length a3' = 3
      then obind (put cap (map b64_char (a3_to_a4 a3')) out) (\<lambda>out'. enc_loop cap input [] out')
      else enc_loop cap input a3' out)"

definition enc_tail :: "nat \<Rightarrow> bytes \<times> bytes \<Rightarrow> bytes outcome" where
  "enc_tail cap p =
     (let (a3, out) = p; i = length a3 in
      if i = 0 then Done out
      else let a4 = a3_to_a4 (a3 @ replicate (3 - i) 0) in
        obind (put cap (map b64_char (take (i + 1) a4)) out) (\<lambda>out'.
        put cap (replicate (3 - i) ch_eq) out'))"

text \<open>The result is the returned \<^verbatim>\<open>bool\<close> and the output string (unwritten bytes are zero).\<close>

definition Encode_str :: "bytes \<Rightarrow> (bool \<times> bytes) outcome" where
  "Encode_str inp =
     obind (resize_to (EncodedLength (length inp))) (\<lambda>cap.
     obind (int_input inp) (\<lambda>input.
     obind (obind (enc_loop cap input [] []) (enc_tail cap)) (\<lambda>out.
     Done (length out = cap, out @ replicate (cap - length out) 0))))"

text \<open>
  The pointer version; \<open>out_length\<close> is the size of the caller's buffer. The \<^verbatim>\<open>int\<close>
  length is compared as \<^verbatim>\<open>size_t\<close>, where a negative value exceeds every buffer size.
\<close>

definition Encode_ptr :: "bytes \<Rightarrow> nat \<Rightarrow> (bool \<times> bytes) outcome" where
  "Encode_ptr inp out_length =
     (let encoded_length = EncodedLength (length inp) in
      if int out_length < encoded_length \<or> encoded_length < 0 then Done (False, [])
      else obind (obind (enc_loop out_length inp [] []) (enc_tail out_length)) (\<lambda>out.
        Done (int (length out) = encoded_length, out)))"

section \<open>Decoder\<close>

fun dec_loop :: "nat \<Rightarrow> bytes \<Rightarrow> bytes \<Rightarrow> bytes \<Rightarrow> (bytes \<times> bytes) outcome" where
  "dec_loop cap [] a4 out = Done (a4, out)"
| "dec_loop cap (x # input) a4 out =
     (if x = ch_eq then Done (a4, out)
      else let a4' = a4 @ [x] in
        if length a4' = 4
        then obind (put cap (a4_to_a3 (map b64_lookup a4')) out) (\<lambda>out'. dec_loop cap input [] out')
        else dec_loop cap input a4' out)"

definition dec_tail :: "nat \<Rightarrow> bytes \<times> bytes \<Rightarrow> bytes outcome" where
  "dec_tail cap p =
     (let (a4, out) = p; i = length a4 in
      if i = 0 then Done out
      else put cap (take (i - 1) (a4_to_a3 (map b64_lookup (a4 @ replicate (4 - i) 0)))) out)"

definition Decode_str :: "bytes \<Rightarrow> (bool \<times> bytes) outcome" where
  "Decode_str inp =
     obind (obind (DecodedLength_str inp) resize_to) (\<lambda>cap.
     obind (int_input inp) (\<lambda>input.
     obind (obind (dec_loop cap input [] []) (dec_tail cap)) (\<lambda>out.
     Done (length out = cap, out @ replicate (cap - length out) 0))))"

definition Decode_ptr :: "bytes \<Rightarrow> nat \<Rightarrow> (bool \<times> bytes) outcome" where
  "Decode_ptr inp out_length =
     obind (DecodedLength_ptr inp) (\<lambda>decoded_length.
     if int out_length < decoded_length \<or> decoded_length < 0 then Done (False, [])
     else obind (obind (dec_loop out_length inp [] []) (dec_tail out_length)) (\<lambda>out.
       Done (int (length out) = decoded_length, out)))"

definition StripPadding :: "bytes \<Rightarrow> bytes" where
  "StripPadding s = rev (dropWhile (\<lambda>c. c = ch_eq) (rev s))"

section \<open>Reference encoding\<close>

fun b64_spec :: "bytes \<Rightarrow> bytes" where
  "b64_spec [] = []"
| "b64_spec [a] = map b64_char (take 2 (a3_to_a4 [a, 0, 0])) @ [ch_eq, ch_eq]"
| "b64_spec [a, b] = map b64_char (take 3 (a3_to_a4 [a, b, 0])) @ [ch_eq]"
| "b64_spec (a # b # c # xs) = map b64_char (a3_to_a4 [a, b, c]) @ b64_spec xs"

section \<open>Sextet arithmetic\<close>

lemma bit_index_8:
  "n < LENGTH(8) \<Longrightarrow> n = 0 \<or> n = 1 \<or> n = 2 \<or> n = 3 \<or> n = 4 \<or> n = 5 \<or> n = 6 \<or> n = 7"
  by auto

lemma sextet_or:
  fixes a b c :: u8
  shows "push_bit 4 (a AND 3) + drop_bit 4 (b AND 0xf0) = push_bit 4 (a AND 3) OR drop_bit 4 (b AND 0xf0)"
    and "push_bit 2 (b AND 0x0f) + drop_bit 6 (c AND 0xc0) = push_bit 2 (b AND 0x0f) OR drop_bit 6 (c AND 0xc0)"
  by (rule disjunctive_add_eq_or, rule bit_word_eqI, drule bit_index_8,
      elim disjE; simp add: bit_simps)+

lemma octet_or:
  fixes a b c d :: u8
  shows "push_bit 2 a + drop_bit 4 (b AND 0x30) = push_bit 2 a OR drop_bit 4 (b AND 0x30)"
    and "push_bit 4 (b AND 0xf) + drop_bit 2 (c AND 0x3c) = push_bit 4 (b AND 0xf) OR drop_bit 2 (c AND 0x3c)"
    and "push_bit 6 (c AND 0x3) + (d AND 0x3f) = push_bit 6 (c AND 0x3) OR (d AND 0x3f)"
  by (rule disjunctive_add_eq_or, rule bit_word_eqI, drule bit_index_8,
      elim disjE; simp add: bit_simps)+

lemma octet_1: "push_bit 2 (drop_bit 2 (a AND 0xfc)) OR
    drop_bit 4 ((push_bit 4 (a AND 3) OR drop_bit 4 (b AND 0xf0)) AND 0x30) = (a :: u8)"
  by (rule bit_word_eqI, drule bit_index_8, elim disjE; simp add: bit_simps)

lemma octet_2: "push_bit 4 ((push_bit 4 (a AND 3) OR drop_bit 4 (b AND 0xf0)) AND 0xf) OR
    drop_bit 2 ((push_bit 2 (b AND 0x0f) OR drop_bit 6 (c AND 0xc0)) AND 0x3c) = (b :: u8)"
  by (rule bit_word_eqI, drule bit_index_8, elim disjE; simp add: bit_simps)

lemma octet_3: "push_bit 6 ((push_bit 2 (b AND 0x0f) OR drop_bit 6 (c AND 0xc0)) AND 0x3) OR
    (c AND 0x3f) = (c :: u8)"
  by (rule bit_word_eqI, drule bit_index_8, elim disjE; simp add: bit_simps)

lemmas octets = octet_1 octet_2 octet_3

lemma take_of_list:
  "take 1 [p, q, r] = [p]" "take 2 [p, q, r] = [p, q]"
  "take 2 [p, q, r, t] = [p, q]" "take 3 [p, q, r, t] = [p, q, r]"
  by simp_all

lemmas sextet_octet = a3_to_a4.simps(1) a4_to_a3.simps(1) sextet_or octet_or octets take_of_list
  append_Cons append_Nil

lemma a4_a3: "a4_to_a3 (a3_to_a4 [a, b, c]) = [a, b, c]"
  by (simp only: sextet_octet)

lemma a3_to_a4_take2: "take 1 (a4_to_a3 (take 2 (a3_to_a4 [a, 0, 0]) @ [p, q])) = [a]"
  by (simp only: sextet_octet)

lemma a3_to_a4_take3: "take 2 (a4_to_a3 (take 3 (a3_to_a4 [a, b, 0]) @ [p])) = [a, b]"
  by (simp only: sextet_octet)

lemma sextet_less: "unat (x AND 0x3f :: u8) < 64" "unat (drop_bit 2 (x AND 0xfc) :: u8) < 64"
proof -
  have "x AND 0x3f = take_bit 6 x" and "drop_bit 2 (x AND 0xfc) = take_bit 6 (drop_bit 2 x)"
    by (rule bit_word_eqI, drule bit_index_8, elim disjE; simp add: bit_simps)+
  then show "unat (x AND 0x3f :: u8) < 64" "unat (drop_bit 2 (x AND 0xfc) :: u8) < 64"
    using take_bit_nat_less_exp [of 6] by (simp_all add: unsigned_take_bit_eq)
qed

lemma sextet_less_or:
  "unat (push_bit 4 (a AND 3) OR drop_bit 4 (b AND 0xf0) :: u8) < 64"
  "unat (push_bit 2 (b AND 0x0f) OR drop_bit 6 (c AND 0xc0) :: u8) < 64"
proof -
  let ?x = "push_bit 4 (a AND 3) OR drop_bit 4 (b AND 0xf0) :: u8"
  let ?y = "push_bit 2 (b AND 0x0f) OR drop_bit 6 (c AND 0xc0) :: u8"
  have "?x = ?x AND 0x3f" and "?y = ?y AND 0x3f"
    by (rule bit_word_eqI, drule bit_index_8, elim disjE; simp add: bit_simps)+
  then show "unat ?x < 64" and "unat ?y < 64"
    using sextet_less(1) [of ?x] sextet_less(1) [of ?y] by simp_all
qed

lemma a3_to_a4_less: "x \<in> set (a3_to_a4 [a, b, c]) \<Longrightarrow> unat x < 64"
  by (simp only: a3_to_a4.simps sextet_or list.set insert_iff empty_iff)
    (elim disjE; simp only: sextet_less sextet_less_or)

lemma b64_table:
  "\<forall>n \<in> set [0..<64]. b64_lookup (b64_char (of_nat n)) = of_nat n \<and> b64_char (of_nat n) \<noteq> ch_eq"
  by code_simp

lemma b64_char_inverse:
  assumes "unat x < 64"
  shows "b64_lookup (b64_char x) = x" and "b64_char x \<noteq> ch_eq"
  using b64_table [rule_format, of "unat x"] assms by (simp_all del: upt_Suc)

section \<open>Encoder and reference\<close>

lemma length_a3_to_a4 [simp]: "length (a3_to_a4 [a, b, c]) = 4"
  by simp

lemma length_b64_spec: "length (b64_spec xs) = (length xs + 2) div 3 * 4"
  by (induction xs rule: b64_spec.induct) (simp_all, presburger)

lemma enc_loop_spec:
  assumes "length a3 < 3" and "length out + length (b64_spec (a3 @ input)) \<le> cap"
  shows "obind (enc_loop cap input a3 out) (enc_tail cap) = Done (out @ b64_spec (a3 @ input))"
  using assms
proof (induction cap input a3 out rule: enc_loop.induct)
  case (1 cap a3 out)
  then consider "a3 = []" | a where "a3 = [a]" | a b where "a3 = [a, b]"
    by (cases a3; cases "tl a3"; cases "tl (tl a3)"; auto)
  then show ?case
    using "1.prems"(2)
    by cases (simp_all add: enc_tail_def put_def numeral_2_eq_2 numeral_3_eq_3 Let_def)
next
  case (2 cap x input a3 out)
  show ?case
  proof (cases "length (a3 @ [x]) = 3")
    case True
    then obtain a b where a3: "a3 = [a, b]"
      by (cases a3; cases "tl a3"; auto)
    show ?thesis
      using 2(1) [OF refl True] "2.prems"(2) unfolding a3
      by (simp add: put_def Let_def obind_assoc)
  next
    case False
    with "2.prems" 2(2) [OF refl False] show ?thesis by (simp add: Let_def)
  qed
qed

section \<open>Decoder and reference\<close>

lemma dec_chunk:
  assumes "length ws = 4" and "\<And>w. w \<in> set ws \<Longrightarrow> unat w < 64"
  shows "dec_loop cap (map b64_char ws @ rest) [] out =
    obind (put cap (a4_to_a3 ws) out) (\<lambda>out'. dec_loop cap rest [] out')"
proof -
  from assms(1) obtain p q r t where ws: "ws = [p, q, r, t]"
    by (auto simp: numeral_eq_Suc length_Suc_conv)
  then show ?thesis
    using assms(2) by (simp add: b64_char_inverse)
qed

lemma dec_partial:
  assumes "length ws < 4" and "\<And>w. w \<in> set ws \<Longrightarrow> unat w < 64"
  shows "dec_loop cap (map b64_char ws @ ch_eq # rest) [] out = Done (map b64_char ws, out)"
proof -
  have "dec_loop cap (map b64_char us @ ch_eq # rest) a4 out = Done (a4 @ map b64_char us, out)"
    if "length a4 + length us < 4" "\<And>w. w \<in> set us \<Longrightarrow> unat w < 64" for us a4
    using that by (induction us arbitrary: a4) (simp_all add: b64_char_inverse)
  from this [of "[]"] assms show ?thesis by simp
qed

lemma dec_loop_spec:
  "length out + length xs \<le> cap \<Longrightarrow>
     obind (dec_loop cap (b64_spec xs) [] out) (dec_tail cap) = Done (out @ xs)"
proof (induction xs arbitrary: out rule: b64_spec.induct)
  case 1
  then show ?case by (simp add: dec_tail_def)
next
  case (2 a)
  let ?ws = "take 2 (a3_to_a4 [a, 0, 0])"
  have ws: "unat w < 64" if "w \<in> set ?ws" for w
    using that a3_to_a4_less [of w a 0 0] in_set_takeD by metis
  have "map b64_lookup (map b64_char ?ws) = ?ws"
    by (simp add: ws b64_char_inverse map_idI)
  moreover have "a3_to_a4 [a, 0, 0] \<noteq> []" by simp
  ultimately show ?case
    using 2 dec_partial [of ?ws cap "[ch_eq]" out, OF _ ws]
      a3_to_a4_take2 [of a "b64_lookup 0" "b64_lookup 0"]
    by (simp add: dec_tail_def put_def Let_def numeral_2_eq_2 del: a3_to_a4.simps a4_to_a3.simps)
next
  case (3 a b)
  let ?ws = "take 3 (a3_to_a4 [a, b, 0])"
  have ws: "unat w < 64" if "w \<in> set ?ws" for w
    using that a3_to_a4_less [of w a b 0] in_set_takeD by metis
  have "map b64_lookup (map b64_char ?ws) = ?ws"
    by (simp add: ws b64_char_inverse map_idI)
  moreover have "a3_to_a4 [a, b, 0] \<noteq> []" by simp
  ultimately show ?case
    using 3 dec_partial [of ?ws cap "[]" out, OF _ ws] a3_to_a4_take3 [of a b "b64_lookup 0"]
    by (simp add: dec_tail_def put_def Let_def numeral_2_eq_2 numeral_3_eq_3
        del: a3_to_a4.simps a4_to_a3.simps)
next
  case (4 a b c xs)
  have "dec_loop cap (b64_spec (a # b # c # xs)) [] out =
      obind (put cap [a, b, c] out) (\<lambda>out'. dec_loop cap (b64_spec xs) [] out')"
    using dec_chunk [of "a3_to_a4 [a, b, c]" cap "b64_spec xs" out, OF _ a3_to_a4_less]
    by (simp only: b64_spec.simps a4_a3 length_a3_to_a4)
  then show ?case
    using "4.IH" [of "out @ [a, b, c]"] "4.prems" by (simp add: put_def del: b64_spec.simps)
qed

section \<open>Lengths of encoded text\<close>

definition pad_count :: "nat \<Rightarrow> nat" where
  "pad_count n = (3 - n mod 3) mod 3"

lemma b64_spec_split:
  "\<exists>body. b64_spec xs = body @ replicate (pad_count (length xs)) ch_eq \<and>
     (\<forall>c \<in> set body. c \<noteq> ch_eq) \<and> (xs \<noteq> [] \<longrightarrow> body \<noteq> [])"
proof (induction xs rule: b64_spec.induct)
  case (2 a)
  have "c \<noteq> ch_eq" if "c \<in> set (map b64_char (take 2 (a3_to_a4 [a, 0, 0])))" for c
    using that a3_to_a4_less [of _ a 0 0] in_set_takeD [of _ 2 "a3_to_a4 [a, 0, 0]"]
    by (auto simp: b64_char_inverse simp del: a3_to_a4.simps)
  moreover have "a3_to_a4 [a, 0, 0] \<noteq> []" by simp
  ultimately show ?case
    by (intro exI [of _ "map b64_char (take 2 (a3_to_a4 [a, 0, 0]))"])
      (simp add: pad_count_def numeral_2_eq_2 del: a3_to_a4.simps)
next
  case (3 a b)
  have "c \<noteq> ch_eq" if "c \<in> set (map b64_char (take 3 (a3_to_a4 [a, b, 0])))" for c
    using that a3_to_a4_less [of _ a b 0] in_set_takeD [of _ 3 "a3_to_a4 [a, b, 0]"]
    by (auto simp: b64_char_inverse simp del: a3_to_a4.simps)
  moreover have "a3_to_a4 [a, b, 0] \<noteq> []" by simp
  ultimately show ?case
    by (intro exI [of _ "map b64_char (take 3 (a3_to_a4 [a, b, 0]))"])
      (simp add: pad_count_def del: a3_to_a4.simps)
next
  case (4 a b c xs)
  then obtain body where body: "b64_spec xs = body @ replicate (pad_count (length xs)) ch_eq"
    "\<forall>c \<in> set body. c \<noteq> ch_eq" by blast
  have "c' \<noteq> ch_eq" if "c' \<in> set (map b64_char (a3_to_a4 [a, b, c]))" for c'
    using that a3_to_a4_less [of _ a b c] by (auto simp: b64_char_inverse simp del: a3_to_a4.simps)
  moreover have "a3_to_a4 [a, b, c] \<noteq> []" by simp
  ultimately show ?case
    using body
    by (intro exI [of _ "map b64_char (a3_to_a4 [a, b, c]) @ body"])
      (auto simp: pad_count_def simp del: a3_to_a4.simps)
qed (simp add: pad_count_def)

lemma trailing_eq_spec:
  assumes "xs \<noteq> []"
  shows "trailing_eq (b64_spec xs) = Done (int (pad_count (length xs)))"
proof -
  obtain body where body: "b64_spec xs = body @ replicate (pad_count (length xs)) ch_eq"
    "\<forall>c \<in> set body. c \<noteq> ch_eq" "body \<noteq> []"
    using b64_spec_split [of xs] assms by blast
  have "takeWhile (\<lambda>c. c = ch_eq) (rev body) = []"
    using body(2,3) by (simp add: takeWhile_eq_Nil_iff hd_rev)
  then have "takeWhile (\<lambda>c. c = ch_eq) (rev (b64_spec xs)) = replicate (pad_count (length xs)) ch_eq"
    by (simp add: body(1) takeWhile_append)
  moreover have "\<not> (\<forall>c \<in> set (b64_spec xs). c = ch_eq)"
    using body by (cases body) auto
  ultimately show ?thesis by (simp add: trailing_eq_def)
qed

text \<open>Below this bound every \<^verbatim>\<open>int\<close> computation of the codec is exact.\<close>

abbreviation b64_bound :: nat where
  "b64_bound \<equiv> 268435455"

lemma encoded_len_alt: "(n + 2 - (n + 2) mod 3) div 3 * 4 = (n + 2) div 3 * (4 :: nat)"
  by (simp add: minus_mod_eq_mult_div)

lemma EncodedLength_exact:
  "length xs \<le> b64_bound \<Longrightarrow> EncodedLength (length xs) = int (length (b64_spec xs))"
  unfolding EncodedLength_def encoded_len_alt length_b64_spec
  by (rule to_int32_small) auto

lemma decoded_len_arith:
  "6 * ((n + 2) div 3 * 4) div 8 = n + pad_count n"
proof -
  have n: "n = 3 * (n div 3) + n mod 3" and "n mod 3 < 3" by simp_all
  then consider q where "n = 3 * q" | q where "n = 3 * q + 1" | q where "n = 3 * q + 2"
    by (metis One_nat_def add.right_neutral less_2_cases less_Suc_eq numeral_3_eq_3 numeral_2_eq_2)
  then show ?thesis
  proof cases
    case (1 q)
    then have "(n + 2) div 3 = q" by simp
    with 1 show ?thesis by (simp add: pad_count_def)
  next
    case (2 q)
    then have "(n + 2) div 3 = q + 1" and "n mod 3 = 1" by presburger+
    with 2 show ?thesis by (simp add: pad_count_def)
  next
    case (3 q)
    then have "(n + 2) div 3 = q + 1" and "n mod 3 = 2" by presburger+
    with 3 show ?thesis by (simp add: pad_count_def)
  qed
qed

lemma int_input_exact: "length xs < 2 ^ 31 \<Longrightarrow> int_input xs = Done xs"
  by (simp add: int_input_def to_int32_small)

lemma length_b64_spec_bound: "length xs \<le> b64_bound \<Longrightarrow> length (b64_spec xs) \<le> 357913940"
  unfolding length_b64_spec by presburger

lemma DecodedLength_str_exact:
  assumes "xs \<noteq> []" and "length xs \<le> b64_bound"
  shows "DecodedLength_str (b64_spec xs) = Done (int (length xs))"
proof -
  have n: "to_int32 (int (length (b64_spec xs))) = int (length (b64_spec xs))"
    by (rule to_int32_small) (use length_b64_spec_bound [OF assms(2)] in auto)
  have "6 * \<bar>int (length (b64_spec xs))\<bar> div 8 = int (length xs + pad_count (length xs))"
    using decoded_len_arith [of "length xs"] unfolding length_b64_spec by linarith
  moreover have "0 < int (length (b64_spec xs))"
    using assms(1) b64_spec_split [of xs] by auto
  ultimately show ?thesis
    using length_b64_spec_bound [OF assms(2)]
    by (simp add: DecodedLength_str_def trailing_eq_spec [OF assms(1)] n Let_def)
qed

lemma DecodedLength_ptr_exact:
  assumes "xs \<noteq> []" and "length xs \<le> b64_bound"
  shows "DecodedLength_ptr (b64_spec xs) = Done (int (length xs))"
  using decoded_len_arith [of "length xs"] assms(2)
  by (simp add: DecodedLength_ptr_def trailing_eq_spec [OF assms(1)] length_b64_spec to_int32_small)

lemma Encode_str_spec:
  assumes "length xs \<le> b64_bound"
  shows "Encode_str xs = Done (True, b64_spec xs)"
  using enc_loop_spec [of "[]" "[]" xs "length (b64_spec xs)"] assms
  by (simp add: Encode_str_def EncodedLength_exact [OF assms] resize_to_def int_input_exact)

lemma Decode_str_spec:
  assumes "xs \<noteq> []" and "length xs \<le> b64_bound"
  shows "Decode_str (b64_spec xs) = Done (True, xs)"
  using dec_loop_spec [of "[]" xs "length xs"] length_b64_spec_bound [OF assms(2)]
  by (simp add: Decode_str_def DecodedLength_str_exact [OF assms] resize_to_def int_input_exact)

section \<open>Properties\<close>

text \<open>C29: Base64 encoding of a string of up to 256 MiB succeeds without writing outside its
  output, its result has four characters for every three bytes begun, and decoding that text
  returns true and the original bytes. (The empty string is excluded from decoding: the
  decoder reads before an empty buffer.)\<close>

theorem base64_roundtrip:
  assumes "xs \<noteq> []" and "length xs \<le> 268435455"
  shows "\<exists>txt. Encode_str xs = Done (True, txt) \<and> length txt = (length xs + 2) div 3 * 4 \<and>
    Decode_str txt = Done (True, xs)"
  using assms Encode_str_spec Decode_str_spec length_b64_spec by blast

theorem base64_roundtrip_witness:
  "\<exists>txt. Encode_str [1, 2, 3, 255] = Done (True, txt) \<and> Decode_str txt = Done (True, [1, 2, 3, 255])"
  using base64_roundtrip [of "[1, 2, 3, 255]"] by auto

text \<open>The buffer versions agree with the string versions: given an output buffer of any
  sufficient size, \<^verbatim>\<open>Encode(const char *, ...)\<close> fills it with the same text, and
  \<^verbatim>\<open>Decode(const char *, ...)\<close> restores the bytes from it, neither of them writing past the
  computed length.\<close>

lemma base64_ptr_agrees:
  assumes "xs \<noteq> []" and "length xs \<le> 268435455"
    and "(length xs + 2) div 3 * 4 \<le> cap" and "length xs \<le> cap'"
  shows "Encode_ptr xs cap = Encode_str xs \<and>
    (\<exists>txt. Encode_str xs = Done (True, txt) \<and> Decode_ptr txt cap' = Done (True, xs))"
proof -
  have "Encode_ptr xs cap = Done (True, b64_spec xs)"
    using enc_loop_spec [of "[]" "[]" xs cap] assms(3)
    by (simp add: Encode_ptr_def EncodedLength_exact [OF assms(2)] length_b64_spec)
  moreover have "Decode_ptr (b64_spec xs) cap' = Done (True, xs)"
    using dec_loop_spec [of "[]" xs cap'] assms(4)
    by (simp add: Decode_ptr_def DecodedLength_ptr_exact [OF assms(1,2)])
  ultimately show ?thesis by (simp add: Encode_str_spec [OF assms(2)])
qed

theorem base64_ptr_agrees_witness:
  "Encode_ptr [9, 8] 100 = Encode_str [9, 8]"
  using base64_ptr_agrees [of "[9, 8]" 100 2] by simp

text \<open>Decoding the empty text, or one of padding characters only, is undefined behaviour in
  both versions: the padding count runs off the front of the buffer before any check.\<close>

theorem base64_decode_only_padding:
  "Decode_str (replicate n ch_eq) = Abort Out_of_bounds \<and>
   Decode_ptr (replicate n ch_eq) cap = Abort Out_of_bounds"
  by (simp add: Decode_str_def Decode_ptr_def DecodedLength_str_def DecodedLength_ptr_def
      trailing_eq_def)

end
