(* ===== verification/FileLog.thy ===== *)
theory FileLog
  imports FileHandler Crc Base64
begin

text \<open>
  \<^verbatim>\<open>src/SyncLog/FileLog.hpp\<close> and \<^verbatim>\<open>FileLog.cpp\<close>: the record body codec, a log record on
  disk (length, checksum, log id and operation type as big-endian 32-bit numbers, then the
  body in Base64) and a log file (\<^verbatim>\<open>"LOGS"\<close>, the version, then records).
\<close>

section \<open>Data\<close>

record log_body =
  mTableName :: bytes
  mKey :: bytes
  mValue :: bytes

text \<open>\<^verbatim>\<open>mBody\<close> is \<^const>\<open>None\<close> for a null pointer.\<close>

record log_record =
  mBodyLength :: u32
  mCRC :: u32
  mLogId :: u32
  mOpType :: u32
  mBody :: "log_body option"

record log =
  mFileHandler :: fhandler
  mMagic :: string
  mVersion :: u32

type_synonym log_io = "log \<times> world"

definition LOG_MAGIC :: bytes where
  "LOG_MAGIC = map (\<lambda>c. of_nat (of_char c)) ''LOGS''"

definition LOG_VERSION :: u32 where
  "LOG_VERSION = 1"

section \<open>The record body\<close>

definition FileLogRecordBody_Encode :: "log_body \<Rightarrow> bytes \<Rightarrow> bytes" where
  "FileLogRecordBody_Encode b str =
     (let str1 = str @ le_bytes 4 (htonl (of_nat (length (mTableName b))));
          str2 = str1 @ mTableName b;
          str3 = str2 @ le_bytes 4 (htonl (of_nat (length (mKey b))));
          str4 = str3 @ mKey b;
          str5 = str4 @ le_bytes 4 (htonl (of_nat (length (mValue b))))
      in str5 @ mValue b)"

text \<open>
  The three reads start at the offsets the code computes from the lengths read before;
  \<^verbatim>\<open>c_str()\<close> gives access to the data and one terminating zero byte.
\<close>

definition FileLogRecordBody_Decode :: "bytes \<Rightarrow> (err \<times> log_body) outcome" where
  "FileLogRecordBody_Decode data =
     (let cstr = data @ [0] in
      obind (readString cstr 0) (\<lambda>(table, _).
      obind (readString cstr (length table + 4)) (\<lambda>(key, _).
      obind (readString cstr (length table + 4 + length key + 4)) (\<lambda>(val, _).
      Done (E_OK, \<lparr>mTableName = table, mKey = key, mValue = val\<rparr>)))))"

section \<open>Writing a record\<close>

text \<open>
  The string and the \<^verbatim>\<open>malloc\<close> block the checksum runs over start at a multiple of 8, so
  their address is 0 as far as \<^const>\<open>mycrc32\<close> looks at it (and its result does not depend on
  it). A failed Base64 encoding leaves \<^verbatim>\<open>err\<close> at 0.
\<close>

definition write_u32 :: "u32 \<Rightarrow> io \<Rightarrow> (err \<times> io) outcome" where
  "write_u32 v s = WriteNBytes (le_bytes 4 (htonl v)) s"

definition WriteToFile_rec :: "log_record \<Rightarrow> io \<Rightarrow> (err \<times> log_record \<times> io) outcome" where
  "WriteToFile_rec r s =
     (case mBody r of None \<Rightarrow> Abort Null_pointer
      | Some b \<Rightarrow>
        obind (Encode_str (FileLogRecordBody_Encode b [])) (\<lambda>(fine, base64Str).
        if \<not> fine then Done (E_OK, r, s)
        else
          let len = of_nat (length base64Str) :: u32;
              r1 = r\<lparr>mBodyLength := len, mCRC := mycrc32 0 0 (take (unat len) base64Str)\<rparr>
          in
          obind (write_u32 (mBodyLength r1) s) (\<lambda>(e1, s1).
          if e1 \<noteq> E_OK then Done (e1, r1, s1) else
          obind (write_u32 (mCRC r1) s1) (\<lambda>(e2, s2).
          if e2 \<noteq> E_OK then Done (e2, r1, s2) else
          obind (write_u32 (mLogId r1) s2) (\<lambda>(e3, s3).
          if e3 \<noteq> E_OK then Done (e3, r1, s3) else
          obind (write_u32 (mOpType r1) s3) (\<lambda>(e4, s4).
          if e4 \<noteq> E_OK then Done (e4, r1, s4) else
          obind (WriteNBytes base64Str s4) (\<lambda>(e5, s5). Done (e5, r1, s5))))))))"

section \<open>Reading a record\<close>

definition read_u32 :: "io \<Rightarrow> err \<times> u32 \<times> io" where
  "read_u32 s = (let (e, bs, s1) = ReadNBytes 4 s in (e, ntohl (le_word bs), s1))"

text \<open>
  The body of the \<^verbatim>\<open>do\<close> block. A number whose read fails keeps its old value here; in C++
  some of its bytes may be overwritten, and nobody looks at them.
\<close>

definition ReadFromFile_body :: "log_record \<Rightarrow> io \<Rightarrow> (err \<times> log_record \<times> io) outcome" where
  "ReadFromFile_body r s =
     (let (e1, len, s1) = read_u32 s in
      if e1 \<noteq> E_OK then Done (e1, r, s1) else
      let r1 = r\<lparr>mBodyLength := len\<rparr>; (e2, crc, s2) = read_u32 s1 in
      if e2 \<noteq> E_OK then Done (e2, r1, s2) else
      let r2 = r1\<lparr>mCRC := crc\<rparr>; (e3, logid, s3) = read_u32 s2 in
      if e3 \<noteq> E_OK then Done (e3, r2, s3) else
      let r3 = r2\<lparr>mLogId := logid\<rparr>; (e4, optype, s4) = read_u32 s3 in
      if e4 \<noteq> E_OK then Done (e4, r3, s4) else
      let r4 = r3\<lparr>mOpType := optype\<rparr>;
          (e5, bodyBuf, s5) = ReadNBytes (unat (mBodyLength r4)) s4 in
      if e5 \<noteq> E_OK then Done (e5, r4, s5)
      else if mCRC r4 \<noteq> mycrc32 0 0 bodyBuf then Done (E_CRC_CHECK_FAILED, r4, s5)
      else
        obind (Decode_str bodyBuf) (\<lambda>(fine, pureStr).
        if \<not> fine then Done (E_BASE64_DECODE_FAILED, r4, s5)
        else
          obind (FileLogRecordBody_Decode pureStr) (\<lambda>(e6, body).
          Done (e6, r4\<lparr>mBody := Some body\<rparr>, s5))))"

definition ReadFromFile :: "log_record \<Rightarrow> io \<Rightarrow> (err \<times> log_record \<times> io) outcome" where
  "ReadFromFile r s =
     (let tempOffset = GetOffset s in
      obind (ReadFromFile_body r s) (\<lambda>(e, r1, s1).
      if e = EIO then
        let (e2, s2) = Truncate tempOffset (SetOffset tempOffset s1) in
        obind (assert_that (e2 = E_OK)) (\<lambda>_. Done (e, r1, s2))
      else Done (e, r1, s1)))"

section \<open>The log file\<close>

definition new_log :: "string \<Rightarrow> log" where
  "new_log name = \<lparr>mFileHandler = new_fhandler name, mMagic = [], mVersion = 0\<rparr>"

text \<open>\<^verbatim>\<open>strcmp\<close> on the zero-terminated five-byte array looks at the bytes before the first zero.\<close>

definition ValidateHeader :: "io \<Rightarrow> err \<times> io" where
  "ValidateHeader s =
     (let (e1, magic, s1) = ReadNBytes 4 s in
      if e1 \<noteq> E_OK then (e1, s1)
      else if takeWhile (\<lambda>c. c \<noteq> 0) (magic @ [0]) \<noteq> LOG_MAGIC then (EINVAL, s1)
      else
        let (e2, version, s2) = read_u32 s1 in
        if e2 \<noteq> E_OK then (e2, s2)
        else if LOG_VERSION \<noteq> version then (EINVAL, s2)
        else (E_OK, s2))"

definition WriteHeader :: "io \<Rightarrow> (err \<times> io) outcome" where
  "WriteHeader s =
     obind (WriteNBytes LOG_MAGIC s) (\<lambda>(e1, s1).
     if e1 \<noteq> E_OK then Done (e1, s1) else write_u32 LOG_VERSION s1)"

text \<open>A method of \<^verbatim>\<open>Log\<close> runs on its file handler.\<close>

definition log_io_of :: "log_io \<Rightarrow> io" where
  "log_io_of s = (mFileHandler (fst s), snd s)"

definition put_io :: "log_io \<Rightarrow> io \<Rightarrow> log_io" where
  "put_io s t = ((fst s)\<lparr>mFileHandler := fst t\<rparr>, snd t)"

definition Log_OpenFile :: "bool \<Rightarrow> log_io \<Rightarrow> (err \<times> log_io) outcome" where
  "Log_OpenFile creat s =
     obind (OpenFile_fh creat (log_io_of s)) (\<lambda>(e1, t1).
     if e1 \<noteq> E_OK then Done (e1, put_io s t1)
     else
       obind (if creat then WriteHeader t1 else Done (ValidateHeader t1)) (\<lambda>(e2, t2).
       Done (e2, put_io s t2)))"

definition Log_Flush :: "log_io \<Rightarrow> (err \<times> log_io) outcome" where
  "Log_Flush s = obind (Flush (log_io_of s)) (\<lambda>(e, t). Done (e, put_io s t))"

definition Log_Close :: "log_io \<Rightarrow> (err \<times> log_io) outcome" where
  "Log_Close s = obind (Close_fh (log_io_of s)) (\<lambda>(e, t). Done (e, put_io s t))"

text \<open>\<^verbatim>\<open>new LogRecord\<close> sets only the body; the numbers are whatever the memory held.\<close>

definition new_record :: log_record where
  "new_record = \<lparr>mBodyLength = 0, mCRC = 0, mLogId = 0, mOpType = 0, mBody = None\<rparr>"

definition GetNextLogRecord :: "log_io \<Rightarrow> (err \<times> log_record \<times> log_io) outcome" where
  "GetNextLogRecord s =
     obind (ReadFromFile new_record (log_io_of s)) (\<lambda>(e, r, t). Done (e, r, put_io s t))"

definition AppendLogRecord :: "log_record \<Rightarrow> log_io \<Rightarrow> (err \<times> log_record \<times> log_io) outcome" where
  "AppendLogRecord r s =
     obind (WriteToFile_rec r (log_io_of s)) (\<lambda>(e, r1, t). Done (e, r1, put_io s t))"

section \<open>The bytes of a record\<close>

definition body_bytes :: "log_body \<Rightarrow> bytes" where
  "body_bytes b = str_bytes (mTableName b) @ str_bytes (mKey b) @ str_bytes (mValue b)"

text \<open>Up to 256 MiB the lengths fit the \<^verbatim>\<open>int\<close> arithmetic of the Base64 code.\<close>

definition body_fits :: "log_body \<Rightarrow> bool" where
  "body_fits b \<longleftrightarrow> length (body_bytes b) \<le> b64_bound"

definition payload :: "log_body \<Rightarrow> bytes" where
  "payload b = b64_spec (body_bytes b)"

text \<open>A record as it goes to disk, with length and checksum filled in.\<close>

definition sealed :: "log_record \<Rightarrow> log_record" where
  "sealed r = (case mBody r of None \<Rightarrow> r
     | Some b \<Rightarrow> r\<lparr>mBodyLength := of_nat (length (payload b)), mCRC := mycrc32 0 0 (payload b)\<rparr>)"

lemma sealed_fields [simp]:
  "mLogId (sealed r) = mLogId r" "mOpType (sealed r) = mOpType r" "mBody (sealed r) = mBody r"
  by (simp_all add: sealed_def split: option.splits)

definition record_chunks :: "log_record \<Rightarrow> bytes list" where
  "record_chunks r = (case mBody r of None \<Rightarrow> []
     | Some b \<Rightarrow> [be32 (of_nat (length (payload b))), be32 (mycrc32 0 0 (payload b)),
         be32 (mLogId r), be32 (mOpType r), payload b])"

definition record_bytes :: "log_record \<Rightarrow> bytes" where
  "record_bytes r = concat (record_chunks r)"

definition rec_fits :: "log_record \<Rightarrow> bool" where
  "rec_fits r \<longleftrightarrow> (\<exists>b. mBody r = Some b \<and> body_fits b)"

lemma rec_fits_Some: "rec_fits r \<Longrightarrow> \<exists>b. mBody r = Some b \<and> body_fits b"
  by (simp add: rec_fits_def)

lemma body_bytes_ne [simp]: "body_bytes b \<noteq> []"
  by (simp add: body_bytes_def str_bytes_def be32_def le_bytes_def)

lemma body_lengths:
  assumes "body_fits b"
  shows "length (mTableName b) < 2 ^ 32" "length (mKey b) < 2 ^ 32" "length (mValue b) < 2 ^ 32"
  using assms by (auto simp: body_fits_def body_bytes_def)

lemma length_payload:
  assumes "body_fits b"
  shows "length (payload b) < 2 ^ 31" "unat (of_nat (length (payload b)) :: u32) = length (payload b)"
proof -
  show l: "length (payload b) < 2 ^ 31"
    using assms by (simp add: payload_def length_b64_spec body_fits_def)
  then show "unat (of_nat (length (payload b)) :: u32) = length (payload b)"
    by (simp add: unat_of_nat take_bit_nat_eq_self)
qed

lemma Encode_body: "FileLogRecordBody_Encode b [] = body_bytes b"
  by (simp add: FileLogRecordBody_Encode_def body_bytes_def str_bytes_def be32_def)

lemma Decode_body:
  assumes "body_fits b"
  shows "FileLogRecordBody_Decode (body_bytes b) = Done (E_OK, b)"
proof -
  note l = body_lengths [OF assms]
  let ?t = "mTableName b" and ?k = "mKey b" and ?v = "mValue b"
  have 1: "readString (body_bytes b @ [0]) 0 = Done (?t, 4 + length ?t)"
    using readString_str_bytes [OF l(1), of 0 "[]" "str_bytes ?k @ str_bytes ?v @ [0]"]
    by (simp add: body_bytes_def)
  have 2: "readString (body_bytes b @ [0]) (length ?t + 4) = Done (?k, length ?t + 4 + 4 + length ?k)"
    using readString_str_bytes [OF l(2), of "length ?t + 4" "str_bytes ?t" "str_bytes ?v @ [0]"]
    by (simp add: body_bytes_def)
  have 3: "readString (body_bytes b @ [0]) (length ?t + 4 + length ?k + 4) =
      Done (?v, length ?t + 4 + length ?k + 4 + 4 + length ?v)"
    using readString_str_bytes [OF l(3), of "length ?t + 4 + length ?k + 4"
        "str_bytes ?t @ str_bytes ?k" "[0]"]
    by (simp add: body_bytes_def)
  show ?thesis
    by (simp only: FileLogRecordBody_Decode_def Let_def 1 2 3 obind.simps prod.case) simp
qed

lemma payload_codec:
  assumes "body_fits b"
  shows "Encode_str (FileLogRecordBody_Encode b []) = Done (True, payload b)"
    "Decode_str (payload b) = Done (True, body_bytes b)"
  using Encode_str_spec [of "body_bytes b"] Decode_str_spec [of "body_bytes b"] assms
  by (simp_all add: Encode_body payload_def body_fits_def)

section \<open>Writing a record is appending its bytes\<close>

lemma append_step:
  assumes "\<And>s1. k s1 = obind (append_all WriteNBytes ds s1) (\<lambda>(e, s'). Done (e, x, s'))"
  shows "obind (WriteNBytes d s) (\<lambda>(e, s1). if e \<noteq> E_OK then Done (e, x, s1) else k s1) =
    obind (append_all WriteNBytes (d # ds) s) (\<lambda>(e, s'). Done (e, x, s'))"
  by (cases "WriteNBytes d s") (auto simp: assms)

lemma append_last:
  "obind (WriteNBytes d s) (\<lambda>(e, s1). Done (e, x, s1)) =
    obind (append_all WriteNBytes [d] s) (\<lambda>(e, s'). Done (e, x, s'))"
  by (cases "WriteNBytes d s") auto

lemma WriteToFile_rec_append:
  assumes "mBody r = Some b" "body_fits b"
  shows "WriteToFile_rec r s =
    obind (append_all WriteNBytes (record_chunks r) s) (\<lambda>(e, s'). Done (e, sealed r, s'))"
proof -
  have tk: "take (unat (of_nat (length (payload b)) :: u32)) (payload b) = payload b"
    by (simp only: length_payload(2) [OF assms(2)]) simp
  have sl: "r\<lparr>mBodyLength := of_nat (length (payload b)), mCRC := mycrc32 0 0 (payload b)\<rparr> = sealed r"
    by (simp add: sealed_def assms(1))
  have fields: "mBodyLength (sealed r) = of_nat (length (payload b))"
    "mCRC (sealed r) = mycrc32 0 0 (payload b)" "mLogId (sealed r) = mLogId r"
    "mOpType (sealed r) = mOpType r"
    by (simp_all add: sealed_def assms(1))
  have "WriteToFile_rec r s =
    obind (WriteNBytes (be32 (of_nat (length (payload b)))) s) (\<lambda>(e1, s1).
    if e1 \<noteq> E_OK then Done (e1, sealed r, s1) else
    obind (WriteNBytes (be32 (mycrc32 0 0 (payload b))) s1) (\<lambda>(e2, s2).
    if e2 \<noteq> E_OK then Done (e2, sealed r, s2) else
    obind (WriteNBytes (be32 (mLogId r)) s2) (\<lambda>(e3, s3).
    if e3 \<noteq> E_OK then Done (e3, sealed r, s3) else
    obind (WriteNBytes (be32 (mOpType r)) s3) (\<lambda>(e4, s4).
    if e4 \<noteq> E_OK then Done (e4, sealed r, s4) else
    obind (WriteNBytes (payload b) s4) (\<lambda>(e5, s5). Done (e5, sealed r, s5))))))"
    by (simp only: WriteToFile_rec_def assms(1) option.case payload_codec(1) [OF assms(2)]
        obind.simps prod.case Let_def tk sl fields write_u32_def be32_def [symmetric] not_True_eq_False if_False)
  also have "\<dots> = obind (append_all WriteNBytes (record_chunks r) s) (\<lambda>(e, s'). Done (e, sealed r, s'))"
    unfolding record_chunks_def assms(1) option.case
    by (intro append_step append_last)
  finally show ?thesis .
qed

text \<open>What the file handler's contract gives for a record.\<close>

lemma WriteToFile_rec_facts:
  assumes "WriteToFile_rec r s = Done (e, r', s')" "rec_fits r" "writer_since f w0 s"
  shows "e = E_OK" "r' = sealed r" "writer_since f w0 s'"
    "written f s' = written f s @ record_bytes r"
    "prefix (durable_of (snd s) f) (durable_of (snd s') f)"
proof -
  from assms(2) obtain b where b: "mBody r = Some b" "body_fits b" by (auto dest: rec_fits_Some)
  from assms(1) have "append_all WriteNBytes (record_chunks r) s = Done (e, s')" and r': "r' = sealed r"
    by (auto simp: WriteToFile_rec_append [OF b] outcome_simps)
  from fh.append_all_law [OF assms(3) _ this(1)] r' show "e = E_OK" "r' = sealed r" "writer_since f w0 s'"
    "written f s' = written f s @ record_bytes r"
    "prefix (durable_of (snd s) f) (durable_of (snd s') f)"
    by (simp_all add: record_bytes_def)
qed

lemma WriteToFile_rec_run:
  assumes "rec_fits r" "writer_since f w0 s" "benign (snd s)"
  shows "\<exists>s'. WriteToFile_rec r s = Done (E_OK, sealed r, s') \<and> benign (snd s')"
proof -
  from assms(1) obtain b where b: "mBody r = Some b" "body_fits b" by (auto dest: rec_fits_Some)
  obtain s' where "append_all WriteNBytes (record_chunks r) s = Done (E_OK, s')" "benign (snd s')"
    using fh.append_all_runs [OF assms(2,3), of "record_chunks r"] by auto
  then show ?thesis by (simp add: WriteToFile_rec_append [OF b])
qed

section \<open>Reading a record\<close>

text \<open>On a kernel that reports no error a read of what is there succeeds.\<close>

lemma ReadNBytes_at:
  assumes "benign w" "mFD fh = Some f" "file_of w f = pre @ d @ rest" "mOffset fh = length pre"
    and "n = length d"
  shows "\<exists>w'. ReadNBytes n (fh, w) = (E_OK, d, (fh\<lparr>mOffset := length pre + n\<rparr>, w')) \<and>
    same_files w w' \<and> benign w'"
  using ReadNBytes_run [OF assms(1,2), of n] assms(3-5) by simp

lemma read_u32_at:
  assumes "benign w" "mFD fh = Some f" "file_of w f = pre @ be32 v @ rest" "mOffset fh = length pre"
  shows "\<exists>w'. read_u32 (fh, w) = (E_OK, v, (fh\<lparr>mOffset := length pre + 4\<rparr>, w')) \<and>
    same_files w w' \<and> benign w'"
  using ReadNBytes_at [OF assms, of 4] by (auto simp: read_u32_def)

lemma ReadNBytes_short:
  assumes "benign w" "mFD fh = Some f" "length (file_of w f) < mOffset fh + n" "0 < n"
  shows "\<exists>bs off w'. ReadNBytes n (fh, w) = (EIO, bs, (fh\<lparr>mOffset := off\<rparr>, w')) \<and>
    same_files w w' \<and> benign w'"
proof -
  obtain e bs fh' w' where r: "ReadNBytes n (fh, w) = (e, bs, (fh', w'))"
    by (cases "ReadNBytes n (fh, w)") auto
  note fs = ReadNBytes_facts [OF r assms(2)]
  from fs(6) [OF assms(1)] assms(3,4) have e: "e = EIO" by auto
  from fs(2) obtain off where "fh' = fh\<lparr>mOffset := off\<rparr>" by blast
  with r e fs(1) same_filesD(5) [OF fs(1)] assms(1) show ?thesis by blast
qed

lemma read_u32_short:
  assumes "benign w" "mFD fh = Some f" "length (file_of w f) < mOffset fh + 4"
  shows "\<exists>v off w'. read_u32 (fh, w) = (EIO, v, (fh\<lparr>mOffset := off\<rparr>, w')) \<and>
    same_files w w' \<and> benign w'"
  using ReadNBytes_short [OF assms(1,2), of 4] assms(3) by (fastforce simp: read_u32_def)

text \<open>The header of a record, read as far as it is there.\<close>

definition header_bytes :: "u32 \<Rightarrow> u32 \<Rightarrow> u32 \<Rightarrow> u32 \<Rightarrow> bytes" where
  "header_bytes len crc logid optype = be32 len @ be32 crc @ be32 logid @ be32 optype"

lemma length_header_bytes [simp]: "length (header_bytes a b c d) = 16"
  by (simp add: header_bytes_def)

text \<open>What happens to the record once the four numbers and the body have been read.\<close>

definition check_body :: "log_record \<Rightarrow> bytes \<Rightarrow> io \<Rightarrow> (err \<times> log_record \<times> io) outcome" where
  "check_body r4 bodyBuf s5 =
     (if mCRC r4 \<noteq> mycrc32 0 0 bodyBuf then Done (E_CRC_CHECK_FAILED, r4, s5)
      else
        obind (Decode_str bodyBuf) (\<lambda>(fine, pureStr).
        if \<not> fine then Done (E_BASE64_DECODE_FAILED, r4, s5)
        else
          obind (FileLogRecordBody_Decode pureStr) (\<lambda>(e6, body).
          Done (e6, r4\<lparr>mBody := Some body\<rparr>, s5))))"

lemma ReadFromFile_body_header:
  assumes b: "benign w" "mFD fh = Some f" "mOffset fh = length pre"
    and contents: "file_of w f = pre @ header_bytes len crc logid optype @ rest"
  shows "\<exists>w4. same_files w w4 \<and> benign w4 \<and>
    ReadFromFile_body r (fh, w) =
      (let r4 = r\<lparr>mBodyLength := len, mCRC := crc, mLogId := logid, mOpType := optype\<rparr>;
           (e5, bodyBuf, s5) = ReadNBytes (unat len) (fh\<lparr>mOffset := length pre + 16\<rparr>, w4)
       in if e5 \<noteq> E_OK then Done (e5, r4, s5) else check_body r4 bodyBuf s5)"
proof -
  note h = contents [unfolded header_bytes_def append_assoc]
  obtain w1 where w1: "read_u32 (fh, w) = (E_OK, len, (fh\<lparr>mOffset := length pre + 4\<rparr>, w1))"
      "same_files w w1" "benign w1"
    using read_u32_at [OF b(1,2) h b(3)] by auto
  let ?f1 = "fh\<lparr>mOffset := length pre + 4\<rparr>"
  have "file_of w1 f = (pre @ be32 len) @ be32 crc @ be32 logid @ be32 optype @ rest"
    using same_filesD(2) [OF w1(2), of f] h by simp
  from read_u32_at [OF w1(3) _ this, of ?f1] b(2) obtain w2 where w2:
    "read_u32 (?f1, w1) = (E_OK, crc, (fh\<lparr>mOffset := length pre + 8\<rparr>, w2))"
    "same_files w1 w2" "benign w2" by auto
  let ?f2 = "fh\<lparr>mOffset := length pre + 8\<rparr>"
  have "file_of w2 f = (pre @ be32 len @ be32 crc) @ be32 logid @ be32 optype @ rest"
    using same_filesD(2) [OF w1(2), of f] same_filesD(2) [OF w2(2), of f] h by simp
  from read_u32_at [OF w2(3) _ this, of ?f2] b(2) obtain w3 where w3:
    "read_u32 (?f2, w2) = (E_OK, logid, (fh\<lparr>mOffset := length pre + 12\<rparr>, w3))"
    "same_files w2 w3" "benign w3" by auto
  let ?f3 = "fh\<lparr>mOffset := length pre + 12\<rparr>"
  have "file_of w3 f = (pre @ be32 len @ be32 crc @ be32 logid) @ be32 optype @ rest"
    using same_filesD(2) [OF w1(2), of f] same_filesD(2) [OF w2(2), of f]
      same_filesD(2) [OF w3(2), of f] h by simp
  from read_u32_at [OF w3(3) _ this, of ?f3] b(2) obtain w4 where w4:
    "read_u32 (?f3, w3) = (E_OK, optype, (fh\<lparr>mOffset := length pre + 16\<rparr>, w4))"
    "same_files w3 w4" "benign w4" by auto
  have "same_files w w4"
    using w1(2) w2(2) w3(2) w4(2) by (blast intro: same_files_trans)
  with w4(3) show ?thesis
    by (intro exI [of _ w4])
      (simp add: ReadFromFile_body_def w1(1) w2(1) w3(1) w4(1) check_body_def Let_def
        split: prod.splits)
qed

lemma record_bytes_header:
  assumes "mBody r = Some b"
  shows "record_bytes r = header_bytes (of_nat (length (payload b))) (mycrc32 0 0 (payload b))
    (mLogId r) (mOpType r) @ payload b"
  by (simp add: record_bytes_def record_chunks_def assms header_bytes_def)

text \<open>An intact record comes back with all its fields, and the offset moves past it.\<close>

lemma ReadFromFile_record:
  assumes "rec_fits r" "benign w" "mFD fh = Some f" "mOffset fh = length pre"
    and contents: "file_of w f = pre @ record_bytes r @ rest"
  shows "\<exists>w'. ReadFromFile r0 (fh, w) =
      Done (E_OK, sealed r, (fh\<lparr>mOffset := length pre + length (record_bytes r)\<rparr>, w')) \<and>
    same_files w w' \<and> benign w'"
proof -
  obtain b where b: "mBody r = Some b" "body_fits b" using assms(1) by (auto dest: rec_fits_Some)
  note len = length_payload(2) [OF b(2)]
  let ?len = "of_nat (length (payload b)) :: u32"
  let ?h = "header_bytes ?len (mycrc32 0 0 (payload b)) (mLogId r) (mOpType r)"
  let ?fh = "fh\<lparr>mOffset := length pre + 16\<rparr>"
  have "file_of w f = pre @ ?h @ (payload b @ rest)"
    using contents by (simp add: record_bytes_header [OF b(1)])
  from ReadFromFile_body_header [OF assms(2,3,4) this, of r0] obtain w4 where
    w4: "same_files w w4" "benign w4"
    and run: "ReadFromFile_body r0 (fh, w) =
      (let r4 = r0\<lparr>mBodyLength := ?len, mCRC := mycrc32 0 0 (payload b), mLogId := mLogId r,
             mOpType := mOpType r\<rparr>;
           (e5, bodyBuf, s5) = ReadNBytes (unat ?len) (?fh, w4)
       in if e5 \<noteq> E_OK then Done (e5, r4, s5) else check_body r4 bodyBuf s5)"
    by blast
  have f4: "file_of w4 f = (pre @ ?h) @ payload b @ rest"
    using same_filesD(2) [OF w4(1), of f] contents by (simp add: record_bytes_header [OF b(1)])
  obtain w5 where w5: "ReadNBytes (unat ?len) (?fh, w4) =
      (E_OK, payload b, (fh\<lparr>mOffset := length pre + 16 + length (payload b)\<rparr>, w5))"
    "same_files w4 w5" "benign w5"
    using ReadNBytes_at [OF w4(2) _ f4, of ?fh "unat ?len"] assms(3) len by auto
  have "ReadFromFile_body r0 (fh, w) =
      Done (E_OK, sealed r, (fh\<lparr>mOffset := length pre + 16 + length (payload b)\<rparr>, w5))"
    unfolding run w5(1) Let_def prod.case
    by (cases r0, cases r)
      (use b in \<open>simp add: check_body_def payload_codec(2) Decode_body sealed_def\<close>)
  moreover have "length (record_bytes r) = 16 + length (payload b)"
    by (simp add: record_bytes_header [OF b(1)])
  ultimately show ?thesis
    using same_files_trans [OF w4(1) w5(2)] w5(3)
    by (auto simp: ReadFromFile_def GetOffset_def add.assoc)
qed

text \<open>
  Whatever the file holds, reading only moves the offset, and a successful read ends inside
  the file.
\<close>

definition reader_step :: "string \<Rightarrow> io \<Rightarrow> err \<Rightarrow> nat \<Rightarrow> io \<Rightarrow> bool" where
  "reader_step f s e n s' \<longleftrightarrow>
     (\<exists>off w'. s' = ((fst s)\<lparr>mOffset := off\<rparr>, w') \<and> same_files (snd s) w' \<and>
       (e = E_OK \<longrightarrow> off = mOffset (fst s) + n \<and> (n = 0 \<or> off \<le> length (file_of (snd s) f))))"

lemma reader_step_trans:
  assumes "reader_step f s E_OK n s1" "reader_step f s1 e m s2"
  shows "reader_step f s e (n + m) s2"
proof -
  from assms(1) obtain w1 where s1: "s1 = ((fst s)\<lparr>mOffset := mOffset (fst s) + n\<rparr>, w1)"
    and 1: "same_files (snd s) w1" "n = 0 \<or> mOffset (fst s) + n \<le> length (file_of (snd s) f)"
    by (auto simp: reader_step_def)
  from assms(2) obtain off w2 where s2: "s2 = ((fst s)\<lparr>mOffset := off\<rparr>, w2)" "same_files w1 w2"
    and 2: "e = E_OK \<longrightarrow> off = mOffset (fst s) + n + m \<and> (m = 0 \<or> off \<le> length (file_of w1 f))"
    by (auto simp: reader_step_def s1)
  from 1 2 s2 same_files_trans [OF 1(1) s2(2)] same_filesD(2) [OF 1(1), of f] show ?thesis
    by (auto simp: reader_step_def add.assoc)
qed

lemma reader_step_mFD: "reader_step f s e n s' \<Longrightarrow> mFD (fst s') = mFD (fst s)"
  by (auto simp: reader_step_def)

lemma reader_step_fail: "reader_step f s e n s' \<Longrightarrow> e \<noteq> E_OK \<Longrightarrow> reader_step f s e m s'"
  by (auto simp: reader_step_def)

lemma reader_step_any: "reader_step f s E_OK n s' \<Longrightarrow> reader_step f s e n s'"
  by (auto simp: reader_step_def)

lemma ReadNBytes_step:
  assumes "ReadNBytes n s = (e, bs, s')" "mFD (fst s) = Some f"
  shows "reader_step f s e n s'"
proof -
  obtain fh w fh' w' where s: "s = (fh, w)" "s' = (fh', w')" by fastforce
  note fs = ReadNBytes_facts [OF assms(1) [unfolded s]]
  have fd: "mFD fh = Some f" using assms(2) s by simp
  show ?thesis
  proof (cases "e = E_OK")
    case True
    with fs(1,3,4) [OF fd] s show ?thesis by (auto simp: reader_step_def)
  next
    case False
    with fs(1,2) [OF fd] s show ?thesis by (auto simp: reader_step_def)
  qed
qed

lemma read_u32_step:
  "read_u32 s = (e, v, s') \<Longrightarrow> mFD (fst s) = Some f \<Longrightarrow> reader_step f s e 4 s'"
  by (auto simp: read_u32_def split: prod.splits intro: ReadNBytes_step)

lemma ReadFromFile_body_step:
  assumes run: "ReadFromFile_body r s = Done (e, r', s')" and fd: "mFD (fst s) = Some f"
  shows "\<exists>n \<ge> 16. reader_step f s e n s'"
proof -
  obtain e1 v1 s1 where 1: "read_u32 s = (e1, v1, s1)" by (metis prod_cases3)
  obtain e2 v2 s2 where 2: "read_u32 s1 = (e2, v2, s2)" by (metis prod_cases3)
  obtain e3 v3 s3 where 3: "read_u32 s2 = (e3, v3, s3)" by (metis prod_cases3)
  obtain e4 v4 s4 where 4: "read_u32 s3 = (e4, v4, s4)" by (metis prod_cases3)
  obtain e5 bs s5 where 5: "ReadNBytes (unat v1) s4 = (e5, bs, s5)" by (metis prod_cases3)
  note t1 = read_u32_step [OF 1 fd]
  note f1 = reader_step_mFD [OF t1, unfolded fd]
  note t2 = read_u32_step [OF 2 f1]
  note f2 = reader_step_mFD [OF t2, unfolded f1]
  note t3 = read_u32_step [OF 3 f2]
  note f3 = reader_step_mFD [OF t3, unfolded f2]
  note t4 = read_u32_step [OF 4 f3]
  note f4 = reader_step_mFD [OF t4, unfolded f3]
  note t5 = ReadNBytes_step [OF 5 f4]
  note run' = run [unfolded ReadFromFile_body_def 1 Let_def prod.case]
  consider "e1 \<noteq> E_OK" "e = e1" "s' = s1"
    | "e1 = E_OK" "e2 \<noteq> E_OK" "e = e2" "s' = s2"
    | "e1 = E_OK" "e2 = E_OK" "e3 \<noteq> E_OK" "e = e3" "s' = s3"
    | "e1 = E_OK" "e2 = E_OK" "e3 = E_OK" "e4 \<noteq> E_OK" "e = e4" "s' = s4"
    | "e1 = E_OK" "e2 = E_OK" "e3 = E_OK" "e4 = E_OK" "s' = s5" "e5 = E_OK \<or> e = e5"
    using run' 2 3 4 5
    by (cases "e1 = E_OK"; cases "e2 = E_OK"; cases "e3 = E_OK"; cases "e4 = E_OK"; cases "e5 = E_OK")
      (auto simp: outcome_simps split: if_splits prod.splits)
  then show ?thesis
  proof cases
    case 1
    with t1 show ?thesis by (auto intro: reader_step_fail)
  next
    case 2
    with t1 have "reader_step f s E_OK 4 s1" by simp
    from reader_step_trans [OF this t2] 2 show ?thesis by (auto intro: reader_step_fail)
  next
    case 3
    with t1 t2 have "reader_step f s E_OK 8 s2"
      using reader_step_trans [of f s 4 s1 E_OK 4 s2] by simp
    from reader_step_trans [OF this t3] 3 show ?thesis by (auto intro: reader_step_fail)
  next
    case 4
    with t1 t2 t3 have "reader_step f s E_OK 12 s3"
      using reader_step_trans [of f s 8 s2 E_OK 4 s3] reader_step_trans [of f s 4 s1 E_OK 4 s2] by simp
    from reader_step_trans [OF this t4] 4 show ?thesis by (auto intro: reader_step_fail)
  next
    case 5
    with t1 t2 t3 t4 have "reader_step f s E_OK 16 s4"
      using reader_step_trans [of f s 12 s3 E_OK 4 s4] reader_step_trans [of f s 8 s2 E_OK 4 s3]
        reader_step_trans [of f s 4 s1 E_OK 4 s2] by simp
    from reader_step_trans [OF this t5] 5(5,6) have "reader_step f s e (16 + unat v1) s'"
      by (cases "e5 = E_OK") (auto intro: reader_step_any)
    then show ?thesis by (intro exI [of _ "16 + unat v1"]) simp
  qed
qed

section \<open>The end of the file\<close>

lemma read_u32_benign:
  assumes "read_u32 s = (e, v, s')" "mFD (fst s) = Some f" "benign (snd s)"
  shows "e = (if mOffset (fst s) + 4 \<le> length (file_of (snd s) f) then E_OK else EIO)"
    "benign (snd s')"
proof -
  obtain fh w where s: "s = (fh, w)" by fastforce
  obtain bs fh' w' where r: "ReadNBytes 4 (fh, w) = (e, bs, (fh', w'))" "s' = (fh', w')"
    using assms(1) s by (auto simp: read_u32_def split: prod.splits)
  note fs = ReadNBytes_facts [OF r(1), of f]
  show "e = (if mOffset (fst s) + 4 \<le> length (file_of (snd s) f) then E_OK else EIO)"
    using fs(6) assms(2,3) s by simp
  show "benign (snd s')"
    using fs(1) assms(2,3) s r(2) same_filesD(5) by auto
qed

lemma read_u32_end:
  assumes "read_u32 s = (e, v, s')" "mFD (fst s) = Some f" "benign (snd s)"
  shows "e = EIO \<or> e = E_OK \<and> mFD (fst s') = Some f \<and> benign (snd s') \<and>
    mOffset (fst s') = mOffset (fst s) + 4 \<and> mOffset (fst s') \<le> length (file_of (snd s') f) \<and>
    length (file_of (snd s') f) = length (file_of (snd s) f)"
  using read_u32_benign [OF assms] read_u32_step [OF assms(1,2)] assms(2)
  by (auto simp: reader_step_def same_filesD(2) split: if_splits)

lemma ReadFromFile_body_short:
  assumes b: "benign (snd s)" and fd: "mFD (fst s) = Some f"
    and short: "length (file_of (snd s) f) < mOffset (fst s) + 16"
  shows "\<exists>r' s'. ReadFromFile_body r s = Done (EIO, r', s')"
proof -
  obtain e1 v1 s1 where 1: "read_u32 s = (e1, v1, s1)" by (metis prod_cases3)
  obtain e2 v2 s2 where 2: "read_u32 s1 = (e2, v2, s2)" by (metis prod_cases3)
  obtain e3 v3 s3 where 3: "read_u32 s2 = (e3, v3, s3)" by (metis prod_cases3)
  obtain e4 v4 s4 where 4: "read_u32 s3 = (e4, v4, s4)" by (metis prod_cases3)
  note end1 = read_u32_end [OF 1 fd b]
  show ?thesis
  proof (cases "e1 = EIO")
    case True then show ?thesis by (simp add: ReadFromFile_body_def 1)
  next
    case n1: False
    note s1 = end1 [simplified n1 simp_thms]
    note end2 = read_u32_end [OF 2, of f]
    show ?thesis
    proof (cases "e2 = EIO")
      case True with s1 show ?thesis by (simp add: ReadFromFile_body_def 1 2)
    next
      case n2: False
      note s2 = end2 [simplified n2 s1 simp_thms]
      note end3 = read_u32_end [OF 3, of f]
      show ?thesis
      proof (cases "e3 = EIO")
        case True with s1 s2 show ?thesis by (simp add: ReadFromFile_body_def 1 2 3)
      next
        case n3: False
        note s3 = end3 [simplified n3 s2 simp_thms]
        have "e4 = EIO"
          using read_u32_benign(1) [OF 4, of f] s1 s2 s3 short by simp
        with s1 s2 s3 show ?thesis by (simp add: ReadFromFile_body_def 1 2 3 4)
      qed
    qed
  qed
qed

lemma strict_prefix_after:
  assumes "strict_prefix d (h @ q)" "length h \<le> length d"
  shows "\<exists>p. d = h @ p \<and> strict_prefix p q"
proof -
  from assms(1) have "prefix d (h @ q)" by (simp add: strict_prefix_def)
  then consider "prefix d h" | p where "d = h @ p" "prefix p q"
    by (auto simp: prefix_append)
  then show ?thesis
  proof cases
    case 1
    then obtain zs where "h = d @ zs" by (auto simp: prefix_def)
    with assms have "d = h @ []" "q \<noteq> []" by auto
    then show ?thesis by (auto simp: strict_prefix_def)
  next
    case 2
    with assms(1) show ?thesis by (auto simp: strict_prefix_def)
  qed
qed

lemma ReadFromFile_body_torn:
  assumes "rec_fits r" "benign w" "mFD fh = Some f" "mOffset fh = length pre"
    and contents: "file_of w f = pre @ d" and "strict_prefix d (record_bytes r)"
  shows "\<exists>r' s'. ReadFromFile_body r0 (fh, w) = Done (EIO, r', s')"
proof -
  obtain b where b: "mBody r = Some b" "body_fits b" using assms(1) by (auto dest: rec_fits_Some)
  note len = length_payload(2) [OF b(2)]
  let ?len = "of_nat (length (payload b)) :: u32"
  let ?h = "header_bytes ?len (mycrc32 0 0 (payload b)) (mLogId r) (mOpType r)"
  show ?thesis
  proof (cases "length d < 16")
    case True
    with ReadFromFile_body_short [of "(fh, w)" f r0] assms show ?thesis by simp
  next
    case False
    then obtain p where d: "d = ?h @ p" "strict_prefix p (payload b)"
      using assms(6) unfolding record_bytes_header [OF b(1)]
      using strict_prefix_after [of d ?h "payload b"] by auto
    let ?fh = "fh\<lparr>mOffset := length pre + 16\<rparr>"
    from ReadFromFile_body_header [OF assms(2,3,4), of ?len "mycrc32 0 0 (payload b)" "mLogId r"
        "mOpType r" p r0] contents d(1)
    obtain w4 where w4: "same_files w w4" "benign w4"
      and run: "ReadFromFile_body r0 (fh, w) =
        (let r4 = r0\<lparr>mBodyLength := ?len, mCRC := mycrc32 0 0 (payload b), mLogId := mLogId r,
               mOpType := mOpType r\<rparr>;
             (e5, bodyBuf, s5) = ReadNBytes (unat ?len) (?fh, w4)
         in if e5 \<noteq> E_OK then Done (e5, r4, s5) else check_body r4 bodyBuf s5)" by auto
    have "length p < length (payload b)"
      using d(2) by (auto simp: strict_prefix_def prefix_def)
    then have "length (file_of w4 f) < mOffset ?fh + unat ?len" "0 < unat ?len"
      using same_filesD(2) [OF w4(1), of f] contents d(1) unfolding len by auto
    from ReadNBytes_short [OF w4(2) _ this] assms(3) obtain bs off w5 where
      "ReadNBytes (unat ?len) (?fh, w4) = (EIO, bs, (?fh\<lparr>mOffset := off\<rparr>, w5))"
      by auto
    then show ?thesis unfolding run by (simp add: Let_def)
  qed
qed

lemma sys_ftruncate_facts:
  assumes "sys_ftruncate (Some f) n w = (e, w')"
  shows "e \<noteq> E_OK \<Longrightarrow> same_files w w'"
    "e = E_OK \<Longrightarrow> file_of w' f = take n (file_of w f) @ replicate (n - length (file_of w f)) 0"
    "same_but f w w'" "durable w' = durable w" "benign w \<Longrightarrow> e = E_OK \<and> benign w'"
    "exists_file w f \<Longrightarrow> exists_file w' f"
proof -
  obtain t w1 where t: "next_resp w = (t, w1)" by fastforce
  note n = next_resp_world [OF t]
  let ?c = "take n (file_of w f) @ replicate (n - length (file_of w f)) 0"
  have "t = RFail e \<and> w' = w1 \<or> e = E_OK \<and> w' = set_file f ?c w1"
    using assms t n(3) [of f] by (auto simp: sys_ftruncate_def Let_def split: sysresp.splits)
  then show "e \<noteq> E_OK \<Longrightarrow> same_files w w'"
    "e = E_OK \<Longrightarrow> file_of w' f = take n (file_of w f) @ replicate (n - length (file_of w f)) 0"
    "same_but f w w'" "durable w' = durable w" "benign w \<Longrightarrow> e = E_OK \<and> benign w'"
    "exists_file w f \<Longrightarrow> exists_file w' f"
    using n(2,6,7,8) n(4) [of f] same_files_next_resp [OF t] same_but_next_resp [OF t] by auto
qed

lemma ReadFromFile_EIO:
  assumes "ReadFromFile_body r (fh, w) = Done (EIO, r', s')" "mFD fh = Some f" "benign w"
  shows "\<exists>w'. ReadFromFile r (fh, w) = Done (EIO, r', (fh, w')) \<and> benign w' \<and> same_but f w w' \<and>
    durable w' = durable w \<and> (exists_file w f \<longrightarrow> exists_file w' f) \<and>
    file_of w' f = take (mOffset fh) (file_of w f) @ replicate (mOffset fh - length (file_of w f)) 0"
proof -
  from ReadFromFile_body_step [OF assms(1), of f] assms(2) obtain off w1
    where s': "s' = (fh\<lparr>mOffset := off\<rparr>, w1)" "same_files w w1"
    by (auto simp: reader_step_def)
  note sf = same_filesD [OF s'(2)]
  obtain e w2 where t: "sys_ftruncate (Some f) (mOffset fh) w1 = (e, w2)" by fastforce
  note tr = sys_ftruncate_facts [OF t]
  from tr(5) sf(5) assms(3) have e: "e = E_OK" "benign w2" by auto
  have "ReadFromFile r (fh, w) = Done (EIO, r', (fh, w2))"
    using t e assms(2)
    by (simp add: ReadFromFile_def assms(1) s' GetOffset_def SetOffset_def Truncate_def)
  moreover have "same_but f w w2"
    using same_but_trans [OF _ tr(3)] sf(1,6) by (auto simp: same_but_def)
  ultimately show ?thesis using e tr(2,4,6) sf by auto
qed

lemma ReadFromFile_not_EIO:
  assumes "ReadFromFile r s = Done (e, r', s')" "e \<noteq> EIO"
  shows "ReadFromFile_body r s = Done (e, r', s')"
proof (cases "ReadFromFile_body r s")
  case (Done p)
  obtain e1 r1 s1 where p: "p = (e1, r1, s1)" by (metis prod_cases3)
  with assms Done show ?thesis
    by (auto simp: ReadFromFile_def Let_def outcome_simps split: if_splits prod.splits)
qed (use assms in \<open>simp add: ReadFromFile_def\<close>)

section \<open>A log file keeps the contract of an append log\<close>

lemma log_io_put [simp]: "log_io_of (put_io s t) = t" "snd (put_io s t) = snd t"
  "snd (log_io_of s) = snd s"
  by (simp_all add: log_io_of_def put_io_def)

definition append_record :: "log_record \<Rightarrow> log_io \<Rightarrow> (err \<times> log_io) outcome" where
  "append_record r s = obind (AppendLogRecord r s) (\<lambda>(e, _, s'). Done (e, s'))"

lemma append_record_eq:
  "append_record r s =
    obind (WriteToFile_rec r (log_io_of s)) (\<lambda>(e, _, t). Done (e, put_io s t))"
  by (cases "WriteToFile_rec r (log_io_of s)")
    (auto simp: append_record_def AppendLogRecord_def split: prod.splits)

interpretation flog: append_log append_record Log_Flush "\<lambda>s. writer_since f w0 (log_io_of s)"
  rec_fits "\<lambda>s. benign (snd s)" "\<lambda>s. written f (log_io_of s)" "\<lambda>s. durable_of (snd s) f" record_bytes
  for f w0
proof (unfold_locales, goal_cases)
  case (1 s r e s')
  then obtain r' t where w: "WriteToFile_rec r (log_io_of s) = Done (e, r', t)" "s' = put_io s t"
    by (auto simp: append_record_eq outcome_simps)
  from WriteToFile_rec_facts [OF w(1) 1(2) 1(1)] w(2) show ?case by simp
next
  case (2 s e s')
  then obtain t where t: "Flush (log_io_of s) = Done (e, t)" "s' = put_io s t"
    by (auto simp: Log_Flush_def outcome_simps)
  from fh.commit_law [OF 2(1) t(1)] t(2) show ?case by simp
next
  case (3 s)
  from fh.stable_law [OF this] show ?case by simp
next
  case (4 s r)
  then have "benign (snd (log_io_of s))" by simp
  from WriteToFile_rec_run [OF 4(2,1) this] obtain t where
    "WriteToFile_rec r (log_io_of s) = Done (E_OK, sealed r, t)" "benign (snd t)" by blast
  then show ?case by (intro exI [of _ "put_io s t"]) (simp add: append_record_eq)
next
  case (5 s)
  then have "benign (snd (log_io_of s))" by simp
  from fh.commit_runs [OF 5(1) this] obtain t where
    "Flush (log_io_of s) = Done (E_OK, t)" "benign (snd t)" by blast
  then show ?case by (intro exI [of _ "put_io s t"]) (simp add: Log_Flush_def)
qed

section \<open>Creating and opening a log file\<close>

definition file_header :: bytes where
  "file_header = LOG_MAGIC @ be32 LOG_VERSION"

lemma LOG_MAGIC_bytes: "LOG_MAGIC = [76, 79, 71, 83]"
  by (simp add: LOG_MAGIC_def)

lemma length_file_header [simp]: "length file_header = 8" "length LOG_MAGIC = 4"
  by (simp_all add: file_header_def LOG_MAGIC_bytes)

lemma WriteHeader_append:
  "WriteHeader s = append_all WriteNBytes [LOG_MAGIC, be32 LOG_VERSION] s"
  by (simp only: append_all.simps(2) [of _ LOG_MAGIC] append_all_single WriteHeader_def write_u32_def
      be32_def)

lemma new_writer:
  assumes "exists_file w f" "file_of w f = []" "durable_of w f = []" "same_but f w0 w"
  shows "writer_since f w0 ((new_fhandler f)\<lparr>mFD := Some f\<rparr>, w)"
    "written f ((new_fhandler f)\<lparr>mFD := Some f\<rparr>, w) = []"
  using assms by (simp_all add: writer_since_def writer_inv_def writer_ok_def new_fhandler_def written_def)

text \<open>A log file that is created holds its header; it may fail to open unnoticed.\<close>

lemma Log_OpenFile_create:
  assumes run: "Log_OpenFile True (new_log f, w) = Done (e, s')"
    and new: "\<not> exists_file w f" "durable_of w f = []" and fd: "mFD (mFileHandler (fst s')) \<noteq> None"
  shows "e = E_OK \<and> writer_since f w (log_io_of s') \<and> written f (log_io_of s') = file_header"
proof -
  obtain fd1 w1 where o: "sys_open f True w = (fd1, w1)" by fastforce
  let ?t = "((new_fhandler f)\<lparr>mFD := fd1\<rparr>, w1)"
  from run obtain t2 where t2: "append_all WriteNBytes [LOG_MAGIC, be32 LOG_VERSION] ?t = Done (e, t2)"
    and s': "s' = put_io (new_log f, w) t2"
    using o new(1) by (auto simp: Log_OpenFile_def OpenFile_fh_def log_io_of_def new_log_def
        new_fhandler_def outcome_simps WriteHeader_append)
  obtain r w2 where r: "next_resp w = (r, w2)" by fastforce
  note n = next_resp_world [OF r]
  show ?thesis
  proof (cases fd1)
    case None
    from t2 obtain e3 s3 where 3: "WriteNBytes LOG_MAGIC ?t = Done (e3, s3)"
      "append_all WriteNBytes [be32 LOG_VERSION] s3 = Done (e, t2)" "s3 = ((fst ?t)\<lparr>mBuffer := LOG_MAGIC\<rparr>, w1)"
      by (auto simp: WriteNBytes_def LOG_FILE_BUFFER_SIZE_def new_fhandler_def)
    then have "mFD (fst t2) = None"
      using None by (auto simp: WriteNBytes_def LOG_FILE_BUFFER_SIZE_def new_fhandler_def)
    with fd s' show ?thesis by (simp add: put_io_def)
  next
    case (Some f1)
    with o r new(1) n(4) [of f] have "f1 = f" "w1 = set_file f [] w2"
      by (auto simp: sys_open_def split: sysresp.splits if_splits)
    moreover have "same_but f w w1"
      using calculation same_but_next_resp [OF r] by simp
    ultimately have "writer_since f w ?t" "written f ?t = []"
      using new_writer [of w1 f w] new(2) n(5) [of f] Some by auto
    with fh.append_all_law [OF _ _ t2, of f w] s' show ?thesis
      by (simp add: file_header_def)
  qed
qed

lemma Log_OpenFile_create_run:
  assumes "benign w" "\<not> exists_file w f" "durable_of w f = []"
  shows "\<exists>s'. Log_OpenFile True (new_log f, w) = Done (E_OK, s') \<and> benign (snd s') \<and>
    writer_since f w (log_io_of s') \<and> written f (log_io_of s') = file_header"
proof -
  obtain r w2 where r: "next_resp w = (r, w2)" by fastforce
  note n = next_resp_world [OF r]
  let ?t = "((new_fhandler f)\<lparr>mFD := Some f\<rparr>, set_file f [] w2)"
  have o: "sys_open f True w = (Some f, set_file f [] w2)"
    using r n(4) [of f] n(7) assms(1,2) by (cases r) (auto simp: sys_open_def)
  have t: "writer_since f w ?t" "written f ?t = []" "benign (snd ?t)"
    using new_writer [of "set_file f [] w2" f w] assms n(5) [of f] n(6) same_but_next_resp [OF r] by auto
  obtain t2 where t2: "append_all WriteNBytes [LOG_MAGIC, be32 LOG_VERSION] ?t = Done (E_OK, t2)"
    "benign (snd t2)"
    using fh.append_all_runs [OF t(1,3), of "[LOG_MAGIC, be32 LOG_VERSION]"] by auto
  have "Log_OpenFile True (new_log f, w) = Done (E_OK, put_io (new_log f, w) t2)"
    using o t2 assms(2) by (simp add: Log_OpenFile_def OpenFile_fh_def log_io_of_def new_log_def
        new_fhandler_def WriteHeader_append)
  with fh.append_all_law [OF t(1) _ t2(1)] t2(2) t(2) show ?thesis
    by (simp add: file_header_def)
qed

text \<open>Opening an existing log file checks the header and stops after it.\<close>

lemma Log_OpenFile_existing:
  assumes "benign w" "exists_file w f" "file_of w f = file_header @ rest"
  shows "\<exists>w'. Log_OpenFile False (new_log f, w) =
      Done (E_OK, (new_log f)\<lparr>mFileHandler := (new_fhandler f)\<lparr>mFD := Some f, mOffset := 8\<rparr>\<rparr>, w') \<and>
    same_files w w' \<and> benign w'"
proof -
  obtain r w1 where r: "next_resp w = (r, w1)" by fastforce
  note n = next_resp_world [OF r]
  have o: "sys_open f False w = (Some f, w1)" and b1: "benign w1"
    using r n(4) [of f] n(6,7) assms(1,2) by (cases r; auto simp: sys_open_def)+
  let ?fh = "(new_fhandler f)\<lparr>mFD := Some f\<rparr>"
  have f1: "file_of w1 f = [] @ LOG_MAGIC @ (be32 LOG_VERSION @ rest)"
    using n(3) [of f] assms(3) by (simp add: file_header_def)
  from ReadNBytes_at [OF b1 _ f1, of ?fh 4] obtain w2 where w2:
    "ReadNBytes 4 (?fh, w1) = (E_OK, LOG_MAGIC, (?fh\<lparr>mOffset := 4\<rparr>, w2))" "same_files w1 w2" "benign w2"
    by (auto simp: new_fhandler_def)
  have f2: "file_of w2 f = LOG_MAGIC @ be32 LOG_VERSION @ rest"
    using same_filesD(2) [OF w2(2), of f] f1 by simp
  from read_u32_at [OF w2(3) _ f2, of "?fh\<lparr>mOffset := 4\<rparr>"] obtain w3 where w3:
    "read_u32 (?fh\<lparr>mOffset := 4\<rparr>, w2) = (E_OK, LOG_VERSION, (?fh\<lparr>mOffset := 8\<rparr>, w3))"
    "same_files w2 w3" "benign w3" by auto
  have "takeWhile (\<lambda>c. c \<noteq> 0) (LOG_MAGIC @ [0]) = LOG_MAGIC"
    by (simp add: LOG_MAGIC_bytes)
  then have "ValidateHeader (?fh, w1) = (E_OK, (?fh\<lparr>mOffset := 8\<rparr>, w3))"
    by (simp add: ValidateHeader_def w2(1) w3(1))
  then have "Log_OpenFile False (new_log f, w) =
      Done (E_OK, (new_log f)\<lparr>mFileHandler := (new_fhandler f)\<lparr>mFD := Some f, mOffset := 8\<rparr>\<rparr>, w3)"
    using o by (simp add: Log_OpenFile_def OpenFile_fh_def log_io_of_def put_io_def new_log_def
        new_fhandler_def)
  with same_files_trans [OF same_files_next_resp [OF r] same_files_trans [OF w2(2) w3(2)]] w3(3)
  show ?thesis by blast
qed

text \<open>A file whose header is torn does not open: \<open>EIO\<close>, and nothing is truncated.\<close>

lemma Log_OpenFile_torn_header:
  assumes "benign w" "exists_file w f" "strict_prefix (file_of w f) file_header"
  shows "\<exists>s'. Log_OpenFile False (new_log f, w) = Done (EIO, s') \<and> same_files w (snd s') \<and>
    benign (snd s') \<and> mFD (mFileHandler (fst s')) = Some f \<and> mBuffer (mFileHandler (fst s')) = []"
proof -
  obtain r w1 where r: "next_resp w = (r, w1)" by fastforce
  note n = next_resp_world [OF r]
  have o: "sys_open f False w = (Some f, w1)" and b1: "benign w1"
    using r n(4) [of f] n(6,7) assms(1,2) by (cases r; auto simp: sys_open_def)+
  let ?fh = "(new_fhandler f)\<lparr>mFD := Some f\<rparr>"
  have sf: "same_files w w1" by (rule same_files_next_resp [OF r])
  have "\<exists>t. ValidateHeader (?fh, w1) = (EIO, t) \<and> same_files w (snd t) \<and> benign (snd t) \<and>
    mFD (fst t) = Some f \<and> mBuffer (fst t) = []"
  proof (cases "length (file_of w f) < 4")
    case True
    then obtain bs off w2 where "ReadNBytes 4 (?fh, w1) = (EIO, bs, (?fh\<lparr>mOffset := off\<rparr>, w2))"
      "same_files w1 w2" "benign w2"
      using ReadNBytes_short [OF b1, of ?fh f 4] n(3) [of f] by (auto simp: new_fhandler_def)
    then show ?thesis using same_files_trans [OF sf] by (simp add: ValidateHeader_def new_fhandler_def)
  next
    case False
    then obtain p where p: "file_of w f = LOG_MAGIC @ p" "strict_prefix p (be32 LOG_VERSION)"
      using strict_prefix_after [of "file_of w f" LOG_MAGIC "be32 LOG_VERSION"] assms(3)
      by (auto simp: file_header_def)
    have f1: "file_of w1 f = [] @ LOG_MAGIC @ p" using n(3) [of f] p by simp
    from ReadNBytes_at [OF b1 _ f1, of ?fh 4] obtain w2 where w2:
      "ReadNBytes 4 (?fh, w1) = (E_OK, LOG_MAGIC, (?fh\<lparr>mOffset := 4\<rparr>, w2))" "same_files w1 w2" "benign w2"
      by (auto simp: new_fhandler_def)
    have "length (file_of w2 f) < 4 + 4"
      using same_filesD(2) [OF w2(2), of f] f1 prefix_length_less [OF p(2)] by simp
    then obtain v off w3 where w3: "read_u32 (?fh\<lparr>mOffset := 4\<rparr>, w2) = (EIO, v, (?fh\<lparr>mOffset := off\<rparr>, w3))"
      "same_files w2 w3" "benign w3"
      using read_u32_short [OF w2(3), of "?fh\<lparr>mOffset := 4\<rparr>" f] by auto
    have "takeWhile (\<lambda>c. c \<noteq> 0) (LOG_MAGIC @ [0]) = LOG_MAGIC"
      by (simp add: LOG_MAGIC_bytes)
    with w2(1) w3 same_files_trans [OF sf same_files_trans [OF w2(2) w3(2)]] show ?thesis
      by (simp add: ValidateHeader_def new_fhandler_def)
  qed
  then obtain t where t: "ValidateHeader (?fh, w1) = (EIO, t)" "same_files w (snd t)" "benign (snd t)"
    "mFD (fst t) = Some f" "mBuffer (fst t) = []" by blast
  then have "Log_OpenFile False (new_log f, w) = Done (EIO, put_io (new_log f, w) t)"
    using o by (simp add: Log_OpenFile_def OpenFile_fh_def log_io_of_def new_log_def new_fhandler_def)
  with t show ?thesis by (auto simp: put_io_def)
qed

section \<open>Properties\<close>

text \<open>A handler that a recovering process has opened on file \<open>f\<close> and moved to \<open>off\<close>.\<close>

definition reader :: "string \<Rightarrow> nat \<Rightarrow> fhandler" where
  "reader f off = (new_fhandler f)\<lparr>mFD := Some f, mOffset := off\<rparr>"

lemma reader_simps [simp]:
  "mFD (reader f off) = Some f" "mOffset (reader f off) = off"
  "(reader f off)\<lparr>mOffset := off'\<rparr> = reader f off'"
  by (simp_all add: reader_def)

text \<open>C24: a record of at most 256 MiB that is written and flushed is on disk, and a process
  that opens the file later and reads at that place gets exactly this record: log id,
  operation type, table, key and value, with length and checksum filled in. The file is not
  changed by reading it.\<close>

theorem log_record_roundtrip:
  assumes "rec_fits r" "writer_inv f s" "benign (snd s)"
  shows "\<exists>s1 s2 w3. WriteToFile_rec r s = Done (E_OK, sealed r, s1) \<and> Flush s1 = Done (E_OK, s2) \<and>
    ReadFromFile r0 (reader f (length (written f s)), snd s2) =
      Done (E_OK, sealed r, (reader f (length (file_of (snd s2) f)), w3)) \<and>
    files w3 = files (snd s2) \<and>
    mLogId (sealed r) = mLogId r \<and> mOpType (sealed r) = mOpType r \<and> mBody (sealed r) = mBody r"
proof -
  have w: "writer_since f (snd s) s" using assms(2) by (simp add: writer_since_def)
  obtain s1 where s1: "WriteToFile_rec r s = Done (E_OK, sealed r, s1)" "benign (snd s1)"
    using WriteToFile_rec_run [OF assms(1) w assms(3)] by blast
  note f1 = WriteToFile_rec_facts [OF s1(1) assms(1) w]
  obtain s2 where s2: "Flush s1 = Done (E_OK, s2)" "benign (snd s2)"
    using fh.commit_runs [OF f1(3) s1(2)] by blast
  have "writer_ok f s1" using f1(3) by (simp add: writer_since_def writer_inv_def)
  from Flush_facts(5) [OF s2(1) this] f1(4)
  have c: "file_of (snd s2) f = written f s @ record_bytes r @ []" by simp
  from ReadFromFile_record [OF assms(1) s2(2) _ _ c, of "reader f (length (written f s))" r0] c
  obtain w3 where "ReadFromFile r0 (reader f (length (written f s)), snd s2) =
      Done (E_OK, sealed r, (reader f (length (file_of (snd s2) f)), w3))" "same_files (snd s2) w3"
    by auto
  with s1(1) s2(1) same_filesD(1) show ?thesis
    by (intro exI [of _ s1] exI [of _ s2] exI [of _ w3]) simp
qed

abbreviation demo_body :: log_body where
  "demo_body \<equiv> \<lparr>mTableName = [116], mKey = [107], mValue = [118, 49]\<rparr>"

abbreviation demo_record :: log_record where
  "demo_record \<equiv> \<lparr>mBodyLength = 0, mCRC = 0, mLogId = 7, mOpType = 0, mBody = Some demo_body\<rparr>"

lemma demo_fits: "rec_fits demo_record"
  by (simp add: rec_fits_def body_fits_def body_bytes_def)

theorem log_record_roundtrip_witness:
  "\<exists>s1 s2 w3. WriteToFile_rec demo_record
      ((new_fhandler ''a'')\<lparr>mFD := Some ''a''\<rparr>,
       \<lparr>files = [(''a'', [])], durable = [], resp = [RShort 2], appending = False\<rparr>) =
      Done (E_OK, sealed demo_record, s1) \<and>
    Flush s1 = Done (E_OK, s2) \<and>
    ReadFromFile new_record (reader ''a'' 0, snd s2) =
      Done (E_OK, sealed demo_record, (reader ''a'' (length (file_of (snd s2) ''a'')), w3))"
proof -
  let ?s = "((new_fhandler ''a'')\<lparr>mFD := Some ''a''\<rparr>,
       \<lparr>files = [(''a'', [])], durable = [], resp = [RShort 2], appending = False\<rparr>) :: io"
  have "writer_inv ''a'' ?s" "benign (snd ?s)" "written ''a'' ?s = []"
    by (simp_all add: writer_inv_def writer_ok_def new_fhandler_def exists_file_def file_of_def
        durable_of_def benign_def written_def)
  with log_record_roundtrip [OF demo_fits this(1,2), of new_record] show ?thesis by auto
qed

text \<open>C25: when the file ends inside a record, because the process died while writing it,
  reading that record reports \<open>EIO\<close>, puts the offset back to the start of the record and cuts
  the incomplete bytes off, leaving everything before them.\<close>

theorem torn_record_is_cut_off:
  assumes "rec_fits r" "benign w" "mFD fh = Some f" "mOffset fh = length pre"
    and "file_of w f = pre @ d" "strict_prefix d (record_bytes r)"
  shows "\<exists>r' w'. ReadFromFile r0 (fh, w) = Done (EIO, r', (fh, w')) \<and> file_of w' f = pre \<and>
    same_but f w w' \<and> durable w' = durable w"
proof -
  obtain r' s' where "ReadFromFile_body r0 (fh, w) = Done (EIO, r', s')"
    using ReadFromFile_body_torn [OF assms] by blast
  from ReadFromFile_EIO [OF this assms(3,2)] assms(4,5) show ?thesis by auto
qed

theorem torn_record_is_cut_off_witness:
  "\<exists>r' w'. ReadFromFile new_record (reader ''a'' 2,
      \<lparr>files = [(''a'', [1, 2] @ take 9 (record_bytes demo_record))], durable = [], resp = [],
       appending = True\<rparr>) = Done (EIO, r', (reader ''a'' 2, w')) \<and> file_of w' ''a'' = [1, 2]"
proof -
  let ?w = "\<lparr>files = [(''a'', [1, 2] @ take 9 (record_bytes demo_record))], durable = [], resp = [],
       appending = True\<rparr>"
  have "length (take 9 (record_bytes demo_record)) < length (record_bytes demo_record)"
    by (simp add: record_bytes_def record_chunks_def)
  then have "strict_prefix (take 9 (record_bytes demo_record)) (record_bytes demo_record)"
    by (metis less_irrefl strict_prefix_def take_is_prefix)
  from torn_record_is_cut_off [OF demo_fits _ _ _ _ this, of ?w "reader ''a'' 2" "''a''" "[1, 2]" new_record]
  show ?thesis by (auto simp: benign_def file_of_def)
qed

text \<open>C26: a record whose stored text was damaged in up to four neighbouring bytes is never
  returned: reading it reports a checksum error.\<close>

theorem damaged_record_rejected:
  assumes "mBody r = Some b" "body_fits b" "payload b = xs @ bs @ ys"
    and "length cs = length bs" "length bs \<le> 4" "cs \<noteq> bs"
    and "benign w" "mFD fh = Some f" "mOffset fh = length pre"
    and "file_of w f = pre @ take 16 (record_bytes r) @ xs @ cs @ ys @ rest"
  shows "\<exists>r' s'. ReadFromFile r0 (fh, w) = Done (E_CRC_CHECK_FAILED, r', s') \<and> mBody r' = mBody r0 \<and>
    same_files w (snd s')"
proof -
  let ?len = "of_nat (length (payload b)) :: u32"
  let ?h = "header_bytes ?len (mycrc32 0 0 (payload b)) (mLogId r) (mOpType r)"
  have "take 16 (record_bytes r) = ?h"
    by (simp add: record_bytes_header [OF assms(1)])
  with assms(10) have c: "file_of w f = pre @ ?h @ (xs @ cs @ ys @ rest)" by simp
  from ReadFromFile_body_header [OF assms(7-9) c, of r0] obtain w4 where w4: "same_files w w4" "benign w4"
    and run: "ReadFromFile_body r0 (fh, w) =
      (let r4 = r0\<lparr>mBodyLength := ?len, mCRC := mycrc32 0 0 (payload b), mLogId := mLogId r,
             mOpType := mOpType r\<rparr>;
           (e5, bodyBuf, s5) = ReadNBytes (unat ?len) (fh\<lparr>mOffset := length pre + 16\<rparr>, w4)
       in if e5 \<noteq> E_OK then Done (e5, r4, s5) else check_body r4 bodyBuf s5)" by blast
  have f4: "file_of w4 f = (pre @ ?h) @ (xs @ cs @ ys) @ rest"
    using same_filesD(2) [OF w4(1), of f] c by simp
  have "unat ?len = length (xs @ cs @ ys)"
    using length_payload(2) [OF assms(2)] assms(3,4) by simp
  with ReadNBytes_at [OF w4(2) _ f4, of "fh\<lparr>mOffset := length pre + 16\<rparr>" "unat ?len"] assms(8)
  obtain w5 where w5: "ReadNBytes (unat ?len) (fh\<lparr>mOffset := length pre + 16\<rparr>, w4) =
      (E_OK, xs @ cs @ ys, (fh\<lparr>mOffset := length pre + 16 + unat ?len\<rparr>, w5))" "same_files w4 w5"
    by auto
  have ne: "mycrc32 0 0 (payload b) \<noteq> mycrc32 0 0 (xs @ cs @ ys)"
    unfolding assms(3) by (rule crc_burst) (use assms(4-6) in auto)
  have "ReadFromFile_body r0 (fh, w) = Done (E_CRC_CHECK_FAILED,
      r0\<lparr>mBodyLength := ?len, mCRC := mycrc32 0 0 (payload b), mLogId := mLogId r, mOpType := mOpType r\<rparr>,
      (fh\<lparr>mOffset := length pre + 16 + unat ?len\<rparr>, w5))"
    unfolding run w5(1) Let_def prod.case check_body_def using ne by simp
  then show ?thesis
    using same_files_trans [OF w4(1) w5(2)] by (simp add: ReadFromFile_def)
qed

theorem damaged_record_rejected_witness:
  "\<exists>r' s'. ReadFromFile new_record (reader ''a'' 0,
      \<lparr>files = [(''a'', take 16 (record_bytes demo_record) @ 0 # tl (payload demo_body))],
       durable = [], resp = [], appending = True\<rparr>) = Done (E_CRC_CHECK_FAILED, r', s')"
proof -
  let ?w = "\<lparr>files = [(''a'', take 16 (record_bytes demo_record) @ 0 # tl (payload demo_body))],
       durable = [], resp = [], appending = True\<rparr>"
  have p: "payload demo_body = [] @ [65] @ tl (payload demo_body)"
    by (simp add: payload_def body_bytes_def str_bytes_def be32_def le_bytes_def htonl_def le_word.simps
        b64_char_def kBase64Alphabet_def upt_rec)
  have "body_fits demo_body" by (simp add: body_fits_def body_bytes_def)
  from damaged_record_rejected [OF _ this p, of demo_record "[0]" ?w "reader ''a'' 0" "''a''" "[]" "[]" new_record]
  show ?thesis by (auto simp: benign_def file_of_def)
qed

text \<open>C33: sixteen zero bytes, as a file system may leave after a crash in space it had
  allocated, pass the checksum test (the checksum of nothing is 0) and make the reader index
  an empty string: the Base64 decoder reads before its first character.\<close>

theorem zero_record_passes_the_checksum:
  assumes "benign w" "mFD fh = Some f" "mOffset fh = length pre"
    and "file_of w f = pre @ replicate 16 0 @ rest"
  shows "ReadFromFile r0 (fh, w) = Abort Out_of_bounds"
proof -
  have be0: "be32 0 = [0, 0, 0, 0]"
    by (simp add: be32_def htonl_def le_bytes_def le_word.simps upt_rec)
  have z: "replicate 16 0 = header_bytes 0 0 0 0"
    by (simp add: header_bytes_def be0 numeral_eq_Suc)
  have crc: "mycrc32 0 0 [] = 0"
    by (simp add: mycrc32_correct_aux crc32_spec_def crc_raw_def)
  from ReadFromFile_body_header [OF assms(1-3) assms(4) [unfolded z], of r0] obtain w4 where
    run: "ReadFromFile_body r0 (fh, w) =
      (let r4 = r0\<lparr>mBodyLength := 0, mCRC := 0, mLogId := 0, mOpType := 0\<rparr>;
           (e5, bodyBuf, s5) = ReadNBytes (unat (0 :: u32)) (fh\<lparr>mOffset := length pre + 16\<rparr>, w4)
       in if e5 \<noteq> E_OK then Done (e5, r4, s5) else check_body r4 bodyBuf s5)" by blast
  have "Decode_str [] = Abort Out_of_bounds"
    by (simp add: Decode_str_def DecodedLength_str_def trailing_eq_def)
  then have "ReadFromFile_body r0 (fh, w) = Abort Out_of_bounds"
    unfolding run by (simp add: ReadNBytes_def ReadNBytes_loop.simps check_body_def crc)
  then show ?thesis by (simp add: ReadFromFile_def)
qed

theorem zero_record_passes_the_checksum_witness:
  "ReadFromFile new_record (reader ''a'' 1,
      \<lparr>files = [(''a'', [9] @ replicate 16 0 @ [1])], durable = [], resp = [], appending = True\<rparr>) =
    Abort Out_of_bounds"
  by (rule zero_record_passes_the_checksum [where f = "''a''" and pre = "[9]" and rest = "[1]"])
    (simp_all add: benign_def file_of_def)

text \<open>C32: a read that the disk answers with an input/output error is taken for the end of the
  file: the log is cut off at the record being read, and the intact records from there on are
  lost.\<close>

theorem read_error_destroys_the_log:
  assumes "resp w = [RFail EIO]" "mFD fh = Some f" "mOffset fh = length pre"
    and "file_of w f = pre @ concat (map record_bytes rs)"
  shows "\<exists>r' w'. ReadFromFile r0 (fh, w) = Done (EIO, r', (fh, w')) \<and> file_of w' f = pre"
proof -
  let ?w1 = "w\<lparr>resp := []\<rparr>"
  have nr: "next_resp w = (RFail EIO, ?w1)" "next_resp ?w1 = (RFull, ?w1)"
    using assms(1) by (simp_all add: next_resp_def)
  have "ReadFromFile_body r0 (fh, w) = Done (EIO, r0, (fh, ?w1))"
    using nr(1) assms(2)
    by (simp add: ReadFromFile_body_def read_u32_def ReadNBytes_def ReadNBytes_loop.simps sys_pread_def)
  moreover have "fh\<lparr>mOffset := length pre\<rparr> = fh"
    using assms(3) by (cases fh) simp
  moreover have "file_of ?w1 f = file_of w f" by (simp add: file_of_def)
  ultimately show ?thesis
    using assms(2-4) nr(2)
    by (simp add: ReadFromFile_def GetOffset_def SetOffset_def Truncate_def sys_ftruncate_def)
qed

theorem read_error_destroys_the_log_witness:
  "\<exists>r' w'. ReadFromFile new_record (reader ''a'' 8,
      \<lparr>files = [(''a'', file_header @ concat (map record_bytes [demo_record]))], durable = [],
       resp = [RFail EIO], appending = True\<rparr>) = Done (EIO, r', (reader ''a'' 8, w')) \<and>
    file_of w' ''a'' = file_header"
  by (rule read_error_destroys_the_log [where rs = "[demo_record]"]) (simp_all add: file_of_def)

end
