(* ===== verification/DirUtil.thy ===== *)
theory DirUtil
  imports FileSys
begin

text \<open>
  \<^verbatim>\<open>src/Common/include/DirUtil.hpp\<close> and \<^verbatim>\<open>src/Common/src/DirUtil.cpp\<close>: listing the regular
  files of a directory that end in a suffix. The directory is what \<^const>\<open>files\<close> holds under
  its name; the entries come in the order the kernel gives them, which is that of the list.
\<close>

section \<open>State\<close>

text \<open>\<open>mDp\<close> says whether the directory stream is open.\<close>

record dir_util =
  mDp :: bool
  mDirName :: string

definition new_dir_util :: "string \<Rightarrow> dir_util" where
  "new_dir_util dirName = \<lparr>mDp = False, mDirName = dirName\<rparr>"

text \<open>
  Appending a slash where it is missing; \<^verbatim>\<open>s[s.length() - 1]\<close> of an empty string is out of
  bounds.
\<close>

definition with_slash :: "string \<Rightarrow> string outcome" where
  "with_slash s =
     (if s = [] then Abort Out_of_bounds
      else if last s \<noteq> CHR ''/'' then Done (s @ ''/'') else Done s)"

definition OpenDir :: "dir_util \<times> world \<Rightarrow> (err \<times> dir_util \<times> world) outcome" where
  "OpenDir s =
     (let (du, w) = s in
      obind (with_slash (mDirName du)) (\<lambda>name.
      let du1 = du\<lparr>mDirName := name\<rparr>; (r, w1) = next_resp w in
      case r of RFail e \<Rightarrow> Done (e, du1\<lparr>mDp := False\<rparr>, w1)
      | _ \<Rightarrow> Done (E_OK, du1\<lparr>mDp := True\<rparr>, w1)))"

text \<open>The names \<^verbatim>\<open>readdir\<close> gives for regular files.\<close>

definition dir_entries :: "string \<Rightarrow> world \<Rightarrow> string list" where
  "dir_entries dir w =
     map (drop (length dir)) (filter (\<lambda>n. take (length dir) n = dir \<and>
       drop (length dir) n \<noteq> [] \<and> CHR ''/'' \<notin> set (drop (length dir) n)) (map fst (files w)))"

text \<open>
  \<^verbatim>\<open>strcmp(d_name + entryLength - suffixLength, suffix)\<close>: a name shorter than the suffix
  makes it read in front of the name.
\<close>

definition has_suffix :: "string \<Rightarrow> string \<Rightarrow> bool outcome" where
  "has_suffix suffix name =
     (if length name < length suffix then Abort Out_of_bounds
      else Done (drop (length name - length suffix) name = suffix))"

text \<open>\<^verbatim>\<open>std::set<std::string>\<close> is a sorted list without repetitions.\<close>

fun scan_entries :: "string \<Rightarrow> string \<Rightarrow> string list \<Rightarrow> string list \<Rightarrow> string list outcome" where
  "scan_entries dir suffix [] found = Done found"
| "scan_entries dir suffix (name # names) found =
     obind (has_suffix suffix name) (\<lambda>fits.
     scan_entries dir suffix names (if fits then insort_insert (dir @ name) found else found))"

definition GetAllFileWithSuffix ::
  "string \<Rightarrow> string list \<Rightarrow> dir_util \<times> world \<Rightarrow> string list outcome" where
  "GetAllFileWithSuffix suffix found s =
     (if \<not> mDp (fst s) then Abort Null_pointer
      else scan_entries (mDirName (fst s)) suffix (dir_entries (mDirName (fst s)) (snd s)) found)"

section \<open>What the listing holds\<close>

lemma has_suffix_Done:
  "has_suffix suffix name = Done b \<longleftrightarrow> length suffix \<le> length name \<and>
     (b \<longleftrightarrow> (\<exists>p. name = p @ suffix))"
proof -
  have "drop (length name - length suffix) name = suffix \<longleftrightarrow> (\<exists>p. name = p @ suffix)"
    if "length suffix \<le> length name"
    using that by (metis append_take_drop_id append_eq_conv_conj diff_add_inverse2 length_append)
  then show ?thesis by (auto simp: has_suffix_def)
qed

lemma scan_entries_spec:
  assumes "scan_entries dir suffix names found = Done res" "sorted found" "distinct found"
  shows "sorted res \<and> distinct res \<and>
    set res = set found \<union> {dir @ n | n. n \<in> set names \<and> (\<exists>p. n = p @ suffix)}"
  using assms
proof (induction names arbitrary: found)
  case (Cons n names)
  from Cons.prems(1) obtain b where b: "has_suffix suffix n = Done b"
    and r: "scan_entries dir suffix names (if b then insort_insert (dir @ n) found else found) = Done res"
    by (auto simp: outcome_simps)
  have "sorted (if b then insort_insert (dir @ n) found else found)"
    "distinct (if b then insort_insert (dir @ n) found else found)"
    using Cons.prems(2,3) by (auto simp: sorted_insort_insert distinct_insort_insert)
  from Cons.IH [OF r this] b show ?case
    by (auto simp: set_insort_insert has_suffix_Done split: if_splits)
qed simp

lemma scan_entries_runs:
  "\<forall>n \<in> set names. length suffix \<le> length n \<Longrightarrow> \<exists>res. scan_entries dir suffix names found = Done res"
  by (induction names arbitrary: found) (auto simp: has_suffix_def)

lemma scan_entries_short:
  assumes "n \<in> set names" "length n < length suffix"
  shows "scan_entries dir suffix names found = Abort Out_of_bounds"
  using assms
proof (induction names arbitrary: found)
  case (Cons m names)
  then show ?case by (cases "length m < length suffix") (auto simp: has_suffix_def)
qed simp

lemma dir_entries_iff: "n \<in> set (dir_entries dir w) \<longleftrightarrow> exists_file w (dir @ n) \<and> n \<noteq> [] \<and> CHR ''/'' \<notin> set n"
proof -
  have "(\<exists>x \<in> fst ` set (files w). n = drop (length dir) x \<and> take (length dir) x = dir) \<longleftrightarrow>
      dir @ n \<in> fst ` set (files w)"
    by (metis append_eq_conv_conj append_take_drop_id)
  then show ?thesis by (auto simp: dir_entries_def exists_file_def)
qed

section \<open>Properties\<close>

text \<open>when no file of the directory has a name shorter than the suffix, the listing is
  exactly the full names of the files that end in the suffix, each once and in ascending
  order. A shorter name makes the comparison read outside the name.\<close>

theorem listing_is_sorted_and_complete:
  assumes "mDp du"
  shows "if \<forall>n. exists_file w (mDirName du @ n) \<and> n \<noteq> [] \<and> CHR ''/'' \<notin> set n \<longrightarrow> length suffix \<le> length n
    then \<exists>res. GetAllFileWithSuffix suffix [] (du, w) = Done res \<and> sorted res \<and> distinct res \<and>
      set res = {mDirName du @ p @ suffix | p. exists_file w (mDirName du @ p @ suffix) \<and>
        p @ suffix \<noteq> [] \<and> CHR ''/'' \<notin> set (p @ suffix)}
    else GetAllFileWithSuffix suffix [] (du, w) = Abort Out_of_bounds"
proof (cases "\<forall>n. exists_file w (mDirName du @ n) \<and> n \<noteq> [] \<and> CHR ''/'' \<notin> set n \<longrightarrow> length suffix \<le> length n")
  case True
  then have "\<forall>n \<in> set (dir_entries (mDirName du) w). length suffix \<le> length n"
    by (simp add: dir_entries_iff)
  from scan_entries_runs [OF this] obtain res where
    r: "scan_entries (mDirName du) suffix (dir_entries (mDirName du) w) [] = Done res" by blast
  have "set res = {mDirName du @ p @ suffix | p. exists_file w (mDirName du @ p @ suffix) \<and>
      p @ suffix \<noteq> [] \<and> CHR ''/'' \<notin> set (p @ suffix)}"
    using scan_entries_spec [OF r] by (auto simp: dir_entries_iff)
  with scan_entries_spec [OF r] r assms True show ?thesis
    by (simp add: GetAllFileWithSuffix_def)
next
  case False
  then obtain n where "n \<in> set (dir_entries (mDirName du) w)" "length n < length suffix"
    by (auto simp: dir_entries_iff not_le)
  from scan_entries_short [OF this] assms show ?thesis
    using False by (simp add: GetAllFileWithSuffix_def)
qed

theorem listing_is_sorted_and_complete_witness:
  "GetAllFileWithSuffix ''.log'' [] (\<lparr>mDp = True, mDirName = ''d/''\<rparr>,
     \<lparr>files = [(''d/b'', [])], durable = [], resp = [], appending = True\<rparr>) = Abort Out_of_bounds"
proof -
  have "\<not> (\<forall>n. exists_file \<lparr>files = [(''d/b'', [])], durable = [], resp = [], appending = True\<rparr> (''d/'' @ n) \<and>
      n \<noteq> [] \<and> CHR ''/'' \<notin> set n \<longrightarrow> length ''.log'' \<le> length n)"
    by (auto simp: exists_file_def intro!: exI [of _ "''b''"])
  then show ?thesis
    using listing_is_sorted_and_complete [of "\<lparr>mDp = True, mDirName = ''d/''\<rparr>"
        "\<lparr>files = [(''d/b'', [])], durable = [], resp = [], appending = True\<rparr>" "''.log''"]
    by simp
qed

end
