(* ===== verification/LogNames.thy ===== *)
theory LogNames
  imports SyncPrelude
begin

text \<open>
  The log file names of \<^verbatim>\<open>src/SyncLog/PersistLogger.cpp\<close>: eight hexadecimal digits of the
  epoch, eight of the file number, \<^verbatim>\<open>".log"\<close>. Recovery replays the files in the order of
  their names, so that order has to be the order in which they were written.
\<close>

section \<open>Printing\<close>

definition hex_digit :: "nat \<Rightarrow> char" where
  "hex_digit n = ''0123456789abcdef'' ! n"

text \<open>\<^verbatim>\<open>ss << std::hex << val\<close>\<close>

function hex_string :: "nat \<Rightarrow> string" where
  "hex_string n = (if n < 16 then [hex_digit n] else hex_string (n div 16) @ [hex_digit (n mod 16)])"
  by pat_completeness auto
termination by (relation "measure id") auto

declare hex_string.simps [simp del]

text \<open>\<^verbatim>\<open>temp2.assign(bitCount - temp.length(), '0')\<close> throws when the difference wraps.\<close>

definition Dec2HexString :: "u32 \<Rightarrow> nat \<Rightarrow> string outcome" where
  "Dec2HexString v bitCount =
     (let temp = hex_string (unat v) in
      if bitCount < length temp then Abort Length_error
      else Done (replicate (bitCount - length temp) (CHR ''0'') @ temp))"

section \<open>Parsing\<close>

text \<open>
  \<^verbatim>\<open>ss >> std::hex >> epoch\<close>: white space, a sign and a \<^verbatim>\<open>0x\<close> are skipped, then come the
  digits; no digits give 0.
\<close>

definition is_space :: "char \<Rightarrow> bool" where
  "is_space c \<longleftrightarrow> c = CHR '' '' \<or> (9 \<le> (of_char c :: nat) \<and> (of_char c :: nat) \<le> 13)"

definition hex_value :: "char \<Rightarrow> nat option" where
  "hex_value c =
     (let n = of_char c :: nat in
      if 48 \<le> n \<and> n \<le> 57 then Some (n - 48)
      else if 97 \<le> n \<and> n \<le> 102 then Some (n - 87)
      else if 65 \<le> n \<and> n \<le> 70 then Some (n - 55)
      else None)"

fun hex_parse :: "nat \<Rightarrow> string \<Rightarrow> nat" where
  "hex_parse acc [] = acc"
| "hex_parse acc (c # cs) =
     (case hex_value c of None \<Rightarrow> acc | Some d \<Rightarrow> hex_parse (16 * acc + d) cs)"

definition read_hex_u64 :: "string \<Rightarrow> u64" where
  "read_hex_u64 s =
     (let s1 = dropWhile is_space s;
          neg = (take 1 s1 = ''-'');
          s2 = (if take 1 s1 = ''-'' \<or> take 1 s1 = ''+'' then drop 1 s1 else s1);
          s3 = (if take 2 s2 = ''0x'' \<or> take 2 s2 = ''0X'' then drop 2 s2 else s2);
          v = of_nat (hex_parse 0 s3)
      in if neg then - v else v)"

text \<open>\<^verbatim>\<open>basename\<close> of \<^verbatim>\<open>string.h\<close>: what follows the last slash.\<close>

definition basename :: "string \<Rightarrow> string" where
  "basename s = rev (takeWhile (\<lambda>c. c \<noteq> CHR ''/'') (rev s))"

definition ParseEpochFromLogName :: "string \<Rightarrow> u64" where
  "ParseEpochFromLogName name = read_hex_u64 (take 8 (basename name))"

section \<open>Eight digits\<close>

fun hex_fixed :: "nat \<Rightarrow> nat \<Rightarrow> string" where
  "hex_fixed 0 n = []"
| "hex_fixed (Suc k) n = hex_fixed k (n div 16) @ [hex_digit (n mod 16)]"

definition hex8 :: "u32 \<Rightarrow> string" where
  "hex8 v = hex_fixed 8 (unat v)"

lemma length_hex_fixed [simp]: "length (hex_fixed k n) = k"
  by (induction k arbitrary: n) auto

lemma length_hex8 [simp]: "length (hex8 v) = 8"
  by (simp add: hex8_def)

lemma hex_fixed_0: "hex_fixed k 0 = replicate k (CHR ''0'')"
  by (induction k) (simp_all add: hex_digit_def replicate_append_same [symmetric])

lemma hex_string_fixed:
  "n < 16 ^ k \<Longrightarrow> 0 < k \<Longrightarrow> length (hex_string n) \<le> k \<and>
    replicate (k - length (hex_string n)) (CHR ''0'') @ hex_string n = hex_fixed k n"
proof (induction k arbitrary: n)
  case (Suc k)
  show ?case
  proof (cases "n < 16")
    case True
    then show ?thesis by (simp add: hex_string.simps [of n] hex_fixed_0)
  next
    case False
    then have "0 < k" using Suc.prems(1) by (cases k) auto
    with False Suc.IH [of "n div 16"] Suc.prems(1) show ?thesis
      by (auto simp: hex_string.simps [of n] less_mult_imp_div_less mult.commute)
  qed
qed simp

lemma Dec2HexString_8 [simp]: "Dec2HexString v 8 = Done (hex8 v)"
proof -
  have "unat v < 16 ^ 8" using unsigned_less [of v, where 'a = nat] by simp
  from hex_string_fixed [OF this] show ?thesis
    by (auto simp: Dec2HexString_def hex8_def not_less [symmetric])
qed

lemma hex_digit_table:
  "\<forall>n \<in> set [0..<16]. hex_value (hex_digit n) = Some n \<and> \<not> is_space (hex_digit n) \<and>
     hex_digit n \<noteq> CHR ''-'' \<and> hex_digit n \<noteq> CHR ''+'' \<and> hex_digit n \<noteq> CHR ''x'' \<and>
     hex_digit n \<noteq> CHR ''X'' \<and> hex_digit n \<noteq> CHR ''/''"
  by code_simp

lemma hex_digit_facts:
  assumes "n < 16"
  shows "hex_value (hex_digit n) = Some n" "\<not> is_space (hex_digit n)" "hex_digit n \<noteq> CHR ''-''"
    "hex_digit n \<noteq> CHR ''+''" "hex_digit n \<noteq> CHR ''x''" "hex_digit n \<noteq> CHR ''X''" "hex_digit n \<noteq> CHR ''/''"
  using hex_digit_table assms by (auto simp del: upt_rec_numeral)

lemma hex_fixed_digits: "c \<in> set (hex_fixed k n) \<Longrightarrow> \<exists>d < 16. c = hex_digit d"
proof (induction k arbitrary: n)
  case (Suc k)
  have "n mod 16 < 16" by simp
  then have "\<exists>d < 16. hex_digit (n mod 16) = hex_digit d" by blast
  with Suc show ?case by auto
qed simp

lemma hex_parse_append:
  "\<forall>c \<in> set cs. \<exists>d < 16. c = hex_digit d \<Longrightarrow> hex_parse a (cs @ ds) = hex_parse (hex_parse a cs) ds"
  by (induction cs arbitrary: a) (auto simp: hex_digit_facts)

lemma hex_parse_fixed: "n < 16 ^ k \<Longrightarrow> hex_parse 0 (hex_fixed k n) = n"
proof (induction k arbitrary: n)
  case (Suc k)
  then have "n div 16 < 16 ^ k" by (simp add: less_mult_imp_div_less mult.commute)
  with Suc.IH [OF this] show ?case
    by (simp add: hex_parse_append hex_fixed_digits hex_digit_facts)
qed simp

lemma read_hex_fixed:
  assumes "n < 16 ^ Suc k"
  shows "read_hex_u64 (hex_fixed (Suc k) n) = of_nat n"
proof -
  obtain c cs where cs: "hex_fixed (Suc k) n = c # cs"
    by (cases "hex_fixed (Suc k) n") auto
  have d: "\<forall>x \<in> set (c # cs). \<exists>d < 16. x = hex_digit d"
    using hex_fixed_digits [of _ "Suc k" n] unfolding cs by blast
  have ne: "\<not> is_space x \<and> x \<noteq> CHR ''-'' \<and> x \<noteq> CHR ''+'' \<and> x \<noteq> CHR ''x'' \<and> x \<noteq> CHR ''X''"
    if "x \<in> set (c # cs)" for x
  proof -
    from bspec [OF d that] obtain k where "k < 16" "x = hex_digit k" by blast
    then show ?thesis by (simp only: hex_digit_facts) simp
  qed
  have c: "\<not> is_space c" "c \<noteq> CHR ''-''" "c \<noteq> CHR ''+''"
    by (simp_all only: ne [of c, OF list.set_intros(1)] simp_thms)
  have x: "x \<noteq> CHR ''x''" "x \<noteq> CHR ''X''" if "x \<in> set cs" for x
    by (simp_all only: ne [of x, OF list.set_intros(2), OF that] simp_thms)
  have "take 2 (c # cs) \<noteq> ''0x''" "take 2 (c # cs) \<noteq> ''0X''"
    using x by (cases cs; auto)+
  moreover have "dropWhile is_space (c # cs) = c # cs" "take 1 (c # cs) \<noteq> ''-''" "take 1 (c # cs) \<noteq> ''+''"
    using c by simp_all
  ultimately have "read_hex_u64 (c # cs) = of_nat (hex_parse 0 (c # cs))"
    unfolding read_hex_u64_def Let_def by presburger
  then show ?thesis using hex_parse_fixed [OF assms] unfolding cs by simp
qed

section \<open>Order\<close>

lemma hex_digit_code:
  "\<forall>n \<in> set [0..<16]. (of_char (hex_digit n) :: nat) = (if n < 10 then 48 + n else 87 + n)"
  by code_simp

lemma hex_digit_mono:
  assumes "n < 16" "m < 16"
  shows "hex_digit n < hex_digit m \<longleftrightarrow> n < m"
proof -
  have c: "(of_char (hex_digit k) :: nat) = (if k < 10 then 48 + k else 87 + k)" if "k < 16" for k
    using hex_digit_code that by (auto simp del: upt_rec_numeral)
  show ?thesis
    by (simp only: less_char_def c [OF assms(1)] c [OF assms(2)]) (simp split: if_split)
qed

lemma append_less_same_length:
  fixes xs ys :: "'a::linorder list"
  assumes "length xs = length ys"
  shows "xs @ us < ys @ vs \<longleftrightarrow> xs < ys \<or> xs = ys \<and> us < vs"
  using assms by (induction xs ys rule: list_induct2) auto

lemma less_div_mod:
  "n < m \<longleftrightarrow> n div 16 < m div 16 \<or> n div 16 = m div 16 \<and> n mod 16 < m mod (16 :: nat)"
proof -
  have split: "k = 16 * (k div 16) + k mod 16 \<and> k mod 16 < 16" for k :: nat by simp
  show ?thesis
    using split [of n] split [of m]
    by (cases "n div 16 < m div 16"; cases "m div 16 < n div 16"; linarith)
qed

lemma hex_fixed_less:
  "n < 16 ^ k \<Longrightarrow> m < 16 ^ k \<Longrightarrow> hex_fixed k n < hex_fixed k m \<longleftrightarrow> n < m"
proof (induction k arbitrary: n m)
  case (Suc k)
  have b: "n div 16 < 16 ^ k" "m div 16 < 16 ^ k"
    using Suc.prems by (simp_all add: less_mult_imp_div_less mult.commute)
  have "hex_fixed k (n div 16) = hex_fixed k (m div 16) \<longleftrightarrow> n div 16 = m div 16"
    using hex_parse_fixed b by metis
  moreover have "n < m \<longleftrightarrow> n div 16 < m div 16 \<or> n div 16 = m div 16 \<and> n mod 16 < m mod 16"
    by (rule less_div_mod)
  ultimately show ?case
    using Suc.IH [OF b] by (simp add: append_less_same_length hex_digit_mono)
qed simp

lemma unat_u32_16: "unat (v :: u32) < 16 ^ 8"
  using unsigned_less [of v, where 'a = nat] by simp

lemma hex8_less [simp]: "hex8 a < hex8 b \<longleftrightarrow> a < b"
  using hex_fixed_less [OF unat_u32_16 unat_u32_16] by (simp add: hex8_def word_less_nat_alt)

lemma hex8_inj [simp]: "hex8 a = hex8 b \<longleftrightarrow> a = b"
  using hex8_less [of a b] hex8_less [of b a] by (metis less_irrefl linorder_less_linear)

section \<open>Names of log files\<close>

definition log_name :: "string \<Rightarrow> u32 \<Rightarrow> u32 \<Rightarrow> string" where
  "log_name dir epoch number = dir @ hex8 epoch @ hex8 number @ ''.log''"

lemma log_name_inj [simp]: "log_name dir a m = log_name dir b n \<longleftrightarrow> a = b \<and> m = n"
  by (auto simp: log_name_def)

lemma log_name_less: "log_name dir a m < log_name dir b n \<longleftrightarrow> a < b \<or> a = b \<and> m < n"
  by (simp add: log_name_def append_less_same_length)

lemma hex8_no_slash: "CHR ''/'' \<notin> set (hex8 v)"
  using hex_fixed_digits hex_digit_facts(7) unfolding hex8_def by fastforce

lemma basename_log_name:
  assumes "dir = [] \<or> last dir = CHR ''/''"
  shows "basename (log_name dir e n) = hex8 e @ hex8 n @ ''.log''"
proof -
  let ?b = "hex8 e @ hex8 n @ ''.log''"
  have "CHR ''/'' \<notin> set ?b" using hex8_no_slash by simp
  then have tw: "takeWhile (\<lambda>c. c \<noteq> CHR ''/'') (rev ?b @ xs) =
      rev ?b @ takeWhile (\<lambda>c. c \<noteq> CHR ''/'') xs" for xs
    by (intro takeWhile_append2) auto
  have "takeWhile (\<lambda>c. c \<noteq> CHR ''/'') (rev dir) = []"
    using assms by (cases dir rule: rev_cases) auto
  then have "takeWhile (\<lambda>c. c \<noteq> CHR ''/'') (rev (log_name dir e n)) = rev ?b"
    using tw [of "rev dir"] by (simp add: log_name_def)
  then show ?thesis unfolding basename_def by simp
qed

lemma ParseEpoch_log_name:
  assumes "dir = [] \<or> last dir = CHR ''/''"
  shows "ParseEpochFromLogName (log_name dir e n) = ucast e"
proof -
  have eight: "8 = Suc 7" by simp
  have "read_hex_u64 (hex8 e) = of_nat (unat e)"
    unfolding hex8_def using read_hex_fixed [of "unat e" 7] unat_u32_16 [of e] by (simp only: eight)
  then show ?thesis
    by (simp add: ParseEpochFromLogName_def basename_log_name [OF assms])
qed

section \<open>Properties\<close>

text \<open>C30: the name of a log file determines it and sorts it: two names in one directory compare
  as their (epoch, file number) pairs do, equal names mean equal pairs, and parsing a name
  gives back the epoch it was made from.\<close>

theorem log_names_sort_by_epoch_and_number:
  "(\<forall>a m b n. obind (Dec2HexString a 8) (\<lambda>x. obind (Dec2HexString m 8) (\<lambda>y.
      obind (Dec2HexString b 8) (\<lambda>u. obind (Dec2HexString n 8) (\<lambda>v.
        Done (dir @ x @ y @ ''.log'' < dir @ u @ v @ ''.log'',
              dir @ x @ y @ ''.log'' = dir @ u @ v @ ''.log'')))))
    = Done (a < b \<or> a = b \<and> m < n, a = b \<and> m = n)) \<and>
   (\<forall>e n. obind (Dec2HexString e 8) (\<lambda>x. obind (Dec2HexString n 8) (\<lambda>y.
      Done (ParseEpochFromLogName ((dir @ ''/'') @ x @ y @ ''.log'')))) = Done (ucast e))"
  using log_name_less [of dir] log_name_inj [of dir] ParseEpoch_log_name [of "dir @ ''/''"]
  by (simp add: log_name_def)

end
