(* ===== verification/PersistLogger.thy ===== *)
theory PersistLogger
  imports FileLog DirUtil LogNames
begin

text \<open>
  \<^verbatim>\<open>src/SyncLog/PersistLogger.hpp\<close> and \<^verbatim>\<open>PersistLogger.cpp\<close>: the log as a series of files of
  5000 log ids each, and recovery, which replays all of them. What recovery tells the rest of
  the process (the records in the order they are passed on, the last log id, the epoch) is
  the state \<open>recovery\<close>; it belongs to the \<^verbatim>\<open>KVDB\<close> object and its log center.
\<close>

section \<open>State\<close>

definition LOG_PER_FILE :: nat where
  "LOG_PER_FILE = 5000"

record persist_logger =
  mCurrentLog :: "log option"
  mLogDir :: string
  mPersistMaxLogId :: u32

type_synonym plog_io = "persist_logger \<times> world"

definition new_persist_logger :: "string \<Rightarrow> persist_logger outcome" where
  "new_persist_logger logDir =
     obind (with_slash logDir) (\<lambda>dir.
     Done \<lparr>mCurrentLog = None, mLogDir = dir, mPersistMaxLogId = 0\<rparr>)"

record recovery =
  rv_records :: "log_record list"
  rv_max_id :: u64
  rv_epoch :: u64

definition put_log :: "plog_io \<Rightarrow> log_io \<Rightarrow> plog_io" where
  "put_log s t = ((fst s)\<lparr>mCurrentLog := Some (fst t)\<rparr>, snd t)"

section \<open>Writing\<close>

definition NeedOpenNewLogFile :: "u64 \<Rightarrow> bool" where
  "NeedOpenNewLogFile logId \<longleftrightarrow> logId mod of_nat LOG_PER_FILE = 0"

text \<open>The destructor of \<^verbatim>\<open>Log\<close> is that of its file handler.\<close>

definition destroy_log :: "log_io \<Rightarrow> world outcome" where
  "destroy_log s = obind (destroy_fh (log_io_of s)) (\<lambda>t. Done (snd t))"

definition log_file_name :: "string \<Rightarrow> u64 \<Rightarrow> u64 \<Rightarrow> string outcome" where
  "log_file_name dir epoch logId =
     obind (Dec2HexString (ucast epoch) 8) (\<lambda>x.
     obind (Dec2HexString (ucast (logId div of_nat LOG_PER_FILE)) 8) (\<lambda>y.
     Done (dir @ x @ y @ ''.log'')))"

definition close_current :: "plog_io \<Rightarrow> plog_io outcome" where
  "close_current s =
     (case mCurrentLog (fst s) of None \<Rightarrow> Done s
      | Some lg \<Rightarrow>
        obind (Log_Close (lg, snd s)) (\<lambda>(e, t).
        obind (destroy_log t) (\<lambda>w. Done ((fst s)\<lparr>mCurrentLog := None\<rparr>, w))))"

definition OpenNewLogFile :: "u64 \<Rightarrow> u64 \<Rightarrow> plog_io \<Rightarrow> (err \<times> plog_io) outcome" where
  "OpenNewLogFile epoch logId s =
     obind (close_current s) (\<lambda>s1.
     obind (log_file_name (mLogDir (fst s1)) epoch logId) (\<lambda>logFileName.
     obind (Log_OpenFile True (new_log logFileName, snd s1)) (\<lambda>(e, t). Done (e, put_log s1 t))))"

text \<open>An error of \<^verbatim>\<open>OpenNewLogFile\<close> is logged, then \<^verbatim>\<open>assert(0)\<close> stops the process.\<close>

definition WriteLog :: "u64 \<Rightarrow> log_record \<Rightarrow> plog_io \<Rightarrow> (err \<times> log_record \<times> plog_io) outcome" where
  "WriteLog epoch r s =
     obind (if mCurrentLog (fst s) = None \<or> NeedOpenNewLogFile (ucast (mLogId r))
            then obind (OpenNewLogFile epoch (ucast (mLogId r)) s) (\<lambda>(e, s1).
              obind (assert_that (e = E_OK)) (\<lambda>_. Done s1))
            else Done s) (\<lambda>s1.
     case mCurrentLog (fst s1) of None \<Rightarrow> Abort Null_pointer
     | Some lg \<Rightarrow>
       obind (AppendLogRecord r (lg, snd s1)) (\<lambda>(e, r1, t). Done (e, r1, put_log s1 t)))"

definition FlushLog_pl :: "plog_io \<Rightarrow> (err \<times> plog_io) outcome" where
  "FlushLog_pl s =
     (case mCurrentLog (fst s) of None \<Rightarrow> Abort Null_pointer
      | Some lg \<Rightarrow> obind (Log_Flush (lg, snd s)) (\<lambda>(e, t). Done (e, put_log s t)))"

section \<open>Recovery\<close>

text \<open>
  A record that was read is handed to the log center and its id becomes the largest known.
\<close>

definition redo_record :: "log_record \<Rightarrow> recovery \<Rightarrow> recovery" where
  "redo_record r rv = rv\<lparr>rv_records := rv_records rv @ [r], rv_max_id := ucast (mLogId r)\<rparr>"

lemma GetNextLogRecord_progress:
  assumes "GetNextLogRecord s = Done (E_OK, r, s')"
  shows "\<exists>f. mFD (mFileHandler (fst s)) = Some f \<and> mFD (mFileHandler (fst s')) = Some f \<and>
    mOffset (mFileHandler (fst s)) < mOffset (mFileHandler (fst s')) \<and>
    mOffset (mFileHandler (fst s')) \<le> length (file_of (snd s) f) \<and> same_files (snd s) (snd s')"
proof -
  obtain t where t: "ReadFromFile new_record (log_io_of s) = Done (E_OK, r, t)" "s' = put_io s t"
    using assms by (auto simp: GetNextLogRecord_def outcome_simps)
  from ReadFromFile_not_EIO [OF t(1)]
  have b: "ReadFromFile_body new_record (log_io_of s) = Done (E_OK, r, t)" by simp
  have "mFD (mFileHandler (fst s)) \<noteq> None"
  proof
    assume "mFD (mFileHandler (fst s)) = None"
    then have "read_u32 (log_io_of s) = (EBADF, ntohl (le_word []), log_io_of s)"
      by (simp add: read_u32_def ReadNBytes_def ReadNBytes_loop.simps log_io_of_def sys_pread_def)
    then have "ReadFromFile_body new_record (log_io_of s) = Done (EBADF, new_record, log_io_of s)"
      by (simp add: ReadFromFile_body_def)
    with b show False by simp
  qed
  then obtain f where f: "mFD (fst (log_io_of s)) = Some f" by (auto simp: log_io_of_def)
  from ReadFromFile_body_step [OF b f] obtain n where "16 \<le> n" "reader_step f (log_io_of s) E_OK n t"
    by blast
  with f t(2) show ?thesis by (auto simp: reader_step_def log_io_of_def put_io_def)
qed

definition bytes_left :: "log_io \<Rightarrow> nat" where
  "bytes_left s = (case mFD (mFileHandler (fst s)) of None \<Rightarrow> 0
     | Some f \<Rightarrow> length (file_of (snd s) f) - mOffset (mFileHandler (fst s)))"

lemma bytes_left_decreases:
  assumes "GetNextLogRecord s = Done (E_OK, r, s')"
  shows "bytes_left s' < bytes_left s"
  using GetNextLogRecord_progress [OF assms] by (auto simp: bytes_left_def same_filesD(2))

function redo_loop :: "recovery \<Rightarrow> log_io \<Rightarrow> (err \<times> recovery \<times> log_io) outcome" where
  "redo_loop rv s =
     (case GetNextLogRecord s of Abort f \<Rightarrow> Abort f
      | Done (e, r, s1) \<Rightarrow>
        if e = E_OK then redo_loop (redo_record r rv) s1 else Done (e, rv, s1))"
  by pat_completeness auto
termination
  by (relation "measure (\<lambda>(rv, s). bytes_left s)") (auto dest: bytes_left_decreases)

declare redo_loop.simps [simp del]

text \<open>
  The file is closed by the destructor on both ways out; the epoch is taken over only when
  the file could be opened, whatever ended the reading.
\<close>

definition RedoLogFile :: "string \<Rightarrow> recovery \<times> world \<Rightarrow> (err \<times> recovery \<times> world) outcome" where
  "RedoLogFile logFileName s =
     obind (Log_OpenFile False (new_log logFileName, snd s)) (\<lambda>(e, t).
     if e \<noteq> E_OK then obind (destroy_log t) (\<lambda>w. Done (e, fst s, w))
     else
       obind (redo_loop (fst s) t) (\<lambda>(e1, rv1, t1).
       obind (destroy_log t1) (\<lambda>w.
       Done (if e1 = EIO then E_OK else e1, rv1\<lparr>rv_epoch := ParseEpochFromLogName logFileName\<rparr>, w))))"

fun redo_files :: "string list \<Rightarrow> recovery \<times> world \<Rightarrow> (recovery \<times> world) outcome" where
  "redo_files [] s = Done s"
| "redo_files (n # ns) s = obind (RedoLogFile n s) (\<lambda>(e, s1). redo_files ns s1)"

definition RecoverFromLog :: "string \<Rightarrow> recovery \<times> world \<Rightarrow> (err \<times> recovery \<times> world) outcome" where
  "RecoverFromLog logDir s =
     obind (OpenDir (new_dir_util logDir, snd s)) (\<lambda>(e, du, w).
     if e \<noteq> E_OK then Done (e, fst s, w)
     else
       obind (GetAllFileWithSuffix ''.log'' [] (du, w)) (\<lambda>logFiles.
       obind (redo_files logFiles (fst s, w)) (\<lambda>s1. Done (E_OK, s1))))"

section \<open>Log files as lists of records\<close>

definition log_image :: "log_record list \<Rightarrow> bytes \<Rightarrow> bytes" where
  "log_image rs d = file_header @ concat (map record_bytes rs) @ d"

text \<open>What may follow the last complete record: part of one more.\<close>

definition torn :: "bytes \<Rightarrow> bool" where
  "torn d \<longleftrightarrow> (\<exists>r. rec_fits r \<and> strict_prefix d (record_bytes r))"

lemma record_bytes_ne: "rec_fits r \<Longrightarrow> record_bytes r \<noteq> []"
  by (auto simp: rec_fits_def record_bytes_header header_bytes_def be32_def le_bytes_def)

lemma torn_Nil [simp]: "torn []"
  unfolding torn_def using demo_fits record_bytes_ne [OF demo_fits]
  by (intro exI [of _ demo_record]) (simp add: strict_prefix_def)

lemma prefix_after:
  assumes "prefix c (h @ q)" "length h \<le> length c"
  shows "\<exists>p. c = h @ p \<and> prefix p q"
proof -
  from assms(1) obtain zs where "h @ q = c @ zs" by (auto simp: prefix_def)
  then show ?thesis using assms(2) by (auto simp: append_eq_append_conv2 prefix_def)
qed

text \<open>Every cut through a log file leaves a torn header, or whole records and a torn one.\<close>

lemma concat_cut:
  "prefix c (concat (map record_bytes rs)) \<Longrightarrow> \<forall>r \<in> set rs. rec_fits r \<Longrightarrow>
    \<exists>k d. k \<le> length rs \<and> torn d \<and> c = concat (map record_bytes (take k rs)) @ d \<and>
      (k < length rs \<longrightarrow> length c < length (concat (map record_bytes (take (Suc k) rs))))"
proof (induction rs arbitrary: c)
  case (Cons r rs)
  have fits: "rec_fits r" using Cons.prems(2) by simp
  show ?case
  proof (cases "length c < length (record_bytes r)")
    case True
    then have "strict_prefix c (record_bytes r)"
      using Cons.prems(1) by (auto simp: prefix_append strict_prefix_def)
    with fits True show ?thesis
      by (intro exI [of _ 0] exI [of _ c]) (auto simp: torn_def)
  next
    case False
    then obtain c' where c: "c = record_bytes r @ c'" "prefix c' (concat (map record_bytes rs))"
      using Cons.prems(1) prefix_after [of c "record_bytes r"] by auto
    from Cons.IH [OF c(2)] Cons.prems(2) obtain k d where
      "k \<le> length rs" "torn d" "c' = concat (map record_bytes (take k rs)) @ d"
      "k < length rs \<longrightarrow> length c' < length (concat (map record_bytes (take (Suc k) rs)))" by auto
    with c(1) show ?thesis by (intro exI [of _ "Suc k"] exI [of _ d]) auto
  qed
qed simp

lemma image_cut:
  assumes "prefix c (log_image rs [])" "\<forall>r \<in> set rs. rec_fits r"
  shows "strict_prefix c file_header \<or>
    (\<exists>k d. k \<le> length rs \<and> torn d \<and> c = log_image (take k rs) d \<and>
      (k < length rs \<longrightarrow> length c < length (log_image (take (Suc k) rs) [])))"
proof (cases "length c < 8")
  case True
  then have "strict_prefix c file_header"
    using assms(1) by (auto simp: log_image_def prefix_append strict_prefix_def)
  then show ?thesis ..
next
  case False
  then obtain c' where c: "c = file_header @ c'" "prefix c' (concat (map record_bytes rs))"
    using assms(1) prefix_after [of c file_header] by (auto simp: log_image_def)
  from concat_cut [OF c(2) assms(2)] c(1) show ?thesis by (auto simp: log_image_def)
qed

section \<open>Recovery reads the records back\<close>

lemma GetNextLogRecord_reader:
  "GetNextLogRecord (lg, w) =
    obind (ReadFromFile new_record (mFileHandler lg, w)) (\<lambda>(e, r, t). Done (e, r, put_io (lg, w) t))"
  by (simp add: GetNextLogRecord_def log_io_of_def)

lemma redo_loop_records:
  "benign w \<Longrightarrow> mFD (mFileHandler lg) = Some f \<Longrightarrow> mOffset (mFileHandler lg) = length pre \<Longrightarrow>
    file_of w f = pre @ concat (map record_bytes rs) @ d \<Longrightarrow> \<forall>r \<in> set rs. rec_fits r \<Longrightarrow> torn d \<Longrightarrow>
    \<exists>w'. redo_loop rv (lg, w) = Done (EIO, fold redo_record (map sealed rs) rv,
        (lg\<lparr>mFileHandler := (mFileHandler lg)\<lparr>mOffset := length (pre @ concat (map record_bytes rs))\<rparr>\<rparr>, w')) \<and>
      file_of w' f = pre @ concat (map record_bytes rs) \<and> same_but f w w' \<and> benign w' \<and>
      durable w' = durable w \<and> (exists_file w f \<longrightarrow> exists_file w' f)"
proof (induction rs arbitrary: lg w pre rv)
  case Nil
  from Nil.prems(6) obtain r where r: "rec_fits r" "strict_prefix d (record_bytes r)"
    by (auto simp: torn_def)
  have c: "file_of w f = pre @ d" using Nil.prems(4) by simp
  obtain r' s' where b: "ReadFromFile_body new_record (mFileHandler lg, w) = Done (EIO, r', s')"
    using ReadFromFile_body_torn [OF r(1) Nil.prems(1,2,3) c r(2)] by blast
  obtain w' where "ReadFromFile new_record (mFileHandler lg, w) = Done (EIO, r', (mFileHandler lg, w'))"
    "benign w'" "same_but f w w'" "durable w' = durable w" "exists_file w f \<longrightarrow> exists_file w' f"
    "file_of w' f = pre"
    using ReadFromFile_EIO [OF b Nil.prems(2,1)] Nil.prems(3) c by auto
  moreover have "lg\<lparr>mFileHandler := (mFileHandler lg)\<lparr>mOffset := length pre\<rparr>\<rparr> = lg"
    using Nil.prems(3) by (cases lg; cases "mFileHandler lg") auto
  ultimately show ?case
    by (subst redo_loop.simps) (simp add: GetNextLogRecord_reader put_io_def)
next
  case (Cons r rs)
  let ?pre = "pre @ record_bytes r"
  let ?lg = "lg\<lparr>mFileHandler := (mFileHandler lg)\<lparr>mOffset := length ?pre\<rparr>\<rparr>"
  have c: "file_of w f = pre @ record_bytes r @ (concat (map record_bytes rs) @ d)"
    using Cons.prems(4) by simp
  obtain w1 where w1: "ReadFromFile new_record (mFileHandler lg, w) =
      Done (E_OK, sealed r, ((mFileHandler lg)\<lparr>mOffset := length ?pre\<rparr>, w1))"
    "same_files w w1" "benign w1"
    using ReadFromFile_record [OF _ Cons.prems(1,2,3) c] Cons.prems(5) by auto
  note sf = same_filesD [OF w1(2)]
  have "redo_loop rv (lg, w) = redo_loop (redo_record (sealed r) rv) (?lg, w1)"
    by (subst redo_loop.simps) (simp add: GetNextLogRecord_reader w1(1) put_io_def)
  moreover have "file_of w1 f = ?pre @ concat (map record_bytes rs) @ d"
    using sf(2) [of f] c by simp
  moreover have "same_but f w w'" if "same_but f w1 w'" for w'
    using that sf(1,6) by (simp add: same_but_def)
  ultimately show ?case
    using Cons.IH [OF w1(3), of ?lg ?pre "redo_record (sealed r) rv"] Cons.prems(2,5,6) sf(4) [of f] sf(6)
    by (auto simp: add.assoc)
qed

lemma WriteToFile_fh_Nil [simp]: "WriteToFile_fh [] s = (E_OK, s)"
  by (simp add: WriteToFile_fh.simps)

lemma sys_fsync_benign:
  assumes "benign w"
  shows "\<exists>w'. sys_fsync (Some f) w = (E_OK, w') \<and> files w' = files w \<and> benign w' \<and>
    durable w' = AList.update f (file_of w f) (durable w)"
proof -
  obtain t w1 where t: "next_resp w = (t, w1)" by fastforce
  note n = next_resp_world [OF t]
  show ?thesis
    using n(1,2,6,7) n(3) [of f] assms t by (cases t) (auto simp: sys_fsync_def benign_def)
qed

text \<open>Closing a file that was only read makes its contents durable.\<close>

lemma destroy_log_reader:
  assumes "benign w" "mFD (mFileHandler lg) = Some f" "mBuffer (mFileHandler lg) = []"
  shows "\<exists>w'. destroy_log (lg, w) = Done w' \<and> files w' = files w \<and> benign w' \<and>
    durable w' = AList.update f (file_of w f) (durable w)"
proof -
  obtain w' where w': "sys_fsync (Some f) w = (E_OK, w')" "files w' = files w" "benign w'"
    "durable w' = AList.update f (file_of w f) (durable w)"
    using sys_fsync_benign [OF assms(1)] by blast
  have "mBuffer_update (\<lambda>_. []) (mFileHandler lg) = mFileHandler lg"
    using assms(3) by (cases "mFileHandler lg") simp
  then have "Flush (mFileHandler lg, w) = Done (E_OK, (mFileHandler lg, w'))"
    using assms(2,3) w'(1) by (simp add: Flush_def WriteAllBufferToFile_def Sync_def)
  with w' assms(2) show ?thesis
    by (simp add: destroy_log_def destroy_fh_def Close_fh_def log_io_of_def)
qed

lemma files_eqD:
  assumes "files w' = files w"
  shows "file_of w' n = file_of w n" "exists_file w' n = exists_file w n"
  using assms by (simp_all add: file_of_def exists_file_def)

lemma durable_update:
  "durable w' = AList.update f c (durable w) \<Longrightarrow> durable_of w' n = (if n = f then c else durable_of w n)"
  by (simp add: durable_of_def update_conv')

lemma same_but_update:
  "files w' = files w \<Longrightarrow> durable w' = AList.update f c (durable w) \<Longrightarrow> same_but f w w'"
  by (simp add: same_but_def update_conv')

text \<open>The three kinds of log file recovery meets on a disk without read errors.\<close>

definition readable :: "world \<Rightarrow> string \<Rightarrow> log_record list \<Rightarrow> bool" where
  "readable w n rs \<longleftrightarrow> exists_file w n \<and> (\<forall>r \<in> set rs. rec_fits r) \<and>
     (\<exists>d. torn d \<and> file_of w n = log_image rs d)"

definition headless :: "world \<Rightarrow> string \<Rightarrow> bool" where
  "headless w n \<longleftrightarrow> exists_file w n \<and> strict_prefix (file_of w n) file_header"

definition holds :: "world \<Rightarrow> string \<Rightarrow> log_record list option \<Rightarrow> bool" where
  "holds w n x = (case x of None \<Rightarrow> headless w n | Some rs \<Rightarrow> readable w n rs)"

lemma holds_same_but: "same_but f w w' \<Longrightarrow> n \<noteq> f \<Longrightarrow> holds w' n x = holds w n x"
  by (simp add: holds_def readable_def headless_def same_but_file_of same_but_exists split: option.split)

definition after_redo :: "string \<Rightarrow> log_record list option \<Rightarrow> recovery \<Rightarrow> recovery" where
  "after_redo n x rv = (case x of None \<Rightarrow> rv
     | Some rs \<Rightarrow> (fold redo_record (map sealed rs) rv)\<lparr>rv_epoch := ParseEpochFromLogName n\<rparr>)"

definition repaired :: "world \<Rightarrow> string \<Rightarrow> log_record list option \<Rightarrow> bool" where
  "repaired w n x = (case x of None \<Rightarrow> headless w n
     | Some rs \<Rightarrow> exists_file w n \<and> file_of w n = log_image rs [] \<and> durable_of w n = log_image rs [])"

lemma repaired_same_but: "same_but f w w' \<Longrightarrow> n \<noteq> f \<Longrightarrow> repaired w' n x = repaired w n x"
  by (simp add: repaired_def headless_def same_but_file_of same_but_exists same_but_durable_of
      split: option.split)

text \<open>
  A readable file is replayed, cut off after the last complete record and made durable; a
  file with a torn header is reported and left as it is.
\<close>

lemma RedoLogFile_readable:
  assumes "benign w" "readable w n rs"
  shows "\<exists>w'. RedoLogFile n (rv, w) = Done (E_OK, after_redo n (Some rs) rv, w') \<and>
    repaired w' n (Some rs) \<and> same_but n w w' \<and> benign w'"
proof -
  from assms(2) obtain d where d: "torn d" "file_of w n = file_header @ concat (map record_bytes rs) @ d"
    and ex: "exists_file w n" and fits: "\<forall>r \<in> set rs. rec_fits r"
    by (auto simp: readable_def log_image_def)
  let ?lg = "(new_log n)\<lparr>mFileHandler := (new_fhandler n)\<lparr>mFD := Some n, mOffset := 8\<rparr>\<rparr>"
  obtain w1 where w1: "Log_OpenFile False (new_log n, w) = Done (E_OK, (?lg, w1))"
    "same_files w w1" "benign w1"
    using Log_OpenFile_existing [OF assms(1) ex d(2)] by blast
  note sf = same_filesD [OF w1(2)]
  let ?pre = "file_header @ concat (map record_bytes rs)"
  let ?lg2 = "?lg\<lparr>mFileHandler := (mFileHandler ?lg)\<lparr>mOffset := length ?pre\<rparr>\<rparr>"
  obtain w2 where w2: "redo_loop rv (?lg, w1) = Done (EIO, fold redo_record (map sealed rs) rv, (?lg2, w2))"
    "file_of w2 n = ?pre" "same_but n w1 w2" "benign w2" "exists_file w2 n"
    using redo_loop_records [OF w1(3), of ?lg n file_header rs d rv] d fits sf(2,4) [of n] ex
    by auto
  obtain w3 where w3: "destroy_log (?lg2, w2) = Done w3" "files w3 = files w2" "benign w3"
    "durable w3 = AList.update n (file_of w2 n) (durable w2)"
    using destroy_log_reader [OF w2(4), of ?lg2 n] by (auto simp: new_fhandler_def)
  have "same_but n w w1" using sf(1,6) by (simp add: same_but_def)
  then have "same_but n w w3"
    using w2(3) same_but_update [OF w3(2,4)] by (blast intro: same_but_trans)
  moreover have "repaired w3 n (Some rs)"
    using files_eqD [OF w3(2)] durable_update [OF w3(4)] w2(2,5)
    by (simp add: repaired_def log_image_def)
  moreover have "RedoLogFile n (rv, w) = Done (E_OK, after_redo n (Some rs) rv, w3)"
    using w1(1) w2(1) w3(1) by (simp add: RedoLogFile_def after_redo_def)
  ultimately show ?thesis using w3(3) by blast
qed

lemma RedoLogFile_headless:
  assumes "benign w" "headless w n"
  shows "\<exists>w'. RedoLogFile n (rv, w) = Done (EIO, rv, w') \<and> repaired w' n None \<and> same_but n w w' \<and>
    benign w'"
proof -
  obtain s1 where s1: "Log_OpenFile False (new_log n, w) = Done (EIO, s1)" "same_files w (snd s1)"
    "benign (snd s1)" "mFD (mFileHandler (fst s1)) = Some n" "mBuffer (mFileHandler (fst s1)) = []"
    using Log_OpenFile_torn_header [OF assms(1), of n] assms(2) unfolding headless_def by blast
  obtain w2 where w2: "destroy_log (fst s1, snd s1) = Done w2" "files w2 = files (snd s1)" "benign w2"
    "durable w2 = AList.update n (file_of (snd s1) n) (durable (snd s1))"
    using destroy_log_reader [OF s1(3-5)] by blast
  note sf = same_filesD [OF s1(2)]
  have "same_but n w (snd s1)" using sf(1,6) by (simp add: same_but_def)
  then have "same_but n w w2"
    using same_but_update [OF w2(2,4)] by (blast intro: same_but_trans)
  moreover have "repaired w2 n None"
    using files_eqD [OF w2(2)] sf(2,4) assms(2) by (simp add: repaired_def headless_def)
  ultimately show ?thesis
    using s1(1) w2(1,3) by (simp add: RedoLogFile_def)
qed

lemma RedoLogFile_holds:
  assumes "benign w" "holds w n x"
  shows "\<exists>e w'. RedoLogFile n (rv, w) = Done (e, after_redo n x rv, w') \<and> repaired w' n x \<and>
    same_but n w w' \<and> benign w'"
proof (cases x)
  case None
  with assms(2) RedoLogFile_headless [OF assms(1), of n rv] show ?thesis
    by (auto simp: holds_def after_redo_def)
next
  case (Some rs)
  with assms(2) have "readable w n rs" by (simp add: holds_def)
  from RedoLogFile_readable [OF assms(1) this, of rv] Some show ?thesis by blast
qed

text \<open>All files in a row.\<close>

lemma redo_files_holds:
  "benign w \<Longrightarrow> distinct (map fst fs) \<Longrightarrow> \<forall>(n, x) \<in> set fs. holds w n x \<Longrightarrow>
    \<exists>w'. redo_files (map fst fs) (rv, w) = Done (fold (\<lambda>(n, x). after_redo n x) fs rv, w') \<and>
      (\<forall>(n, x) \<in> set fs. repaired w' n x) \<and> benign w' \<and>
      (\<forall>m. m \<notin> fst ` set fs \<longrightarrow> file_of w' m = file_of w m \<and> durable_of w' m = durable_of w m \<and>
        exists_file w' m = exists_file w m \<and> (\<forall>x. repaired w' m x = repaired w m x) \<and>
        map_of (durable w') m = map_of (durable w) m)"
proof (induction fs arbitrary: w rv)
  case (Cons a fs)
  obtain n x where a: "a = (n, x)" by fastforce
  from Cons.prems a obtain e w1 where w1: "RedoLogFile n (rv, w) = Done (e, after_redo n x rv, w1)"
    "repaired w1 n x" "same_but n w w1" "benign w1"
    using RedoLogFile_holds [of w n x rv] by auto
  have ne: "m \<noteq> n" if "(m, y) \<in> set fs" for m y
    using Cons.prems(2) a that by (auto simp: rev_image_eqI)
  have "\<forall>(m, y) \<in> set fs. holds w1 m y"
    using Cons.prems(3) ne holds_same_but [OF w1(3)] by fastforce
  with Cons.IH [OF w1(4), of "after_redo n x rv"] Cons.prems(2) obtain w' where
    w': "redo_files (map fst fs) (after_redo n x rv, w1) =
      Done (fold (\<lambda>(n, x). after_redo n x) fs (after_redo n x rv), w')"
      "\<forall>(n, x) \<in> set fs. repaired w' n x" "benign w'"
    and other: "\<forall>m. m \<notin> fst ` set fs \<longrightarrow> file_of w' m = file_of w1 m \<and> durable_of w' m = durable_of w1 m \<and>
        exists_file w' m = exists_file w1 m \<and> (\<forall>x. repaired w' m x = repaired w1 m x) \<and>
        map_of (durable w') m = map_of (durable w1) m"
    by auto
  have "n \<notin> fst ` set fs" using Cons.prems(2) a by simp
  with other w1(2) have "repaired w' n x" by blast
  moreover have "file_of w' m = file_of w m \<and> durable_of w' m = durable_of w m \<and>
      exists_file w' m = exists_file w m \<and> (\<forall>x. repaired w' m x = repaired w m x) \<and>
      map_of (durable w') m = map_of (durable w) m"
    if "m \<notin> fst ` set fs" "m \<noteq> n" for m
    using other that w1(3) [unfolded same_but_def] same_but_file_of [OF w1(3) that(2)] same_but_durable_of [OF w1(3) that(2)]
      same_but_exists [OF w1(3) that(2)] repaired_same_but [OF w1(3) that(2)] by simp
  ultimately show ?case
    using w' w1(1) a by auto
qed simp

section \<open>Recovery of a directory\<close>

text \<open>The regular files of the directory are the log files \<open>fs\<close>, in ascending order.\<close>

definition log_dir :: "string \<Rightarrow> world \<Rightarrow> (string \<times> log_record list option) list \<Rightarrow> bool" where
  "log_dir dir w fs \<longleftrightarrow> dir \<noteq> [] \<and> last dir = CHR ''/'' \<and> sorted_wrt (<) (map fst fs) \<and>
     (\<forall>n. exists_file w (dir @ n) \<and> n \<noteq> [] \<and> CHR ''/'' \<notin> set n \<longleftrightarrow> dir @ n \<in> fst ` set fs) \<and>
     (\<forall>(n, x) \<in> set fs. (\<exists>e m. n = log_name dir e m) \<and> holds w n x)"

lemma sorted_wrt_less_unique:
  fixes xs ys :: "'a::linorder list"
  assumes "sorted_wrt (<) xs" "sorted ys" "distinct ys" "set ys = set xs"
  shows "ys = xs"
  using assms by (metis sorted_distinct_set_unique strict_sorted_iff)

lemma log_dir_listing:
  assumes "log_dir dir w fs"
  shows "GetAllFileWithSuffix ''.log'' [] (\<lparr>mDp = True, mDirName = dir\<rparr>, w) = Done (map fst fs)"
proof -
  define F where "F = fst ` set fs"
  let ?ens = "dir_entries dir w"
  have ens: "n \<in> set ?ens \<longleftrightarrow> dir @ n \<in> F" for n
    using assms unfolding log_dir_def dir_entries_iff F_def by blast
  have name: "\<exists>e m. n = log_name dir e m" if "n \<in> F" for n
    using assms that by (auto simp: log_dir_def F_def)
  have suf: "\<exists>p. n = p @ ''.log''" if "n \<in> set ?ens" for n
  proof -
    from name [of "dir @ n"] that ens obtain e m where "dir @ n = log_name dir e m" by blast
    then show ?thesis by (intro exI [of _ "hex8 e @ hex8 m"]) (simp add: log_name_def)
  qed
  have "\<forall>n \<in> set ?ens. length ''.log'' \<le> length n"
  proof
    fix n assume "n \<in> set ?ens"
    from suf [OF this] obtain p where "n = p @ ''.log''" by blast
    then show "length ''.log'' \<le> length n" by simp
  qed
  from scan_entries_runs [OF this] obtain res where r: "scan_entries dir ''.log'' ?ens [] = Done res"
    by blast
  have "set res = {dir @ n | n. n \<in> set ?ens}"
  proof -
    from scan_entries_spec [OF r]
    have "set res = {dir @ n | n. n \<in> set ?ens \<and> (\<exists>p. n = p @ ''.log'')}" by simp
    then show ?thesis using suf by blast
  qed
  also have "\<dots> = F"
  proof -
    have "\<exists>k. n = dir @ k" if "n \<in> F" for n
      using name [OF that] unfolding log_name_def by blast
    then show ?thesis using ens by blast
  qed
  finally have "res = map fst fs"
    using sorted_wrt_less_unique [of "map fst fs" res] scan_entries_spec [OF r] assms
    by (simp add: log_dir_def F_def)
  with r show ?thesis by (simp add: GetAllFileWithSuffix_def)
qed

lemma RecoverFromLog_spec:
  assumes "log_dir dir w fs" "benign w"
  shows "\<exists>w'. RecoverFromLog dir (rv, w) = Done (E_OK, fold (\<lambda>(n, x). after_redo n x) fs rv, w') \<and>
    (\<forall>(n, x) \<in> set fs. repaired w' n x) \<and> benign w' \<and>
    (\<forall>m. m \<notin> fst ` set fs \<longrightarrow> file_of w' m = file_of w m \<and> durable_of w' m = durable_of w m \<and>
      exists_file w' m = exists_file w m \<and> map_of (durable w') m = map_of (durable w) m)"
proof -
  obtain r w1 where r: "next_resp w = (r, w1)" by fastforce
  note n = next_resp_world [OF r]
  have d: "dir \<noteq> []" "last dir = CHR ''/''" "sorted_wrt (<) (map fst fs)"
    using assms(1) by (simp_all add: log_dir_def)
  have o: "OpenDir (new_dir_util dir, w) = Done (E_OK, \<lparr>mDp = True, mDirName = dir\<rparr>, w1)"
    using r n(7) assms(2) d by (cases r) (auto simp: OpenDir_def new_dir_util_def with_slash_def)
  have sb: "holds w1 m x = holds w m x" for m x
    using n(3,4) by (simp add: holds_def readable_def headless_def split: option.split)
  have "log_dir dir w1 fs"
    using assms(1) n(4) sb by (simp add: log_dir_def)
  note listing = log_dir_listing [OF this]
  have "distinct (map fst fs)"
    using d(3) strict_sorted_iff by blast
  moreover have "\<forall>(n, x) \<in> set fs. holds w1 n x"
    using assms(1) sb by (auto simp: log_dir_def)
  ultimately obtain w' where
    "redo_files (map fst fs) (rv, w1) = Done (fold (\<lambda>(n, x). after_redo n x) fs rv, w')"
    "\<forall>(n, x) \<in> set fs. repaired w' n x" "benign w'"
    "\<forall>m. m \<notin> fst ` set fs \<longrightarrow> file_of w' m = file_of w1 m \<and> durable_of w' m = durable_of w1 m \<and>
      exists_file w' m = exists_file w1 m \<and> map_of (durable w') m = map_of (durable w1) m"
    using redo_files_holds [of w1 fs rv] n(6) assms(2) by blast
  with o listing n show ?thesis by (auto simp: RecoverFromLog_def)
qed

lemma rv_records_fold: "rv_records (fold redo_record rs rv) = rv_records rv @ rs"
  by (induction rs arbitrary: rv) (simp_all add: redo_record_def)

lemma rv_records_after:
  "rv_records (fold (\<lambda>(n, x). after_redo n x) fs rv) =
    rv_records rv @ map sealed (concat (map (\<lambda>(n, x). case x of None \<Rightarrow> [] | Some rs \<Rightarrow> rs) fs))"
proof (induction fs arbitrary: rv)
  case (Cons a fs)
  obtain n x where a: "a = (n, x)" by fastforce
  have "rv_records (after_redo n x rv) =
      rv_records rv @ map sealed (case x of None \<Rightarrow> [] | Some rs \<Rightarrow> rs)"
    by (simp add: after_redo_def rv_records_fold split: option.split)
  with Cons.IH [of "after_redo n x rv"] a show ?case by simp
qed simp

section \<open>The writing side\<close>

definition write_only :: "u64 \<Rightarrow> log_record \<Rightarrow> plog_io \<Rightarrow> (err \<times> plog_io) outcome" where
  "write_only epoch r s = obind (WriteLog epoch r s) (\<lambda>(e, _, s1). Done (e, s1))"

lemma write_only_append:
  assumes "\<not> (mCurrentLog (fst s) = None \<or> NeedOpenNewLogFile (ucast (mLogId r)))"
    and "mCurrentLog (fst s) = Some lg"
  shows "write_only epoch r s = obind (append_record r (lg, snd s)) (\<lambda>(e, t). Done (e, put_log s t))"
  using assms by (cases "AppendLogRecord r (lg, snd s)")
    (auto simp: write_only_def WriteLog_def append_record_def split: prod.splits)

text \<open>
  \<open>segs\<close> is the history of one run: the file numbers it has opened with the records written
  to each. All but the last are closed and durable; the last is the current log. Everything
  else is as it was in world \<open>w0\<close> when the run began.
\<close>

definition segs_closed :: "string \<Rightarrow> u32 \<Rightarrow> (u32 \<times> log_record list) list \<Rightarrow> world \<Rightarrow> bool" where
  "segs_closed dir e segs w \<longleftrightarrow>
     (\<forall>(m, rs) \<in> set segs. repaired w (log_name dir e m) (Some rs))"

definition seg_current :: "string \<Rightarrow> u32 \<times> log_record list \<Rightarrow> plog_io \<Rightarrow> bool" where
  "seg_current f seg s \<longleftrightarrow>
     (\<exists>lg. mCurrentLog (fst s) = Some lg \<and> writer_inv f (log_io_of (lg, snd s)) \<and>
       written f (log_io_of (lg, snd s)) = log_image (snd seg) [])"

definition others_same :: "string \<Rightarrow> u32 \<Rightarrow> u32 set \<Rightarrow> world \<Rightarrow> world \<Rightarrow> bool" where
  "others_same dir e ms w0 w \<longleftrightarrow> (\<forall>n. n \<notin> log_name dir e ` ms \<longrightarrow>
     map_of (files w) n = map_of (files w0) n \<and> map_of (durable w) n = map_of (durable w0) n)"

definition plog_inv ::
  "string \<Rightarrow> u32 \<Rightarrow> world \<Rightarrow> (u32 \<times> log_record list) list \<Rightarrow> plog_io \<Rightarrow> bool" where
  "plog_inv dir e w0 segs s \<longleftrightarrow>
     mLogDir (fst s) = dir \<and> benign (snd s) \<and> sorted_wrt (<) (map fst segs) \<and>
     (\<forall>(m, rs) \<in> set segs. \<forall>r \<in> set rs. rec_fits r) \<and>
     segs_closed dir e (butlast segs) (snd s) \<and>
     others_same dir e (fst ` set segs) w0 (snd s) \<and>
     (if segs = [] then mCurrentLog (fst s) = None
      else seg_current (log_name dir e (fst (last segs))) (last segs) s)"

definition epoch_fresh :: "string \<Rightarrow> u32 \<Rightarrow> world \<Rightarrow> bool" where
  "epoch_fresh dir e w \<longleftrightarrow>
     (\<forall>m. map_of (files w) (log_name dir e m) = None \<and> map_of (durable w) (log_name dir e m) = None)"

lemma segs_closed_same_but:
  assumes "segs_closed dir e segs w" "same_but (log_name dir e m) w w'" "m \<notin> fst ` set segs"
  shows "segs_closed dir e segs w'"
  unfolding segs_closed_def
proof (clarify)
  fix k rs assume k: "(k, rs) \<in> set segs"
  with assms(3) have "k \<noteq> m" by force
  then have "log_name dir e k \<noteq> log_name dir e m" by simp
  from repaired_same_but [OF assms(2) this] k assms(1)
  show "repaired w' (log_name dir e k) (Some rs)" by (auto simp: segs_closed_def)
qed

lemma others_same_but:
  "others_same dir e ms w0 w \<Longrightarrow> same_but (log_name dir e m) w w' \<Longrightarrow>
    others_same dir e (insert m ms) w0 w'"
  by (auto simp: others_same_def same_but_def)

lemma others_same_exists:
  assumes "others_same dir e ms w0 w" "n \<notin> log_name dir e ` ms"
  shows "exists_file w n = exists_file w0 n" "file_of w n = file_of w0 n"
    "durable_of w n = durable_of w0 n"
proof -
  have "exists_file w n = (map_of (files w) n \<noteq> None)" for w
    by (simp add: exists_file_def map_of_eq_None_iff)
  then show "exists_file w n = exists_file w0 n"
    using assms by (simp add: others_same_def)
  show "file_of w n = file_of w0 n" "durable_of w n = durable_of w0 n"
    using assms by (simp_all add: others_same_def file_of_def durable_of_def)
qed

lemma seg_number_last:
  fixes segs :: "(u32 \<times> log_record list) list"
  assumes "sorted_wrt (<) (map fst segs)" "segs \<noteq> []"
  shows "fst (last segs) \<notin> fst ` set (butlast segs)" "fst ` set segs = insert (fst (last segs)) (fst ` set (butlast segs))"
proof -
  have s: "segs = butlast segs @ [last segs]" using assms(2) by simp
  have "sorted_wrt (<) (map fst (butlast segs) @ [fst (last segs)])"
    using assms(1) by (subst (asm) s) simp
  then have lt: "\<forall>x \<in> fst ` set (butlast segs). x < fst (last segs)"
    by (simp add: sorted_wrt_append)
  show "fst (last segs) \<notin> fst ` set (butlast segs)"
  proof
    assume "fst (last segs) \<in> fst ` set (butlast segs)"
    from bspec [OF lt this] show False by simp
  qed
  show "fst ` set segs = insert (fst (last segs)) (fst ` set (butlast segs))"
    by (subst s) (simp del: append_butlast_last_id)
qed

text \<open>A record that goes to the current file.\<close>

lemma write_only_current:
  assumes inv: "plog_inv dir e w0 segs s" and ne: "segs \<noteq> []" and fits: "rec_fits r"
    and no: "\<not> NeedOpenNewLogFile (ucast (mLogId r))"
  shows "\<exists>s'. write_only epoch r s = Done (E_OK, s') \<and>
    plog_inv dir e w0 (butlast segs @ [(fst (last segs), snd (last segs) @ [r])]) s' \<and>
    prefix (durable_of (snd s) (log_name dir e (fst (last segs))))
      (durable_of (snd s') (log_name dir e (fst (last segs))))"
proof -
  let ?m = "fst (last segs)" and ?rs = "snd (last segs)"
  let ?f = "log_name dir e ?m"
  from inv ne have i: "mLogDir (fst s) = dir" "benign (snd s)" "sorted_wrt (<) (map fst segs)"
    "\<forall>(m, rs) \<in> set segs. \<forall>r \<in> set rs. rec_fits r" "segs_closed dir e (butlast segs) (snd s)"
    "others_same dir e (fst ` set segs) w0 (snd s)" "seg_current ?f (last segs) s"
    by (simp_all add: plog_inv_def)
  from i(7) obtain lg where lg: "mCurrentLog (fst s) = Some lg" "writer_inv ?f (log_io_of (lg, snd s))"
    "written ?f (log_io_of (lg, snd s)) = log_image ?rs []"
    by (auto simp: seg_current_def)
  have w: "writer_since ?f (snd s) (log_io_of (lg, snd s))"
    using lg(2) by (simp add: writer_since_def)
  obtain t where t: "append_record r (lg, snd s) = Done (E_OK, t)" "benign (snd t)"
    using flog.emit_runs [OF w fits] i(2) by auto
  note law = flog.emit_law [OF w fits t(1)]
  from law have tw: "writer_inv ?f (log_io_of t)" "same_but ?f (snd s) (snd t)"
    "written ?f (log_io_of t) = log_image (?rs @ [r]) []"
    by (simp_all add: writer_since_def lg(3) log_image_def)
  have "write_only epoch r s = Done (E_OK, put_log s t)"
    using write_only_append [of s r lg epoch] lg(1) no t(1) by simp
  moreover have "plog_inv dir e w0 (butlast segs @ [(?m, ?rs @ [r])]) (put_log s t)"
  proof -
    have segs: "segs = butlast segs @ [(?m, ?rs)]" using ne by simp
    have "segs_closed dir e (butlast segs) (snd t)"
      using segs_closed_same_but [OF i(5) tw(2)] seg_number_last(1) [OF i(3) ne] by blast
    moreover have "others_same dir e (insert ?m (fst ` set (butlast segs))) w0 (snd t)"
      using others_same_but [OF i(6) tw(2)] seg_number_last(2) [OF i(3) ne] by simp
    moreover have "seg_current ?f (?m, ?rs @ [r]) (put_log s t)"
      using tw by (simp add: seg_current_def put_log_def)
    moreover have "sorted_wrt (<) (map fst (butlast segs @ [(?m, ?rs @ [r])]))"
      using i(3) by (subst (asm) segs) simp
    moreover have "\<forall>(m, rs) \<in> set (butlast segs @ [(?m, ?rs @ [r])]). \<forall>r \<in> set rs. rec_fits r"
    proof -
      have "\<forall>(m, rs) \<in> set (butlast segs @ [(?m, ?rs)]). \<forall>r \<in> set rs. rec_fits r"
        using i(4) segs by simp
      with fits show ?thesis by auto
    qed
    ultimately show ?thesis
      using i(1) t(2) by (simp add: plog_inv_def put_log_def)
  qed
  ultimately show ?thesis using law by (auto simp: put_log_def)
qed

text \<open>Changing files flushes and closes the current one.\<close>

lemma close_current_run:
  assumes inv: "plog_inv dir e w0 segs s"
  shows "\<exists>s'. close_current s = Done s' \<and> mCurrentLog (fst s') = None \<and> mLogDir (fst s') = dir \<and>
    benign (snd s') \<and> segs_closed dir e segs (snd s') \<and> others_same dir e (fst ` set segs) w0 (snd s')"
proof (cases "segs = []")
  case True
  with inv show ?thesis by (auto simp: plog_inv_def close_current_def)
next
  case ne: False
  let ?m = "fst (last segs)" and ?rs = "snd (last segs)"
  let ?f = "log_name dir e ?m"
  from inv ne have i: "mLogDir (fst s) = dir" "benign (snd s)" "sorted_wrt (<) (map fst segs)"
    "segs_closed dir e (butlast segs) (snd s)" "others_same dir e (fst ` set segs) w0 (snd s)"
    "seg_current ?f (last segs) s"
    by (simp_all add: plog_inv_def)
  from i(6) obtain lg where lg: "mCurrentLog (fst s) = Some lg" "writer_inv ?f (log_io_of (lg, snd s))"
    "written ?f (log_io_of (lg, snd s)) = log_image ?rs []"
    by (auto simp: seg_current_def)
  let ?io = "log_io_of (lg, snd s)"
  have ok: "writer_ok ?f ?io" using lg(2) by (simp add: writer_inv_def)
  obtain t where t: "Flush ?io = Done (E_OK, t)" "benign (snd t)"
    using Flush_run [OF ok] i(2) by auto
  note fl = Flush_facts [OF t(1) ok]
  from fl(2) have sb: "same_but ?f (snd s) (snd t)" and tok: "writer_ok ?f t"
    by (simp_all add: writer_step_def)
  have fd: "mFD (fst ?io) = Some ?f" using ok by (simp add: writer_ok_def)
  let ?lg' = "lg\<lparr>mFileHandler := (fst t)\<lparr>mFD := None\<rparr>\<rparr>"
  have "Log_Close (lg, snd s) = Done (E_OK, (?lg', snd t))"
    using t(1) fd by (cases t) (simp add: Log_Close_def Close_fh_def put_io_def)
  then have c: "close_current s = Done ((fst s)\<lparr>mCurrentLog := None\<rparr>, snd t)"
    using lg(1) by (simp add: close_current_def destroy_log_def destroy_fh_def log_io_of_def)
  have "repaired (snd t) ?f (Some ?rs)"
    using fl(5,6) lg(3) tok by (simp add: repaired_def writer_ok_def)
  moreover have "segs_closed dir e (butlast segs) (snd t)"
    using segs_closed_same_but [OF i(4) sb] seg_number_last(1) [OF i(3) ne] by blast
  moreover have "set segs = insert (?m, ?rs) (set (butlast segs))"
    using ne by (cases segs rule: rev_cases) auto
  ultimately have "segs_closed dir e segs (snd t)"
    by (simp add: segs_closed_def case_prod_beta)
  moreover have "others_same dir e (fst ` set segs) w0 (snd t)"
    using others_same_but [OF i(5) sb] seg_number_last(2) [OF i(3) ne] by (simp add: insert_absorb)
  ultimately show ?thesis using c i(1) t(2) by simp
qed

lemma log_file_name_eq:
  "log_file_name dir epoch logId =
    Done (log_name dir (ucast epoch) (ucast (logId div of_nat LOG_PER_FILE)))"
  by (simp add: log_file_name_def log_name_def)

text \<open>A record that starts a new file.\<close>

lemma write_only_new:
  assumes inv: "plog_inv dir (ucast epoch) w0 segs s" and fits: "rec_fits r"
    and new: "segs = [] \<or> NeedOpenNewLogFile (ucast (mLogId r))"
    and m: "m = ucast (ucast (mLogId r) div of_nat LOG_PER_FILE :: u64)"
    and greater: "\<forall>k \<in> fst ` set segs. k < m" and fresh: "epoch_fresh dir (ucast epoch) w0"
  shows "\<exists>s'. write_only epoch r s = Done (E_OK, s') \<and>
    plog_inv dir (ucast epoch) w0 (segs @ [(m, [r])]) s' \<and>
    segs_closed dir (ucast epoch) segs (snd s')"
proof -
  let ?e = "ucast epoch :: u32"
  let ?f = "log_name dir ?e m"
  obtain s1 where s1: "close_current s = Done s1" "mCurrentLog (fst s1) = None" "mLogDir (fst s1) = dir"
    "benign (snd s1)" "segs_closed dir ?e segs (snd s1)" "others_same dir ?e (fst ` set segs) w0 (snd s1)"
    using close_current_run [OF inv] by blast
  have nm: "m \<notin> fst ` set segs" using greater by blast
  have "?f \<notin> log_name dir ?e ` fst ` set segs"
  proof (rule notI, erule imageE)
    fix k assume "?f = log_name dir ?e k" and k: "k \<in> fst ` set segs"
    then have "m = k" by simp
    with nm k show False by blast
  qed
  with s1(6) fresh have "map_of (files (snd s1)) ?f = None" "map_of (durable (snd s1)) ?f = None"
    unfolding others_same_def epoch_fresh_def by metis+
  then have ne: "\<not> exists_file (snd s1) ?f" "durable_of (snd s1) ?f = []"
    by (simp add: exists_file_def map_of_eq_None_iff, simp only: durable_of_def option.case)
  obtain s2 where s2: "Log_OpenFile True (new_log ?f, snd s1) = Done (E_OK, s2)" "benign (snd s2)"
    "writer_since ?f (snd s1) (log_io_of s2)" "written ?f (log_io_of s2) = file_header"
    using Log_OpenFile_create_run [OF s1(4) ne] by blast
  obtain t where t: "append_record r s2 = Done (E_OK, t)" "benign (snd t)"
    using flog.emit_runs [OF s2(3) fits s2(2)] by auto
  note law = flog.emit_law [OF s2(3) fits t(1)]
  from law have tw: "writer_inv ?f (log_io_of t)" "same_but ?f (snd s1) (snd t)"
    "written ?f (log_io_of t) = log_image [r] []"
    by (simp_all add: writer_since_def s2(4) log_image_def)
  have must: "mCurrentLog (fst s) = None \<or> NeedOpenNewLogFile (ucast (mLogId r))"
    using new inv by (auto simp: plog_inv_def)
  have op: "OpenNewLogFile epoch (ucast (mLogId r)) s = Done (E_OK, put_log s1 s2)"
    using s1(1,3) s2(1) by (simp add: OpenNewLogFile_def log_file_name_eq m)
  have "write_only epoch r s = Done (E_OK, put_log (put_log s1 s2) t)"
  proof -
    obtain r1 where "AppendLogRecord r s2 = Done (E_OK, r1, t)"
      using t(1) by (auto simp: append_record_def outcome_simps)
    then show ?thesis
      using must op by (simp add: write_only_def WriteLog_def put_log_def)
  qed
  moreover have "plog_inv dir ?e w0 (segs @ [(m, [r])]) (put_log (put_log s1 s2) t)"
  proof -
    have "segs_closed dir ?e segs (snd t)"
      by (rule segs_closed_same_but [OF s1(5) tw(2) nm])
    moreover have "others_same dir ?e (insert m (fst ` set segs)) w0 (snd t)"
      by (rule others_same_but [OF s1(6) tw(2)])
    moreover have "seg_current ?f (m, [r]) (put_log (put_log s1 s2) t)"
      using tw by (simp add: seg_current_def put_log_def)
    moreover have "sorted_wrt (<) (map fst (segs @ [(m, [r])]))"
      using inv greater by (auto simp: plog_inv_def sorted_wrt_append)
    moreover have "\<forall>(m, rs) \<in> set (segs @ [(m, [r])]). \<forall>r \<in> set rs. rec_fits r"
      using inv fits by (auto simp: plog_inv_def)
    ultimately show ?thesis
      using s1(3) t(2) by (simp add: plog_inv_def put_log_def)
  qed
  moreover have "segs_closed dir ?e segs (snd (put_log (put_log s1 s2) t))"
    using segs_closed_same_but [OF s1(5) tw(2) nm] by (simp add: put_log_def)
  ultimately show ?thesis by blast
qed

lemma FlushLog_pl_run:
  assumes inv: "plog_inv dir e w0 segs s" and ne: "segs \<noteq> []"
  shows "\<exists>s'. FlushLog_pl s = Done (E_OK, s') \<and> plog_inv dir e w0 segs s' \<and>
    durable_of (snd s') (log_name dir e (fst (last segs))) = log_image (snd (last segs)) []"
proof -
  let ?m = "fst (last segs)" and ?rs = "snd (last segs)"
  let ?f = "log_name dir e ?m"
  from inv ne have i: "mLogDir (fst s) = dir" "benign (snd s)" "sorted_wrt (<) (map fst segs)"
    "segs_closed dir e (butlast segs) (snd s)" "others_same dir e (fst ` set segs) w0 (snd s)"
    "seg_current ?f (last segs) s"
    by (simp_all add: plog_inv_def)
  from i(6) obtain lg where lg: "mCurrentLog (fst s) = Some lg" "writer_inv ?f (log_io_of (lg, snd s))"
    "written ?f (log_io_of (lg, snd s)) = log_image ?rs []"
    by (auto simp: seg_current_def)
  have w: "writer_since ?f (snd s) (log_io_of (lg, snd s))"
    using lg(2) by (simp add: writer_since_def)
  obtain t where t: "Log_Flush (lg, snd s) = Done (E_OK, t)" "benign (snd t)"
    using flog.commit_runs [OF w] i(2) by auto
  note law = flog.commit_law [OF w t(1)]
  from law have tw: "writer_inv ?f (log_io_of t)" "same_but ?f (snd s) (snd t)"
    "written ?f (log_io_of t) = log_image ?rs []" "durable_of (snd t) ?f = log_image ?rs []"
    by (simp_all add: writer_since_def lg(3))
  have "segs_closed dir e (butlast segs) (snd t)"
    using segs_closed_same_but [OF i(4) tw(2)] seg_number_last(1) [OF i(3) ne] by blast
  moreover have "others_same dir e (fst ` set segs) w0 (snd t)"
    using others_same_but [OF i(5) tw(2)] seg_number_last(2) [OF i(3) ne] by (simp add: insert_absorb)
  moreover have "seg_current ?f (last segs) (put_log s t)"
    using tw by (simp add: seg_current_def put_log_def)
  ultimately have "plog_inv dir e w0 segs (put_log s t)"
    using inv ne t(2) by (simp add: plog_inv_def put_log_def)
  then show ?thesis
    using lg(1) t(1) tw(4) by (simp add: FlushLog_pl_def put_log_def)
qed

section \<open>Sequences of writes\<close>

text \<open>The log center numbers its records one after the other.\<close>

definition ids_from :: "nat \<Rightarrow> log_record list \<Rightarrow> bool" where
  "ids_from k rs \<longleftrightarrow> k + length rs \<le> 2 ^ 32 \<and> (\<forall>i < length rs. mLogId (rs ! i) = of_nat (k + i))"

lemma ids_from_Cons:
  "ids_from k (r # rs) \<longleftrightarrow> k < 2 ^ 32 \<and> mLogId r = of_nat k \<and> ids_from (Suc k) rs"
proof -
  have "(\<forall>i < length (r # rs). mLogId ((r # rs) ! i) = of_nat (k + i)) \<longleftrightarrow>
      mLogId r = of_nat k \<and> (\<forall>i < length rs. mLogId (rs ! i) = of_nat (Suc k + i))"
    unfolding length_Cons All_less_Suc2 by (simp add: add.commute)
  moreover have "k + length (r # rs) \<le> 2 ^ 32 \<longleftrightarrow> k < 2 ^ 32 \<and> Suc k + length rs \<le> 2 ^ 32"
    by auto
  ultimately show ?thesis by (simp only: ids_from_def) blast
qed

lemma ids_from_append: "ids_from k (rs @ rs') \<Longrightarrow> ids_from k rs \<and> ids_from (k + length rs) rs'"
proof (induction rs arbitrary: k)
  case Nil
  then show ?case by (simp add: ids_from_def)
next
  case (Cons r rs)
  then have "k < 2 ^ 32" "mLogId r = of_nat k" "ids_from (Suc k) (rs @ rs')"
    by (simp_all add: ids_from_Cons)
  with Cons.IH [of "Suc k"] show ?case by (simp add: ids_from_Cons)
qed

lemma unat_ucast_u32: "unat (ucast (v :: u32) :: u64) = unat v"
proof -
  have "unat v < 2 ^ 32" using unsigned_less [of v, where 'a = nat] by simp
  then show ?thesis by (simp add: unsigned_ucast_eq take_bit_nat_eq_self)
qed

lemma NeedOpen_iff:
  assumes "k < 2 ^ 32"
  shows "NeedOpenNewLogFile (ucast (of_nat k :: u32)) \<longleftrightarrow> k mod LOG_PER_FILE = 0"
    "unat (ucast (ucast (of_nat k :: u32) div of_nat LOG_PER_FILE :: u64) :: u32) = k div LOG_PER_FILE"
proof -
  let ?v = "ucast (of_nat k :: u32) :: u64"
  have v: "unat ?v = k"
    using assms by (simp only: unat_ucast_u32) (simp add: unat_of_nat take_bit_nat_eq_self)
  have p: "unat (of_nat LOG_PER_FILE :: u64) = LOG_PER_FILE"
    by (simp add: LOG_PER_FILE_def)
  have "unat (?v mod of_nat LOG_PER_FILE) = k mod LOG_PER_FILE"
    by (simp only: unat_mod_distrib v p)
  then show "NeedOpenNewLogFile ?v \<longleftrightarrow> k mod LOG_PER_FILE = 0"
    by (metis NeedOpenNewLogFile_def unat_0 unsigned_word_eqI)
  have d: "unat (?v div of_nat LOG_PER_FILE) = k div LOG_PER_FILE"
    by (simp only: unat_div_distrib v p)
  have "k div LOG_PER_FILE < 2 ^ 32"
    using assms by (meson div_le_dividend le_less_trans)
  then show "unat (ucast (?v div of_nat LOG_PER_FILE) :: u32) = k div LOG_PER_FILE"
    by (simp add: unsigned_ucast_eq d take_bit_nat_eq_self)
qed
text \<open>At least the first \<open>N\<close> records of the run are on disk.\<close>

definition on_disk :: "string \<Rightarrow> u32 \<Rightarrow> nat \<Rightarrow> (u32 \<times> log_record list) list \<Rightarrow> world \<Rightarrow> bool" where
  "on_disk dir e N segs w \<longleftrightarrow>
     N \<le> length (concat (map snd (butlast segs))) \<or>
     (segs \<noteq> [] \<and> (\<exists>j \<le> length (snd (last segs)). N \<le> length (concat (map snd (butlast segs))) + j \<and>
       prefix (log_image (take j (snd (last segs))) []) (durable_of w (log_name dir e (fst (last segs))))))"

lemma concat_butlast_last:
  "segs \<noteq> [] \<Longrightarrow> concat (map snd segs) = concat (map snd (butlast segs)) @ snd (last segs)"
  by (cases segs rule: rev_cases) auto

lemma on_disk_le: "on_disk dir e N segs w \<Longrightarrow> N \<le> length (concat (map snd segs))"
  by (cases "segs = []") (auto simp: on_disk_def concat_butlast_last)

text \<open>The number of the current file is that of the last id written.\<close>

definition numbered :: "nat \<Rightarrow> (u32 \<times> log_record list) list \<Rightarrow> bool" where
  "numbered k segs \<longleftrightarrow> segs \<noteq> [] \<longrightarrow> 0 < k \<and> unat (fst (last segs)) = (k - 1) div LOG_PER_FILE"

lemma next_file_number:
  assumes "0 < k" "k mod LOG_PER_FILE = 0"
  shows "(k - 1) div LOG_PER_FILE < k div LOG_PER_FILE"
proof -
  obtain q where q: "k = LOG_PER_FILE * q" using assms(2) by (metis mod_0_imp_dvd dvdE)
  then have "k - 1 < q * LOG_PER_FILE" "k div LOG_PER_FILE = q"
    using assms(1) by (simp_all add: mult.commute LOG_PER_FILE_def)
  then show ?thesis using less_mult_imp_div_less by blast
qed

lemma same_file_number:
  "0 < k \<Longrightarrow> k mod LOG_PER_FILE \<noteq> 0 \<Longrightarrow> (k - 1) div LOG_PER_FILE = k div LOG_PER_FILE"
  by (cases k) (auto simp: div_Suc)

lemma segs_le_last:
  fixes segs :: "(u32 \<times> log_record list) list"
  assumes "sorted_wrt (<) (map fst segs)" "m \<in> fst ` set segs"
  shows "m \<le> fst (last segs)"
proof -
  have ne: "segs \<noteq> []" using assms(2) by auto
  have s: "map fst segs = map fst (butlast segs) @ [fst (last segs)]"
    using ne by (cases segs rule: rev_cases) auto
  have "m \<in> set (map fst segs)" using assms(2) by simp
  with assms(1) show ?thesis unfolding s by (auto simp: sorted_wrt_append intro: less_imp_le)
qed

lemma write_only_step:
  assumes inv: "plog_inv dir (ucast epoch) w0 segs s" and disk: "on_disk dir (ucast epoch) N segs (snd s)"
    and num: "numbered k segs" and r: "rec_fits r" "k < 2 ^ 32" "mLogId r = of_nat k"
    and fresh: "epoch_fresh dir (ucast epoch) w0"
  shows "\<exists>s' segs'. write_only epoch r s = Done (E_OK, s') \<and> plog_inv dir (ucast epoch) w0 segs' s' \<and>
    on_disk dir (ucast epoch) N segs' (snd s') \<and> numbered (Suc k) segs' \<and>
    concat (map snd segs') = concat (map snd segs) @ [r] \<and> segs' \<noteq> []"
proof (cases "segs = [] \<or> NeedOpenNewLogFile (ucast (mLogId r))")
  case True
  let ?m = "ucast (ucast (mLogId r) div of_nat LOG_PER_FILE :: u64) :: u32"
  have m: "unat ?m = k div LOG_PER_FILE" using NeedOpen_iff(2) [OF r(2)] r(3) by simp
  have sorted: "sorted_wrt (<) (map fst segs)" using inv by (simp add: plog_inv_def)
  have greater: "\<forall>j \<in> fst ` set segs. j < ?m"
  proof
    fix j assume j: "j \<in> fst ` set segs"
    then have ne: "segs \<noteq> []" by auto
    with True r have "k mod LOG_PER_FILE = 0" using NeedOpen_iff(1) [OF r(2)] by simp
    with num ne m have "unat (fst (last segs)) < unat ?m"
      using next_file_number by (simp add: numbered_def)
    then show "j < ?m" using segs_le_last [OF sorted j] by (simp add: word_less_nat_alt word_le_nat_alt)
  qed
  from write_only_new [OF inv r(1) True refl greater fresh] obtain s' where
    s': "write_only epoch r s = Done (E_OK, s')" "plog_inv dir (ucast epoch) w0 (segs @ [(?m, [r])]) s'" by blast
  have "on_disk dir (ucast epoch) N (segs @ [(?m, [r])]) (snd s')"
    using on_disk_le [OF disk] by (simp add: on_disk_def)
  moreover have "numbered (Suc k) (segs @ [(?m, [r])])"
    using m by (simp add: numbered_def)
  ultimately show ?thesis
    using s' by (intro exI [of _ s'] exI [of _ "segs @ [(?m, [r])]"]) simp
next
  case False
  let ?segs = "butlast segs @ [(fst (last segs), snd (last segs) @ [r])]"
  from write_only_current [OF inv _ r(1)] False obtain s' where
    s': "write_only epoch r s = Done (E_OK, s')" "plog_inv dir (ucast epoch) w0 ?segs s'"
    "prefix (durable_of (snd s) (log_name dir (ucast epoch) (fst (last segs))))
      (durable_of (snd s') (log_name dir (ucast epoch) (fst (last segs))))" by blast
  have "on_disk dir (ucast epoch) N ?segs (snd s')"
    using disk s'(3) False unfolding on_disk_def
    by (auto intro: prefix_order.trans le_SucI)
  moreover have "k mod LOG_PER_FILE \<noteq> 0" using False r NeedOpen_iff(1) [OF r(2)] by simp
  then have "numbered (Suc k) ?segs"
    using num False same_file_number [of k] by (simp add: numbered_def)
  moreover have "concat (map snd ?segs) = concat (map snd segs) @ [r]"
    using False concat_butlast_last [of segs] by simp
  ultimately show ?thesis using s' by blast
qed

lemma write_all_run:
  assumes fresh: "epoch_fresh dir (ucast epoch) w0"
  shows "plog_inv dir (ucast epoch) w0 segs s \<Longrightarrow> on_disk dir (ucast epoch) N segs (snd s) \<Longrightarrow>
    numbered k segs \<Longrightarrow> \<forall>r \<in> set rs. rec_fits r \<Longrightarrow> ids_from k rs \<Longrightarrow>
    \<exists>s' segs'. append_all (write_only epoch) rs s = Done (E_OK, s') \<and>
      plog_inv dir (ucast epoch) w0 segs' s' \<and> on_disk dir (ucast epoch) N segs' (snd s') \<and>
      numbered (k + length rs) segs' \<and> concat (map snd segs') = concat (map snd segs) @ rs \<and>
      (rs \<noteq> [] \<longrightarrow> segs' \<noteq> [])"
proof (induction rs arbitrary: s segs k)
  case (Cons r rs)
  from Cons.prems have r: "rec_fits r" "k < 2 ^ 32" "mLogId r = of_nat k" and ids: "ids_from (Suc k) rs"
    by (simp_all add: ids_from_Cons)
  from write_only_step [OF Cons.prems(1-3) r fresh] obtain s1 segs1 where
    s1: "write_only epoch r s = Done (E_OK, s1)" "plog_inv dir (ucast epoch) w0 segs1 s1"
    "on_disk dir (ucast epoch) N segs1 (snd s1)" "numbered (Suc k) segs1"
    "concat (map snd segs1) = concat (map snd segs) @ [r]" "segs1 \<noteq> []" by blast
  have "\<forall>r \<in> set rs. rec_fits r" using Cons.prems(4) by simp
  from Cons.IH [OF s1(2-4) this ids] obtain s' segs' where
    "append_all (write_only epoch) rs s1 = Done (E_OK, s')"
    "plog_inv dir (ucast epoch) w0 segs' s'" "on_disk dir (ucast epoch) N segs' (snd s')"
    "numbered (Suc k + length rs) segs'" "concat (map snd segs') = concat (map snd segs1) @ rs"
    "rs \<noteq> [] \<longrightarrow> segs' \<noteq> []" by blast
  moreover have "segs' \<noteq> []"
    using calculation(5) s1(5) by auto
  ultimately show ?case
    using s1(1,5) by (intro exI [of _ s'] exI [of _ segs']) simp
qed auto

section \<open>Crash and recovery\<close>

text \<open>
  After a crash a file holds at least what was synced and at most what was written; one of
  which nothing was synced may be gone. Buffers of the process are lost in any case.
\<close>

definition crash :: "world \<Rightarrow> world \<Rightarrow> bool" where
  "crash w wc \<longleftrightarrow> (\<forall>n. (exists_file wc n \<longrightarrow> exists_file w n) \<and>
     prefix (durable_of w n) (file_of wc n) \<and> prefix (file_of wc n) (file_of w n))"

text \<open>
  What a run starts from: the directory holds complete, synced log files of smaller epochs
  and no others, as recovery leaves it.
\<close>

definition recovered_dir :: "string \<Rightarrow> u32 \<Rightarrow> world \<Rightarrow> (string \<times> log_record list) list \<Rightarrow> bool" where
  "recovered_dir dir e w olds \<longleftrightarrow>
     log_dir dir w (map (\<lambda>(n, rs). (n, Some rs)) olds) \<and>
     (\<forall>(n, rs) \<in> set olds. repaired w n (Some rs) \<and> (\<exists>e' m. n = log_name dir e' m \<and> e' < e)) \<and>
     epoch_fresh dir e w"

lemma log_image_ne [simp]: "log_image rs d \<noteq> []"
  by (simp add: log_image_def file_header_def LOG_MAGIC_bytes)

lemma file_of_ne_exists: "file_of w n \<noteq> [] \<Longrightarrow> exists_file w n"
  by (metis file_of_def exists_file_def map_of_eq_None_iff option.case(1))

lemma crashD:
  assumes "crash w wc"
  shows "exists_file wc n \<Longrightarrow> exists_file w n" "prefix (durable_of w n) (file_of wc n)"
    "prefix (file_of wc n) (file_of w n)"
  using assms by (simp_all add: crash_def)

lemma crash_repaired:
  assumes "crash w wc" "repaired w n (Some rs)" "\<forall>r \<in> set rs. rec_fits r"
  shows "holds wc n (Some rs)"
proof -
  have "prefix (log_image rs []) (file_of wc n)" "prefix (file_of wc n) (log_image rs [])"
    using crashD(2,3) [OF assms(1), of n] assms(2) by (simp_all add: repaired_def)
  then have f: "file_of wc n = log_image rs []" by (rule prefix_order.antisym [symmetric])
  then have "exists_file wc n" by (intro file_of_ne_exists) simp
  with f assms(3) show ?thesis
    by (auto simp: holds_def readable_def intro!: exI [of _ "[]"])
qed

text \<open>What is left of the current file: nothing, a torn header, or its first records.\<close>

lemma crash_current:
  assumes "crash w wc" "prefix (file_of w n) (log_image rs [])" "\<forall>r \<in> set rs. rec_fits r"
  shows "(\<not> exists_file wc n \<and> durable_of w n = []) \<or>
    (holds wc n None \<and> length (durable_of w n) < 8) \<or>
    (\<exists>k \<le> length rs. holds wc n (Some (take k rs)) \<and>
      (\<forall>j \<le> length rs. prefix (log_image (take j rs) []) (durable_of w n) \<longrightarrow> j \<le> k))"
proof (cases "exists_file wc n")
  case False
  then have "file_of wc n = []" using file_of_ne_exists by blast
  with assms(1) False show ?thesis unfolding crash_def by (metis prefix_Nil)
next
  case True
  let ?c = "file_of wc n"
  have d: "prefix (durable_of w n) ?c" using assms(1) by (simp add: crash_def)
  have "prefix ?c (log_image rs [])"
    using assms(1,2) prefix_order.trans unfolding crash_def by blast
  from image_cut [OF this assms(3)] show ?thesis
  proof (elim disjE exE conjE)
    assume h: "strict_prefix ?c file_header"
    then have "length (durable_of w n) < 8"
      using prefix_length_le [OF d] prefix_length_less [OF h] by simp
    with h True show ?thesis by (simp add: holds_def headless_def)
  next
    fix k t
    assume k: "k \<le> length rs" "torn t" "?c = log_image (take k rs) t"
      "k < length rs \<longrightarrow> length ?c < length (log_image (take (Suc k) rs) [])"
    have "holds wc n (Some (take k rs))"
      using True k assms(3) by (auto simp: holds_def readable_def dest: in_set_takeD)
    moreover have "j \<le> k" if j: "j \<le> length rs" "prefix (log_image (take j rs) []) (durable_of w n)" for j
    proof (rule ccontr)
      assume "\<not> j \<le> k"
      then have "take j rs = take (Suc k) rs @ drop (Suc k) (take j rs)"
        by (metis append_take_drop_id min.absorb1 not_less_eq_eq take_take)
      then have "length (log_image (take (Suc k) rs) []) \<le> length (log_image (take j rs) [])"
        unfolding log_image_def by (metis (no_types, lifting) add_left_mono append_Nil2 concat_append
            le_add1 length_append map_append)
      also have "\<dots> \<le> length ?c"
        using prefix_length_le [OF j(2)] prefix_length_le [OF d] by simp
      finally show False using k(4) \<open>\<not> j \<le> k\<close> j(1) by simp
    qed
    ultimately show ?thesis using k(1) by blast
  qed
qed

text \<open>The current file seen as one more part of the directory after the crash.\<close>

lemma crash_last_part:
  assumes "crash w wc" "prefix (file_of w n) (log_image rs [])" "\<forall>r \<in> set rs. rec_fits r"
  shows "\<exists>xs k. k \<le> length rs \<and> length xs \<le> 1 \<and> (\<forall>x \<in> set xs. holds wc n x) \<and>
    (exists_file wc n \<longrightarrow> xs \<noteq> []) \<and> concat (map (\<lambda>x. case x of None \<Rightarrow> [] | Some rs \<Rightarrow> rs) xs) = take k rs \<and>
    (\<forall>j \<le> length rs. prefix (log_image (take j rs) []) (durable_of w n) \<longrightarrow> j \<le> k)"
proof -
  have small: "\<not> prefix (log_image (take j rs) []) (durable_of w n)" if "length (durable_of w n) < 8" for j
    using that by (auto dest: prefix_length_le simp: log_image_def)
  from crash_current [OF assms] consider
    (gone) "\<not> exists_file wc n" "durable_of w n = []"
    | (headless) "holds wc n None" "length (durable_of w n) < 8"
    | (some) k where "k \<le> length rs" "holds wc n (Some (take k rs))"
        "\<forall>j \<le> length rs. prefix (log_image (take j rs) []) (durable_of w n) \<longrightarrow> j \<le> k"
    by blast
  then show ?thesis
  proof cases
    case gone
    then show ?thesis by (intro exI [of _ "[]"] exI [of _ 0]) simp
  next
    case headless
    then show ?thesis using small by (intro exI [of _ "[None]"] exI [of _ 0]) simp
  next
    case some
    then show ?thesis by (intro exI [of _ "[Some (take k rs)]"] exI [of _ k]) simp
  qed
qed

lemma log_name_exists_in_dir:
  assumes "dir @ n = log_name dir e m"
  shows "n \<noteq> []" "CHR ''/'' \<notin> set n"
proof -
  have "n = hex8 e @ hex8 m @ ''.log''" using assms by (simp add: log_name_def)
  then show "n \<noteq> []" "CHR ''/'' \<notin> set n" using hex8_no_slash by simp_all
qed

lemma holds_exists: "holds w n x \<Longrightarrow> exists_file w n"
  by (auto simp: holds_def readable_def headless_def split: option.splits)

text \<open>The directory after the crash: old files, closed files, what is left of the current one.\<close>

lemma crash_log_dir:
  assumes rec: "recovered_dir dir e w0 olds" and inv: "plog_inv dir e w0 segs s"
    and cr: "crash (snd s) wc" and ne: "segs \<noteq> []" and xs: "length xs \<le> 1"
    "\<forall>x \<in> set xs. holds wc (log_name dir e (fst (last segs))) x"
    "exists_file wc (log_name dir e (fst (last segs))) \<longrightarrow> xs \<noteq> []"
  shows "log_dir dir wc (map (\<lambda>(n, rs). (n, Some rs)) olds @
    map (\<lambda>(m, rs). (log_name dir e m, Some rs)) (butlast segs) @
    map (\<lambda>x. (log_name dir e (fst (last segs)), x)) xs)"
proof -
  let ?O = "map (\<lambda>(n, rs). (n, Some rs)) olds :: (string \<times> log_record list option) list"
  let ?C = "map (\<lambda>(m, rs). (log_name dir e m, Some rs)) (butlast segs)"
  let ?nm = "log_name dir e (fst (last segs))"
  let ?L = "map (\<lambda>x. (?nm, x)) xs"
  have old: "log_dir dir w0 ?O" "epoch_fresh dir e w0"
    "\<And>n rs. (n, rs) \<in> set olds \<Longrightarrow> repaired w0 n (Some rs) \<and> (\<exists>e' m. n = log_name dir e' m \<and> e' < e)"
    using rec by (auto simp: recovered_dir_def)
  from inv ne have i: "sorted_wrt (<) (map fst segs)" "\<forall>(m, rs) \<in> set segs. \<forall>r \<in> set rs. rec_fits r"
    "segs_closed dir e (butlast segs) (snd s)" "others_same dir e (fst ` set segs) w0 (snd s)"
    by (simp_all add: plog_inv_def)
  have segs: "segs = butlast segs @ [last segs]" using ne by simp
  have msorted: "sorted_wrt (<) (map fst (butlast segs))"
    "\<forall>m \<in> fst ` set (butlast segs). m < fst (last segs)"
    using i(1) by (subst (asm) segs, simp add: sorted_wrt_append)+
  have oldname: "n \<notin> log_name dir e ` ms" if "(n, rs) \<in> set olds" for n rs ms
    using old(3) [OF that] by auto
  have oldfile: "holds wc n (Some rs)" if m: "(n, rs) \<in> set olds" for n rs
  proof -
    have "repaired (snd s) n (Some rs)"
      using others_same_exists [OF i(4) oldname [OF m]] old(3) [OF m] by (simp add: repaired_def)
    moreover have "\<forall>r \<in> set rs. rec_fits r"
      using old(1) m by (force simp: log_dir_def holds_def readable_def)
    ultimately show ?thesis by (rule crash_repaired [OF cr])
  qed
  have closed: "holds wc (log_name dir e m) (Some rs)" if m: "(m, rs) \<in> set (butlast segs)" for m rs
  proof -
    have "repaired (snd s) (log_name dir e m) (Some rs)"
      using i(3) m by (auto simp: segs_closed_def)
    moreover have "\<forall>r \<in> set rs. rec_fits r"
      using i(2) in_set_butlastD [OF m] by blast
    ultimately show ?thesis by (rule crash_repaired [OF cr])
  qed
  have sorted: "sorted_wrt (<) (map fst (?O @ ?C @ ?L))"
  proof -
    have "sorted_wrt (<) (map fst ?O)" using old(1) by (simp add: log_dir_def)
    moreover have "sorted_wrt (<) (map fst ?C)"
    proof -
      have "map fst ?C = map (log_name dir e) (map fst (butlast segs))" by auto
      then show ?thesis using msorted(1) by (simp add: sorted_wrt_map log_name_less case_prod_beta)
    qed
    moreover have "sorted_wrt (<) (map fst ?L)" using xs(1) by (cases xs) auto
    moreover have "x < y" if "x \<in> set (map fst ?O)" "y \<in> set (map fst (?C @ ?L))" for x y
    proof -
      from that(1) obtain rs where "(x, rs) \<in> set olds" by auto
      with old(3) obtain e' m where "x = log_name dir e' m" "e' < e" by blast
      moreover from that(2) obtain k where "y = log_name dir e k" by auto
      ultimately show ?thesis by (simp add: log_name_less)
    qed
    moreover have "x < y" if "x \<in> set (map fst ?C)" "y \<in> set (map fst ?L)" for x y
      using that msorted(2) by (force simp: log_name_less)
    ultimately show ?thesis by (auto simp: sorted_wrt_append)
  qed
  have all: "(\<exists>e' m. n = log_name dir e' m) \<and> holds wc n x" if "(n, x) \<in> set (?O @ ?C @ ?L)" for n x
  proof -
    have "\<exists>e' m. k = log_name dir e' m" if "(k, rs) \<in> set olds" for k rs
      using old(3) [OF that] by blast
    with that oldfile closed xs(2) show ?thesis by auto
  qed
  have listed: "x \<in> fst ` set (?O @ ?C @ ?L)" if "exists_file wc x" "x = dir @ n" "n \<noteq> []" "CHR ''/'' \<notin> set n" for x n
  proof (cases "x \<in> log_name dir e ` fst ` set segs")
    case True
    then obtain m where m: "x = log_name dir e m" "m \<in> fst ` set segs" by blast
    with seg_number_last(2) [OF i(1) ne] consider "m = fst (last segs)" | "m \<in> fst ` set (butlast segs)" by blast
    then show ?thesis
    proof cases
      case 1
      with xs(3) that(1) m(1) obtain y ys where "xs = y # ys" by (cases xs) auto
      with 1 m(1) show ?thesis by simp
    next
      case 2
      with m(1) show ?thesis by force
    qed
  next
    case False
    from crashD(1) [OF cr that(1)] others_same_exists(1) [OF i(4) False] have "exists_file w0 x" by simp
    with old(1) that have "x \<in> fst ` set ?O" unfolding log_dir_def by blast
    then show ?thesis by (auto simp: image_Un)
  qed
  have "exists_file wc (dir @ n) \<and> n \<noteq> [] \<and> CHR ''/'' \<notin> set n \<longleftrightarrow> dir @ n \<in> fst ` set (?O @ ?C @ ?L)" for n
  proof
    assume "dir @ n \<in> fst ` set (?O @ ?C @ ?L)"
    then obtain p where "dir @ n = fst p" "p \<in> set (?O @ ?C @ ?L)" by (rule imageE)
    then have "(dir @ n, snd p) \<in> set (?O @ ?C @ ?L)" by (simp only: prod.collapse)
    from all [OF this] show "exists_file wc (dir @ n) \<and> n \<noteq> [] \<and> CHR ''/'' \<notin> set n"
      using log_name_exists_in_dir holds_exists by blast
  qed (use listed in blast)
  with sorted all old(1) show ?thesis unfolding log_dir_def by blast
qed

lemma crash_recover:
  assumes rec: "recovered_dir dir e w0 olds" and inv: "plog_inv dir e w0 segs s"
    and disk: "on_disk dir e N segs (snd s)" and ne: "segs \<noteq> []"
    and cr: "crash (snd s) wc" "benign wc"
  shows "\<exists>K rv' w'. N \<le> K \<and> K \<le> length (concat (map snd segs)) \<and>
    RecoverFromLog dir (rv, wc) = Done (E_OK, rv', w') \<and>
    rv_records rv' = rv_records rv @
      map sealed (concat (map snd olds) @ take K (concat (map snd segs)))"
proof -
  let ?m = "fst (last segs)" and ?rs = "snd (last segs)"
  let ?nm = "log_name dir e ?m"
  from inv ne have cur: "seg_current ?nm (last segs) s" and fits: "\<forall>(m, rs) \<in> set segs. \<forall>r \<in> set rs. rec_fits r"
    by (simp_all add: plog_inv_def)
  have "prefix (file_of (snd s) ?nm) (log_image ?rs [])"
    using cur by (auto simp: seg_current_def written_def prefix_def dest!: sym [of _ "log_image _ _"])
  moreover have "\<forall>r \<in> set ?rs. rec_fits r"
    using bspec [OF fits last_in_set [OF ne]] by (simp add: case_prod_beta)
  ultimately obtain xs k where xs: "k \<le> length ?rs" "length xs \<le> 1" "\<forall>x \<in> set xs. holds wc ?nm x"
    "exists_file wc ?nm \<longrightarrow> xs \<noteq> []"
    "concat (map (\<lambda>x. case x of None \<Rightarrow> [] | Some rs \<Rightarrow> rs) xs) = take k ?rs"
    "\<forall>j \<le> length ?rs. prefix (log_image (take j ?rs) []) (durable_of (snd s) ?nm) \<longrightarrow> j \<le> k"
    using crash_last_part [OF cr(1)] by blast
  let ?fs = "map (\<lambda>(n, rs). (n, Some rs)) olds @
    map (\<lambda>(m, rs). (log_name dir e m, Some rs)) (butlast segs) @ map (\<lambda>x. (?nm, x)) xs"
  have "log_dir dir wc ?fs" by (rule crash_log_dir [OF rec inv cr(1) ne xs(2-4)])
  from RecoverFromLog_spec [OF this cr(2), of rv] obtain w' where
    run: "RecoverFromLog dir (rv, wc) = Done (E_OK, fold (\<lambda>(n, x). after_redo n x) ?fs rv, w')"
    by blast
  have recs: "concat (map (\<lambda>(n, x). case x of None \<Rightarrow> [] | Some rs \<Rightarrow> rs) ?fs) =
      concat (map snd olds) @ concat (map snd (butlast segs)) @ take k ?rs"
    using xs(5) by (simp add: case_prod_beta comp_def)
  let ?K = "length (concat (map snd (butlast segs))) + k"
  have "take ?K (concat (map snd segs)) = concat (map snd (butlast segs)) @ take k ?rs"
    using concat_butlast_last [OF ne] by simp
  moreover have "N \<le> ?K"
    using disk xs(6) unfolding on_disk_def by fastforce
  moreover have "?K \<le> length (concat (map snd segs))"
    using concat_butlast_last [OF ne] xs(1) by simp
  ultimately show ?thesis
    using run rv_records_after [of ?fs rv] unfolding recs
    by (intro exI [of _ ?K] exI [of _ "fold (\<lambda>(n, x). after_redo n x) ?fs rv"] exI [of _ w']) simp
qed

section \<open>Properties\<close>

text \<open>C21: on a kernel that reports no errors (but may transfer less than asked), a run that
  starts from a recovered directory in a new epoch can write any records with consecutive ids
  and flush in between; if the machine then crashes and the log is recovered, the records
  passed on are those of the earlier runs, then all records written before the flush, then
  some first part of those written after it, in the order they were written, each with its
  log id, operation, table, key and value.\<close>

theorem flushed_records_survive_a_crash:
  assumes "recovered_dir dir (ucast epoch) w0 olds" "benign w0"
    and "mCurrentLog pl = None" "mLogDir pl = dir"
    and "\<forall>r \<in> set (rs1 @ rs2). rec_fits r" "ids_from k (rs1 @ rs2)" "rs1 \<noteq> []"
  shows "\<exists>s1 s2 s3. append_all (write_only epoch) rs1 (pl, w0) = Done (E_OK, s1) \<and>
    FlushLog_pl s1 = Done (E_OK, s2) \<and> append_all (write_only epoch) rs2 s2 = Done (E_OK, s3) \<and>
    (\<forall>wc rv. crash (snd s3) wc \<and> benign wc \<longrightarrow>
      (\<exists>j rv' w'. j \<le> length rs2 \<and> RecoverFromLog dir (rv, wc) = Done (E_OK, rv', w') \<and>
        rv_records rv' = rv_records rv @ map sealed (concat (map snd olds) @ rs1 @ take j rs2)))"
proof -
  let ?e = "ucast epoch :: u32"
  have fresh: "epoch_fresh dir ?e w0" using assms(1) by (simp add: recovered_dir_def)
  have ids: "ids_from k rs1" "ids_from (k + length rs1) rs2"
    using ids_from_append [OF assms(6)] by simp_all
  have "plog_inv dir ?e w0 [] (pl, w0)"
    using assms(2-4) by (simp add: plog_inv_def segs_closed_def others_same_def)
  moreover have "on_disk dir ?e 0 [] w0" "numbered k []" by (simp_all add: on_disk_def numbered_def)
  ultimately obtain s1 segs1 where s1: "append_all (write_only epoch) rs1 (pl, w0) = Done (E_OK, s1)"
    "plog_inv dir ?e w0 segs1 s1" "numbered (k + length rs1) segs1" "concat (map snd segs1) = rs1" "segs1 \<noteq> []"
    using write_all_run [OF fresh, of "[]" "(pl, w0)" 0 k rs1] assms(5,7) ids(1) by auto
  obtain s2 where s2: "FlushLog_pl s1 = Done (E_OK, s2)" "plog_inv dir ?e w0 segs1 s2"
    "durable_of (snd s2) (log_name dir ?e (fst (last segs1))) = log_image (snd (last segs1)) []"
    using FlushLog_pl_run [OF s1(2,5)] by blast
  have "on_disk dir ?e (length rs1) segs1 (snd s2)"
    using s1(4,5) s2(3) concat_butlast_last [OF s1(5)] unfolding on_disk_def
    by (intro disjI2 conjI exI [of _ "length (snd (last segs1))"]) auto
  moreover have "\<forall>r \<in> set rs2. rec_fits r" using assms(5) by simp
  ultimately obtain s3 segs3 where
    s3: "append_all (write_only epoch) rs2 s2 = Done (E_OK, s3)" "plog_inv dir ?e w0 segs3 s3"
    "on_disk dir ?e (length rs1) segs3 (snd s3)" "concat (map snd segs3) = rs1 @ rs2"
    using write_all_run [OF fresh s2(2) _ s1(3) _ ids(2)] s1(4) by blast
  have ne: "segs3 \<noteq> []" using s3(4) assms(7) by auto
  have "\<exists>j rv' w'. j \<le> length rs2 \<and> RecoverFromLog dir (rv, wc) = Done (E_OK, rv', w') \<and>
      rv_records rv' = rv_records rv @ map sealed (concat (map snd olds) @ rs1 @ take j rs2)"
    if "crash (snd s3) wc" "benign wc" for wc rv
  proof -
    from crash_recover [OF assms(1) s3(2,3) ne that, of rv] obtain K rv' w' where
      K: "length rs1 \<le> K" "K \<le> length (rs1 @ rs2)" "RecoverFromLog dir (rv, wc) = Done (E_OK, rv', w')"
      "rv_records rv' = rv_records rv @ map sealed (concat (map snd olds) @ take K (rs1 @ rs2))"
      unfolding s3(4) by blast
    then show ?thesis
      by (intro exI [of _ "K - length rs1"] exI [of _ rv'] exI [of _ w']) simp
  qed
  with s1(1) s2(1) s3(1) show ?thesis by blast
qed

abbreviation empty_disk :: world where
  "empty_disk \<equiv> \<lparr>files = [], durable = [], resp = [RShort 3], appending = True\<rparr>"

lemma empty_disk_recovered: "recovered_dir ''/l/'' e empty_disk []"
  by (simp add: recovered_dir_def log_dir_def epoch_fresh_def exists_file_def)

theorem flushed_records_survive_a_crash_witness:
  "\<exists>s1 s2 s3. append_all (write_only 1) [demo_record]
      (\<lparr>mCurrentLog = None, mLogDir = ''/l/'', mPersistMaxLogId = 0\<rparr>, empty_disk) = Done (E_OK, s1) \<and>
    FlushLog_pl s1 = Done (E_OK, s2) \<and>
    append_all (write_only 1) [demo_record\<lparr>mLogId := 8\<rparr>] s2 = Done (E_OK, s3)"
proof -
  have fits: "rec_fits (demo_record\<lparr>mLogId := 8\<rparr>)" by (simp add: rec_fits_def body_fits_def body_bytes_def)
  have ids: "ids_from 7 ([demo_record] @ [demo_record\<lparr>mLogId := 8\<rparr>])"
    by (simp add: ids_from_def nth_Cons' All_less_Suc)
  have "benign empty_disk" by (simp add: benign_def)
  from flushed_records_survive_a_crash [OF empty_disk_recovered this, of
      "\<lparr>mCurrentLog = None, mLogDir = ''/l/'', mPersistMaxLogId = 0\<rparr>" "[demo_record]"
      "[demo_record\<lparr>mLogId := 8\<rparr>]" 7 1] demo_fits fits ids
  show ?thesis by fastforce
qed

text \<open>C22: recovery of a directory of log files (some cut off inside a record, some inside the
  header) replays every complete record of every file, in the order of file names and within
  a file in the order of writing; it cuts incomplete records off, makes what it read durable
  and touches nothing else. The largest id it reports is that of the last record replayed.\<close>

theorem recovery_replays_and_repairs:
  assumes "log_dir dir w fs" "benign w"
  shows "\<exists>rv' w'. RecoverFromLog dir (rv, w) = Done (E_OK, rv', w') \<and>
    (let new = map sealed (concat (map (\<lambda>(n, x). case x of None \<Rightarrow> [] | Some rs \<Rightarrow> rs) fs))
     in rv_records rv' = rv_records rv @ new \<and>
        rv_max_id rv' = (if new = [] then rv_max_id rv else ucast (mLogId (last new)))) \<and>
    (\<forall>(n, x) \<in> set fs. repaired w' n x) \<and>
    (\<forall>m. m \<notin> fst ` set fs \<longrightarrow> file_of w' m = file_of w m \<and> exists_file w' m = exists_file w m)"
proof -
  let ?new = "\<lambda>fs. map sealed (concat (map (\<lambda>(n, x). case x of None \<Rightarrow> [] | Some rs \<Rightarrow> rs) fs))"
  have one: "rv_max_id (fold redo_record rs rv) =
      (if rs = [] then rv_max_id rv else ucast (mLogId (last rs)))" for rs rv
    by (induction rs arbitrary: rv) (simp_all add: redo_record_def)
  have maxid: "rv_max_id (fold (\<lambda>(n, x). after_redo n x) fs rv) =
      (if ?new fs = [] then rv_max_id rv else ucast (mLogId (last (?new fs))))" for fs rv
  proof (induction fs arbitrary: rv)
    case (Cons a fs)
    obtain n x where a: "a = (n, x)" by fastforce
    let ?rs = "map sealed (case x of None \<Rightarrow> [] | Some rs \<Rightarrow> rs)"
    have "rv_max_id (after_redo n x rv) = (if ?rs = [] then rv_max_id rv else ucast (mLogId (last ?rs)))"
      by (simp add: after_redo_def one split: option.split)
    with Cons.IH [of "after_redo n x rv"] show ?case by (simp add: a last_append)
  qed simp
  obtain w' where "RecoverFromLog dir (rv, w) = Done (E_OK, fold (\<lambda>(n, x). after_redo n x) fs rv, w')"
    "\<forall>(n, x) \<in> set fs. repaired w' n x"
    "\<forall>m. m \<notin> fst ` set fs \<longrightarrow> file_of w' m = file_of w m \<and> durable_of w' m = durable_of w m \<and>
      exists_file w' m = exists_file w m"
    using RecoverFromLog_spec [OF assms, of rv] by blast
  then show ?thesis
    using rv_records_after [of fs rv] maxid [of fs rv] unfolding Let_def by blast
qed

lemma demo_dir:
  "log_dir ''/l/'' \<lparr>files = [(log_name ''/l/'' 1 0, log_image [demo_record] [])], durable = [], resp = [],
      appending = True\<rparr> [(log_name ''/l/'' 1 0, Some [demo_record])]"
  using demo_fits log_name_exists_in_dir [of "''/l/''" _ 1 0]
  by (auto simp: log_dir_def holds_def readable_def exists_file_def file_of_def intro: torn_Nil)

theorem recovery_replays_and_repairs_witness:
  "\<exists>rv' w'. RecoverFromLog ''/l/'' (\<lparr>rv_records = [], rv_max_id = 0, rv_epoch = 0\<rparr>,
      \<lparr>files = [(log_name ''/l/'' 1 0, log_image [demo_record] [])], durable = [], resp = [],
       appending = True\<rparr>) = Done (E_OK, rv', w') \<and>
    rv_records rv' = [sealed demo_record] \<and> rv_max_id rv' = 7"
proof -
  have "benign \<lparr>files = [(log_name ''/l/'' 1 0, log_image [demo_record] [])], durable = [], resp = [],
      appending = True\<rparr>" by (simp add: benign_def)
  from recovery_replays_and_repairs [OF demo_dir this, of "\<lparr>rv_records = [], rv_max_id = 0, rv_epoch = 0\<rparr>"]
  show ?thesis by (auto simp: Let_def)
qed

text \<open>C31: a crash that leaves the very first log file with an incomplete header makes the
  database unusable: recovery succeeds but does not learn the epoch of that file, so the next
  run takes the same epoch, finds the file name taken and stops at the first write.\<close>

theorem torn_header_blocks_the_next_run:
  assumes "log_dir dir w [(log_name dir 1 0, None)]" "benign w"
    and "mCurrentLog pl = None" "mLogDir pl = dir" "mLogId r = 1"
  shows "\<exists>w'. RecoverFromLog dir (\<lparr>rv_records = [], rv_max_id = 0, rv_epoch = 0\<rparr>, w) =
      Done (E_OK, \<lparr>rv_records = [], rv_max_id = 0, rv_epoch = 0\<rparr>, w') \<and>
    WriteLog (0 + 1) r (pl, w') = Abort Assertion_failed"
proof -
  let ?rv = "\<lparr>rv_records = [], rv_max_id = 0, rv_epoch = 0\<rparr>"
  obtain w' where w': "RecoverFromLog dir (?rv, w) = Done (E_OK, ?rv, w')" "repaired w' (log_name dir 1 0) None"
    using RecoverFromLog_spec [OF assms(1,2), of ?rv] by (auto simp: after_redo_def)
  have "exists_file w' (log_name dir 1 0)"
    using w'(2) by (simp add: repaired_def headless_def)
  then have "Log_OpenFile True (new_log (log_name dir 1 0), w') =
      Done (EEXIST, (new_log (log_name dir 1 0), w'))"
    by (simp add: Log_OpenFile_def OpenFile_fh_def log_io_of_def new_log_def new_fhandler_def put_io_def)
  moreover have "(1 :: u64) div of_nat LOG_PER_FILE = 0"
    by (simp add: LOG_PER_FILE_def)
  ultimately have "WriteLog (0 + 1) r (pl, w') = Abort Assertion_failed"
    using assms(3-5) by (simp add: WriteLog_def OpenNewLogFile_def close_current_def log_file_name_eq)
  with w'(1) show ?thesis by blast
qed

theorem torn_header_blocks_the_next_run_witness:
  "\<exists>w'. WriteLog (0 + 1) (demo_record\<lparr>mLogId := 1\<rparr>)
      (\<lparr>mCurrentLog = None, mLogDir = ''/l/'', mPersistMaxLogId = 0\<rparr>, w') = Abort Assertion_failed"
proof -
  let ?w = "\<lparr>files = [(log_name ''/l/'' 1 0, [])], durable = [], resp = [], appending = True\<rparr>"
  have "log_dir ''/l/'' ?w [(log_name ''/l/'' 1 0, None)]"
    using log_name_exists_in_dir [of "''/l/''" _ 1 0]
    by (auto simp: log_dir_def holds_def headless_def exists_file_def file_of_def file_header_def
        LOG_MAGIC_bytes strict_prefix_def)
  moreover have "benign ?w" by (simp add: benign_def)
  ultimately show ?thesis
    using torn_header_blocks_the_next_run [of "''/l/''" ?w
        "\<lparr>mCurrentLog = None, mLogDir = ''/l/'', mPersistMaxLogId = 0\<rparr>" "demo_record\<lparr>mLogId := 1\<rparr>"] by auto
qed

end
