(* ===== verification/Context.thy ===== *)
theory Context
  imports SyncPrelude
begin

text \<open>
  \<^verbatim>\<open>src/Common/include/Context.hpp\<close>: the reference-counted work item that travels through
  the queues of the services. Items live in a heap, because two queues may hold the same one;
  the heap is part of the state of every component that sends or receives them.
\<close>

section \<open>OperContext\<close>

datatype ctx_type = OP_RECV | OP_SEND | OP_START | OP_STOP | OP_ACCEPT | OP_DROP | OP_LOCAL

text \<open>
  The union of three pointers. \<open>'m\<close> stands for what a message pointer leads to, \<open>'a\<close> for what
  the untyped pointer leads to; closures are named by their address.
\<close>

datatype ('m, 'a) ctx_union = UNull | UMsg 'm | UClosure nat | UArg 'a

text \<open>
  \<open>mClientSocket\<close> is present in an \<^verbatim>\<open>AcceptContext\<close> only.
\<close>

record ('m, 'a, 's) oper_context =
  mRef :: int
  mUnion :: "('m, 'a) ctx_union"
  mSocket_ctx :: int
  mType :: ctx_type
  mConnID :: u64
  mDest_ip :: bytes
  mDest_port :: u16
  mClientSocket :: "'s option"

definition new_OperContext :: "ctx_type \<Rightarrow> ('m, 'a, 's) oper_context" where
  "new_OperContext opType =
     \<lparr>mRef = 1, mUnion = UNull, mSocket_ctx = -1, mType = opType, mConnID = -1,
      mDest_ip = [], mDest_port = 0, mClientSocket = None\<rparr>"

definition new_AcceptContext :: "'s \<Rightarrow> ('m, 'a, 's) oper_context" where
  "new_AcceptContext clientSocket =
     (new_OperContext OP_ACCEPT)\<lparr>mClientSocket := Some clientSocket\<rparr>"

definition destroy_ctx :: "('m, 'a, 's) oper_context \<Rightarrow> unit outcome" where
  "destroy_ctx c = assert_that (case mUnion c of UNull \<Rightarrow> True | _ \<Rightarrow> False)"

definition SetDest :: "bytes \<Rightarrow> u16 \<Rightarrow> ('m, 'a, 's) oper_context \<Rightarrow> ('m, 'a, 's) oper_context" where
  "SetDest ip port c = c\<lparr>mDest_ip := ip, mDest_port := port\<rparr>"

definition GetType :: "('m, 'a, 's) oper_context \<Rightarrow> ctx_type" where
  "GetType c = mType c"

definition SetMessage :: "'m option \<Rightarrow> ('m, 'a, 's) oper_context \<Rightarrow> ('m, 'a, 's) oper_context" where
  "SetMessage msg c = c\<lparr>mUnion := (case msg of None \<Rightarrow> UNull | Some m \<Rightarrow> UMsg m)\<rparr>"

definition SetClosure :: "nat option \<Rightarrow> ('m, 'a, 's) oper_context \<Rightarrow> ('m, 'a, 's) oper_context" where
  "SetClosure closure c = c\<lparr>mUnion := (case closure of None \<Rightarrow> UNull | Some p \<Rightarrow> UClosure p)\<rparr>"

definition SetArg :: "'a option \<Rightarrow> ('m, 'a, 's) oper_context \<Rightarrow> ('m, 'a, 's) oper_context" where
  "SetArg arg c = c\<lparr>mUnion := (case arg of None \<Rightarrow> UNull | Some a \<Rightarrow> UArg a)\<rparr>"

text \<open>
  The getters assert that the pointer is not null; reading the union through a member it was
  not written with gives a pointer of the wrong type.
\<close>

definition GetMessage :: "('m, 'a, 's) oper_context \<Rightarrow> 'm outcome" where
  "GetMessage c =
     (case mUnion c of UNull \<Rightarrow> Abort Assertion_failed | UMsg m \<Rightarrow> Done m | _ \<Rightarrow> Abort Bad_cast)"

definition GetClosure :: "('m, 'a, 's) oper_context \<Rightarrow> nat outcome" where
  "GetClosure c =
     (case mUnion c of UNull \<Rightarrow> Abort Assertion_failed | UClosure p \<Rightarrow> Done p | _ \<Rightarrow> Abort Bad_cast)"

definition GetArg :: "('m, 'a, 's) oper_context \<Rightarrow> 'a outcome" where
  "GetArg c =
     (case mUnion c of UNull \<Rightarrow> Abort Assertion_failed | UArg a \<Rightarrow> Done a | _ \<Rightarrow> Abort Bad_cast)"

definition GetConnID :: "('m, 'a, 's) oper_context \<Rightarrow> u64" where
  "GetConnID c = mConnID c"

definition SetConnID :: "u64 \<Rightarrow> ('m, 'a, 's) oper_context \<Rightarrow> ('m, 'a, 's) oper_context" where
  "SetConnID connID c = c\<lparr>mConnID := connID\<rparr>"

lemmas ctx_ops = SetDest_def GetType_def SetMessage_def SetClosure_def SetArg_def GetMessage_def
  GetClosure_def GetArg_def GetConnID_def SetConnID_def destroy_ctx_def

section \<open>The heap of contexts\<close>

text \<open>
  \<open>next_ctx\<close> is the next unused address; \<open>signals\<close> lists the closures signalled so far by the
  services that share the heap.
\<close>

record ('m, 'a, 's) ctx_heap =
  ctxs :: "nat \<rightharpoonup> ('m, 'a, 's) oper_context"
  next_ctx :: nat
  signals :: "nat list"

definition empty_heap :: "('m, 'a, 's) ctx_heap" where
  "empty_heap = \<lparr>ctxs = Map.empty, next_ctx = 0, signals = []\<rparr>"

definition alloc_ctx :: "('m, 'a, 's) oper_context \<Rightarrow> ('m, 'a, 's) ctx_heap \<Rightarrow> nat \<times> ('m, 'a, 's) ctx_heap" where
  "alloc_ctx c h = (next_ctx h, h\<lparr>ctxs := (ctxs h)(next_ctx h \<mapsto> c), next_ctx := Suc (next_ctx h)\<rparr>)"

definition read_ctx :: "nat \<Rightarrow> ('m, 'a, 's) ctx_heap \<Rightarrow> ('m, 'a, 's) oper_context outcome" where
  "read_ctx p h = (case ctxs h p of None \<Rightarrow> Abort Dangling_pointer | Some c \<Rightarrow> Done c)"

definition modify_ctx ::
  "nat \<Rightarrow> (('m, 'a, 's) oper_context \<Rightarrow> ('m, 'a, 's) oper_context) \<Rightarrow>
   ('m, 'a, 's) ctx_heap \<Rightarrow> ('m, 'a, 's) ctx_heap outcome" where
  "modify_ctx p f h =
     (case ctxs h p of None \<Rightarrow> Abort Dangling_pointer
      | Some c \<Rightarrow> Done (h\<lparr>ctxs := (ctxs h)(p \<mapsto> f c)\<rparr>))"

definition INT_MAX :: int where
  "INT_MAX = 2 ^ 31 - 1"

definition IncRef :: "nat \<Rightarrow> ('m, 'a, 's) ctx_heap \<Rightarrow> ('m, 'a, 's) ctx_heap outcome" where
  "IncRef p h =
     obind (read_ctx p h) (\<lambda>c.
     obind (assert_that (mRef c > 0)) (\<lambda>_.
     if mRef c = INT_MAX then Abort Signed_overflow
     else modify_ctx p (\<lambda>c. c\<lparr>mRef := mRef c + 1\<rparr>) h))"

text \<open>The last reference runs the destructor, whose assertions look at the union.\<close>

definition DecRef :: "nat \<Rightarrow> ('m, 'a, 's) ctx_heap \<Rightarrow> ('m, 'a, 's) ctx_heap outcome" where
  "DecRef p h =
     obind (read_ctx p h) (\<lambda>c.
     obind (assert_that (mRef c > 0)) (\<lambda>_.
     let c' = c\<lparr>mRef := mRef c - 1\<rparr> in
     if mRef c' \<le> 0 then
       obind (destroy_ctx c') (\<lambda>_. Done (h\<lparr>ctxs := (ctxs h)(p := None)\<rparr>))
     else Done (h\<lparr>ctxs := (ctxs h)(p \<mapsto> c')\<rparr>)))"

definition signal_closure :: "nat \<Rightarrow> ('m, 'a, 's) ctx_heap \<Rightarrow> ('m, 'a, 's) ctx_heap" where
  "signal_closure q h = h\<lparr>signals := signals h @ [q]\<rparr>"

section \<open>Lemmas\<close>

lemma read_ctx_Done_iff: "read_ctx p h = Done c \<longleftrightarrow> ctxs h p = Some c"
  by (auto simp: read_ctx_def split: option.splits)

lemma alloc_ctx_simps [simp]:
  "fst (alloc_ctx c h) = next_ctx h"
  "ctxs (snd (alloc_ctx c h)) = (ctxs h)(next_ctx h \<mapsto> c)"
  "next_ctx (snd (alloc_ctx c h)) = Suc (next_ctx h)"
  "signals (snd (alloc_ctx c h)) = signals h"
  by (simp_all add: alloc_ctx_def)

definition heap_wf :: "('m, 'a, 's) ctx_heap \<Rightarrow> bool" where
  "heap_wf h \<longleftrightarrow> (\<forall>p c. ctxs h p = Some c \<longrightarrow> p < next_ctx h \<and> 0 < mRef c)"

lemma heap_wf_empty [simp]: "heap_wf empty_heap"
  by (simp add: heap_wf_def empty_heap_def)

lemma heap_wf_fresh: "heap_wf h \<Longrightarrow> ctxs h (next_ctx h) = None"
  by (metis heap_wf_def less_irrefl not_None_eq)

lemma heap_wf_alloc: "heap_wf h \<Longrightarrow> 0 < mRef c \<Longrightarrow> heap_wf (snd (alloc_ctx c h))"
  by (auto simp: heap_wf_def less_SucI split: if_splits)

lemma heap_wf_update: "heap_wf h \<Longrightarrow> ctxs h p = Some c \<Longrightarrow> 0 < mRef c' \<Longrightarrow>
    heap_wf (h\<lparr>ctxs := (ctxs h)(p \<mapsto> c')\<rparr>)"
  by (auto simp: heap_wf_def)

lemma heap_wf_IncRef: "heap_wf h \<Longrightarrow> IncRef p h = Done h' \<Longrightarrow> heap_wf h'"
  by (auto simp: IncRef_def modify_ctx_def read_ctx_Done_iff outcome_simps
      intro!: heap_wf_update split: option.splits if_splits)

lemma heap_wf_DecRef:
  assumes "heap_wf h" "DecRef p h = Done h'"
  shows "heap_wf h'"
proof -
  obtain c where c: "ctxs h p = Some c" "0 < mRef c"
    using assms(2) by (auto simp: DecRef_def read_ctx_Done_iff outcome_simps)
  show ?thesis
  proof (cases "mRef c \<le> 1")
    case True
    then have "h' = h\<lparr>ctxs := (ctxs h)(p := None)\<rparr>"
      using assms(2) c by (auto simp: DecRef_def read_ctx_def outcome_simps)
    with assms(1) show ?thesis by (simp add: heap_wf_def)
  next
    case False
    then show ?thesis
      using assms c by (auto simp: DecRef_def read_ctx_def heap_wf_update)
  qed
qed

lemma IncRef_run:
  "ctxs h p = Some c \<Longrightarrow> 0 < mRef c \<Longrightarrow> mRef c < INT_MAX \<Longrightarrow>
    IncRef p h = Done (h\<lparr>ctxs := (ctxs h)(p \<mapsto> c\<lparr>mRef := mRef c + 1\<rparr>)\<rparr>)"
  by (simp add: IncRef_def read_ctx_def modify_ctx_def)

lemma DecRef_shared:
  "ctxs h p = Some c \<Longrightarrow> 1 < mRef c \<Longrightarrow>
    DecRef p h = Done (h\<lparr>ctxs := (ctxs h)(p \<mapsto> c\<lparr>mRef := mRef c - 1\<rparr>)\<rparr>)"
  by (simp add: DecRef_def read_ctx_def)

lemma DecRef_last:
  "ctxs h p = Some c \<Longrightarrow> mRef c = 1 \<Longrightarrow>
    DecRef p h = (if mUnion c = UNull then Done (h\<lparr>ctxs := (ctxs h)(p := None)\<rparr>)
                  else Abort Assertion_failed)"
  by (auto simp: DecRef_def read_ctx_def destroy_ctx_def split: ctx_union.splits)

end
