(* ===== verification/LogicService.thy ===== *)
theory LogicService
  imports Context
begin

text \<open>
  \<^verbatim>\<open>src/Common/include/LogicService.hpp\<close>, \<^verbatim>\<open>src/LogicService.cpp\<close> and \<^verbatim>\<open>Thread.hpp\<close>: a
  thread with a queue of contexts. The virtual functions are the fields of the record
  \<open>service\<close>, which also says where in the state of the whole program the service and the
  heap of contexts are kept; a subclass is one value of that record. The loop of the thread
  is cut at the points where other threads can run: one step tests \<^verbatim>\<open>mRunning\<close>, one takes the
  whole queue, one processes one context.
\<close>

section \<open>Thread\<close>

record thread =
  mName_thread :: string
  mDetach :: bool
  started :: bool

definition new_Thread :: "string \<Rightarrow> bool \<Rightarrow> thread" where
  "new_Thread name detach = \<lparr>mName_thread = name, mDetach = detach, started = False\<rparr>"

text \<open>The first argument is the answer of the \<^verbatim>\<open>pthread\<close> function that is called.\<close>

definition Thread_Start :: "err \<Rightarrow> thread \<Rightarrow> (err \<times> thread) outcome" where
  "Thread_Start answer t =
     obind (assert_that (answer = E_OK)) (\<lambda>_. Done (answer, t\<lparr>started := True\<rparr>))"

definition Thread_Stop :: "err \<Rightarrow> thread \<Rightarrow> err outcome" where
  "Thread_Stop answer t = obind (assert_that (answer = E_OK)) (\<lambda>_. Done E_OK)"

definition Thread_Join :: "err \<Rightarrow> thread \<Rightarrow> err outcome" where
  "Thread_Join answer t =
     (if mDetach t then Done E_OK
      else obind (assert_that (answer = E_OK)) (\<lambda>_. Done answer))"

text \<open>A thread that joins itself gets \<^const>\<open>EDEADLK\<close>.\<close>

definition join_answer :: "bool \<Rightarrow> err" where
  "join_answer self = (if self then EDEADLK else E_OK)"

section \<open>The service and its virtual functions\<close>

text \<open>Where the thread is in the loop of \<^verbatim>\<open>Run\<close>; \<open>ctxVec\<close> is what is left of the local vector.\<close>

datatype run_pc = Entering | AtHead | Waiting | InBatch | Exited

record logic_service =
  mName :: string
  mQueue :: "nat list"
  mThread :: thread
  mRunning :: bool
  mSleepNanosec :: u64
  run_pc :: run_pc
  ctxVec :: "nat list"

definition new_LogicService :: "string \<Rightarrow> u64 \<Rightarrow> logic_service" where
  "new_LogicService name nanosec =
     \<lparr>mName = name, mQueue = [], mThread = new_Thread name False, mRunning = False,
      mSleepNanosec = nanosec, run_pc = Exited, ctxVec = []\<rparr>"

definition destroy_service :: "logic_service \<Rightarrow> unit outcome" where
  "destroy_service s = assert_that (mQueue s = [])"

record ('m, 'a, 's, 'st) service =
  svc :: "'st \<Rightarrow> logic_service"
  set_svc :: "logic_service \<Rightarrow> 'st \<Rightarrow> 'st"
  heap :: "'st \<Rightarrow> ('m, 'a, 's) ctx_heap"
  set_heap :: "('m, 'a, 's) ctx_heap \<Rightarrow> 'st \<Rightarrow> 'st"
  vInit :: "'st \<Rightarrow> (err \<times> 'st) outcome"
  vFinit :: "'st \<Rightarrow> 'st outcome"
  vIdle :: "'st \<Rightarrow> 'st outcome"
  vProcess :: "nat \<Rightarrow> 'st \<Rightarrow> (bool \<times> 'st) outcome"

text \<open>The bodies the base class gives \<^verbatim>\<open>Init\<close>, \<^verbatim>\<open>Finit\<close> and \<^verbatim>\<open>Idle\<close>.\<close>

definition base_Init :: "'st \<Rightarrow> (err \<times> 'st) outcome" where
  "base_Init st = Done (E_OK, st)"

definition base_Finit :: "'st \<Rightarrow> 'st outcome" where
  "base_Finit st = Done st"

definition base_Idle :: "'st \<Rightarrow> 'st outcome" where
  "base_Idle st = Done st"

definition on_svc :: "('m, 'a, 's, 'st) service \<Rightarrow> (logic_service \<Rightarrow> logic_service) \<Rightarrow> 'st \<Rightarrow> 'st" where
  "on_svc S f st = set_svc S (f (svc S st)) st"

definition on_heap ::
  "('m, 'a, 's, 'st) service \<Rightarrow>
   (('m, 'a, 's) ctx_heap \<Rightarrow> ('m, 'a, 's) ctx_heap outcome) \<Rightarrow> 'st \<Rightarrow> 'st outcome" where
  "on_heap S f st = obind (f (heap S st)) (\<lambda>h. Done (set_heap S h st))"

section \<open>Queueing\<close>

definition Enqueue :: "('m, 'a, 's, 'st) service \<Rightarrow> nat \<Rightarrow> 'st \<Rightarrow> (bool \<times> 'st) outcome" where
  "Enqueue S p st =
     (if mRunning (svc S st) then
        obind (on_heap S (IncRef p) st) (\<lambda>st1.
        Done (True, on_svc S (\<lambda>s. s\<lparr>mQueue := mQueue s @ [p]\<rparr>) st1))
      else Done (False, st))"

text \<open>
  What every sender does: allocate a context, enqueue it and drop its own reference.
\<close>

definition send_ctx ::
  "('m, 'a, 's, 'st) service \<Rightarrow> ('m, 'a, 's) oper_context \<Rightarrow> 'st \<Rightarrow> (bool \<times> 'st) outcome" where
  "send_ctx S c st =
     (let (p, h) = alloc_ctx c (heap S st) in
      obind (Enqueue S p (set_heap S h st)) (\<lambda>(pushed, st1).
      obind (on_heap S (DecRef p) st1) (\<lambda>st2. Done (pushed, st2))))"

section \<open>Start and stop\<close>

definition Stop :: "('m, 'a, 's, 'st) service \<Rightarrow> 'st \<Rightarrow> 'st" where
  "Stop S st = on_svc S (\<lambda>s. s\<lparr>mRunning := False\<rparr>) st"

definition Join :: "('m, 'a, 's, 'st) service \<Rightarrow> bool \<Rightarrow> 'st \<Rightarrow> err outcome" where
  "Join S self st = Thread_Join (join_answer self) (mThread (svc S st))"

text \<open>
  \<^verbatim>\<open>Start\<close> up to \<^verbatim>\<open>sync.Wait()\<close>, and what it does when it was signalled. The closure is a
  local variable; its address is the first argument. The answer of \<^verbatim>\<open>pthread_create\<close> is the
  second.
\<close>

definition Start_begin ::
  "('m, 'a, 's, 'st) service \<Rightarrow> nat \<Rightarrow> err \<Rightarrow> 'st \<Rightarrow> (nat option \<times> 'st) outcome" where
  "Start_begin S sync answer st =
     (if mRunning (svc S st) then Done (None, st)
      else
        obind (Thread_Start answer (mThread (svc S st))) (\<lambda>(e, t).
        let st1 = on_svc S (\<lambda>s. s\<lparr>mRunning := True, mThread := t, run_pc := Entering, ctxVec := []\<rparr>) st;
            (p, h) = alloc_ctx (SetClosure (Some sync) (new_OperContext OP_START)) (heap S st1) in
        obind (Enqueue S p (set_heap S h st1)) (\<lambda>(pushed, st2). Done (Some p, st2))))"

definition Start_end :: "('m, 'a, 's, 'st) service \<Rightarrow> nat option \<Rightarrow> 'st \<Rightarrow> (err \<times> 'st) outcome" where
  "Start_end S ctx st =
     (case ctx of None \<Rightarrow> Done (E_OK, st)
      | Some p \<Rightarrow>
        obind (on_heap S (modify_ctx p (SetClosure None)) st) (\<lambda>st1.
        obind (on_heap S (DecRef p) st1) (\<lambda>st2. Done (E_OK, st2))))"

text \<open>\<^verbatim>\<open>StartWithoutNewThread\<close>: the calling thread enters \<^verbatim>\<open>Run\<close> itself.\<close>

definition StartWithoutNewThread :: "('m, 'a, 's, 'st) service \<Rightarrow> 'st \<Rightarrow> 'st" where
  "StartWithoutNewThread S st =
     (if mRunning (svc S st) then st
      else on_svc S (\<lambda>s. s\<lparr>mRunning := True, run_pc := Entering\<rparr>) st)"

section \<open>Processing\<close>

definition ProcessStart :: "('m, 'a, 's, 'st) service \<Rightarrow> nat \<Rightarrow> 'st \<Rightarrow> 'st outcome" where
  "ProcessStart S p st =
     obind (read_ctx p (heap S st)) (\<lambda>c.
     obind (GetClosure c) (\<lambda>sync.
     let st1 = on_svc S (\<lambda>s. s\<lparr>mRunning := True\<rparr>) st;
         st2 = set_heap S (signal_closure sync (heap S st1)) st1 in
     on_heap S (modify_ctx p (SetClosure None)) st2))"

text \<open>\<^verbatim>\<open>ProcessStop\<close> runs on the thread it joins.\<close>

definition ProcessStop :: "('m, 'a, 's, 'st) service \<Rightarrow> nat \<Rightarrow> 'st \<Rightarrow> 'st outcome" where
  "ProcessStop S p st =
     obind (read_ctx p (heap S st)) (\<lambda>c.
     obind (GetClosure c) (\<lambda>sync.
     let st1 = on_svc S (\<lambda>s. s\<lparr>mRunning := False\<rparr>) st in
     obind (Join S True st1) (\<lambda>e.
     Done (set_heap S (signal_closure sync (heap S st1)) st1))))"

definition base_Process :: "('m, 'a, 's, 'st) service \<Rightarrow> nat \<Rightarrow> 'st \<Rightarrow> (bool \<times> 'st) outcome" where
  "base_Process S p st =
     obind (read_ctx p (heap S st)) (\<lambda>c.
     case GetType c of
       OP_STOP \<Rightarrow> obind (ProcessStop S p st) (\<lambda>st1. Done (True, st1))
     | OP_START \<Rightarrow> obind (ProcessStart S p st) (\<lambda>st1. Done (True, st1))
     | _ \<Rightarrow> Done (False, st))"

definition Run_one :: "('m, 'a, 's, 'st) service \<Rightarrow> nat \<Rightarrow> 'st \<Rightarrow> 'st outcome" where
  "Run_one S p st =
     obind (if mRunning (svc S st) then
              obind (base_Process S p st) (\<lambda>(processed, st1).
              if processed then Done st1
              else obind (vProcess S p st1) (\<lambda>(fine, st2).
                obind (assert_that fine) (\<lambda>_. Done st2)))
            else on_heap S (modify_ctx p (SetMessage None)) st) (\<lambda>st3.
     on_heap S (DecRef p) st3)"

text \<open>
  The deadline of the timed wait, from the clock's seconds and nanoseconds. The answer of the
  wait is not looked at, so the wait ends at any time and the queue may still be empty.
\<close>

definition wait_deadline :: "u64 \<Rightarrow> int \<times> int \<Rightarrow> int \<times> int" where
  "wait_deadline nanosec ts =
     (let (sec, nsec) = ts; nsec1 = nsec + uint nanosec in
      if nsec1 > 1000000000 then (sec + 1, nsec1 - 1000000000) else (sec, nsec1))"

text \<open>Taking the queue; \<^const>\<open>None\<close> while the thread sleeps on the condition variable.\<close>

definition Run_grab :: "('m, 'a, 's, 'st) service \<Rightarrow> 'st \<Rightarrow> 'st option" where
  "Run_grab S st =
     (let s = svc S st in
      if mSleepNanosec s = 0 \<and> mQueue s = [] \<and> mRunning s then None
      else Some (on_svc S (\<lambda>s. s\<lparr>ctxVec := mQueue s, mQueue := [], run_pc := InBatch\<rparr>) st))"

definition Run_enter :: "('m, 'a, 's, 'st) service \<Rightarrow> 'st \<Rightarrow> 'st outcome" where
  "Run_enter S st =
     obind (vInit S st) (\<lambda>(e, st1).
     Done (on_svc S (\<lambda>s. s\<lparr>run_pc := (if e \<noteq> E_OK then Exited else AtHead), ctxVec := []\<rparr>) st1))"

text \<open>One step of the thread; \<^const>\<open>None\<close> when it is blocked or has left the loop.\<close>

definition Run_step :: "('m, 'a, 's, 'st) service \<Rightarrow> 'st \<Rightarrow> 'st option outcome" where
  "Run_step S st =
     (case run_pc (svc S st) of
        Exited \<Rightarrow> Done None
      | Entering \<Rightarrow> obind (Run_enter S st) (\<lambda>st1. Done (Some st1))
      | AtHead \<Rightarrow>
          if mRunning (svc S st) then Done (Some (on_svc S (\<lambda>s. s\<lparr>run_pc := Waiting\<rparr>) st))
          else obind (vFinit S st) (\<lambda>st1. Done (Some (on_svc S (\<lambda>s. s\<lparr>run_pc := Exited\<rparr>) st1)))
      | Waiting \<Rightarrow>
          (case Run_grab S st of None \<Rightarrow> Done None
           | Some st1 \<Rightarrow>
               if ctxVec (svc S st1) = [] \<and> mSleepNanosec (svc S st1) > 0
               then obind (vIdle S st1) (\<lambda>st2. Done (Some st2))
               else Done (Some st1))
      | InBatch \<Rightarrow>
          (case ctxVec (svc S st) of
             [] \<Rightarrow> Done (Some (on_svc S (\<lambda>s. s\<lparr>run_pc := AtHead\<rparr>) st))
           | p # ps \<Rightarrow>
               obind (Run_one S p (on_svc S (\<lambda>s. s\<lparr>ctxVec := ps\<rparr>) st)) (\<lambda>st1. Done (Some st1))))"

text \<open>The contexts handed to the service and not yet processed, oldest first.\<close>

definition pending :: "('m, 'a, 's, 'st) service \<Rightarrow> 'st \<Rightarrow> nat list" where
  "pending S st = ctxVec (svc S st) @ mQueue (svc S st)"

text \<open>The local vector is empty outside the loop over it.\<close>

definition loop_wf :: "logic_service \<Rightarrow> bool" where
  "loop_wf s \<longleftrightarrow> (run_pc s \<noteq> InBatch \<longrightarrow> ctxVec s = [])"

lemma wait_deadline_valid:
  assumes "0 \<le> nsec" "nsec < 1000000000" "uint nanosec \<le> 1000000000"
    "wait_deadline nanosec (sec, nsec) = (sec', nsec')"
  shows "0 \<le> nsec' \<and> nsec' \<le> 1000000000 \<and>
    sec' * 1000000000 + nsec' = sec * 1000000000 + nsec + uint nanosec"
  using assms by (auto simp: wait_deadline_def Let_def split: if_splits)

section \<open>What every service keeps\<close>

text \<open>
  The state of the program is laid out like a record: reading a part after writing it gives
  what was written, and the other parts are unchanged. The virtual functions may put contexts
  on the own queue and nothing else.
\<close>

definition only_enqueues :: "('m, 'a, 's, 'st) service \<Rightarrow> 'st \<Rightarrow> 'st \<Rightarrow> bool" where
  "only_enqueues S st st' \<longleftrightarrow>
     (\<exists>q. svc S st' = (svc S st)\<lparr>mQueue := mQueue (svc S st) @ q\<rparr>)"

lemma only_enqueues_refl: "only_enqueues S st st"
  by (auto simp: only_enqueues_def intro!: exI [of _ "[]"])

lemma only_enqueues_same: "svc S st' = svc S st \<Longrightarrow> only_enqueues S st st'"
  by (auto simp: only_enqueues_def intro!: exI [of _ "[]"])

lemma only_enqueues_trans:
  "only_enqueues S st st1 \<Longrightarrow> only_enqueues S st1 st2 \<Longrightarrow> only_enqueues S st st2"
  by (auto simp: only_enqueues_def)

locale logic_service_laws =
  fixes S :: "('m, 'a, 's, 'st) service"
  assumes svc_set_svc: "svc S (set_svc S s st) = s"
    and heap_set_heap: "heap S (set_heap S h st) = h"
    and heap_set_svc: "heap S (set_svc S s st) = heap S st"
    and svc_set_heap: "svc S (set_heap S h st) = svc S st"
    and set_heap_twice: "set_heap S h (set_heap S h' st) = set_heap S h st"
    and set_heap_set_svc: "set_heap S h (set_svc S s st) = set_svc S s (set_heap S h st)"
    and init_frame: "vInit S st = Done (e, st1) \<Longrightarrow> only_enqueues S st st1"
    and finit_frame: "vFinit S st = Done st1 \<Longrightarrow> only_enqueues S st st1"
    and idle_frame: "vIdle S st = Done st1 \<Longrightarrow> only_enqueues S st st1"
    and process_frame: "vProcess S p st = Done (fine, st1) \<Longrightarrow> only_enqueues S st st1"
begin

lemmas layout = svc_set_svc heap_set_heap heap_set_svc svc_set_heap

lemma on_svc_simps [simp]:
  "svc S (on_svc S f st) = f (svc S st)" "heap S (on_svc S f st) = heap S st"
  by (simp_all add: on_svc_def layout)

lemma on_heap_Done:
  "on_heap S f st = Done st1 \<Longrightarrow>
    svc S st1 = svc S st \<and> f (heap S st) = Done (heap S st1)"
  by (auto simp: on_heap_def outcome_simps layout)

lemma Enqueue_svc:
  "Enqueue S p st = Done (b, st1) \<Longrightarrow> b = mRunning (svc S st) \<and>
    svc S st1 = (svc S st)\<lparr>mQueue := mQueue (svc S st) @ (if b then [p] else [])\<rparr>"
  by (auto simp: Enqueue_def outcome_simps dest!: on_heap_Done split: if_splits)

lemma send_ctx_svc:
  "send_ctx S c st = Done (b, st1) \<Longrightarrow> b = mRunning (svc S st) \<and>
    svc S st1 = (svc S st)\<lparr>mQueue := mQueue (svc S st) @ (if b then [next_ctx (heap S st)] else [])\<rparr>"
  by (auto simp: send_ctx_def alloc_ctx_def outcome_simps layout dest!: on_heap_Done Enqueue_svc)

lemma base_Process_svc:
  assumes "base_Process S p st = Done (b, st1)"
  shows "mQueue (svc S st1) = mQueue (svc S st) \<and> ctxVec (svc S st1) = ctxVec (svc S st) \<and>
    run_pc (svc S st1) = run_pc (svc S st) \<and> mSleepNanosec (svc S st1) = mSleepNanosec (svc S st)"
proof -
  from assms obtain c where c: "read_ctx p (heap S st) = Done c"
    by (auto simp: base_Process_def outcome_simps)
  show ?thesis
  proof (cases "GetType c")
    case OP_STOP
    with assms c show ?thesis by (auto simp: base_Process_def ProcessStop_def outcome_simps Let_def layout)
  next
    case OP_START
    with assms c show ?thesis
      by (auto simp: base_Process_def ProcessStart_def outcome_simps Let_def layout dest!: on_heap_Done)
  qed (use assms c in \<open>auto simp: base_Process_def\<close>)
qed

lemma Run_one_svc:
  assumes "Run_one S p st = Done st1"
  shows "\<exists>q. mQueue (svc S st1) = mQueue (svc S st) @ q \<and> ctxVec (svc S st1) = ctxVec (svc S st) \<and>
    run_pc (svc S st1) = run_pc (svc S st) \<and> mSleepNanosec (svc S st1) = mSleepNanosec (svc S st)"
proof (cases "mRunning (svc S st)")
  case False
  with assms show ?thesis by (auto simp: Run_one_def outcome_simps dest!: on_heap_Done)
next
  case True
  with assms obtain b st2 where b: "base_Process S p st = Done (b, st2)"
    and r: "if b then on_heap S (DecRef p) st2 = Done st1
      else \<exists>st3. vProcess S p st2 = Done (True, st3) \<and> on_heap S (DecRef p) st3 = Done st1"
    by (fastforce simp: Run_one_def outcome_simps split: if_splits)
  show ?thesis
    using base_Process_svc [OF b] r
    by (auto split: if_splits dest!: on_heap_Done process_frame simp: only_enqueues_def)
qed

text \<open>
  A step of the thread either processes the oldest context, and that one only, or none; what
  the step itself enqueues goes to the end.
\<close>

lemma Run_step_fifo:
  assumes "Run_step S st = Done (Some st1)" and wf: "loop_wf (svc S st)"
  shows "if run_pc (svc S st) = InBatch \<and> ctxVec (svc S st) \<noteq> [] then
      \<exists>q. pending S st1 = tl (pending S st) @ q \<and>
        Run_one S (hd (pending S st)) (on_svc S (\<lambda>s. s\<lparr>ctxVec := tl (ctxVec s)\<rparr>) st) = Done st1
    else \<exists>q. pending S st1 = pending S st @ q"
proof (cases "run_pc (svc S st)")
  case InBatch
  show ?thesis
  proof (cases "ctxVec (svc S st)")
    case Nil
    with InBatch assms show ?thesis by (auto simp: Run_step_def pending_def)
  next
    case (Cons p ps)
    with InBatch assms have
      o: "Run_one S p (on_svc S (\<lambda>s. s\<lparr>ctxVec := ps\<rparr>) st) = Done st1"
      by (auto simp: Run_step_def outcome_simps)
    moreover have "(\<lambda>s. s\<lparr>ctxVec := tl (ctxVec s)\<rparr>) (svc S st) = (svc S st)\<lparr>ctxVec := ps\<rparr>"
      using Cons by simp
    then have "on_svc S (\<lambda>s. s\<lparr>ctxVec := tl (ctxVec s)\<rparr>) st = on_svc S (\<lambda>s. s\<lparr>ctxVec := ps\<rparr>) st"
      by (simp add: on_svc_def)
    ultimately show ?thesis
      using InBatch Cons Run_one_svc [OF o] by (auto simp: pending_def)
  qed
next
  case AtHead
  with assms show ?thesis
    by (auto simp: Run_step_def pending_def outcome_simps only_enqueues_def dest!: finit_frame
        split: if_splits)
next
  case Waiting
  with assms show ?thesis
    by (auto simp: Run_step_def Run_grab_def pending_def outcome_simps only_enqueues_def Let_def
        loop_wf_def dest!: idle_frame split: if_splits)
next
  case Entering
  with assms show ?thesis
    by (auto simp: Run_step_def Run_enter_def pending_def outcome_simps only_enqueues_def loop_wf_def
        dest!: init_frame)
qed (use assms in \<open>auto simp: Run_step_def\<close>)

lemma Run_step_loop_wf:
  assumes "Run_step S st = Done (Some st1)" "loop_wf (svc S st)"
  shows "loop_wf (svc S st1)"
proof (cases "run_pc (svc S st)")
  case InBatch
  show ?thesis
  proof (cases "ctxVec (svc S st)")
    case Nil
    with InBatch assms show ?thesis by (auto simp: Run_step_def loop_wf_def)
  next
    case (Cons p ps)
    with InBatch assms have "Run_one S p (on_svc S (\<lambda>s. s\<lparr>ctxVec := ps\<rparr>) st) = Done st1"
      by (auto simp: Run_step_def outcome_simps)
    from Run_one_svc [OF this] InBatch show ?thesis by (auto simp: loop_wf_def)
  qed
next
  case AtHead
  with assms show ?thesis
    by (auto simp: Run_step_def outcome_simps loop_wf_def only_enqueues_def dest!: finit_frame
        split: if_splits)
next
  case Waiting
  with assms show ?thesis
    by (auto simp: Run_step_def Run_grab_def outcome_simps only_enqueues_def Let_def loop_wf_def
        dest!: idle_frame split: if_splits)
next
  case Entering
  with assms show ?thesis
    by (auto simp: Run_step_def Run_enter_def outcome_simps loop_wf_def)
qed (use assms in \<open>auto simp: Run_step_def\<close>)

text \<open>
  A sender that finds the service running leaves the context on the queue with one reference,
  that of the queue; one that does not runs into the assertion of the destructor.
\<close>

lemma send_ctx_run:
  assumes "mRunning (svc S st)" "mRef c = 1"
  shows "send_ctx S c st = Done (True, on_svc S (\<lambda>s. s\<lparr>mQueue := mQueue s @ [next_ctx (heap S st)]\<rparr>)
    (set_heap S (snd (alloc_ctx c (heap S st))) st))"
proof -
  let ?p = "next_ctx (heap S st)" and ?h1 = "snd (alloc_ctx c (heap S st))"
  let ?h2 = "?h1\<lparr>ctxs := (ctxs ?h1)(?p \<mapsto> c\<lparr>mRef := 2\<rparr>)\<rparr>"
  have inc: "IncRef ?p ?h1 = Done ?h2"
    using assms(2) by (simp add: IncRef_def read_ctx_def modify_ctx_def INT_MAX_def)
  have "c\<lparr>mRef := 1\<rparr> = c" using assms(2) by (cases c) simp
  then have dec: "DecRef ?p ?h2 = Done ?h1"
    by (simp add: DecRef_def read_ctx_def alloc_ctx_def)
  from assms(1) inc dec show ?thesis
    by (simp add: send_ctx_def split_beta Enqueue_def on_heap_def layout set_heap_twice set_heap_set_svc on_svc_def)
qed

lemma send_ctx_stopped:
  assumes "\<not> mRunning (svc S st)" "mRef c = 1" "mUnion c \<noteq> UNull"
  shows "send_ctx S c st = Abort Assertion_failed"
proof -
  have "destroy_ctx (c\<lparr>mRef := 0\<rparr>) = Abort Assertion_failed"
    using assms(3) by (cases "mUnion c") (simp_all add: destroy_ctx_def)
  with assms(1,2) show ?thesis
    by (simp add: send_ctx_def Enqueue_def alloc_ctx_def read_ctx_def on_heap_def layout DecRef_def)
qed

text \<open>Processing an ordinary context is the virtual function, then the last reference goes.\<close>

lemma Run_one_local:
  assumes "mRunning (svc S st)" "ctxs (heap S st) p = Some c" "mType c \<noteq> OP_START" "mType c \<noteq> OP_STOP"
  shows "Run_one S p st = obind (vProcess S p st) (\<lambda>(fine, st1).
    obind (assert_that fine) (\<lambda>_. on_heap S (DecRef p) st1))"
proof -
  have "base_Process S p st = Done (False, st)"
    using assms(2-4) by (cases "mType c") (simp_all add: base_Process_def read_ctx_def GetType_def)
  with assms(1) show ?thesis
    by (simp add: Run_one_def obind_assoc case_prod_unfold)
qed

text \<open>A service whose \<^verbatim>\<open>Init\<close> fails never answers the start context: \<^verbatim>\<open>Start\<close> waits for ever.\<close>

lemma failed_Init_stuck:
  assumes "run_pc (svc S st) = Entering" "vInit S st = Done (e, st1)" "e \<noteq> E_OK"
  shows "\<exists>st2. Run_step S st = Done (Some st2) \<and> Run_step S st2 = Done None \<and>
    heap S st2 = heap S st1"
  using assms by (simp add: Run_step_def Run_enter_def)

end

end
