(* ===== verification/KVTypes.thy ===== *)
theory KVTypes
  imports DataStore PersistLogger LogicService
begin

text \<open>
  The data the database's services exchange: \<^verbatim>\<open>src/SyncLog/KVRequest.hpp\<close>,
  \<^verbatim>\<open>LogContext.hpp\<close>, the response types of \<^verbatim>\<open>RequestCenter.hpp\<close>, and the members of the
  singleton \<^verbatim>\<open>KVDB\<close> with those of its log center and request center as one record, because
  every handler reaches the others through \<^verbatim>\<open>KVDB::Instance()\<close>.
\<close>

section \<open>KVRequest\<close>

definition OP_put :: u32 where "OP_put = 0"
definition OP_add :: u32 where "OP_add = 1"
definition OP_del :: u32 where "OP_del = 2"
definition OP_get :: u32 where "OP_get = 3"
definition OP_drop_table :: u32 where "OP_drop_table = 4"
definition OP_add_table :: u32 where "OP_add_table = 5"
definition OP_null :: u32 where "OP_null = 6"

lemmas op_codes = OP_put_def OP_add_def OP_del_def OP_get_def OP_drop_table_def OP_add_table_def
  OP_null_def

text \<open>
  \<open>mSync\<close> is true when the client does not wait: before the first post, and from the
  signal on (the closure itself is the theory \<open>Closure\<close>).
\<close>

record kv_request =
  mErr :: err
  mOpType_rq :: u32
  mTableName_rq :: bytes
  mKey_rq :: bytes
  mValue_rq :: bytes
  mSync :: bool

definition new_KVRequest :: kv_request where
  "new_KVRequest = \<lparr>mErr = E_OK, mOpType_rq = OP_null, mTableName_rq = [], mKey_rq = [],
     mValue_rq = [], mSync = True\<rparr>"

definition Signal_rq :: "kv_request \<Rightarrow> kv_request" where
  "Signal_rq rq = rq\<lparr>mSync := True\<rparr>"

definition Wait_rq :: "kv_request \<Rightarrow> kv_request" where
  "Wait_rq rq = rq\<lparr>mSync := False\<rparr>"

definition GetOpType_rq :: "kv_request \<Rightarrow> u32" where
  "GetOpType_rq rq = mOpType_rq rq"

section \<open>LogContext\<close>

datatype ctx_kind =
    LOG_recover_log
  | LOG_write_log
  | LOG_read_data
  | REQUEST_finish_data_request
  | REQUEST_read_data_request
  | REQUEST_recv_data_request

text \<open>
  A \<^verbatim>\<open>RequestIdLogRecord\<close> holds a request id and a record; a response is the set of
  pointers to them, which the code walks in the order of addresses.
\<close>

type_synonym request_id_log_record = "u64 \<times> log_record"

record log_response =
  pairs :: "(nat \<times> request_id_log_record) list"

record get_req =
  mTableName_gr :: bytes
  mKey_gr :: bytes
  mRequestId_gr :: u64

datatype ctx_arg =
    RecordArg log_record
  | RequestArg nat
  | ResponseArg log_response
  | GetReqArg get_req

record log_context =
  mArg :: "ctx_arg option"
  mCtxType :: ctx_kind

definition new_LogContext :: "ctx_kind \<Rightarrow> log_context" where
  "new_LogContext ctxType = \<lparr>mArg = None, mCtxType = ctxType\<rparr>"

definition LogContext_SetArg :: "ctx_arg option \<Rightarrow> log_context \<Rightarrow> log_context" where
  "LogContext_SetArg arg c = c\<lparr>mArg := arg\<rparr>"

definition GetCtxType :: "log_context \<Rightarrow> ctx_kind" where
  "GetCtxType c = mCtxType c"

definition LogContext_GetArg :: "log_context \<Rightarrow> ctx_arg option" where
  "LogContext_GetArg c = mArg c"

definition delete_LogContext :: "log_context \<Rightarrow> unit outcome" where
  "delete_LogContext c = assert_that (mArg c = None)"

lemmas log_ctx_ops = new_LogContext_def LogContext_SetArg_def GetCtxType_def LogContext_GetArg_def
  delete_LogContext_def

text \<open>The casts of the untyped argument.\<close>

definition arg_record :: "log_context \<Rightarrow> log_record outcome" where
  "arg_record c =
     (case LogContext_GetArg c of None \<Rightarrow> Abort Null_pointer
      | Some (RecordArg r) \<Rightarrow> Done r | Some _ \<Rightarrow> Abort Bad_cast)"

definition arg_request :: "log_context \<Rightarrow> nat outcome" where
  "arg_request c =
     (case LogContext_GetArg c of None \<Rightarrow> Abort Null_pointer
      | Some (RequestArg a) \<Rightarrow> Done a | Some _ \<Rightarrow> Abort Bad_cast)"

definition arg_response :: "log_context \<Rightarrow> log_response outcome" where
  "arg_response c =
     (case LogContext_GetArg c of None \<Rightarrow> Abort Null_pointer
      | Some (ResponseArg r) \<Rightarrow> Done r | Some _ \<Rightarrow> Abort Bad_cast)"

type_synonym kv_heap = "(unit, log_context, unit) ctx_heap"

text \<open>A context of type \<^const>\<open>OP_LOCAL\<close> around a \<^typ>\<open>log_context\<close>.\<close>

definition local_ctx :: "ctx_kind \<Rightarrow> ctx_arg \<Rightarrow> (unit, log_context, unit) oper_context" where
  "local_ctx kind arg =
     SetArg (Some (LogContext_SetArg (Some arg) (new_LogContext kind))) (new_OperContext OP_LOCAL)"

lemma local_ctx_simps [simp]:
  "mRef (local_ctx k a) = 1" "mType (local_ctx k a) = OP_LOCAL"
  "mUnion (local_ctx k a) = UArg \<lparr>mArg = Some a, mCtxType = k\<rparr>"
  by (simp_all add: local_ctx_def log_ctx_ops SetArg_def new_OperContext_def)

section \<open>The state of the database\<close>

text \<open>
  \<open>requests\<close> are the request objects of the clients; \<open>pair_addr\<close> is the allocator: the
  address of the \<open>n\<close>-th \<^verbatim>\<open>RequestIdLogRecord\<close> that is allocated (none is ever freed).
\<close>

record kvdb =
  kv_heap :: kv_heap
  lc_svc :: logic_service
  mLogId2RequestId :: "(u64 \<times> u64) list"
  mToFlushLog :: "(u64 \<times> log_record) list"
  mMaxLogId :: u64
  mFlushCount :: "u32 list"
  rc_svc :: logic_service
  mRequestID :: u64
  mRequests :: "(u64 \<times> nat) list"
  mPersistLogger :: persist_logger
  kv_world :: world
  mDataStore :: data_store
  mDBEpoch :: u64
  requests :: "nat \<rightharpoonup> kv_request"
  pair_addr :: "nat \<Rightarrow> nat"
  pairs_made :: nat

text \<open>
  Both centers before their virtual functions are added: this is all a sender needs.
\<close>

definition lc_base :: "(unit, log_context, unit, kvdb) service" where
  "lc_base = \<lparr>svc = lc_svc, set_svc = (\<lambda>s st. st\<lparr>lc_svc := s\<rparr>),
     heap = kv_heap, set_heap = (\<lambda>h st. st\<lparr>kv_heap := h\<rparr>),
     vInit = base_Init, vFinit = base_Finit, vIdle = base_Idle, vProcess = (\<lambda>p st. Done (False, st))\<rparr>"

definition rc_base :: "(unit, log_context, unit, kvdb) service" where
  "rc_base = \<lparr>svc = rc_svc, set_svc = (\<lambda>s st. st\<lparr>rc_svc := s\<rparr>),
     heap = kv_heap, set_heap = (\<lambda>h st. st\<lparr>kv_heap := h\<rparr>),
     vInit = base_Init, vFinit = base_Finit, vIdle = base_Idle, vProcess = (\<lambda>p st. Done (False, st))\<rparr>"

interpretation lcb: logic_service_laws lc_base
  by unfold_locales (auto simp: lc_base_def base_Init_def base_Finit_def base_Idle_def only_enqueues_refl)

interpretation rcb: logic_service_laws rc_base
  by unfold_locales (auto simp: rc_base_def base_Init_def base_Finit_def base_Idle_def only_enqueues_refl)

text \<open>Sending to either center touches its queue and the heap.\<close>

lemma send_lc:
  "mRunning (lc_svc st) \<Longrightarrow> mRef c = 1 \<Longrightarrow> send_ctx lc_base c st = Done (True,
     st\<lparr>kv_heap := snd (alloc_ctx c (kv_heap st)),
        lc_svc := (lc_svc st)\<lparr>mQueue := mQueue (lc_svc st) @ [next_ctx (kv_heap st)]\<rparr>\<rparr>)"
  using lcb.send_ctx_run [of st c] by (simp add: lc_base_def on_svc_def)

lemma send_rc:
  "mRunning (rc_svc st) \<Longrightarrow> mRef c = 1 \<Longrightarrow> send_ctx rc_base c st = Done (True,
     st\<lparr>kv_heap := snd (alloc_ctx c (kv_heap st)),
        rc_svc := (rc_svc st)\<lparr>mQueue := mQueue (rc_svc st) @ [next_ctx (kv_heap st)]\<rparr>\<rparr>)"
  using rcb.send_ctx_run [of st c] by (simp add: rc_base_def on_svc_def)

lemma send_lc_stopped:
  "\<not> mRunning (lc_svc st) \<Longrightarrow> mRef c = 1 \<Longrightarrow> mUnion c \<noteq> UNull \<Longrightarrow>
    send_ctx lc_base c st = Abort Assertion_failed"
  using lcb.send_ctx_stopped [of st c] by (simp add: lc_base_def)

lemma send_rc_stopped:
  "\<not> mRunning (rc_svc st) \<Longrightarrow> mRef c = 1 \<Longrightarrow> mUnion c \<noteq> UNull \<Longrightarrow>
    send_ctx rc_base c st = Abort Assertion_failed"
  using rcb.send_ctx_stopped [of st c] by (simp add: rc_base_def)

section \<open>Sending\<close>

text \<open>
  The functions of both centers that only put a context on a queue. The request center
  ignores the result of \<^verbatim>\<open>Enqueue\<close>, the log center asserts it.
\<close>

definition EnqueueKVRequest :: "nat \<Rightarrow> kvdb \<Rightarrow> kvdb outcome" where
  "EnqueueKVRequest request st =
     obind (send_ctx rc_base (local_ctx REQUEST_recv_data_request (RequestArg request)) st) (\<lambda>(pushed, st1).
     case requests st1 request of None \<Rightarrow> Abort Dangling_pointer
     | Some rq \<Rightarrow> Done (st1\<lparr>requests := (requests st1)(request \<mapsto> Wait_rq rq)\<rparr>))"

definition ReceiveKVResponse :: "log_response \<Rightarrow> kvdb \<Rightarrow> kvdb outcome" where
  "ReceiveKVResponse response st =
     obind (send_ctx rc_base (local_ctx REQUEST_finish_data_request (ResponseArg response)) st) (\<lambda>(pushed, st1).
     Done st1)"

definition AppendGetRequest :: "get_req \<Rightarrow> kvdb \<Rightarrow> kvdb outcome" where
  "AppendGetRequest req st =
     obind (send_ctx rc_base (local_ctx LOG_read_data (GetReqArg req)) st) (\<lambda>(pushed, st1).
     Done st1)"

definition AppendLogRecord_lc :: "log_record \<Rightarrow> ctx_kind \<Rightarrow> kvdb \<Rightarrow> kvdb outcome" where
  "AppendLogRecord_lc r kind st =
     obind (send_ctx lc_base (local_ctx kind (RecordArg r)) st) (\<lambda>(pushed, st1).
     obind (assert_that pushed) (\<lambda>_. Done st1))"

end
