(* ===== verification/LogCenter.thy ===== *)
theory LogCenter
  imports KVTypes
begin

text \<open>
  \<^verbatim>\<open>src/SyncLog/LogCenter.hpp\<close> and \<^verbatim>\<open>LogCenter.cpp\<close>: the service that numbers write
  operations, appends them to the log, and, when nothing is queued, flushes the log and tells
  the request center which operations are durable.
\<close>

section \<open>The data store\<close>

text \<open>The switch over the operation type; its default branch asserts.\<close>

definition record_op :: "log_record \<Rightarrow> log_body \<Rightarrow> kv_op option" where
  "record_op r body =
     (if mOpType r = OP_put then Some (KPut (log_body.mTableName body) (mKey body) (mValue body))
      else if mOpType r = OP_add then Some (KAdd (log_body.mTableName body) (mKey body) (mValue body))
      else if mOpType r = OP_del then Some (KDel (log_body.mTableName body) (mKey body))
      else if mOpType r = OP_drop_table then Some (KDropTable (log_body.mTableName body))
      else if mOpType r = OP_add_table then Some (KAddTable (log_body.mTableName body))
      else None)"

definition UpdateDataStore :: "log_record \<Rightarrow> kvdb \<Rightarrow> (err \<times> kvdb) outcome" where
  "UpdateDataStore r st =
     (if mOpType r \<notin> {OP_put, OP_add, OP_del, OP_drop_table, OP_add_table} then Abort Assertion_failed
      else case mBody r of None \<Rightarrow> Abort Null_pointer
      | Some body \<Rightarrow>
        (case record_op r body of None \<Rightarrow> Abort Assertion_failed
         | Some x \<Rightarrow>
           (let (err, ds) = exec_op x (mDataStore st) in Done (err, st\<lparr>mDataStore := ds\<rparr>))))"

definition HandleRecoverLog :: "log_record \<Rightarrow> kvdb \<Rightarrow> kvdb outcome" where
  "HandleRecoverLog r st = obind (UpdateDataStore r st) (\<lambda>(err, st1). Done st1)"

section \<open>Writing\<close>

definition MAX_LOG_NUM_TO_FLUSH :: nat where
  "MAX_LOG_NUM_TO_FLUSH = 1000"

definition plog_of :: "kvdb \<Rightarrow> plog_io" where
  "plog_of st = (mPersistLogger st, kv_world st)"

definition set_plog :: "plog_io \<Rightarrow> kvdb \<Rightarrow> kvdb" where
  "set_plog s st = st\<lparr>mPersistLogger := fst s, kv_world := snd s\<rparr>"

definition FlushLog_lc :: "kvdb \<Rightarrow> (err \<times> kvdb) outcome" where
  "FlushLog_lc st =
     obind (FlushLog_pl (plog_of st)) (\<lambda>(err, s). Done (err, set_plog s st))"

text \<open>
  Once more than \<^const>\<open>MAX_LOG_NUM_TO_FLUSH\<close> records wait for a flush, the code walks them with
  an iterator it compares with \<^verbatim>\<open>begin()\<close> instead of initialising it.
\<close>

definition HandleWriteOper :: "log_record \<Rightarrow> kvdb \<Rightarrow> (err \<times> kvdb) outcome" where
  "HandleWriteOper r st =
     obind (WriteLog (mDBEpoch st) r (plog_of st)) (\<lambda>(err, r1, s).
     let st1 = set_plog s st in
     if err \<noteq> E_OK then Done (err, st1)
     else
       let st2 = st1\<lparr>mToFlushLog := smap_insert (ucast (mLogId r1)) r1 (mToFlushLog st1)\<rparr> in
       if length (mToFlushLog st2) > MAX_LOG_NUM_TO_FLUSH then
         obind (FlushLog_lc st2) (\<lambda>(err, st3).
         obind (assert_that (err = E_OK)) (\<lambda>_. Abort Uninitialised_read))
       else Done (err, st2))"

definition GenerateLogId :: "kvdb \<Rightarrow> u64 \<times> kvdb" where
  "GenerateLogId st = (mMaxLogId st + 1, st\<lparr>mMaxLogId := mMaxLogId st + 1\<rparr>)"

definition GetMaxLogId :: "kvdb \<Rightarrow> u64" where
  "GetMaxLogId st = mMaxLogId st"

definition SetMaxLogId :: "u64 \<Rightarrow> kvdb \<Rightarrow> kvdb" where
  "SetMaxLogId i st = st\<lparr>mMaxLogId := i\<rparr>"

text \<open>The log id goes into the record as a 32-bit number and into the map as it is.\<close>

definition request_record :: "u64 \<Rightarrow> u32 \<Rightarrow> bytes \<Rightarrow> bytes \<Rightarrow> bytes \<Rightarrow> log_record" where
  "request_record logId opType tableName key value =
     new_record\<lparr>mLogId := ucast logId, mOpType := opType,
       mBody := Some \<lparr>mTableName = tableName, mKey = key, mValue = value\<rparr>\<rparr>"

definition ReceiveClientRequest ::
  "u64 \<Rightarrow> u32 \<Rightarrow> bytes \<Rightarrow> bytes \<Rightarrow> bytes \<Rightarrow> kvdb \<Rightarrow> (err \<times> kvdb) outcome" where
  "ReceiveClientRequest requestId opType tableName key value st =
     (if opType = OP_get then Abort Assertion_failed
      else
        let (logId, st1) = GenerateLogId st;
            r = request_record logId opType tableName key value;
            st2 = st1\<lparr>mLogId2RequestId := smap_insert logId requestId (mLogId2RequestId st1)\<rparr> in
        obind (AppendLogRecord_lc r LOG_write_log st2) (\<lambda>st3. Done (E_OK, st3)))"

section \<open>Flushing\<close>

text \<open>
  One \<^verbatim>\<open>RequestIdLogRecord\<close> per record that was flushed, put into the set by its address.
\<close>

fun collect_pairs :: "(u64 \<times> log_record) list \<Rightarrow> log_response \<Rightarrow> kvdb \<Rightarrow> (log_response \<times> kvdb) outcome" where
  "collect_pairs [] response st = Done (response, st)"
| "collect_pairs ((logId, r) # m) response st =
     (case map_of (mLogId2RequestId st) logId of None \<Rightarrow> Abort Assertion_failed
      | Some requestId \<Rightarrow>
          collect_pairs m
            (response\<lparr>pairs := smap_insert (pair_addr st (pairs_made st)) (requestId, r) (pairs response)\<rparr>)
            (st\<lparr>pairs_made := Suc (pairs_made st)\<rparr>))"

definition FLUSH_COUNTERS :: nat where
  "FLUSH_COUNTERS = 50"

definition LogCenter_Idle :: "kvdb \<Rightarrow> kvdb outcome" where
  "LogCenter_Idle st =
     (if mToFlushLog st = [] then Done st
      else
        obind (FlushLog_lc st) (\<lambda>(err, st1).
        obind (assert_that (err = E_OK)) (\<lambda>_.
        let n = length (mToFlushLog st1) in
        if n \<ge> length (mFlushCount st1) then Abort Out_of_bounds
        else
          let st2 = st1\<lparr>mFlushCount := (mFlushCount st1)[n := mFlushCount st1 ! n + 1]\<rparr> in
          obind (collect_pairs (mToFlushLog st2) \<lparr>pairs = []\<rparr> st2) (\<lambda>(response, st3).
          obind (ReceiveKVResponse response st3) (\<lambda>st4. Done (st4\<lparr>mToFlushLog := []\<rparr>))))))"

section \<open>Dispatch\<close>

definition HandleLocalContext :: "log_context \<Rightarrow> kvdb \<Rightarrow> kvdb outcome" where
  "HandleLocalContext logCtx st =
     obind (case GetCtxType logCtx of
        LOG_recover_log \<Rightarrow> obind (arg_record logCtx) (\<lambda>r. HandleRecoverLog r st)
      | LOG_write_log \<Rightarrow> obind (arg_record logCtx) (\<lambda>r.
          obind (HandleWriteOper r st) (\<lambda>(err, st1). Done st1))
      | _ \<Rightarrow> Abort Assertion_failed) (\<lambda>st1.
     obind (delete_LogContext (LogContext_SetArg None logCtx)) (\<lambda>_. Done st1))"

text \<open>\<^verbatim>\<open>ctx->GetArg()\<close> after the dispatch is the pointer to the deleted context, not null.\<close>

definition LogCenter_Process :: "nat \<Rightarrow> kvdb \<Rightarrow> (bool \<times> kvdb) outcome" where
  "LogCenter_Process ctx st =
     obind (read_ctx ctx (kv_heap st)) (\<lambda>c.
     obind (if GetType c = OP_LOCAL
            then obind (GetArg c) (\<lambda>logCtx. HandleLocalContext logCtx st)
            else Abort Assertion_failed) (\<lambda>st1.
     obind (modify_ctx ctx (SetArg None) (kv_heap st1)) (\<lambda>h. Done (True, st1\<lparr>kv_heap := h\<rparr>))))"

definition log_center :: "(unit, log_context, unit, kvdb) service" where
  "log_center = lc_base\<lparr>vIdle := LogCenter_Idle, vProcess := LogCenter_Process\<rparr>"

definition new_LogCenter :: "string \<Rightarrow> logic_service" where
  "new_LogCenter name = new_LogicService name 5000"

section \<open>What the handlers leave alone\<close>

lemmas store_frame = UpdateDataStore_def HandleRecoverLog_def

lemma send_rc_cases:
  "send_ctx rc_base (local_ctx k a) st = (if mRunning (rc_svc st)
     then Done (True, st\<lparr>kv_heap := snd (alloc_ctx (local_ctx k a) (kv_heap st)),
        rc_svc := (rc_svc st)\<lparr>mQueue := mQueue (rc_svc st) @ [next_ctx (kv_heap st)]\<rparr>\<rparr>)
     else Abort Assertion_failed)"
  by (simp add: send_rc send_rc_stopped)

lemma send_lc_cases:
  "send_ctx lc_base (local_ctx k a) st = (if mRunning (lc_svc st)
     then Done (True, st\<lparr>kv_heap := snd (alloc_ctx (local_ctx k a) (kv_heap st)),
        lc_svc := (lc_svc st)\<lparr>mQueue := mQueue (lc_svc st) @ [next_ctx (kv_heap st)]\<rparr>\<rparr>)
     else Abort Assertion_failed)"
  by (simp add: send_lc send_lc_stopped)

lemmas send_cases = send_rc_cases send_lc_cases

lemma set_plog_simps [simp]:
  "lc_svc (set_plog s st) = lc_svc st" "rc_svc (set_plog s st) = rc_svc st"
  "kv_heap (set_plog s st) = kv_heap st" "plog_of (set_plog s st) = s"
  by (simp_all add: set_plog_def plog_of_def)

lemma UpdateDataStore_frame:
  "UpdateDataStore r st = Done (e, st1) \<Longrightarrow> \<exists>ds. st1 = st\<lparr>mDataStore := ds\<rparr>"
  by (auto simp: UpdateDataStore_def split_beta split: if_splits option.splits)

lemma FlushLog_lc_frame:
  "FlushLog_lc st = Done (e, st1) \<Longrightarrow> \<exists>s. st1 = set_plog s st"
  by (auto simp: FlushLog_lc_def outcome_simps)

lemma HandleWriteOper_frame:
  "HandleWriteOper r st = Done (e, st1) \<Longrightarrow>
    st1 = (set_plog (plog_of st1) st)\<lparr>mToFlushLog := mToFlushLog st1\<rparr>"
  by (auto simp: HandleWriteOper_def outcome_simps Let_def set_plog_def plog_of_def split: if_splits)

lemma collect_pairs_frame:
  "collect_pairs m response st = Done (response1, st1) \<Longrightarrow>
    st1 = st\<lparr>pairs_made := pairs_made st + length m\<rparr>"
  by (induction m response st rule: collect_pairs.induct) (auto split: option.splits)

lemma HandleWriteOper_services:
  assumes "HandleWriteOper r st = Done (e, st1)"
  shows "lc_svc st1 = lc_svc st" "rc_svc st1 = rc_svc st" "kv_heap st1 = kv_heap st"
  by (subst HandleWriteOper_frame [OF assms], simp)+

lemma HandleLocalContext_frame:
  assumes "HandleLocalContext l st = Done st1"
  shows "lc_svc st1 = lc_svc st \<and> rc_svc st1 = rc_svc st \<and> kv_heap st1 = kv_heap st"
  using assms
  by (auto simp: HandleLocalContext_def HandleRecoverLog_def outcome_simps split: ctx_kind.splits
      dest: HandleWriteOper_services dest!: UpdateDataStore_frame)

lemma LogCenter_Process_frame:
  "LogCenter_Process p st = Done (b, st1) \<Longrightarrow> lc_svc st1 = lc_svc st \<and> rc_svc st1 = rc_svc st"
  by (auto simp: LogCenter_Process_def outcome_simps split: if_splits dest!: HandleLocalContext_frame)

lemma LogCenter_Idle_frame:
  "LogCenter_Idle st = Done st1 \<Longrightarrow> lc_svc st1 = lc_svc st"
  by (auto simp: LogCenter_Idle_def outcome_simps Let_def ReceiveKVResponse_def send_cases
      dest!: FlushLog_lc_frame collect_pairs_frame split: if_splits)

interpretation lc: logic_service_laws log_center
  by unfold_locales
    (auto simp: log_center_def lc_base_def base_Init_def base_Finit_def only_enqueues_refl
      intro!: only_enqueues_same dest!: LogCenter_Process_frame LogCenter_Idle_frame)

end
