(* ===== verification/RequestCenter.thy ===== *)
theory RequestCenter
  imports LogCenter
begin

text \<open>
  \<^verbatim>\<open>src/SyncLog/RequestCenter.hpp\<close> and \<^verbatim>\<open>RequestCenter.cpp\<close>: the service the clients talk to.
  It answers reads at once, hands writes to the log center and applies them to the data store
  when the log center reports them durable.
\<close>

section \<open>Requests\<close>

definition HandleNewKVRequest :: "nat \<Rightarrow> kvdb \<Rightarrow> kvdb outcome" where
  "HandleNewKVRequest request st =
     (case requests st request of None \<Rightarrow> Abort Dangling_pointer
      | Some rq \<Rightarrow>
          if GetOpType_rq rq = OP_get then
            let (err, v) = Get (mTableName_rq rq) (mKey_rq rq) (mValue_rq rq) (mDataStore st) in
            Done (st\<lparr>requests := (requests st)(request \<mapsto> Signal_rq (rq\<lparr>mErr := err, mValue_rq := v\<rparr>))\<rparr>)
          else
            let i = mRequestID st + 1;
                st1 = st\<lparr>mRequestID := i, mRequests := smap_insert i request (mRequests st)\<rparr> in
            obind (ReceiveClientRequest i (GetOpType_rq rq) (mTableName_rq rq) (mKey_rq rq)
              (mValue_rq rq) st1) (\<lambda>(err, st2). Done st2))"

fun respond :: "(nat \<times> request_id_log_record) list \<Rightarrow> kvdb \<Rightarrow> kvdb outcome" where
  "respond [] st = Done st"
| "respond ((addr, requestId, r) # ps) st =
     (case map_of (mRequests st) requestId of None \<Rightarrow> Abort Assertion_failed
      | Some request \<Rightarrow>
          obind (UpdateDataStore r st) (\<lambda>(err, st1).
          case requests st1 request of None \<Rightarrow> Abort Dangling_pointer
          | Some rq \<Rightarrow>
              respond ps (st1\<lparr>requests := (requests st1)(request \<mapsto> Signal_rq (rq\<lparr>mErr := err\<rparr>)),
                             mRequests := AList.delete requestId (mRequests st1)\<rparr>)))"

definition HandleKVResponse :: "log_response \<Rightarrow> kvdb \<Rightarrow> kvdb outcome" where
  "HandleKVResponse response st = respond (pairs response) st"

section \<open>Dispatch\<close>

definition HandleLocalRequest :: "log_context \<Rightarrow> kvdb \<Rightarrow> kvdb outcome" where
  "HandleLocalRequest logCtx st =
     obind (case GetCtxType logCtx of
        REQUEST_recv_data_request \<Rightarrow> obind (arg_request logCtx) (\<lambda>a. HandleNewKVRequest a st)
      | REQUEST_finish_data_request \<Rightarrow> obind (arg_response logCtx) (\<lambda>r. HandleKVResponse r st)
      | _ \<Rightarrow> Abort Assertion_failed) (\<lambda>st1.
     obind (delete_LogContext (LogContext_SetArg None logCtx)) (\<lambda>_. Done st1))"

definition RequestCenter_Process :: "nat \<Rightarrow> kvdb \<Rightarrow> (bool \<times> kvdb) outcome" where
  "RequestCenter_Process ctx st =
     obind (read_ctx ctx (kv_heap st)) (\<lambda>c.
     obind (if GetType c = OP_LOCAL
            then obind (GetArg c) (\<lambda>logCtx. HandleLocalRequest logCtx st)
            else Abort Assertion_failed) (\<lambda>st1.
     obind (modify_ctx ctx (SetArg None) (kv_heap st1)) (\<lambda>h. Done (True, st1\<lparr>kv_heap := h\<rparr>))))"

definition request_center :: "(unit, log_context, unit, kvdb) service" where
  "request_center = rc_base\<lparr>vProcess := RequestCenter_Process\<rparr>"

definition new_RequestCenter :: "string \<Rightarrow> logic_service" where
  "new_RequestCenter name = new_LogicService name 0"

section \<open>What the handlers leave alone\<close>

lemma ReceiveClientRequest_frame:
  "ReceiveClientRequest i ty t k v st = Done (e, st1) \<Longrightarrow>
    rc_svc st1 = rc_svc st \<and> mRunning (lc_svc st) \<and>
    lc_svc st1 = (lc_svc st)\<lparr>mQueue := mQueue (lc_svc st) @ [next_ctx (kv_heap st)]\<rparr> \<and>
    requests st1 = requests st \<and> mDataStore st1 = mDataStore st"
  by (auto simp: ReceiveClientRequest_def GenerateLogId_def AppendLogRecord_lc_def send_cases
      outcome_simps Let_def split: if_splits)

lemma respond_frame:
  "respond ps st = Done st1 \<Longrightarrow> rc_svc st1 = rc_svc st \<and> lc_svc st1 = lc_svc st \<and>
    kv_heap st1 = kv_heap st"
  by (induction ps st rule: respond.induct)
    (auto simp: outcome_simps split: option.splits dest!: UpdateDataStore_frame)

lemma HandleNewKVRequest_frame:
  assumes "HandleNewKVRequest a st = Done st1"
  shows "rc_svc st1 = rc_svc st"
proof -
  from assms obtain rq where "requests st a = Some rq"
    by (auto simp: HandleNewKVRequest_def split: option.splits)
  with assms show ?thesis
    by (auto simp: HandleNewKVRequest_def outcome_simps Let_def split_beta split: if_splits
        dest!: ReceiveClientRequest_frame)
qed

lemma HandleLocalRequest_frame:
  "HandleLocalRequest l st = Done st1 \<Longrightarrow> rc_svc st1 = rc_svc st"
  by (cases "GetCtxType l")
    (auto simp: HandleLocalRequest_def HandleKVResponse_def outcome_simps
      dest: HandleNewKVRequest_frame respond_frame)

lemma RequestCenter_Process_frame:
  "RequestCenter_Process p st = Done (b, st1) \<Longrightarrow> rc_svc st1 = rc_svc st"
  by (auto simp: RequestCenter_Process_def outcome_simps split: if_splits dest!: HandleLocalRequest_frame)

interpretation rc: logic_service_laws request_center
  by unfold_locales
    (auto simp: request_center_def rc_base_def base_Init_def base_Finit_def base_Idle_def
      only_enqueues_refl intro!: only_enqueues_same dest!: RequestCenter_Process_frame)

end
