(* ===== verification/KVDB.thy ===== *)
theory KVDB
  imports RequestCenter
begin

text \<open>
  \<^verbatim>\<open>src/SyncLog/KVDB.hpp\<close>: the singleton that owns the log, the data store and the two
  centers, and the whole program as a step relation: clients post requests and the two threads
  run, in any interleaving.
\<close>

section \<open>The singleton\<close>

text \<open>
  The object has static storage, so the members no constructor sets (the epoch, the largest
  log id, the flush counters) start at 0.
\<close>

definition KVDB_Instance :: "string \<Rightarrow> world \<Rightarrow> (nat \<Rightarrow> nat) \<Rightarrow> (nat \<rightharpoonup> kv_request) \<Rightarrow> kvdb outcome" where
  "KVDB_Instance dbDir w alloc clients =
     obind (new_persist_logger dbDir) (\<lambda>pl.
     Done \<lparr>kv_heap = empty_heap, lc_svc = new_LogCenter ''LogCenter'', mLogId2RequestId = [],
       mToFlushLog = [], mMaxLogId = 0, mFlushCount = replicate FLUSH_COUNTERS 0,
       rc_svc = new_RequestCenter ''request center'', mRequestID = 0, mRequests = [],
       mPersistLogger = pl, kv_world = w, mDataStore = Map.empty, mDBEpoch = 0,
       requests = clients, pair_addr = alloc, pairs_made = 0\<rparr>)"

definition GetEpoch :: "kvdb \<Rightarrow> u64" where
  "GetEpoch st = mDBEpoch st"

definition SetEpoch :: "u64 \<Rightarrow> kvdb \<Rightarrow> kvdb" where
  "SetEpoch epoch st = st\<lparr>mDBEpoch := epoch\<rparr>"

definition NotifyNewEpoch :: "kvdb \<Rightarrow> kvdb" where
  "NotifyNewEpoch st = st\<lparr>mDBEpoch := mDBEpoch st + 1\<rparr>"

section \<open>Start\<close>

fun run_steps :: "nat \<Rightarrow> ('m, 'a, 's, 'st) service \<Rightarrow> 'st \<Rightarrow> 'st outcome" where
  "run_steps 0 S st = Done st"
| "run_steps (Suc n) S st =
     obind (Run_step S st) (\<lambda>r. case r of None \<Rightarrow> Done st | Some st1 \<Rightarrow> run_steps n S st1)"

text \<open>
  While \<^verbatim>\<open>Start\<close> waits on its closure only the new thread has something to do: it enters the
  loop, takes the queue and processes the start context, four steps in all.
\<close>

definition start_service :: "('m, 'a, 's, 'st) service \<Rightarrow> nat \<Rightarrow> 'st \<Rightarrow> (err \<times> 'st) outcome" where
  "start_service S sync st =
     obind (Start_begin S sync E_OK st) (\<lambda>(ctx, st1).
     obind (run_steps 4 S st1) (\<lambda>st2. Start_end S ctx st2))"

fun append_recovered :: "log_record list \<Rightarrow> kvdb \<Rightarrow> kvdb outcome" where
  "append_recovered [] st = Done st"
| "append_recovered (r # rs) st =
     obind (AppendLogRecord_lc r LOG_recover_log st) (append_recovered rs)"

text \<open>
  Recovery hands every record to the log center, whose thread already runs; that thread only
  takes from its queue, so the whole log can be read first.
\<close>

definition KVDB_Recover :: "kvdb \<Rightarrow> (err \<times> kvdb) outcome" where
  "KVDB_Recover st =
     obind (RecoverFromLog (mLogDir (mPersistLogger st))
       (\<lparr>rv_records = [], rv_max_id = GetMaxLogId st, rv_epoch = GetEpoch st\<rparr>, kv_world st))
     (\<lambda>(err, rv, w).
     obind (append_recovered (rv_records rv) (st\<lparr>kv_world := w\<rparr>)) (\<lambda>st1.
     Done (err, SetEpoch (rv_epoch rv) (SetMaxLogId (rv_max_id rv) st1))))"

definition KVDB_Start :: "kvdb \<Rightarrow> (err \<times> kvdb) outcome" where
  "KVDB_Start st =
     obind (start_service log_center 0 st) (\<lambda>(err, st1).
     if err \<noteq> E_OK then Done (err, st1) else
     obind (start_service request_center 1 st1) (\<lambda>(err, st2).
     if err \<noteq> E_OK then Done (err, st2) else
     obind (KVDB_Recover st2) (\<lambda>(err, st3).
     if err \<noteq> E_OK then Done (err, st3) else Done (err, NotifyNewEpoch st3))))"

section \<open>The program\<close>

definition PostKVRequest :: "nat \<Rightarrow> kvdb \<Rightarrow> kvdb outcome" where
  "PostKVRequest request st = EnqueueKVRequest request st"

text \<open>
  A client that is not waiting fills in one of its request objects, as \<open>may_post\<close> allows,
  and posts it.
\<close>

inductive kv_step :: "(kvdb \<Rightarrow> kv_request \<Rightarrow> bool) \<Rightarrow> kvdb \<Rightarrow> kvdb \<Rightarrow> bool" for may_post where
  client: "requests st a = Some rq \<Longrightarrow> mSync rq \<Longrightarrow> may_post st rq' \<Longrightarrow>
    PostKVRequest a (st\<lparr>requests := (requests st)(a \<mapsto> rq')\<rparr>) = Done st' \<Longrightarrow> kv_step may_post st st'"
| log_thread: "Run_step log_center st = Done (Some st') \<Longrightarrow> kv_step may_post st st'"
| request_thread: "Run_step request_center st = Done (Some st') \<Longrightarrow> kv_step may_post st st'"

inductive kv_reach :: "(kvdb \<Rightarrow> kv_request \<Rightarrow> bool) \<Rightarrow> kvdb \<Rightarrow> kvdb \<Rightarrow> bool" for may_post st0 where
  start: "kv_reach may_post st0 st0"
| step: "kv_reach may_post st0 st \<Longrightarrow> kv_step may_post st st' \<Longrightarrow> kv_reach may_post st0 st'"

inductive_cases kv_stepE: "kv_step may_post st st'"

text \<open>The process stops: some thread, or a client that posts, runs into a fault.\<close>

definition kv_faults :: "(kvdb \<Rightarrow> kv_request \<Rightarrow> bool) \<Rightarrow> kvdb \<Rightarrow> bool" where
  "kv_faults may_post st \<longleftrightarrow>
     (\<exists>f. Run_step log_center st = Abort f) \<or> (\<exists>f. Run_step request_center st = Abort f) \<or>
     (\<exists>f a rq rq'. requests st a = Some rq \<and> mSync rq \<and> may_post st rq' \<and>
       PostKVRequest a (st\<lparr>requests := (requests st)(a \<mapsto> rq')\<rparr>) = Abort f)"

section \<open>Stop\<close>

text \<open>
  \<^verbatim>\<open>Stop\<close> clears the flag of the log center and joins its thread, then does the same with the
  request center. A join waits until its thread has left the loop; the other threads run meanwhile,
  and so may clients. The return value is always 0.
\<close>

datatype stop_pc = Joining_log | Joining_requests | Stopped

definition KVDB_Stop_begin :: "kvdb \<Rightarrow> stop_pc \<times> kvdb" where
  "KVDB_Stop_begin st = (Joining_log, Stop log_center st)"

definition joins :: "('m, 'a, 's, 'st) service \<Rightarrow> 'st \<Rightarrow> bool" where
  "joins S st \<longleftrightarrow> run_pc (svc S st) = Exited"

text \<open>One step of the thread that stops; \<^const>\<open>None\<close> while it waits in a join, and when it has returned.\<close>

definition stop_caller :: "stop_pc \<Rightarrow> kvdb \<Rightarrow> (stop_pc \<times> kvdb) option outcome" where
  "stop_caller pc st =
     (case pc of
        Joining_log \<Rightarrow>
          if joins log_center st
          then obind (Join log_center False st) (\<lambda>err. Done (Some (Joining_requests, Stop request_center st)))
          else Done None
      | Joining_requests \<Rightarrow>
          if joins request_center st
          then obind (Join request_center False st) (\<lambda>err. Done (Some (Stopped, st)))
          else Done None
      | Stopped \<Rightarrow> Done None)"

inductive stop_step :: "(kvdb \<Rightarrow> kv_request \<Rightarrow> bool) \<Rightarrow> stop_pc \<times> kvdb \<Rightarrow> stop_pc \<times> kvdb \<Rightarrow> bool" for may_post where
  caller: "stop_caller pc st = Done (Some next) \<Longrightarrow> stop_step may_post (pc, st) next"
| others: "kv_step may_post st st' \<Longrightarrow> stop_step may_post (pc, st) (pc, st')"

inductive stop_reach :: "(kvdb \<Rightarrow> kv_request \<Rightarrow> bool) \<Rightarrow> stop_pc \<times> kvdb \<Rightarrow> stop_pc \<times> kvdb \<Rightarrow> bool"
  for may_post x0 where
  stop_start: "stop_reach may_post x0 x0"
| stop_next: "stop_reach may_post x0 x \<Longrightarrow> stop_step may_post x x' \<Longrightarrow> stop_reach may_post x0 x'"

text \<open>The process stops while the database is being stopped.\<close>

definition stop_faults :: "(kvdb \<Rightarrow> kv_request \<Rightarrow> bool) \<Rightarrow> stop_pc \<times> kvdb \<Rightarrow> bool" where
  "stop_faults may_post x \<longleftrightarrow> (\<exists>f. stop_caller (fst x) (snd x) = Abort f) \<or> kv_faults may_post (snd x)"

end
