(* ===== verification/KVInvariant.thy ===== *)
theory KVInvariant
  imports KVDB "HOL-Library.Multiset"
begin

text \<open>
  The invariant of the running database, in five parts: the two services and the queues, the
  numbering of operations, the bookkeeping of requests, the log, and what the clients have
  been told. Each handler keeps it and never faults.
\<close>

section \<open>Queues\<close>

text \<open>The context at an address is the one the list entry describes, with a single reference.\<close>

definition holds_item :: "kv_heap \<Rightarrow> nat \<Rightarrow> ctx_kind \<times> ctx_arg \<Rightarrow> bool" where
  "holds_item h p x \<longleftrightarrow> ctxs h p = Some (local_ctx (fst x) (snd x))"

definition queue_ok ::
  "kv_heap \<Rightarrow> nat list \<Rightarrow> nat list \<Rightarrow> (ctx_kind \<times> ctx_arg) list \<Rightarrow> (ctx_kind \<times> ctx_arg) list \<Rightarrow> bool" where
  "queue_ok h lcp rcp LQ RQ \<longleftrightarrow> heap_wf h \<and> distinct (lcp @ rcp) \<and>
     list_all2 (holds_item h) lcp LQ \<and> list_all2 (holds_item h) rcp RQ"

definition drop_ctx :: "nat \<Rightarrow> kv_heap \<Rightarrow> kv_heap" where
  "drop_ctx p h = h\<lparr>ctxs := (ctxs h)(p := None)\<rparr>"

lemma holds_item_ctxs: "holds_item h p x \<Longrightarrow> \<exists>c. ctxs h p = Some c"
  by (simp add: holds_item_def)

lemma list_all2_holds_mono:
  "list_all2 (holds_item h) ps xs \<Longrightarrow> \<forall>p \<in> set ps. ctxs h' p = ctxs h p \<Longrightarrow>
    list_all2 (holds_item h') ps xs"
  by (auto simp: list_all2_conv_all_nth holds_item_def)

lemma queue_addresses:
  assumes "queue_ok h lcp rcp LQ RQ" "p \<in> set (lcp @ rcp)"
  shows "p \<noteq> next_ctx h"
proof -
  have "\<exists>c. ctxs h p = Some c"
    using assms by (auto simp: queue_ok_def list_all2_conv_all_nth in_set_conv_nth holds_item_def)
  with assms(1) show ?thesis using heap_wf_fresh [of h] by (auto simp: queue_ok_def)
qed

lemma queue_ok_send:
  fixes k :: ctx_kind and a :: ctx_arg
  assumes "queue_ok h lcp rcp LQ RQ"
  defines "h' \<equiv> snd (alloc_ctx (local_ctx k a) h)"
  shows "queue_ok h' (lcp @ [next_ctx h]) rcp (LQ @ [(k, a)]) RQ"
    and "queue_ok h' lcp (rcp @ [next_ctx h]) LQ (RQ @ [(k, a)])"
proof -
  have fresh: "\<forall>p \<in> set (lcp @ rcp). p \<noteq> next_ctx h"
    using queue_addresses [OF assms(1)] by blast
  have wf: "heap_wf h'" unfolding h'_def using assms(1) by (intro heap_wf_alloc) (simp_all add: queue_ok_def)
  have "list_all2 (holds_item h') lcp LQ" "list_all2 (holds_item h') rcp RQ"
    using assms(1) fresh by (auto simp: queue_ok_def h'_def elim!: list_all2_holds_mono)
  moreover have "holds_item h' (next_ctx h) (k, a)" by (simp add: holds_item_def h'_def)
  moreover have "distinct (lcp @ rcp)" "next_ctx h \<notin> set lcp" "next_ctx h \<notin> set rcp"
    using assms(1) fresh by (auto simp: queue_ok_def)
  ultimately show "queue_ok h' (lcp @ [next_ctx h]) rcp (LQ @ [(k, a)]) RQ"
    "queue_ok h' lcp (rcp @ [next_ctx h]) LQ (RQ @ [(k, a)])"
    using wf by (auto simp: queue_ok_def list_all2_appendI)
qed

lemma queue_ok_drop:
  "queue_ok h (p # lcp) rcp (x # LQ) RQ \<Longrightarrow> queue_ok (drop_ctx p h) lcp rcp LQ RQ"
  "queue_ok h lcp (p # rcp) LQ (x # RQ) \<Longrightarrow> queue_ok (drop_ctx p h) lcp rcp LQ RQ"
  by (auto simp: queue_ok_def drop_ctx_def heap_wf_def elim!: list_all2_holds_mono)

lemma queue_ok_head:
  "queue_ok h (p # lcp) rcp LQ RQ \<Longrightarrow> \<exists>k a LQ'. LQ = (k, a) # LQ' \<and> ctxs h p = Some (local_ctx k a)"
  "queue_ok h lcp (p # rcp) LQ RQ \<Longrightarrow> \<exists>k a RQ'. RQ = (k, a) # RQ' \<and> ctxs h p = Some (local_ctx k a)"
  by (auto simp: queue_ok_def list_all2_Cons1 holds_item_def)

text \<open>Processing a context ends with its argument cleared and its last reference dropped.\<close>

lemma finish_ctx:
  "ctxs h p = Some (local_ctx k a) \<Longrightarrow>
    obind (modify_ctx p (SetArg None) h) (DecRef p) = Done (drop_ctx p h)"
  by (simp add: modify_ctx_def DecRef_def read_ctx_def destroy_ctx_def SetArg_def drop_ctx_def)

lemma log_center_simps [simp]:
  "svc log_center = lc_svc" "set_svc log_center = (\<lambda>s st. st\<lparr>lc_svc := s\<rparr>)"
  "heap log_center = kv_heap" "set_heap log_center = (\<lambda>h st. st\<lparr>kv_heap := h\<rparr>)"
  "vProcess log_center = LogCenter_Process" "vIdle log_center = LogCenter_Idle"
  "vFinit log_center = base_Finit" "vInit log_center = base_Init"
  by (simp_all add: log_center_def lc_base_def)

lemma request_center_simps [simp]:
  "svc request_center = rc_svc" "set_svc request_center = (\<lambda>s st. st\<lparr>rc_svc := s\<rparr>)"
  "heap request_center = kv_heap" "set_heap request_center = (\<lambda>h st. st\<lparr>kv_heap := h\<rparr>)"
  "vProcess request_center = RequestCenter_Process" "vIdle request_center = base_Idle"
  "vFinit request_center = base_Finit" "vInit request_center = base_Init"
  by (simp_all add: request_center_def rc_base_def)

lemma log_center_one:
  assumes "mRunning (lc_svc st)" "ctxs (kv_heap st) p = Some (local_ctx k a)"
    and "HandleLocalContext \<lparr>mArg = Some a, mCtxType = k\<rparr> st = Done st1"
    and "ctxs (kv_heap st1) p = Some (local_ctx k a)"
  shows "Run_one log_center p st = Done (st1\<lparr>kv_heap := drop_ctx p (kv_heap st1)\<rparr>)"
proof -
  from finish_ctx [OF assms(4)] obtain h where
    h: "modify_ctx p (SetArg None) (kv_heap st1) = Done h" "DecRef p h = Done (drop_ctx p (kv_heap st1))"
    by (auto simp: outcome_simps)
  have "Run_one log_center p st = obind (LogCenter_Process p st) (\<lambda>(fine, st1).
      obind (assert_that fine) (\<lambda>_. on_heap log_center (DecRef p) st1))"
    using lc.Run_one_local [of st p "local_ctx k a"] assms(1,2) by simp
  with assms(2,3) h show ?thesis
    by (simp add: LogCenter_Process_def read_ctx_def GetType_def GetArg_def on_heap_def)
qed

lemma request_center_one:
  assumes "mRunning (rc_svc st)" "ctxs (kv_heap st) p = Some (local_ctx k a)"
    and "HandleLocalRequest \<lparr>mArg = Some a, mCtxType = k\<rparr> st = Done st1"
    and "ctxs (kv_heap st1) p = Some (local_ctx k a)"
  shows "Run_one request_center p st = Done (st1\<lparr>kv_heap := drop_ctx p (kv_heap st1)\<rparr>)"
proof -
  from finish_ctx [OF assms(4)] obtain h where
    h: "modify_ctx p (SetArg None) (kv_heap st1) = Done h" "DecRef p h = Done (drop_ctx p (kv_heap st1))"
    by (auto simp: outcome_simps)
  have "Run_one request_center p st = obind (RequestCenter_Process p st) (\<lambda>(fine, st1).
      obind (assert_that fine) (\<lambda>_. on_heap request_center (DecRef p) st1))"
    using rc.Run_one_local [of st p "local_ctx k a"] assms(1,2) by simp
  with assms(2,3) h show ?thesis
    by (simp add: RequestCenter_Process_def read_ctx_def GetType_def GetArg_def on_heap_def)
qed

section \<open>Requests and records\<close>

definition is_write_op :: "u32 \<Rightarrow> bool" where
  "is_write_op t \<longleftrightarrow> t \<in> {OP_put, OP_add, OP_del, OP_drop_table, OP_add_table}"

text \<open>A record carries the operation of a request.\<close>

definition carries :: "log_record \<Rightarrow> kv_request \<Rightarrow> bool" where
  "carries r rq \<longleftrightarrow> mOpType r = mOpType_rq rq \<and>
     mBody r = Some \<lparr>mTableName = mTableName_rq rq, mKey = mKey_rq rq, mValue = mValue_rq rq\<rparr>"

text \<open>Two records that differ at most in length and checksum.\<close>

definition same_op :: "log_record \<Rightarrow> log_record \<Rightarrow> bool" where
  "same_op r r' \<longleftrightarrow> mLogId r = mLogId r' \<and> mOpType r = mOpType r' \<and> mBody r = mBody r'"

lemma same_op_refl [simp]: "same_op r r"
  by (simp add: same_op_def)

lemma same_op_sym: "same_op r r' \<Longrightarrow> same_op r' r"
  by (simp add: same_op_def)

lemma same_op_trans: "same_op r r' \<Longrightarrow> same_op r' r'' \<Longrightarrow> same_op r r''"
  by (simp add: same_op_def)

lemma same_op_carries: "same_op r r' \<Longrightarrow> carries r rq \<longleftrightarrow> carries r' rq"
  by (simp add: same_op_def carries_def)

lemma same_op_sealed [simp]: "same_op (sealed r) r"
  by (simp add: same_op_def)

lemma WriteToFile_rec_same_op: "WriteToFile_rec r s = Done (e, r1, s1) \<Longrightarrow> same_op r1 r"
  by (auto simp: WriteToFile_rec_def same_op_def outcome_simps Let_def split: option.splits if_splits)

lemma WriteLog_same_op:
  assumes "WriteLog epoch r s = Done (e, r1, s1)"
  shows "same_op r1 r"
  using assms
  by (auto simp: WriteLog_def AppendLogRecord_def outcome_simps split: option.splits if_splits
      dest!: WriteToFile_rec_same_op)

lemma write_only_WriteLog:
  assumes "write_only epoch r s = Done (e, s1)"
  shows "\<exists>r1. WriteLog epoch r s = Done (e, r1, s1) \<and> same_op r1 r"
  using assms WriteLog_same_op by (fastforce simp: write_only_def outcome_simps)

text \<open>A request the clients of the theorems post: its record can be written.\<close>

definition good_request :: "kv_request \<Rightarrow> bool" where
  "good_request rq \<longleftrightarrow> (is_write_op (mOpType_rq rq) \<or> mOpType_rq rq = OP_get) \<and>
     body_fits \<lparr>mTableName = mTableName_rq rq, mKey = mKey_rq rq, mValue = mValue_rq rq\<rparr>"

section \<open>The parts of the invariant\<close>

text \<open>What the two queues hold: recovered records, then records to write; requests and responses.\<close>

definition lc_entries :: "log_record list \<Rightarrow> log_record list \<Rightarrow> (ctx_kind \<times> ctx_arg) list" where
  "lc_entries rs ws = map (\<lambda>r. (LOG_recover_log, RecordArg r)) rs @ map (\<lambda>r. (LOG_write_log, RecordArg r)) ws"

datatype rc_item = New nat | Resp log_response

fun rc_entry :: "rc_item \<Rightarrow> ctx_kind \<times> ctx_arg" where
  "rc_entry (New a) = (REQUEST_recv_data_request, RequestArg a)"
| "rc_entry (Resp r) = (REQUEST_finish_data_request, ResponseArg r)"

fun news :: "rc_item list \<Rightarrow> nat list" where
  "news [] = []"
| "news (New a # q) = a # news q"
| "news (Resp r # q) = news q"

fun answers :: "rc_item list \<Rightarrow> request_id_log_record list" where
  "answers [] = []"
| "answers (New a # q) = answers q"
| "answers (Resp r # q) = map snd (pairs r) @ answers q"

lemma news_append [simp]: "news (q @ q') = news q @ news q'"
  by (induction q rule: news.induct) simp_all

lemma answers_append [simp]: "answers (q @ q') = answers q @ answers q'"
  by (induction q rule: answers.induct) simp_all

definition service_ok :: "u64 \<Rightarrow> logic_service \<Rightarrow> bool" where
  "service_ok sleep s \<longleftrightarrow> mRunning s \<and> loop_wf s \<and> run_pc s \<notin> {Entering, Exited} \<and>
     mSleepNanosec s = sleep"

text \<open>
  \<open>m0\<close> is the largest log id of earlier runs. Log ids and request ids are given out together,
  so they differ by \<open>m0\<close>.
\<close>

definition ids_ok :: "nat \<Rightarrow> log_record list \<Rightarrow> nat \<Rightarrow> kvdb \<Rightarrow> bool" where
  "ids_ok m0 wr n st \<longleftrightarrow> ids_from (Suc m0) wr \<and> unat (mMaxLogId st) = m0 + length wr \<and>
     unat (mRequestID st) = length wr \<and> m0 + length wr + n < 2 ^ 32 \<and>
     (\<forall>l i. (l, i) \<in> set (mLogId2RequestId st) \<longrightarrow> l \<le> mMaxLogId st) \<and>
     (\<forall>l. m0 < unat l \<longrightarrow> l \<le> mMaxLogId st \<longrightarrow>
        map_of (mLogId2RequestId st) l = Some (l - of_nat m0))"

definition flush_ok :: "log_record list \<Rightarrow> kvdb \<Rightarrow> bool" where
  "flush_ok unflushed st \<longleftrightarrow>
     list_all2 (\<lambda>(l, r) r'. l = ucast (mLogId r) \<and> same_op r r') (mToFlushLog st) unflushed"

text \<open>The operations that have a request id and are not answered yet.\<close>

definition outstanding :: "nat \<Rightarrow> rc_item list \<Rightarrow> log_record list \<Rightarrow> kvdb \<Rightarrow> request_id_log_record list" where
  "outstanding m0 rq ws st = answers rq @
     map (\<lambda>(l, r). (l - of_nat m0, r)) (mToFlushLog st) @
     map (\<lambda>r. (ucast (mLogId r) - of_nat m0, r)) ws"

definition waits_for :: "kvdb \<Rightarrow> request_id_log_record \<Rightarrow> bool" where
  "waits_for st x \<longleftrightarrow> is_write_op (mOpType (snd x)) \<and>
     (\<exists>a rq. map_of (mRequests st) (fst x) = Some a \<and> requests st a = Some rq \<and> \<not> mSync rq \<and>
       carries (snd x) rq)"

definition requests_ok :: "request_id_log_record list \<Rightarrow> nat list \<Rightarrow> kvdb \<Rightarrow> bool" where
  "requests_ok out ns st \<longleftrightarrow>
     distinct (map fst out) \<and> distinct (map fst (mRequests st)) \<and>
     fst ` set out = fst ` set (mRequests st) \<and>
     (\<forall>x \<in> set out. waits_for st x) \<and>
     (\<forall>i \<in> fst ` set (mRequests st). i \<le> mRequestID st) \<and>
     distinct (map snd (mRequests st) @ ns) \<and>
     (\<forall>a \<in> set ns. \<exists>rq. requests st a = Some rq \<and> \<not> mSync rq \<and> good_request rq) \<and>
     (\<forall>a rq. requests st a = Some rq \<longrightarrow> \<not> mSync rq \<longrightarrow> a \<in> snd ` set (mRequests st) \<union> set ns) \<and>
     finite (dom (requests st)) \<and> card (dom (requests st)) < FLUSH_COUNTERS"

text \<open>The run began on a recovered directory, whose records are \<open>R0\<close>.\<close>

definition started_from :: "string \<Rightarrow> u32 \<Rightarrow> world \<Rightarrow> log_record list \<Rightarrow> bool" where
  "started_from dir e w0 R0 \<longleftrightarrow>
     (\<exists>olds. recovered_dir dir e w0 olds \<and> R0 = map sealed (concat (map snd olds)))"

lemma started_from_fresh: "started_from dir e w0 R0 \<Longrightarrow> epoch_fresh dir e w0"
  by (auto simp: started_from_def recovered_dir_def)

definition log_ok ::
  "string \<Rightarrow> world \<Rightarrow> nat \<Rightarrow> log_record list \<Rightarrow> (u32 \<times> log_record list) list \<Rightarrow> nat \<Rightarrow> kvdb \<Rightarrow> bool" where
  "log_ok dir w0 m0 R0 segs F st \<longleftrightarrow>
     plog_inv dir (ucast (mDBEpoch st)) w0 segs (plog_of st) \<and>
     on_disk dir (ucast (mDBEpoch st)) F segs (kv_world st) \<and>
     numbered (Suc m0 + length (concat (map snd segs))) segs \<and>
     started_from dir (ucast (mDBEpoch st)) w0 R0"

text \<open>
  Acknowledged writes and pending answers are about durable records, and so is every value in
  the data store that was not recovered.
\<close>

definition durable_op :: "log_record list \<Rightarrow> log_record \<Rightarrow> bool" where
  "durable_op dur r \<longleftrightarrow> (\<exists>r' \<in> set dur. same_op r r')"

definition acked_ok :: "log_record list \<Rightarrow> kvdb \<Rightarrow> bool" where
  "acked_ok dur st \<longleftrightarrow>
     (\<forall>a rq. requests st a = Some rq \<longrightarrow> mSync rq \<longrightarrow> is_write_op (mOpType_rq rq) \<longrightarrow>
       (\<exists>r \<in> set dur. carries r rq))"

definition record_sets :: "log_record \<Rightarrow> bytes \<Rightarrow> bytes \<Rightarrow> bytes \<Rightarrow> bool" where
  "record_sets r t k v \<longleftrightarrow> mOpType r \<in> {OP_put, OP_add} \<and>
     mBody r = Some \<lparr>mTableName = t, mKey = k, mValue = v\<rparr>"

definition store_from :: "log_record set \<Rightarrow> data_store \<Rightarrow> bool" where
  "store_from R ds \<longleftrightarrow>
     (\<forall>t k v. cells (flatten ds) (t, k) = Some v \<longrightarrow> (\<exists>r \<in> R. record_sets r t k v))"

definition applicable :: "log_record \<Rightarrow> bool" where
  "applicable r \<longleftrightarrow> is_write_op (mOpType r) \<and> mBody r \<noteq> None"

definition core ::
  "string \<Rightarrow> world \<Rightarrow> nat \<Rightarrow> log_record list \<Rightarrow> (u32 \<times> log_record list) list \<Rightarrow> nat \<Rightarrow>
   log_record list \<Rightarrow> log_record list \<Rightarrow> rc_item list \<Rightarrow> kvdb \<Rightarrow> bool" where
  "core dir w0 m0 R0 segs F rs ws rq st \<longleftrightarrow>
     ids_ok m0 (concat (map snd segs) @ ws) (length (news rq)) st \<and>
     flush_ok (drop F (concat (map snd segs))) st \<and>
     requests_ok (outstanding m0 rq ws st) (news rq) st \<and>
     log_ok dir w0 m0 R0 segs F st \<and>
     (\<forall>x \<in> set (answers rq). durable_op (take F (concat (map snd segs))) (snd x)) \<and>
     acked_ok (take F (concat (map snd segs))) st \<and>
     store_from (set R0 \<union> set (take F (concat (map snd segs)))) (mDataStore st) \<and>
     (\<forall>r \<in> set rs. applicable r \<and> r \<in> set R0) \<and> (\<forall>r \<in> set ws. rec_fits r) \<and>
     length (mFlushCount st) = FLUSH_COUNTERS \<and> inj (pair_addr st)"

section \<open>Lemmas on the parts\<close>

lemma ids_from_range:
  assumes "ids_from k rs" "r \<in> set rs"
  shows "k \<le> unat (mLogId r) \<and> unat (mLogId r) < k + length rs"
proof -
  obtain i where i: "i < length rs" "r = rs ! i" using assms(2) by (auto simp: in_set_conv_nth)
  with assms(1) have "mLogId r = of_nat (k + i)" "k + i < 2 ^ 32" by (auto simp: ids_from_def)
  then have "unat (mLogId r) = k + i"
    by (simp only: unat_of_nat) (simp add: take_bit_nat_eq_self)
  with i(1) show ?thesis by simp
qed

lemma requests_ok_perm:
  assumes "requests_ok out ns st" "mset out' = mset out"
  shows "requests_ok out' ns st"
proof -
  have "mset (map fst out') = mset (map fst out)" using assms(2) by simp
  then have "distinct (map fst out') = distinct (map fst out)" by (rule mset_eq_imp_distinct_iff)
  moreover have "set out' = set out" using assms(2) by (rule mset_eq_setD)
  ultimately show ?thesis using assms(1) by (simp add: requests_ok_def)
qed

definition same_ops :: "request_id_log_record list \<Rightarrow> request_id_log_record list \<Rightarrow> bool" where
  "same_ops = list_all2 (\<lambda>x y. fst x = fst y \<and> same_op (snd x) (snd y))"

lemma same_ops_refl [simp]: "same_ops xs xs"
  by (simp add: same_ops_def list_all2_refl)

lemma requests_ok_same:
  assumes "requests_ok out ns st" "same_ops out' out"
  shows "requests_ok out' ns st"
proof -
  have m: "map fst out' = map fst out"
    using assms(2) by (auto simp: same_ops_def list_all2_conv_all_nth list_eq_iff_nth_eq)
  then have "fst ` set out' = fst ` set out" by (metis set_map)
  moreover have "waits_for st x" if "x \<in> set out'" for x
  proof -
    from that obtain i where i: "i < length out'" "x = out' ! i" by (auto simp: in_set_conv_nth)
    let ?y = "out ! i"
    have y: "fst x = fst ?y" "same_op (snd x) (snd ?y)" "i < length out"
      using i assms(2) by (simp_all add: same_ops_def list_all2_conv_all_nth)
    then have "waits_for st ?y" using assms(1) by (simp add: requests_ok_def)
    with y(1,2) show ?thesis by (simp add: waits_for_def same_op_def carries_def)
  qed
  ultimately show ?thesis using assms(1) m by (simp add: requests_ok_def)
qed

lemma requests_ok_frame:
  "mRequests st1 = mRequests st \<Longrightarrow> requests st1 = requests st \<Longrightarrow> mRequestID st1 = mRequestID st \<Longrightarrow>
    requests_ok out ns st1 = requests_ok out ns st"
  by (simp add: requests_ok_def waits_for_def)

lemma requests_ok_count:
  assumes "requests_ok out ns st"
  shows "length out + length ns < FLUSH_COUNTERS"
proof -
  let ?as = "map snd (mRequests st) @ ns"
  have "length out = card (fst ` set out)"
    using assms by (metis requests_ok_def distinct_card length_map set_map)
  also have "\<dots> = length (mRequests st)"
    using assms by (metis requests_ok_def distinct_card length_map set_map)
  finally have l: "length ?as = length out + length ns" by simp
  have "\<exists>rq. requests st a = Some rq" if "a \<in> set ?as" for a
  proof (cases "a \<in> set ns")
    case True
    with assms show ?thesis by (auto simp: requests_ok_def)
  next
    case False
    with that obtain i where i: "(i, a) \<in> set (mRequests st)" by auto
    then have "i \<in> fst ` set (mRequests st)" by force
    then have "i \<in> fst ` set out" using assms by (simp add: requests_ok_def)
    then obtain x where x: "x \<in> set out" "fst x = i" by blast
    then have "waits_for st x" using assms by (simp add: requests_ok_def)
    moreover have "map_of (mRequests st) i = Some a"
      using i assms by (simp add: requests_ok_def)
    ultimately show ?thesis using x(2) by (auto simp: waits_for_def)
  qed
  then have "set ?as \<subseteq> dom (requests st)" by blast
  moreover have "finite (dom (requests st))" "card (dom (requests st)) < FLUSH_COUNTERS"
    using assms by (simp_all add: requests_ok_def)
  ultimately have "card (set ?as) < FLUSH_COUNTERS" using card_mono le_less_trans by metis
  moreover have "distinct ?as" using assms by (simp add: requests_ok_def)
  ultimately show ?thesis using l distinct_card by metis
qed

lemma exec_op_cells:
  assumes "cells (flatten (snd (exec_op x s))) (t, k) = Some v"
  shows "cells (flatten s) (t, k) = Some v \<or> x = KPut t k v \<or> x = KAdd t k v"
  using assms unfolding exec_op_flat_state
  by (cases x) (auto simp: flat_write_def split: if_splits option.splits)

lemma UpdateDataStore_run:
  assumes "applicable r"
  shows "\<exists>err ds. UpdateDataStore r st = Done (err, st\<lparr>mDataStore := ds\<rparr>) \<and>
    (\<forall>R. store_from R (mDataStore st) \<longrightarrow> (\<exists>r' \<in> R. same_op r r') \<longrightarrow> store_from R ds)"
proof -
  obtain b where b: "mBody r = Some b" using assms by (auto simp: applicable_def)
  obtain x where x: "record_op r b = Some x"
    using assms by (auto simp: applicable_def is_write_op_def record_op_def op_codes)
  let ?ds = "snd (exec_op x (mDataStore st))"
  have "UpdateDataStore r st = Done (fst (exec_op x (mDataStore st)), st\<lparr>mDataStore := ?ds\<rparr>)"
    using assms b x by (auto simp: UpdateDataStore_def applicable_def is_write_op_def split_beta)
  moreover have "store_from R ?ds" if R: "store_from R (mDataStore st)" "r' \<in> R" "same_op r r'" for R r'
    unfolding store_from_def
  proof (intro allI impI)
    fix t k v assume "cells (flatten ?ds) (t, k) = Some v"
    from exec_op_cells [OF this] consider "cells (flatten (mDataStore st)) (t, k) = Some v"
      | "x = KPut t k v" | "x = KAdd t k v" by blast
    then show "\<exists>r \<in> R. record_sets r t k v"
    proof cases
      case 1
      with R(1) show ?thesis unfolding store_from_def by blast
    qed (use R(2,3) b x in \<open>cases b; auto simp: record_sets_def same_op_def record_op_def
          split: if_splits\<close>)+
  qed
  ultimately show ?thesis by blast
qed

section \<open>The log center\<close>

lemma parts_store [simp]:
  "ids_ok m0 wr n (st\<lparr>mDataStore := ds\<rparr>) = ids_ok m0 wr n st"
  "flush_ok u (st\<lparr>mDataStore := ds\<rparr>) = flush_ok u st"
  "requests_ok out ns (st\<lparr>mDataStore := ds\<rparr>) = requests_ok out ns st"
  "outstanding m0 rq ws (st\<lparr>mDataStore := ds\<rparr>) = outstanding m0 rq ws st"
  "log_ok dir w0 m0 R0 segs F (st\<lparr>mDataStore := ds\<rparr>) = log_ok dir w0 m0 R0 segs F st"
  "acked_ok dur (st\<lparr>mDataStore := ds\<rparr>) = acked_ok dur st"
  by (simp_all add: ids_ok_def flush_ok_def outstanding_def log_ok_def plog_of_def acked_ok_def
      requests_ok_frame [of "st\<lparr>mDataStore := ds\<rparr>" st])

text \<open>No part looks at the heap or at the services.\<close>

lemma parts_services [simp]:
  "core dir w0 m0 R0 segs F rs ws rq (st\<lparr>kv_heap := h\<rparr>) = core dir w0 m0 R0 segs F rs ws rq st"
  "core dir w0 m0 R0 segs F rs ws rq (st\<lparr>lc_svc := s\<rparr>) = core dir w0 m0 R0 segs F rs ws rq st"
  "core dir w0 m0 R0 segs F rs ws rq (st\<lparr>rc_svc := s\<rparr>) = core dir w0 m0 R0 segs F rs ws rq st"
  by (simp_all add: core_def ids_ok_def flush_ok_def outstanding_def log_ok_def plog_of_def
      acked_ok_def requests_ok_frame [of "st\<lparr>kv_heap := h\<rparr>" st]
      requests_ok_frame [of "st\<lparr>lc_svc := s\<rparr>" st] requests_ok_frame [of "st\<lparr>rc_svc := s\<rparr>" st])

lemma core_recover:
  assumes "core dir w0 m0 R0 segs F (r # rs) ws rq st"
  shows "\<exists>st1. HandleRecoverLog r st = Done st1 \<and> core dir w0 m0 R0 segs F rs ws rq st1 \<and>
    lc_svc st1 = lc_svc st \<and> rc_svc st1 = rc_svc st \<and> kv_heap st1 = kv_heap st"
proof -
  have r: "applicable r" "r \<in> set R0" using assms by (simp_all add: core_def)
  obtain err ds where u: "UpdateDataStore r st = Done (err, st\<lparr>mDataStore := ds\<rparr>)"
    and ds: "\<forall>R. store_from R (mDataStore st) \<longrightarrow> (\<exists>r' \<in> R. same_op r r') \<longrightarrow> store_from R ds"
    using UpdateDataStore_run [OF r(1)] by blast
  let ?R = "set R0 \<union> set (take F (concat (map snd segs)))"
  have "\<exists>r' \<in> ?R. same_op r r'" using r(2) by (intro bexI [of _ r]) simp_all
  moreover have "store_from ?R (mDataStore st)" using assms by (simp add: core_def)
  ultimately have "store_from ?R ds" using ds by blast
  with u assms show ?thesis
    by (simp add: HandleRecoverLog_def core_def)
qed

lemma flush_keys:
  assumes "flush_ok (drop F wr) st" "ids_from (Suc m0) (wr @ ws)" "l \<in> fst ` set (mToFlushLog st)"
  shows "unat l < Suc m0 + length wr"
proof -
  from assms(3) obtain i where i: "i < length (mToFlushLog st)" "l = fst (mToFlushLog st ! i)"
    by (auto simp: in_set_conv_nth)
  let ?r = "drop F wr ! i"
  have r: "i < length (drop F wr)" "l = ucast (mLogId ?r)"
    using assms(1) i unfolding flush_ok_def list_all2_conv_all_nth
    by (auto simp: case_prod_beta same_op_def)
  then have "?r \<in> set wr" by (metis in_set_dropD nth_mem)
  with ids_from_append [OF assms(2)] have "unat (mLogId ?r) < Suc m0 + length wr"
    using ids_from_range by blast
  with r(2) show ?thesis by (simp add: unat_ucast_u32)
qed

lemma core_write:
  assumes "core dir w0 m0 R0 segs F rs (r # ws) rq st"
  shows "\<exists>st1 segs1. HandleWriteOper r st = Done (E_OK, st1) \<and>
    core dir w0 m0 R0 segs1 F rs ws rq st1 \<and> concat (map snd segs1) = concat (map snd segs) @ [r] \<and>
    lc_svc st1 = lc_svc st \<and> rc_svc st1 = rc_svc st \<and> kv_heap st1 = kv_heap st"
proof -
  let ?wr = "concat (map snd segs)"
  let ?k = "Suc m0 + length ?wr"
  have lg: "plog_inv dir (ucast (mDBEpoch st)) w0 segs (plog_of st)"
    "on_disk dir (ucast (mDBEpoch st)) F segs (snd (plog_of st))" "numbered ?k segs"
    "started_from dir (ucast (mDBEpoch st)) w0 R0"
    using assms by (simp_all add: core_def log_ok_def plog_of_def)
  have F: "F \<le> length ?wr" by (rule on_disk_le [OF lg(2)])
  have ids: "ids_from (Suc m0) (?wr @ r # ws)" using assms by (simp add: core_def ids_ok_def)
  have rk: "mLogId r = of_nat ?k" "?k < 2 ^ 32" "rec_fits r"
    using ids_from_append [OF ids] assms by (simp_all add: ids_from_Cons core_def)
  from write_only_step [OF lg(1-3) rk(3,2,1) started_from_fresh [OF lg(4)]] obtain s' segs1 where
    w: "write_only (mDBEpoch st) r (plog_of st) = Done (E_OK, s')"
    "plog_inv dir (ucast (mDBEpoch st)) w0 segs1 s'"
    "on_disk dir (ucast (mDBEpoch st)) F segs1 (snd s')" "numbered (Suc ?k) segs1"
    "concat (map snd segs1) = ?wr @ [r]" by blast
  obtain r1 where r1: "WriteLog (mDBEpoch st) r (plog_of st) = Done (E_OK, r1, s')" "same_op r1 r"
    using write_only_WriteLog [OF w(1)] by blast
  let ?id = "ucast (mLogId r1) :: u64"
  have id: "unat ?id = ?k"
  proof -
    have "unat (mLogId r) = ?k" unfolding rk(1)
      by (simp only: unat_of_nat take_bit_nat_eq_self_iff) (use rk(2) in \<open>simp add: take_bit_nat_eq_self\<close>)
    with r1(2) show ?thesis by (simp add: unat_ucast_u32 same_op_def)
  qed
  have fl: "flush_ok (drop F ?wr) st" using assms by (simp add: core_def)
  have ins: "smap_insert ?id r1 (mToFlushLog st) = mToFlushLog st @ [(?id, r1)]"
  proof (rule smap_insert_append, rule ballI)
    fix l assume "l \<in> fst ` set (mToFlushLog st)"
    from flush_keys [OF fl ids this] id show "l < ?id" by (simp add: word_less_nat_alt)
  qed
  let ?st1 = "(set_plog s' st)\<lparr>mToFlushLog := mToFlushLog st @ [(?id, r1)]\<rparr>"
  have out: "same_ops (outstanding m0 rq ws ?st1) (outstanding m0 rq (r # ws) st)"
    using r1(2) by (auto simp: outstanding_def set_plog_def same_ops_def same_op_def
        intro!: list_all2_appendI list_all2_refl)
  have req: "requests_ok (outstanding m0 rq (r # ws) st) (news rq) st"
    using assms by (simp add: core_def)
  have req1: "requests_ok (outstanding m0 rq ws ?st1) (news rq) ?st1"
    using requests_ok_same [OF req out] by (subst requests_ok_frame [of _ st]) (simp_all add: set_plog_def)
  have "length (mToFlushLog st) < FLUSH_COUNTERS"
    using requests_ok_count [OF req] by (simp add: outstanding_def)
  then have "HandleWriteOper r st = Done (E_OK, ?st1)"
    using r1(1) ins by (simp add: HandleWriteOper_def Let_def FLUSH_COUNTERS_def MAX_LOG_NUM_TO_FLUSH_def
        set_plog_def)
  moreover have "core dir w0 m0 R0 segs1 F rs ws rq ?st1"
  proof -
    have "flush_ok (drop F (?wr @ [r])) ?st1"
      using fl F r1(2) by (simp add: flush_ok_def set_plog_def list_all2_appendI)
    moreover have "take F (?wr @ [r]) = take F ?wr" using F by simp
    ultimately show ?thesis
      using assms req1 w(2-5) lg(4)
      by (simp add: core_def ids_ok_def log_ok_def acked_ok_def set_plog_def plog_of_def)
  qed
  ultimately show ?thesis using w(5)
    by (intro exI [of _ ?st1] exI [of _ segs1]) (simp add: set_plog_def)
qed

lemma mset_smap_insert: "k \<notin> fst ` set m \<Longrightarrow> mset (smap_insert k v m) = add_mset (k, v) (mset m)"
  by (induction k v m rule: smap_insert.induct) auto

text \<open>Every record gets its pair, whatever addresses the pairs have.\<close>

lemma collect_pairs_run:
  assumes "inj (pair_addr st)" "\<forall>(l, r) \<in> set m. map_of (mLogId2RequestId st) l = Some (g l)"
    and "fst ` set (pairs response) \<subseteq> pair_addr st ` {..<pairs_made st}"
  shows "\<exists>response1. collect_pairs m response st = Done (response1, st\<lparr>pairs_made := pairs_made st + length m\<rparr>) \<and>
    mset (map snd (pairs response1)) = mset (map snd (pairs response)) + mset (map (\<lambda>(l, r). (g l, r)) m)"
  using assms
proof (induction m arbitrary: response st)
  case (Cons x m)
  obtain l r where x: "x = (l, r)" by fastforce
  let ?a = "pair_addr st (pairs_made st)"
  let ?resp = "response\<lparr>pairs := smap_insert ?a (g l, r) (pairs response)\<rparr>"
  let ?st = "st\<lparr>pairs_made := Suc (pairs_made st)\<rparr>"
  have new: "?a \<notin> fst ` set (pairs response)"
  proof
    assume "?a \<in> fst ` set (pairs response)"
    with Cons.prems(3) obtain n where "n < pairs_made st" "?a = pair_addr st n" by blast
    with Cons.prems(1) show False by (metis injD less_irrefl)
  qed
  have "fst ` set (pairs ?resp) \<subseteq> pair_addr ?st ` {..<pairs_made ?st}"
    using Cons.prems(3) by (auto simp: lessThan_Suc)
  from Cons.IH [OF _ _ this] Cons.prems(1,2) obtain response1 where
    "collect_pairs m ?resp ?st = Done (response1, ?st\<lparr>pairs_made := pairs_made ?st + length m\<rparr>)"
    "mset (map snd (pairs response1)) = mset (map snd (pairs ?resp)) + mset (map (\<lambda>(l, r). (g l, r)) m)"
    by auto
  moreover have "mset (map snd (pairs ?resp)) = add_mset (g l, r) (mset (map snd (pairs response)))"
    using mset_smap_insert [OF new, of "(g l, r)"] by simp
  ultimately show ?case using Cons.prems(2) x by simp
qed simp

lemma durable_op_mono: "durable_op dur r \<Longrightarrow> set dur \<subseteq> set dur' \<Longrightarrow> durable_op dur' r"
  by (auto simp: durable_op_def)

lemma acked_ok_mono: "acked_ok dur st \<Longrightarrow> set dur \<subseteq> set dur' \<Longrightarrow> acked_ok dur' st"
  unfolding acked_ok_def by (meson subsetD)

lemma store_from_mono: "store_from R ds \<Longrightarrow> R \<subseteq> R' \<Longrightarrow> store_from R' ds"
  unfolding store_from_def by (meson subsetD)

lemma flush_members:
  assumes "flush_ok (drop F wr) st" "(l, r) \<in> set (mToFlushLog st)"
  shows "l = ucast (mLogId r) \<and> (\<exists>r' \<in> set wr. same_op r r')"
proof -
  from assms(2) obtain i where i: "i < length (mToFlushLog st)" "(l, r) = mToFlushLog st ! i"
    by (auto simp: in_set_conv_nth)
  have "i < length (drop F wr)"
    using assms(1) i(1) list_all2_lengthD unfolding flush_ok_def by fastforce
  moreover have "l = ucast (mLogId r) \<and> same_op r (drop F wr ! i)"
    using list_all2_nthD [OF assms(1) [unfolded flush_ok_def] i(1)] by (simp flip: i(2))
  ultimately show ?thesis by (metis in_set_dropD nth_mem)
qed

lemma core_idle:
  assumes core: "core dir w0 m0 R0 segs F rs ws rq st"
    and ne: "mToFlushLog st \<noteq> []" and run: "mRunning (rc_svc st)"
  defines "wr \<equiv> concat (map snd segs)"
  shows "\<exists>response st1. LogCenter_Idle st = Done st1 \<and>
    core dir w0 m0 R0 segs (length wr) rs ws (rq @ [Resp response]) st1 \<and> lc_svc st1 = lc_svc st \<and>
    kv_heap st1 = snd (alloc_ctx (local_ctx REQUEST_finish_data_request (ResponseArg response)) (kv_heap st)) \<and>
    rc_svc st1 = (rc_svc st)\<lparr>mQueue := mQueue (rc_svc st) @ [next_ctx (kv_heap st)]\<rparr>"
proof -
  let ?e = "ucast (mDBEpoch st) :: u32"
  have lg: "plog_inv dir ?e w0 segs (plog_of st)" "on_disk dir ?e F segs (kv_world st)"
    "numbered (Suc m0 + length wr) segs" "started_from dir ?e w0 R0"
    using core by (simp_all add: core_def log_ok_def wr_def)
  have F: "F \<le> length wr" unfolding wr_def by (rule on_disk_le [OF lg(2)])
  have fl: "flush_ok (drop F wr) st" using core by (simp add: core_def wr_def)
  have ids: "ids_ok m0 (wr @ ws) (length (news rq)) st" using core by (simp add: core_def wr_def)
  have req: "requests_ok (outstanding m0 rq ws st) (news rq) st" using core by (simp add: core_def)
  have "drop F wr \<noteq> []" using fl ne by (auto simp: flush_ok_def)
  then have segs: "segs \<noteq> []" by (auto simp: wr_def)
  obtain s' where s': "FlushLog_pl (plog_of st) = Done (E_OK, s')" "plog_inv dir ?e w0 segs s'"
    "durable_of (snd s') (log_name dir ?e (fst (last segs))) = log_image (snd (last segs)) []"
    using FlushLog_pl_run [OF lg(1) segs] by blast
  let ?n = "length (mToFlushLog st)"
  let ?st2 = "(set_plog s' st)\<lparr>mFlushCount := (mFlushCount st)[?n := mFlushCount st ! ?n + 1]\<rparr>"
  have known: "\<forall>(l, r) \<in> set (mToFlushLog st). map_of (mLogId2RequestId ?st2) l = Some (l - of_nat m0)"
  proof clarify
    fix l r assume lr: "(l, r) \<in> set (mToFlushLog st)"
    then obtain r' where r': "l = ucast (mLogId r)" "r' \<in> set wr" "mLogId r = mLogId r'"
      using flush_members [OF fl lr] by (auto simp: same_op_def)
    have "ids_from (Suc m0) wr" using ids ids_from_append [of "Suc m0" wr ws] by (simp add: ids_ok_def)
    from ids_from_range [OF this r'(2)] have u: "m0 < unat l" "unat l \<le> m0 + length wr"
      using r'(1,3) by (simp_all add: unat_ucast_u32)
    then have "l \<le> mMaxLogId st" using ids by (simp add: ids_ok_def word_le_nat_alt)
    with u(1) ids show "map_of (mLogId2RequestId ?st2) l = Some (l - of_nat m0)"
      by (simp add: ids_ok_def set_plog_def)
  qed
  obtain response where
    c: "collect_pairs (mToFlushLog st) \<lparr>pairs = []\<rparr> ?st2 =
      Done (response, ?st2\<lparr>pairs_made := pairs_made st + ?n\<rparr>)"
    "mset (map snd (pairs response)) = mset (map (\<lambda>(l, r). (l - of_nat m0, r)) (mToFlushLog st))"
    using collect_pairs_run [of ?st2 "mToFlushLog st" "\<lambda>l. l - of_nat m0" "\<lparr>pairs = []\<rparr>"] known core
    by (auto simp: core_def set_plog_def)
  let ?st3 = "?st2\<lparr>pairs_made := pairs_made st + ?n,
    kv_heap := snd (alloc_ctx (local_ctx REQUEST_finish_data_request (ResponseArg response)) (kv_heap st)),
    rc_svc := (rc_svc st)\<lparr>mQueue := mQueue (rc_svc st) @ [next_ctx (kv_heap st)]\<rparr>, mToFlushLog := []\<rparr>"
  have "?n < FLUSH_COUNTERS" using requests_ok_count [OF req] by (simp add: outstanding_def)
  moreover have "length (mFlushCount st) = FLUSH_COUNTERS" using core by (simp add: core_def)
  ultimately have "LogCenter_Idle st = Done ?st3"
    using ne s'(1) c(1) run
    by (simp add: LogCenter_Idle_def FlushLog_lc_def Let_def ReceiveKVResponse_def send_rc_cases
        set_plog_def)
  moreover have "core dir w0 m0 R0 segs (length wr) rs ws (rq @ [Resp response]) ?st3"
  proof -
    have "set (take F wr) \<subseteq> set wr" by (rule set_take_subset)
    note mono = this durable_op_mono acked_ok_mono store_from_mono
    have disk: "on_disk dir ?e (length wr) segs (snd s')"
      using s'(3) concat_butlast_last [OF segs] segs unfolding on_disk_def wr_def
      by (intro disjI2 conjI exI [of _ "length (snd (last segs))"]) auto
    have "requests_ok (outstanding m0 (rq @ [Resp response]) ws ?st3) (news rq) st"
      by (rule requests_ok_perm [OF req]) (simp add: outstanding_def c(2) [simplified])
    then have req': "requests_ok (outstanding m0 (rq @ [Resp response]) ws ?st3) (news rq) ?st3"
      by (subst requests_ok_frame [of _ st]) (simp_all add: set_plog_def)
    have "set (map snd (pairs response)) = set (map (\<lambda>(l, r). (l - of_nat m0, r)) (mToFlushLog st))"
      using c(2) by (rule mset_eq_setD)
    then have dur: "\<forall>x \<in> set (map snd (pairs response)). durable_op wr (snd x)"
      using flush_members [OF fl] by (auto simp: durable_op_def)
    have old: "\<forall>x \<in> set (answers rq). durable_op wr (snd x)"
      using core mono(1) unfolding core_def wr_def [symmetric] by (blast intro: durable_op_mono)
    have ack: "acked_ok wr st" "store_from (set R0 \<union> set wr) (mDataStore st)"
      using core mono(1) unfolding core_def wr_def [symmetric]
      by (blast intro: acked_ok_mono store_from_mono)+
    show ?thesis
      using core req' disk s'(2) lg(3,4) dur old ack ids
      by (auto simp: core_def wr_def [symmetric] log_ok_def ids_ok_def flush_ok_def acked_ok_def
          set_plog_def plog_of_def)
  qed
  ultimately show ?thesis by (intro exI [of _ response] exI [of _ ?st3]) (simp add: set_plog_def)
qed

section \<open>The request center\<close>

lemma requests_ok_owner:
  assumes "requests_ok out ns st" "map_of (mRequests st) i = Some a"
  shows "\<exists>x. requests st a = Some x \<and> \<not> mSync x"
proof -
  have "i \<in> fst ` set (mRequests st)" using map_of_SomeD [OF assms(2)] by force
  then have "i \<in> fst ` set out" using assms(1) by (simp add: requests_ok_def)
  then obtain y where "y \<in> set out" "fst y = i" by blast
  then have "waits_for st y" using assms(1) by (simp add: requests_ok_def)
  with \<open>fst y = i\<close> assms(2) show ?thesis by (auto simp: waits_for_def)
qed

lemma requests_ok_busy:
  assumes "requests_ok out ns st" "a \<in> snd ` set (mRequests st) \<union> set ns"
  shows "\<exists>x. requests st a = Some x \<and> \<not> mSync x"
proof (cases "a \<in> set ns")
  case True
  with assms(1) show ?thesis by (auto simp: requests_ok_def)
next
  case False
  with assms(2) obtain i where "(i, a) \<in> set (mRequests st)" by auto
  then have "map_of (mRequests st) i = Some a" using assms(1) by (simp add: requests_ok_def)
  then show ?thesis by (rule requests_ok_owner [OF assms(1)])
qed

lemma waits_for_other:
  assumes "waits_for st y" "map_of (mRequests st1) (fst y) = map_of (mRequests st) (fst y)"
    and "\<And>a. map_of (mRequests st) (fst y) = Some a \<Longrightarrow> requests st1 a = requests st a"
  shows "waits_for st1 y"
  using assms by (auto simp: waits_for_def)

text \<open>A read is answered: its request leaves the bookkeeping.\<close>

lemma requests_ok_read:
  assumes ok: "requests_ok out (a # ns) st" and x: "requests st a = Some x" "mSync x'"
  shows "requests_ok out ns (st\<lparr>requests := (requests st)(a \<mapsto> x')\<rparr>)"
proof -
  let ?st = "st\<lparr>requests := (requests st)(a \<mapsto> x')\<rparr>"
  have a: "a \<notin> snd ` set (mRequests st)" "a \<notin> set ns" using ok by (simp_all add: requests_ok_def)
  have "waits_for ?st y" if "y \<in> set out" for y
  proof (rule waits_for_other [of st])
    show "waits_for st y" using that ok by (simp add: requests_ok_def)
    fix b assume "map_of (mRequests st) (fst y) = Some b"
    then have "b \<in> snd ` set (mRequests st)" by (force dest: map_of_SomeD)
    with a(1) show "requests ?st b = requests st b" by auto
  qed simp
  moreover have "dom (requests ?st) = dom (requests st)" using x(1) by auto
  ultimately show ?thesis using ok a x(2) by (auto simp: requests_ok_def)
qed

text \<open>A write gets its request id.\<close>

lemma requests_ok_number:
  assumes ok: "requests_ok out (a # ns) st" and x: "requests st a = Some x" "carries r x"
    and w: "is_write_op (mOpType r)" and i: "mRequestID st < i"
    and st1: "requests st1 = requests st" "mRequests st1 = mRequests st @ [(i, a)]" "mRequestID st1 = i"
  shows "requests_ok (out @ [(i, r)]) ns st1"
proof -
  have keys: "\<forall>j \<in> fst ` set (mRequests st). j < i"
    using ok i by (auto simp: requests_ok_def)
  then have i_new: "i \<notin> fst ` set (mRequests st)" by blast
  have out_keys: "fst ` set out = fst ` set (mRequests st)" using ok by (simp add: requests_ok_def)
  have nosync: "\<not> mSync x" using ok x(1) by (auto simp: requests_ok_def)
  have "waits_for st1 y" if "y \<in> set out" for y
  proof (rule waits_for_other [of st])
    show "waits_for st y" using that ok by (simp add: requests_ok_def)
    have "fst y \<noteq> i" using that i_new out_keys by blast
    then show "map_of (mRequests st1) (fst y) = map_of (mRequests st) (fst y)"
      by (simp add: st1(2) map_add_def split: option.split)
  qed (simp add: st1(1))
  moreover have "map_of (mRequests st1) i = Some a"
    using i_new by (simp add: st1(2) map_add_def map_of_eq_None_iff split: option.split) (metis map_of_eq_None_iff option.distinct(1))
  then have "waits_for st1 (i, r)" using w x nosync by (simp add: waits_for_def st1(1))
  moreover have "\<forall>j \<in> fst ` set (mRequests st1). j \<le> i" using keys by (auto simp: st1(2) intro: less_imp_le)
  ultimately show ?thesis
    using ok i_new out_keys by (auto simp: requests_ok_def st1)
qed

text \<open>A write is answered.\<close>

lemma requests_ok_answer:
  assumes ok: "requests_ok ((i, r) # out) ns st" and a: "map_of (mRequests st) i = Some a"
    and x: "requests st a = Some x" "mSync x'"
  shows "requests_ok out ns (st\<lparr>requests := (requests st)(a \<mapsto> x'),
    mRequests := AList.delete i (mRequests st)\<rparr>)" (is "requests_ok out ns ?st")
proof -
  let ?m = "AList.delete i (mRequests st)"
  have ia: "(i, a) \<in> set (mRequests st)" using a by (rule map_of_SomeD)
  have dist: "distinct (map fst (mRequests st))" "distinct (map snd (mRequests st) @ ns)"
    using ok by (simp_all add: requests_ok_def)
  have m: "?m = filter (\<lambda>(j, _). i \<noteq> j) (mRequests st)" by (simp add: AList.delete_eq)
  have owner: "j = i" if "(j, a) \<in> set (mRequests st)" for j
  proof -
    have "inj_on snd (set (mRequests st))" using dist(2) by (simp add: distinct_map)
    from inj_onD [OF this _ that ia] show ?thesis by simp
  qed
  have "waits_for ?st y" if "y \<in> set out" for y
  proof (rule waits_for_other [of st])
    show "waits_for st y" using that ok by (simp add: requests_ok_def)
    have "fst y \<noteq> i" using that ok by (auto simp: requests_ok_def)
    then show "map_of (mRequests ?st) (fst y) = map_of (mRequests st) (fst y)"
      by (simp add: AList.delete_conv')
    fix b assume "map_of (mRequests st) (fst y) = Some b"
    then have "b \<noteq> a" using owner \<open>fst y \<noteq> i\<close> by (auto dest: map_of_SomeD)
    then show "requests ?st b = requests st b" by simp
  qed
  moreover have "distinct (map fst ?m)" "distinct (map snd ?m @ ns)"
    using dist unfolding m by (auto intro: distinct_map_filter)
  moreover have "fst ` set ?m = fst ` set (mRequests st) - {i}" unfolding m by force
  then have "fst ` set out = fst ` set ?m"
    using ok by (auto simp: requests_ok_def)
  moreover have "b \<in> snd ` set ?m \<union> set ns" if "requests ?st b = Some z" "\<not> mSync z" for b z
  proof -
    have b: "b \<noteq> a" "requests st b = Some z" using that x(2) by (auto split: if_splits)
    then have "b \<in> snd ` set (mRequests st) \<union> set ns" using ok that(2) by (auto simp: requests_ok_def)
    moreover have "b \<in> snd ` set ?m" if "b \<in> snd ` set (mRequests st)"
    proof -
      from that obtain j where j: "(j, b) \<in> set (mRequests st)" by auto
      with ia b(1) dist(1) have "j \<noteq> i" by (metis eq_key_imp_eq_value)
      with j show ?thesis unfolding m by force
    qed
    ultimately show ?thesis by blast
  qed
  moreover have "\<forall>b \<in> set ns. b \<noteq> a" using ia dist(2) by force
  moreover have "dom (requests ?st) = dom (requests st)" using x(1) by auto
  moreover have "\<forall>j \<in> fst ` set ?m. j \<le> mRequestID st"
    using ok unfolding m by (auto simp: requests_ok_def)
  ultimately show ?thesis using ok by (simp add: requests_ok_def)
qed

text \<open>A client posts a request.\<close>

lemma requests_ok_post:
  assumes ok: "requests_ok out ns st" and x: "requests st a = Some x" "mSync x"
    and x': "\<not> mSync x'" "good_request x'"
  shows "requests_ok out (ns @ [a]) (st\<lparr>requests := (requests st)(a \<mapsto> x')\<rparr>)"
proof -
  let ?st = "st\<lparr>requests := (requests st)(a \<mapsto> x')\<rparr>"
  have a: "a \<notin> snd ` set (mRequests st) \<union> set ns"
    using requests_ok_busy [OF ok] x by fastforce
  have "waits_for ?st y" if "y \<in> set out" for y
  proof (rule waits_for_other [of st])
    show "waits_for st y" using that ok by (simp add: requests_ok_def)
    fix b assume "map_of (mRequests st) (fst y) = Some b"
    then have "b \<in> snd ` set (mRequests st)" by (force dest: map_of_SomeD)
    with a show "requests ?st b = requests st b" by auto
  qed simp
  moreover have "dom (requests ?st) = dom (requests st)" using x(1) by auto
  ultimately show ?thesis using ok a x' by (auto simp: requests_ok_def)
qed

lemma new_log_id:
  assumes "ids_ok m0 wr n st" "0 < n"
  defines "l \<equiv> mMaxLogId st + 1" and "i \<equiv> mRequestID st + 1"
  shows "unat l = Suc (m0 + length wr)" "unat i = Suc (length wr)" "mMaxLogId st < l"
    "mRequestID st < i" "unat (ucast l :: u32) = Suc (m0 + length wr)"
    "(ucast l :: u32) = of_nat (Suc m0 + length wr)" "ucast (ucast l :: u32) - of_nat m0 = i"
    "l - of_nat m0 = i"
proof -
  have b: "unat (mMaxLogId st) = m0 + length wr" "unat (mRequestID st) = length wr"
    "Suc (m0 + length wr) < 2 ^ 32" using assms(1,2) by (simp_all add: ids_ok_def)
  have l: "unat l = Suc (m0 + length wr)"
    using b unfolding l_def by (simp add: unat_word_ariths take_bit_nat_eq_self)
  have i: "unat i = Suc (length wr)"
    using b unfolding i_def by (simp add: unat_word_ariths take_bit_nat_eq_self)
  show "unat l = Suc (m0 + length wr)" "unat i = Suc (length wr)" by (fact l i)+
  show "mMaxLogId st < l" "mRequestID st < i" using b l i by (simp_all add: word_less_nat_alt)
  show u: "unat (ucast l :: u32) = Suc (m0 + length wr)"
    using l b(3) by (simp add: unsigned_ucast_eq take_bit_nat_eq_self)
  show "(ucast l :: u32) = of_nat (Suc m0 + length wr)"
    using b(3) u by (simp only: word_unat_eq_iff unat_of_nat) (simp add: take_bit_nat_eq_self)
  have "unat (ucast (ucast l :: u32) :: u64) = unat (of_nat (m0 + Suc (length wr)) :: u64)"
    using b(3) u by (simp only: unat_ucast_u32 unat_of_nat) (simp add: take_bit_nat_eq_self)
  then have "ucast (ucast l :: u32) = (of_nat m0 + of_nat (Suc (length wr)) :: u64)"
    by (simp only: word_unat_eq_iff of_nat_add)
  moreover have "i = of_nat (Suc (length wr))"
    using b(3) i by (simp only: word_unat_eq_iff unat_of_nat) (simp add: take_bit_nat_eq_self)
  ultimately show i2: "ucast (ucast l :: u32) - of_nat m0 = i" by simp
  have "ucast (ucast l :: u32) = l"
    by (simp only: word_unat_eq_iff unat_ucast_u32 u l)
  with i2 show "l - of_nat m0 = i" by simp
qed

lemma good_request_fits:
  "good_request x \<Longrightarrow> rec_fits (request_record l (mOpType_rq x) (mTableName_rq x) (mKey_rq x) (mValue_rq x))"
  by (simp add: good_request_def rec_fits_def request_record_def)

lemma ids_from_snoc:
  "ids_from k rs \<Longrightarrow> mLogId r = of_nat (k + length rs) \<Longrightarrow> k + length rs < 2 ^ 32 \<Longrightarrow> ids_from k (rs @ [r])"
  by (auto simp: ids_from_def nth_append less_Suc_eq)

lemma core_new_read:
  assumes core: "core dir w0 m0 R0 segs F rs ws (New a # rq) st"
    and x: "requests st a = Some x" "mOpType_rq x = OP_get"
  shows "\<exists>st1. HandleNewKVRequest a st = Done st1 \<and> core dir w0 m0 R0 segs F rs ws rq st1 \<and>
    lc_svc st1 = lc_svc st \<and> rc_svc st1 = rc_svc st \<and> kv_heap st1 = kv_heap st"
proof -
  let ?g = "Get (mTableName_rq x) (mKey_rq x) (mValue_rq x) (mDataStore st)"
  let ?x = "Signal_rq (x\<lparr>mErr := fst ?g, mValue_rq := snd ?g\<rparr>)"
  let ?st1 = "st\<lparr>requests := (requests st)(a \<mapsto> ?x)\<rparr>"
  have req: "requests_ok (outstanding m0 (New a # rq) ws st) (a # news rq) st"
    using core by (simp add: core_def)
  have "requests_ok (outstanding m0 rq ws ?st1) (news rq) ?st1"
    using requests_ok_read [OF req x(1), of ?x] by (simp add: outstanding_def Signal_rq_def)
  moreover have "\<not> is_write_op (mOpType_rq ?x)"
    using x(2) by (simp add: is_write_op_def op_codes Signal_rq_def)
  ultimately have "core dir w0 m0 R0 segs F rs ws rq ?st1"
    using core by (auto simp: core_def ids_ok_def flush_ok_def log_ok_def plog_of_def acked_ok_def)
  moreover have "HandleNewKVRequest a st = Done ?st1"
    using x by (simp add: HandleNewKVRequest_def GetOpType_rq_def split_beta)
  ultimately show ?thesis by (intro exI [of _ ?st1]) simp
qed

lemma core_new_write:
  assumes core: "core dir w0 m0 R0 segs F rs ws (New a # rq) st"
    and x: "requests st a = Some x" "mOpType_rq x \<noteq> OP_get" and run: "mRunning (lc_svc st)"
  shows "\<exists>st1 r. HandleNewKVRequest a st = Done st1 \<and> core dir w0 m0 R0 segs F rs (ws @ [r]) rq st1 \<and>
    rc_svc st1 = rc_svc st \<and>
    kv_heap st1 = snd (alloc_ctx (local_ctx LOG_write_log (RecordArg r)) (kv_heap st)) \<and>
    lc_svc st1 = (lc_svc st)\<lparr>mQueue := mQueue (lc_svc st) @ [next_ctx (kv_heap st)]\<rparr>"
proof -
  let ?wr = "concat (map snd segs) @ ws"
  let ?l = "mMaxLogId st + 1" and ?i = "mRequestID st + 1"
  let ?r = "request_record ?l (mOpType_rq x) (mTableName_rq x) (mKey_rq x) (mValue_rq x)"
  let ?h = "snd (alloc_ctx (local_ctx LOG_write_log (RecordArg ?r)) (kv_heap st))"
  let ?s = "(lc_svc st)\<lparr>mQueue := mQueue (lc_svc st) @ [next_ctx (kv_heap st)]\<rparr>"
  let ?st0 = "st\<lparr>mRequestID := ?i, mRequests := mRequests st @ [(?i, a)], mMaxLogId := ?l,
    mLogId2RequestId := mLogId2RequestId st @ [(?l, ?i)]\<rparr>"
  let ?st1 = "?st0\<lparr>kv_heap := ?h, lc_svc := ?s\<rparr>"
  have ids: "ids_ok m0 ?wr (Suc (length (news rq))) st" and
    req: "requests_ok (outstanding m0 (New a # rq) ws st) (a # news rq) st"
    using core by (simp_all add: core_def)
  note new = new_log_id [OF ids zero_less_Suc]
  have good: "good_request x" "is_write_op (mOpType_rq x)"
    using req x by (auto simp: requests_ok_def good_request_def)
  have r: "mLogId ?r = ucast ?l" "mOpType ?r = mOpType_rq x" "carries ?r x"
    by (simp_all add: request_record_def carries_def)
  have "\<forall>k \<in> fst ` set (mRequests st). k < ?i"
    using req new(4) by (auto simp: requests_ok_def)
  then have ins1: "smap_insert ?i a (mRequests st) = mRequests st @ [(?i, a)]" by (rule smap_insert_append)
  have old_l: "l \<le> mMaxLogId st" if "(l, j) \<in> set (mLogId2RequestId st)" for l j
    using that ids by (auto simp: ids_ok_def)
  have "\<forall>k \<in> fst ` set (mLogId2RequestId st). k < ?l"
  proof
    fix k assume "k \<in> fst ` set (mLogId2RequestId st)"
    then obtain j where "(k, j) \<in> set (mLogId2RequestId st)" by auto
    from le_less_trans [OF old_l [OF this] new(3)] show "k < ?l" .
  qed
  then have ins2: "smap_insert ?l ?i (mLogId2RequestId st) = mLogId2RequestId st @ [(?l, ?i)]"
    by (rule smap_insert_append)
  have "HandleNewKVRequest a st = Done ?st1"
    using x run ins1 ins2
    by (simp add: HandleNewKVRequest_def GetOpType_rq_def ReceiveClientRequest_def GenerateLogId_def
        Let_def AppendLogRecord_lc_def send_lc_cases)
  moreover have "core dir w0 m0 R0 segs F rs (ws @ [?r]) rq ?st0"
  proof -
    have id: "ucast (mLogId ?r) - of_nat m0 = ?i" using new(7) r(1) by simp
    have "requests_ok (outstanding m0 (New a # rq) ws st @ [(?i, ?r)]) (news rq) ?st0"
      by (rule requests_ok_number [OF req x(1) r(3)]) (use good(2) r(2) new(4) in simp_all)
    then have "requests_ok (outstanding m0 rq (ws @ [?r]) ?st0) (news rq) ?st0"
      using id by (simp add: outstanding_def)
    moreover have "ids_ok m0 (?wr @ [?r]) (length (news rq)) ?st0"
      unfolding ids_ok_def
    proof (intro conjI allI impI)
      show "ids_from (Suc m0) (?wr @ [?r])"
        using ids new(6) r(1) by (intro ids_from_snoc) (simp_all add: ids_ok_def)
      show "unat (mMaxLogId ?st0) = m0 + length (?wr @ [?r])" "unat (mRequestID ?st0) = length (?wr @ [?r])"
        using new(1,2) by simp_all
      show "m0 + length (?wr @ [?r]) + length (news rq) < 2 ^ 32" using ids by (simp add: ids_ok_def)
      show "l \<le> mMaxLogId ?st0" if "(l, j) \<in> set (mLogId2RequestId ?st0)" for l j
        using that old_l new(3) by (auto intro: less_imp_le le_less_trans)
      fix l assume l: "m0 < unat l" "l \<le> mMaxLogId ?st0"
      show "map_of (mLogId2RequestId ?st0) l = Some (l - of_nat m0)"
      proof (cases "l = ?l")
        case True
        have "?l \<notin> fst ` set (mLogId2RequestId st)" using old_l new(3) by force
        then have "map_of (mLogId2RequestId st) ?l = None" by (simp add: map_of_eq_None_iff)
        moreover have "?l - of_nat m0 = ?i"
          by (rule new(8))
        ultimately show ?thesis using True by (simp add: map_add_def)
      next
        case False
        have "unat l \<noteq> unat ?l" using False by (simp add: word_unat_eq_iff)
        then have "l \<le> mMaxLogId st"
          using l(2) new(1) ids by (simp add: word_le_nat_alt ids_ok_def)
        with l(1) ids have "map_of (mLogId2RequestId st) l = Some (l - of_nat m0)"
          by (simp add: ids_ok_def)
        with False show ?thesis by (simp add: map_add_def)
      qed
    qed
    ultimately show ?thesis
      using core good_request_fits [OF good(1)]
      by (simp add: core_def flush_ok_def log_ok_def plog_of_def acked_ok_def)
  qed
  ultimately show ?thesis by (intro exI [of _ ?st1] exI [of _ ?r]) simp
qed

lemma core_respond:
  "core dir w0 m0 R0 segs F rs ws (Resp \<lparr>pairs = ps\<rparr> # rq) st \<Longrightarrow>
    \<exists>st1. respond ps st = Done st1 \<and> core dir w0 m0 R0 segs F rs ws rq st1 \<and>
      lc_svc st1 = lc_svc st \<and> rc_svc st1 = rc_svc st \<and> kv_heap st1 = kv_heap st"
proof (induction ps arbitrary: st)
  case Nil
  then show ?case by (auto simp: core_def outstanding_def)
next
  case (Cons p ps)
  obtain addr i r where p: "p = (addr, i, r)" by (cases p) auto
  let ?dur = "take F (concat (map snd segs))"
  let ?out = "outstanding m0 (Resp \<lparr>pairs = ps\<rparr> # rq) ws"
  have req: "requests_ok ((i, r) # ?out st) (news rq) st"
    using Cons.prems p by (simp add: core_def outstanding_def)
  then have "waits_for st (i, r)" by (simp add: requests_ok_def)
  then obtain a x where a: "map_of (mRequests st) i = Some a" "requests st a = Some x"
    and r: "carries r x" "is_write_op (mOpType r)" by (auto simp: waits_for_def)
  have dur: "durable_op ?dur r" using Cons.prems p by (simp add: core_def)
  have "applicable r" using r by (simp add: applicable_def carries_def)
  then obtain err ds where u: "UpdateDataStore r st = Done (err, st\<lparr>mDataStore := ds\<rparr>)"
    and ds: "\<forall>R. store_from R (mDataStore st) \<longrightarrow> (\<exists>r' \<in> R. same_op r r') \<longrightarrow> store_from R ds"
    using UpdateDataStore_run by blast
  let ?x = "Signal_rq (x\<lparr>mErr := err\<rparr>)"
  let ?st1 = "st\<lparr>mDataStore := ds, requests := (requests st)(a \<mapsto> ?x),
    mRequests := AList.delete i (mRequests st)\<rparr>"
  have "requests_ok (?out st) (news rq) (st\<lparr>requests := (requests st)(a \<mapsto> ?x),
      mRequests := AList.delete i (mRequests st)\<rparr>)"
    by (rule requests_ok_answer [OF req a]) (simp add: Signal_rq_def)
  then have req1: "requests_ok (?out ?st1) (news rq) ?st1"
    by (subst requests_ok_frame [of _ "st\<lparr>requests := (requests st)(a \<mapsto> ?x),
        mRequests := AList.delete i (mRequests st)\<rparr>"]) (simp_all add: outstanding_def)
  let ?R = "set R0 \<union> set ?dur"
  have "\<exists>r' \<in> ?R. same_op r r'" using dur by (auto simp: durable_op_def)
  moreover have "store_from ?R (mDataStore st)" using Cons.prems by (simp add: core_def)
  ultimately have store: "store_from ?R ds" using ds by blast
  obtain r' where r': "r' \<in> set ?dur" "same_op r r'" using dur by (auto simp: durable_op_def)
  then have "carries r' ?x" using r(1) by (simp add: carries_def same_op_def Signal_rq_def)
  then have ack: "acked_ok ?dur ?st1"
    using Cons.prems r'(1) unfolding core_def acked_ok_def by auto
  have "core dir w0 m0 R0 segs F rs ws (Resp \<lparr>pairs = ps\<rparr> # rq) ?st1"
    using Cons.prems req1 store ack p
    by (simp add: core_def ids_ok_def flush_ok_def log_ok_def plog_of_def)
  from Cons.IH [OF this] obtain st1 where
    "respond ps ?st1 = Done st1" "core dir w0 m0 R0 segs F rs ws rq st1"
    "lc_svc st1 = lc_svc st" "rc_svc st1 = rc_svc st" "kv_heap st1 = kv_heap st" by auto
  moreover have "respond (p # ps) st = respond ps ?st1"
    using p a u by simp
  ultimately show ?case by (intro exI [of _ st1]) simp
qed

section \<open>The clients\<close>

text \<open>
  What the clients of the theorems do: they post well-formed requests, and stop before the
  32-bit log ids run out.
\<close>

definition polite :: "kvdb \<Rightarrow> kv_request \<Rightarrow> bool" where
  "polite st rq \<longleftrightarrow> good_request rq \<and> unat (mMaxLogId st) + FLUSH_COUNTERS < 2 ^ 32"

lemma core_post:
  assumes core: "core dir w0 m0 R0 segs F rs ws rq st"
    and x: "requests st a = Some x" "mSync x" "polite st x'" and run: "mRunning (rc_svc st)"
  shows "\<exists>st1. PostKVRequest a (st\<lparr>requests := (requests st)(a \<mapsto> x')\<rparr>) = Done st1 \<and>
    core dir w0 m0 R0 segs F rs ws (rq @ [New a]) st1 \<and> lc_svc st1 = lc_svc st \<and>
    kv_heap st1 = snd (alloc_ctx (local_ctx REQUEST_recv_data_request (RequestArg a)) (kv_heap st)) \<and>
    rc_svc st1 = (rc_svc st)\<lparr>mQueue := mQueue (rc_svc st) @ [next_ctx (kv_heap st)]\<rparr>"
proof -
  let ?x = "Wait_rq x'"
  let ?st0 = "st\<lparr>requests := (requests st)(a \<mapsto> ?x)\<rparr>"
  let ?h = "snd (alloc_ctx (local_ctx REQUEST_recv_data_request (RequestArg a)) (kv_heap st))"
  let ?s = "(rc_svc st)\<lparr>mQueue := mQueue (rc_svc st) @ [next_ctx (kv_heap st)]\<rparr>"
  have req: "requests_ok (outstanding m0 rq ws st) (news rq) st" using core by (simp add: core_def)
  have "good_request ?x" using x(3) by (simp add: polite_def good_request_def Wait_rq_def)
  from requests_ok_post [OF req x(1,2) _ this]
  have "requests_ok (outstanding m0 (rq @ [New a]) ws ?st0) (news (rq @ [New a])) ?st0"
    by (simp add: outstanding_def Wait_rq_def)
  moreover have "ids_ok m0 (concat (map snd segs) @ ws) (length (news (rq @ [New a]))) ?st0"
    using core x(3) requests_ok_count [OF req] by (simp add: core_def ids_ok_def polite_def)
  ultimately have "core dir w0 m0 R0 segs F rs ws (rq @ [New a]) ?st0"
    using core by (auto simp: core_def flush_ok_def log_ok_def plog_of_def acked_ok_def Wait_rq_def)
  moreover have "PostKVRequest a (st\<lparr>requests := (requests st)(a \<mapsto> x')\<rparr>) =
      Done (?st0\<lparr>kv_heap := ?h, rc_svc := ?s\<rparr>)"
    using run by (simp add: PostKVRequest_def EnqueueKVRequest_def send_rc_cases)
  ultimately show ?thesis
    by (intro exI [of _ "?st0\<lparr>kv_heap := ?h, rc_svc := ?s\<rparr>"]) simp
qed

section \<open>The whole invariant\<close>

definition kv_inv_at ::
  "string \<Rightarrow> world \<Rightarrow> nat \<Rightarrow> log_record list \<Rightarrow> (u32 \<times> log_record list) list \<Rightarrow> nat \<Rightarrow>
   log_record list \<Rightarrow> log_record list \<Rightarrow> rc_item list \<Rightarrow> kvdb \<Rightarrow> bool" where
  "kv_inv_at dir w0 m0 R0 segs F rs ws rq st \<longleftrightarrow>
     core dir w0 m0 R0 segs F rs ws rq st \<and>
     queue_ok (kv_heap st) (pending log_center st) (pending request_center st)
       (lc_entries rs ws) (map rc_entry rq) \<and>
     service_ok 5000 (lc_svc st) \<and> service_ok 0 (rc_svc st)"

text \<open>
  What is left to do for the requests at hand: a new request may become a record to write, that
  a record to flush, and those together one response.
\<close>

definition work ::
  "(u32 \<times> log_record list) list \<Rightarrow> nat \<Rightarrow> log_record list \<Rightarrow> log_record list \<Rightarrow> rc_item list \<Rightarrow> nat" where
  "work segs F rs ws rq = 3 * length (news rq) + length rq + 3 * length ws + length rs +
     2 * (length (concat (map snd segs)) - F)"

definition kv_work :: "string \<Rightarrow> world \<Rightarrow> nat \<Rightarrow> log_record list \<Rightarrow> nat \<Rightarrow> kvdb \<Rightarrow> bool" where
  "kv_work dir w0 m0 R0 n st \<longleftrightarrow>
     (\<exists>segs F rs ws rq. kv_inv_at dir w0 m0 R0 segs F rs ws rq st \<and> n = work segs F rs ws rq)"

definition kv_inv :: "string \<Rightarrow> world \<Rightarrow> nat \<Rightarrow> log_record list \<Rightarrow> kvdb \<Rightarrow> bool" where
  "kv_inv dir w0 m0 R0 st \<longleftrightarrow> (\<exists>segs F rs ws rq. kv_inv_at dir w0 m0 R0 segs F rs ws rq st)"

lemma kv_workI: "kv_inv_at dir w0 m0 R0 segs F rs ws rq st \<Longrightarrow>
    kv_work dir w0 m0 R0 (work segs F rs ws rq) st"
  unfolding kv_work_def by blast

lemma kv_inv_work: "kv_inv dir w0 m0 R0 st \<longleftrightarrow> (\<exists>n. kv_work dir w0 m0 R0 n st)"
  by (simp add: kv_inv_def kv_work_def)

text \<open>How many steps the thread is from the next context or the next flush.\<close>

definition loop_distance :: "logic_service \<Rightarrow> nat" where
  "loop_distance s = (case run_pc s of InBatch \<Rightarrow> (if ctxVec s = [] then 3 else 0)
     | AtHead \<Rightarrow> 2 | Waiting \<Rightarrow> 1 | _ \<Rightarrow> 4)"

definition lc_idle :: "kvdb \<Rightarrow> bool" where
  "lc_idle st \<longleftrightarrow> pending log_center st = [] \<and> mToFlushLog st = []"

lemma flush_length: "core dir w0 m0 R0 segs F rs ws rq st \<Longrightarrow>
    length (mToFlushLog st) = length (concat (map snd segs)) - F"
  by (auto simp: core_def flush_ok_def dest: list_all2_lengthD)

lemma kv_inv_post:
  assumes "kv_inv dir w0 m0 R0 st" "requests st a = Some x" "mSync x" "polite st x'"
  shows "\<exists>st1. PostKVRequest a (st\<lparr>requests := (requests st)(a \<mapsto> x')\<rparr>) = Done st1 \<and>
    kv_inv dir w0 m0 R0 st1"
proof -
  from assms(1) obtain segs F rs ws rq where i: "kv_inv_at dir w0 m0 R0 segs F rs ws rq st"
    by (auto simp: kv_inv_def)
  then have run: "mRunning (rc_svc st)" by (simp add: kv_inv_at_def service_ok_def)
  have "core dir w0 m0 R0 segs F rs ws rq st" using i by (simp add: kv_inv_at_def)
  from core_post [OF this assms(2-4) run] obtain st1 where
    st1: "PostKVRequest a (st\<lparr>requests := (requests st)(a \<mapsto> x')\<rparr>) = Done st1"
    "core dir w0 m0 R0 segs F rs ws (rq @ [New a]) st1" "lc_svc st1 = lc_svc st"
    "kv_heap st1 = snd (alloc_ctx (local_ctx REQUEST_recv_data_request (RequestArg a)) (kv_heap st))"
    "rc_svc st1 = (rc_svc st)\<lparr>mQueue := mQueue (rc_svc st) @ [next_ctx (kv_heap st)]\<rparr>" by blast
  have q: "queue_ok (kv_heap st) (pending log_center st) (pending request_center st)
      (lc_entries rs ws) (map rc_entry rq)" using i by (simp add: kv_inv_at_def)
  have "kv_inv_at dir w0 m0 R0 segs F rs ws (rq @ [New a]) st1"
    using i st1(2-5) queue_ok_send(2) [OF q, of REQUEST_recv_data_request "RequestArg a"]
    by (simp add: kv_inv_at_def pending_def service_ok_def loop_wf_def)
  with st1(1) show ?thesis unfolding kv_inv_def by blast
qed

section \<open>Steps of the log center\<close>

lemma HandleLocalContext_recover:
  "HandleRecoverLog r st = Done st1 \<Longrightarrow>
    HandleLocalContext \<lparr>mArg = Some (RecordArg r), mCtxType = LOG_recover_log\<rparr> st = Done st1"
  by (simp add: HandleLocalContext_def log_ctx_ops arg_record_def)

lemma HandleLocalContext_write:
  "HandleWriteOper r st = Done (e, st1) \<Longrightarrow>
    HandleLocalContext \<lparr>mArg = Some (RecordArg r), mCtxType = LOG_write_log\<rparr> st = Done st1"
  by (simp add: HandleLocalContext_def log_ctx_ops arg_record_def)

lemma log_center_batch:
  assumes inv: "kv_inv_at dir w0 m0 R0 segs F rs ws rq st" and pc: "run_pc (lc_svc st) = InBatch"
    and vec: "ctxVec (lc_svc st) = p # ps"
  shows "\<exists>st1 n1. Run_step log_center st = Done (Some st1) \<and> kv_work dir w0 m0 R0 n1 st1 \<and>
    n1 < work segs F rs ws rq"
proof -
  let ?st0 = "st\<lparr>lc_svc := (lc_svc st)\<lparr>ctxVec := ps\<rparr>\<rparr>"
  have core: "core dir w0 m0 R0 segs F rs ws rq ?st0" using inv by (simp add: kv_inv_at_def)
  have q: "queue_ok (kv_heap st) (p # ps @ mQueue (lc_svc st)) (pending request_center st)
      (lc_entries rs ws) (map rc_entry rq)"
    using inv vec by (simp add: kv_inv_at_def pending_def)
  obtain k a LQ where e: "lc_entries rs ws = (k, a) # LQ" "ctxs (kv_heap st) p = Some (local_ctx k a)"
    using queue_ok_head(1) [OF q] by blast
  note qd = queue_ok_drop(1) [OF q [unfolded e(1)]]
  obtain st2 segs2 rs2 ws2 where h: "HandleLocalContext \<lparr>mArg = Some a, mCtxType = k\<rparr> ?st0 = Done st2"
    and st2: "core dir w0 m0 R0 segs2 F rs2 ws2 rq st2" "LQ = lc_entries rs2 ws2"
    "lc_svc st2 = lc_svc ?st0" "rc_svc st2 = rc_svc ?st0" "kv_heap st2 = kv_heap ?st0"
    "work segs2 F rs2 ws2 rq < work segs F rs ws rq"
  proof (cases rs)
    case (Cons r rs')
    with e(1) have ka: "k = LOG_recover_log" "a = RecordArg r" "LQ = lc_entries rs' ws"
      by (simp_all add: lc_entries_def)
    obtain st2 where "HandleRecoverLog r ?st0 = Done st2" "core dir w0 m0 R0 segs F rs' ws rq st2"
      "lc_svc st2 = lc_svc ?st0" "rc_svc st2 = rc_svc ?st0" "kv_heap st2 = kv_heap ?st0"
      using core_recover [OF core [unfolded Cons]] by blast
    with ka Cons HandleLocalContext_recover show ?thesis
      by (intro that [of st2 segs rs' ws]) (simp_all add: work_def)
  next
    case Nil
    then obtain r ws' where ws: "ws = r # ws'" and ka: "k = LOG_write_log" "a = RecordArg r"
      "LQ = lc_entries [] ws'"
      using e(1) by (cases ws) (auto simp: lc_entries_def)
    obtain st2 segs2 where "HandleWriteOper r ?st0 = Done (E_OK, st2)"
      "core dir w0 m0 R0 segs2 F [] ws' rq st2" "concat (map snd segs2) = concat (map snd segs) @ [r]"
      "lc_svc st2 = lc_svc ?st0" "rc_svc st2 = rc_svc ?st0" "kv_heap st2 = kv_heap ?st0"
      using core_write [OF core [unfolded Nil ws]] by blast
    with ka Nil ws HandleLocalContext_write show ?thesis
      by (intro that [of st2 segs2 "[]" ws']) (simp_all add: work_def)
  qed
  have run: "mRunning (lc_svc ?st0)" using inv by (simp add: kv_inv_at_def service_ok_def)
  have "Run_one log_center p ?st0 = Done (st2\<lparr>kv_heap := drop_ctx p (kv_heap st2)\<rparr>)"
    by (rule log_center_one [OF run _ h]) (use e(2) st2(5) in simp_all)
  then have "Run_step log_center st = Done (Some (st2\<lparr>kv_heap := drop_ctx p (kv_heap st2)\<rparr>))"
    using pc vec by (simp add: Run_step_def on_svc_def)
  moreover have "kv_inv_at dir w0 m0 R0 segs2 F rs2 ws2 rq (st2\<lparr>kv_heap := drop_ctx p (kv_heap st2)\<rparr>)"
    using inv st2 qd pc by (simp add: kv_inv_at_def pending_def service_ok_def loop_wf_def)
  ultimately show ?thesis unfolding kv_work_def using st2(6) by blast
qed

lemma kv_inv_at_services:
  assumes "kv_inv_at dir w0 m0 R0 segs F rs ws rq st"
  shows "service_ok 5000 s \<Longrightarrow> ctxVec s @ mQueue s = pending log_center st \<Longrightarrow>
      kv_inv_at dir w0 m0 R0 segs F rs ws rq (st\<lparr>lc_svc := s\<rparr>)"
    and "service_ok 0 s \<Longrightarrow> ctxVec s @ mQueue s = pending request_center st \<Longrightarrow>
      kv_inv_at dir w0 m0 R0 segs F rs ws rq (st\<lparr>rc_svc := s\<rparr>)"
  using assms by (simp_all add: kv_inv_at_def pending_def)

lemma kv_inv_lc:
  assumes "kv_work dir w0 m0 R0 n st"
  shows "\<exists>st1 n1. Run_step log_center st = Done (Some st1) \<and> kv_work dir w0 m0 R0 n1 st1 \<and>
    (n1 < n \<or> n1 = n \<and> rc_svc st1 = rc_svc st \<and>
      (loop_distance (lc_svc st1) < loop_distance (lc_svc st) \<or> lc_idle st))"
proof -
  from assms obtain segs F rs ws rq where i: "kv_inv_at dir w0 m0 R0 segs F rs ws rq st"
    and n: "n = work segs F rs ws rq" unfolding kv_work_def by blast
  let ?s = "lc_svc st"
  have ok: "service_ok 5000 ?s" "service_ok 0 (rc_svc st)" using i by (simp_all add: kv_inv_at_def)
  show ?thesis
  proof (cases "run_pc ?s")
    case AtHead
    let ?s1 = "?s\<lparr>run_pc := Waiting\<rparr>"
    have "kv_inv_at dir w0 m0 R0 segs F rs ws rq (st\<lparr>lc_svc := ?s1\<rparr>)"
      by (rule kv_inv_at_services(1) [OF i])
        (use ok AtHead in \<open>simp_all add: service_ok_def loop_wf_def pending_def\<close>)
    moreover have "Run_step log_center st = Done (Some (st\<lparr>lc_svc := ?s1\<rparr>))"
      using AtHead ok by (simp add: Run_step_def on_svc_def service_ok_def)
    moreover have "loop_distance ?s1 < loop_distance ?s" using AtHead by (simp add: loop_distance_def)
    ultimately show ?thesis unfolding n
      by (intro exI [of _ "st\<lparr>lc_svc := ?s1\<rparr>"] exI [of _ "work segs F rs ws rq"]) (auto intro: kv_workI)
  next
    case Waiting
    let ?s1 = "?s\<lparr>ctxVec := mQueue ?s, mQueue := [], run_pc := InBatch\<rparr>"
    let ?st1 = "st\<lparr>lc_svc := ?s1\<rparr>"
    have vec: "ctxVec ?s = []" using ok Waiting by (simp add: service_ok_def loop_wf_def)
    have i1: "kv_inv_at dir w0 m0 R0 segs F rs ws rq ?st1"
      by (rule kv_inv_at_services(1) [OF i])
        (use ok vec in \<open>simp_all add: service_ok_def loop_wf_def pending_def\<close>)
    have grab: "Run_grab log_center st = Some ?st1" "mSleepNanosec ?s = 5000"
      using ok by (simp_all add: Run_grab_def on_svc_def service_ok_def Let_def)
    show ?thesis
    proof (cases "mQueue ?s = [] \<and> mToFlushLog st \<noteq> []")
      case True
      have run: "mRunning (rc_svc ?st1)" using ok by (simp add: service_ok_def)
      have "core dir w0 m0 R0 segs F rs ws rq ?st1" using i1 by (simp add: kv_inv_at_def)
      from core_idle [OF this _ run] True obtain response st2 where
        st2: "LogCenter_Idle ?st1 = Done st2"
        "core dir w0 m0 R0 segs (length (concat (map snd segs))) rs ws (rq @ [Resp response]) st2"
        "lc_svc st2 = ?s1"
        "kv_heap st2 = snd (alloc_ctx (local_ctx REQUEST_finish_data_request (ResponseArg response)) (kv_heap st))"
        "rc_svc st2 = (rc_svc st)\<lparr>mQueue := mQueue (rc_svc st) @ [next_ctx (kv_heap st)]\<rparr>"
        by auto
      have q: "queue_ok (kv_heap st) (pending log_center ?st1) (pending request_center ?st1)
        (lc_entries rs ws) (map rc_entry rq)" using i1 by (simp add: kv_inv_at_def)
      have "kv_inv_at dir w0 m0 R0 segs (length (concat (map snd segs))) rs ws (rq @ [Resp response]) st2"
        using i1 st2(2-5)
          queue_ok_send(2) [OF q, of REQUEST_finish_data_request "ResponseArg response"]
        by (simp add: kv_inv_at_def pending_def service_ok_def loop_wf_def)
      moreover have "Run_step log_center st = Done (Some st2)"
        using Waiting grab True st2(1) by (simp add: Run_step_def)
      moreover have "work segs (length (concat (map snd segs))) rs ws (rq @ [Resp response]) < n"
      proof -
        have "core dir w0 m0 R0 segs F rs ws rq st" using i by (simp add: kv_inv_at_def)
        from flush_length [OF this] True have "0 < length (concat (map snd segs)) - F"
          by (metis length_greater_0_conv)
        then show ?thesis unfolding n work_def by simp
      qed
      ultimately show ?thesis unfolding kv_work_def by blast
    next
      case False
      then have "Run_step log_center st = Done (Some ?st1)"
        using Waiting grab by (auto simp: Run_step_def LogCenter_Idle_def)
      moreover have "loop_distance ?s1 < loop_distance ?s \<or> lc_idle st"
        using Waiting False vec by (auto simp: loop_distance_def lc_idle_def pending_def)
      ultimately show ?thesis using i1 unfolding n
        by (intro exI [of _ ?st1] exI [of _ "work segs F rs ws rq"]) (auto intro: kv_workI)
    qed
  next
    case InBatch
    show ?thesis
    proof (cases "ctxVec ?s")
      case Nil
      let ?s1 = "?s\<lparr>run_pc := AtHead\<rparr>"
      have "kv_inv_at dir w0 m0 R0 segs F rs ws rq (st\<lparr>lc_svc := ?s1\<rparr>)"
        by (rule kv_inv_at_services(1) [OF i])
          (use ok Nil in \<open>simp_all add: service_ok_def loop_wf_def pending_def\<close>)
      moreover have "Run_step log_center st = Done (Some (st\<lparr>lc_svc := ?s1\<rparr>))"
        using InBatch Nil by (simp add: Run_step_def on_svc_def)
      moreover have "loop_distance ?s1 < loop_distance ?s"
        using InBatch Nil by (simp add: loop_distance_def)
      ultimately show ?thesis unfolding n
        by (intro exI [of _ "st\<lparr>lc_svc := ?s1\<rparr>"] exI [of _ "work segs F rs ws rq"]) (auto intro: kv_workI)
    next
      case (Cons p ps)
      from log_center_batch [OF i InBatch Cons] show ?thesis unfolding n by blast
    qed
  qed (use ok in \<open>simp_all add: service_ok_def\<close>)
qed

section \<open>Steps of the request center\<close>

lemma HandleLocalRequest_new:
  "HandleNewKVRequest a st = Done st1 \<Longrightarrow>
    HandleLocalRequest \<lparr>mArg = Some (RequestArg a), mCtxType = REQUEST_recv_data_request\<rparr> st = Done st1"
  by (simp add: HandleLocalRequest_def log_ctx_ops arg_request_def)

lemma HandleLocalRequest_response:
  "respond (pairs r) st = Done st1 \<Longrightarrow>
    HandleLocalRequest \<lparr>mArg = Some (ResponseArg r), mCtxType = REQUEST_finish_data_request\<rparr> st = Done st1"
  by (simp add: HandleLocalRequest_def log_ctx_ops arg_response_def HandleKVResponse_def)

lemma request_center_batch:
  assumes inv: "kv_inv_at dir w0 m0 R0 segs F rs ws rq st" and pc: "run_pc (rc_svc st) = InBatch"
    and vec: "ctxVec (rc_svc st) = p # ps"
  shows "\<exists>st1 n1. Run_step request_center st = Done (Some st1) \<and> kv_work dir w0 m0 R0 n1 st1 \<and>
    n1 < work segs F rs ws rq"
proof -
  let ?s0 = "(rc_svc st)\<lparr>ctxVec := ps\<rparr>"
  let ?st0 = "st\<lparr>rc_svc := ?s0\<rparr>"
  have core: "core dir w0 m0 R0 segs F rs ws rq ?st0" using inv by (simp add: kv_inv_at_def)
  have q: "queue_ok (kv_heap st) (pending log_center st) (p # ps @ mQueue (rc_svc st))
      (lc_entries rs ws) (map rc_entry rq)"
    using inv vec by (simp add: kv_inv_at_def pending_def)
  obtain k a RQ where e: "map rc_entry rq = (k, a) # RQ" "ctxs (kv_heap st) p = Some (local_ctx k a)"
    using queue_ok_head(2) [OF q] by (elim exE conjE) (rule that)
  then obtain x rq' where rq: "rq = x # rq'" "rc_entry x = (k, a)" "RQ = map rc_entry rq'" by auto
  have run: "mRunning (rc_svc ?st0)" "mRunning (lc_svc ?st0)"
    using inv by (simp_all add: kv_inv_at_def service_ok_def)
  have fresh: "p \<noteq> next_ctx (kv_heap st)" by (rule queue_addresses [OF q]) simp
  obtain st2 ws2 where h: "HandleLocalRequest \<lparr>mArg = Some a, mCtxType = k\<rparr> ?st0 = Done st2"
    and core2: "core dir w0 m0 R0 segs F rs ws2 rq' st2" and rc2: "rc_svc st2 = ?s0"
    and q2: "queue_ok (kv_heap st2) (pending log_center st2) (p # ps @ mQueue (rc_svc st))
      (lc_entries rs ws2) (map rc_entry rq)"
    and lc2: "service_ok 5000 (lc_svc st2)" and p2: "ctxs (kv_heap st2) p = Some (local_ctx k a)"
    and less: "work segs F rs ws2 rq' < work segs F rs ws rq"
  proof (cases x)
    case (Resp r)
    have ka: "k = REQUEST_finish_data_request" "a = ResponseArg r" using rq(2) Resp by simp_all
    have "core dir w0 m0 R0 segs F rs ws (Resp \<lparr>pairs = pairs r\<rparr> # rq') ?st0"
      using core rq(1) Resp by (cases r) simp
    from core_respond [OF this] obtain st2 where st2: "respond (pairs r) ?st0 = Done st2"
      "core dir w0 m0 R0 segs F rs ws rq' st2" "lc_svc st2 = lc_svc st" "rc_svc st2 = ?s0"
      "kv_heap st2 = kv_heap st" by auto
    show ?thesis
      by (rule that [of st2 ws])
        (use st2 HandleLocalRequest_response [OF st2(1)] ka q e(2) inv in
          \<open>simp_all add: pending_def kv_inv_at_def work_def rq(1) Resp\<close>)
  next
    case (New b)
    have ka: "k = REQUEST_recv_data_request" "a = RequestArg b" using rq(2) New by simp_all
    have coreb: "core dir w0 m0 R0 segs F rs ws (New b # rq') ?st0" using core rq(1) New by simp
    then obtain y where y: "requests ?st0 b = Some y" by (auto simp: core_def requests_ok_def)
    show ?thesis
    proof (cases "mOpType_rq y = OP_get")
      case True
      from core_new_read [OF coreb y True] obtain st2 where st2: "HandleNewKVRequest b ?st0 = Done st2"
        "core dir w0 m0 R0 segs F rs ws rq' st2" "lc_svc st2 = lc_svc st" "rc_svc st2 = ?s0"
        "kv_heap st2 = kv_heap st" by auto
      show ?thesis
        by (rule that [of st2 ws])
          (use st2 HandleLocalRequest_new [OF st2(1)] ka q e(2) inv in
            \<open>simp_all add: pending_def kv_inv_at_def work_def rq(1) New\<close>)
    next
      case False
      from core_new_write [OF coreb y False run(2)] obtain st2 r where
        st2: "HandleNewKVRequest b ?st0 = Done st2" "core dir w0 m0 R0 segs F rs (ws @ [r]) rq' st2"
        "rc_svc st2 = ?s0"
        "kv_heap st2 = snd (alloc_ctx (local_ctx LOG_write_log (RecordArg r)) (kv_heap st))"
        "lc_svc st2 = (lc_svc st)\<lparr>mQueue := mQueue (lc_svc st) @ [next_ctx (kv_heap st)]\<rparr>" by auto
      have "lc_entries rs (ws @ [r]) = lc_entries rs ws @ [(LOG_write_log, RecordArg r)]"
        by (simp add: lc_entries_def)
      then have "queue_ok (kv_heap st2) (pending log_center st2) (p # ps @ mQueue (rc_svc st))
          (lc_entries rs (ws @ [r])) (map rc_entry rq)"
        using queue_ok_send(1) [OF q, of LOG_write_log "RecordArg r"] st2(4,5) by (simp add: pending_def)
      then show ?thesis
        by (rule that [of st2 "ws @ [r]", rotated 3])
          (use st2 HandleLocalRequest_new [OF st2(1)] ka e(2) fresh inv in
            \<open>simp_all add: kv_inv_at_def service_ok_def loop_wf_def work_def rq(1) New\<close>)
    qed
  qed
  have "Run_one request_center p ?st0 = Done (st2\<lparr>kv_heap := drop_ctx p (kv_heap st2)\<rparr>)"
    by (rule request_center_one [OF run(1) _ h p2]) (use e(2) in simp)
  then have "Run_step request_center st = Done (Some (st2\<lparr>kv_heap := drop_ctx p (kv_heap st2)\<rparr>))"
    using pc vec by (simp add: Run_step_def on_svc_def)
  moreover have "kv_inv_at dir w0 m0 R0 segs F rs ws2 rq' (st2\<lparr>kv_heap := drop_ctx p (kv_heap st2)\<rparr>)"
    using inv core2 rc2 lc2 queue_ok_drop(2) [OF q2 [unfolded e(1)]] pc rq(3)
    by (simp add: kv_inv_at_def pending_def service_ok_def loop_wf_def)
  ultimately show ?thesis unfolding kv_work_def using less by blast
qed

lemma kv_inv_rc:
  assumes "kv_work dir w0 m0 R0 n st"
  shows "(Run_step request_center st = Done None \<and> pending request_center st = [] \<and>
      run_pc (rc_svc st) = Waiting) \<or>
    (\<exists>st1 n1. Run_step request_center st = Done (Some st1) \<and> kv_work dir w0 m0 R0 n1 st1 \<and>
      (n1 < n \<or> n1 = n \<and> loop_distance (rc_svc st1) < loop_distance (rc_svc st)))"
proof -
  from assms obtain segs F rs ws rq where i: "kv_inv_at dir w0 m0 R0 segs F rs ws rq st"
    and n: "n = work segs F rs ws rq" unfolding kv_work_def by blast
  let ?s = "rc_svc st"
  have ok: "service_ok 0 ?s" using i by (simp add: kv_inv_at_def)
  have goal: ?thesis if "Run_step request_center st = Done (Some (st\<lparr>rc_svc := s1\<rparr>))"
    "service_ok 0 s1" "ctxVec s1 @ mQueue s1 = pending request_center st"
    "loop_distance s1 < loop_distance ?s" for s1
    using kv_inv_at_services(2) [OF i that(2,3)] that(1,4) unfolding n
    by (intro disjI2 exI [of _ "st\<lparr>rc_svc := s1\<rparr>"] exI [of _ "work segs F rs ws rq"]) (auto intro: kv_workI)
  show ?thesis
  proof (cases "run_pc ?s")
    case AtHead
    then show ?thesis
      by (intro goal [of "?s\<lparr>run_pc := Waiting\<rparr>"])
        (use ok in \<open>simp_all add: Run_step_def on_svc_def service_ok_def loop_wf_def pending_def
            loop_distance_def\<close>)
  next
    case Waiting
    have vec: "ctxVec ?s = []" using ok Waiting by (simp add: service_ok_def loop_wf_def)
    show ?thesis
    proof (cases "mQueue ?s = []")
      case True
      then show ?thesis
        using Waiting ok vec by (simp add: Run_step_def Run_grab_def pending_def service_ok_def)
    next
      case False
      then show ?thesis
        by (intro goal [of "?s\<lparr>ctxVec := mQueue ?s, mQueue := [], run_pc := InBatch\<rparr>"])
          (use Waiting ok vec in \<open>simp_all add: Run_step_def Run_grab_def on_svc_def service_ok_def loop_wf_def pending_def loop_distance_def loop_distance_def Let_def\<close>)
    qed
  next
    case InBatch
    show ?thesis
    proof (cases "ctxVec ?s")
      case Nil
      with InBatch show ?thesis
        by (intro goal [of "?s\<lparr>run_pc := AtHead\<rparr>"])
          (use ok in \<open>simp_all add: Run_step_def on_svc_def service_ok_def loop_wf_def pending_def
            loop_distance_def\<close>)
    next
      case (Cons p ps)
      from request_center_batch [OF i InBatch Cons] show ?thesis unfolding n by blast
    qed
  qed (use ok in \<open>simp_all add: service_ok_def\<close>)
qed

section \<open>Reachable states\<close>

lemma kv_inv_step: "kv_step polite st st' \<Longrightarrow> kv_inv dir w0 m0 R0 st \<Longrightarrow> kv_inv dir w0 m0 R0 st'"
proof (induction rule: kv_step.induct)
  case (client st a rq rq' st')
  from kv_inv_post [OF client.prems client.hyps(1-3)] client.hyps(4) show ?case by auto
next
  case (log_thread st st')
  from log_thread.prems obtain n where "kv_work dir w0 m0 R0 n st" unfolding kv_inv_work by blast
  from kv_inv_lc [OF this] log_thread.hyps show ?case unfolding kv_inv_work by auto
next
  case (request_thread st st')
  from request_thread.prems obtain n where "kv_work dir w0 m0 R0 n st" unfolding kv_inv_work by blast
  from kv_inv_rc [OF this] request_thread.hyps show ?case unfolding kv_inv_work by auto
qed

lemma kv_inv_reach:
  "kv_reach polite st0 st \<Longrightarrow> kv_inv dir w0 m0 R0 st0 \<Longrightarrow> kv_inv dir w0 m0 R0 st"
  by (induction rule: kv_reach.induct) (auto intro: kv_inv_step)

lemma kv_inv_no_fault:
  assumes "kv_inv dir w0 m0 R0 st"
  shows "\<not> kv_faults polite st"
proof -
  from assms obtain n where n: "kv_work dir w0 m0 R0 n st" unfolding kv_inv_work by blast
  have "Run_step log_center st \<noteq> Abort f" for f using kv_inv_lc [OF n] by auto
  moreover have "Run_step request_center st \<noteq> Abort f" for f using kv_inv_rc [OF n] by auto
  moreover have "PostKVRequest a (st\<lparr>requests := (requests st)(a \<mapsto> x')\<rparr>) \<noteq> Abort f"
    if "requests st a = Some x" "mSync x" "polite st x'" for f a x x'
    using kv_inv_post [OF assms that] by auto
  ultimately show ?thesis unfolding kv_faults_def by blast
qed

end
