(* ===== verification/KVSafety.thy ===== *)
theory KVSafety
  imports KVInvariant
begin

text \<open>
  What the invariant gives: the state after \<^verbatim>\<open>KVDB::Start\<close> satisfies it, so from there the
  database never faults, answers every request, and acknowledges only what a crash cannot
  lose. The last section has what goes wrong outside the assumptions.
\<close>

section \<open>Starting\<close>

text \<open>Clients before the start: fewer than 50 request objects, none of them posted.\<close>

definition idle_clients :: "(nat \<rightharpoonup> kv_request) \<Rightarrow> bool" where
  "idle_clients cl \<longleftrightarrow> finite (dom cl) \<and> card (dom cl) < FLUSH_COUNTERS \<and>
     (\<forall>a rq. cl a = Some rq \<longrightarrow> mSync rq \<and> \<not> is_write_op (mOpType_rq rq))"

text \<open>
  A log directory as earlier runs leave it: files of whole records, the last one of each
  possibly torn, in ascending order of (epoch, number), on a disk that reports no errors.
\<close>

definition log_disk :: "string \<Rightarrow> world \<Rightarrow> (u32 \<times> u32 \<times> log_record list) list \<Rightarrow> bool" where
  "log_disk dir w fs \<longleftrightarrow>
     log_dir dir w (map (\<lambda>(e, m, rs). (log_name dir e m, Some rs)) fs) \<and> benign w \<and>
     (\<forall>n. \<not> exists_file w n \<longrightarrow> map_of (durable w) n = None) \<and>
     (\<forall>n. prefix (durable_of w n) (file_of w n)) \<and>
     (\<forall>(e, m, rs) \<in> set fs. e \<noteq> - 1 \<and> (\<forall>r \<in> set rs. is_write_op (mOpType r)))"

definition all_records :: "(u32 \<times> u32 \<times> log_record list) list \<Rightarrow> log_record list" where
  "all_records fs = concat (map (\<lambda>x. snd (snd x)) fs)"

definition started_service :: "string \<Rightarrow> u64 \<Rightarrow> logic_service" where
  "started_service n nanosec = (new_LogicService n nanosec)\<lparr>mThread := (new_Thread n False)\<lparr>started := True\<rparr>,
     mRunning := True, run_pc := InBatch\<rparr>"

definition started_heap :: "nat \<Rightarrow> kv_heap \<Rightarrow> kv_heap" where
  "started_heap q h = h\<lparr>ctxs := (ctxs h)(next_ctx h := None), next_ctx := Suc (next_ctx h),
     signals := signals h @ [q]\<rparr>"

lemmas start_defs = start_service_def Start_begin_def Thread_Start_def Enqueue_def on_svc_def on_heap_def
  new_LogicService_def alloc_ctx_def IncRef_def read_ctx_def modify_ctx_def SetClosure_def
  new_OperContext_def INT_MAX_def eval_nat_numeral Run_step_def Run_enter_def base_Init_def
  Run_grab_def Let_def Run_one_def base_Process_def GetType_def ProcessStart_def GetClosure_def
  signal_closure_def DecRef_def Start_end_def destroy_ctx_def started_service_def started_heap_def

lemma start_service_lc:
  "lc_svc st = new_LogCenter n \<Longrightarrow> start_service log_center q st =
    Done (E_OK, st\<lparr>lc_svc := started_service n 5000, kv_heap := started_heap q (kv_heap st)\<rparr>)"
  by (simp add: start_defs new_LogCenter_def)

lemma start_service_rc:
  "rc_svc st = new_RequestCenter n \<Longrightarrow> start_service request_center q st =
    Done (E_OK, st\<lparr>rc_svc := started_service n 0, kv_heap := started_heap q (kv_heap st)\<rparr>)"
  by (simp add: start_defs new_RequestCenter_def)

lemma started_simps [simp]:
  "service_ok nanosec (started_service n nanosec)" "ctxVec (started_service n nanosec) = []"
  "mQueue (started_service n nanosec) = []" "mRunning (started_service n nanosec)"
  by (simp_all add: service_ok_def started_service_def new_LogicService_def loop_wf_def)

lemma started_heap_wf [simp]: "heap_wf h \<Longrightarrow> heap_wf (started_heap q h)"
  by (auto simp: heap_wf_def started_heap_def less_SucI)

text \<open>Appending the recovered records to the queue of the log center.\<close>

lemma append_recovered_run:
  "queue_ok (kv_heap st) (pending log_center st) rcp LQ RQ \<Longrightarrow> service_ok 5000 (lc_svc st) \<Longrightarrow>
    \<exists>h s. append_recovered rs st = Done (st\<lparr>kv_heap := h, lc_svc := s\<rparr>) \<and>
      queue_ok h (ctxVec s @ mQueue s) rcp (LQ @ lc_entries rs []) RQ \<and> service_ok 5000 s"
proof (induction rs arbitrary: st LQ)
  case Nil
  then show ?case
    by (intro exI [of _ "kv_heap st"] exI [of _ "lc_svc st"]) (simp add: pending_def lc_entries_def)
next
  case (Cons r rs)
  let ?c = "local_ctx LOG_recover_log (RecordArg r)"
  let ?st1 = "st\<lparr>kv_heap := snd (alloc_ctx ?c (kv_heap st)),
    lc_svc := (lc_svc st)\<lparr>mQueue := mQueue (lc_svc st) @ [next_ctx (kv_heap st)]\<rparr>\<rparr>"
  have "AppendLogRecord_lc r LOG_recover_log st = Done ?st1"
    using Cons.prems(2) by (simp add: AppendLogRecord_lc_def send_lc_cases service_ok_def)
  moreover have "queue_ok (kv_heap ?st1) (pending log_center ?st1) rcp
      (LQ @ [(LOG_recover_log, RecordArg r)]) RQ"
    using queue_ok_send(1) [OF Cons.prems(1), of LOG_recover_log "RecordArg r"] by (simp add: pending_def)
  moreover have "service_ok 5000 (lc_svc ?st1)" using Cons.prems(2) by (simp add: service_ok_def loop_wf_def)
  ultimately show ?case using Cons.IH [of ?st1] by (fastforce simp: lc_entries_def)
qed

lemma rv_max_id_small:
  "unat (rv_max_id rv) < 2 ^ 32 \<Longrightarrow> unat (rv_max_id (fold redo_record rs rv)) < 2 ^ 32"
proof (induction rs arbitrary: rv)
  case (Cons r rs)
  have "unat (ucast (mLogId r) :: u64) < 2 ^ 32"
    using unsigned_less [of "mLogId r", where 'a = nat] by (simp add: unat_ucast_u32)
  then show ?case using Cons.IH [of "redo_record r rv"] by (simp add: redo_record_def)
qed simp

lemma rv_max_id_after:
  "unat (rv_max_id rv) < 2 ^ 32 \<Longrightarrow>
    unat (rv_max_id (fold (\<lambda>(n, x). after_redo n x) fs rv)) < 2 ^ 32"
proof (induction fs arbitrary: rv)
  case (Cons a fs)
  obtain n x where a: "a = (n, x)" by fastforce
  have "unat (rv_max_id (after_redo n x rv)) < 2 ^ 32"
    using Cons.prems rv_max_id_small by (simp add: after_redo_def split: option.split)
  from Cons.IH [OF this] show ?case by (simp add: a)
qed simp

lemma rv_epoch_after:
  "rv_epoch (fold (\<lambda>(n, x). after_redo n x) (map (\<lambda>(n, rs). (n, Some rs)) fs) rv) =
    (if fs = [] then rv_epoch rv else ParseEpochFromLogName (fst (last fs)))"
  by (induction fs arbitrary: rv) (auto simp: after_redo_def)

lemma log_disk_last_epoch:
  assumes "log_disk dir w fs" "(e, m, rs) \<in> set fs"
  shows "e < fst (last fs) + 1"
proof -
  have ne: "fs \<noteq> []" using assms(2) by auto
  let ?n = "\<lambda>x :: u32 \<times> u32 \<times> log_record list. log_name dir (fst x) (fst (snd x))"
  have split: "fs = butlast fs @ [last fs]" using ne by simp
  have "sorted_wrt (<) (map ?n fs)"
    using assms(1) by (simp add: log_disk_def log_dir_def comp_def case_prod_beta)
  then have "sorted_wrt (<) (map ?n (butlast fs) @ [?n (last fs)])"
    by (subst (asm) split) (simp only: map_append list.map)
  then have less: "?n x < ?n (last fs)" if "x \<in> set (butlast fs)" for x
    using that by (simp add: sorted_wrt_append)
  have "e \<le> fst (last fs)"
  proof (cases "(e, m, rs) = last fs")
    case True
    then show ?thesis by (metis fst_conv order_refl)
  next
    case False
    then have "(e, m, rs) \<in> set (butlast fs)" using assms(2) by (subst (asm) split) auto
    from less [OF this] show ?thesis by (auto simp: case_prod_beta log_name_less)
  qed
  moreover have "last fs \<in> set fs" using ne by simp
  then have "fst (last fs) \<noteq> - 1"
    using assms(1) by (auto simp: log_disk_def case_prod_beta)
  then have "1 + fst (last fs) \<noteq> 0" by (metis add_eq_0_iff minus_minus)
  then have "unat (fst (last fs) + 1) = Suc (unat (fst (last fs)))"
    by (subst add.commute) (rule unatSuc)
  ultimately show ?thesis by (simp add: word_less_nat_alt word_le_nat_alt)
qed

lemma epoch_step: "ucast (ucast (e :: u32) + 1 :: u64) = e + 1"
proof -
  have "unat (ucast e + 1 :: u64) = unat e + 1"
    using unsigned_less [of e, where 'a = nat]
    by (simp add: unat_word_ariths unat_ucast_u32 take_bit_nat_eq_self)
  then have "unat (ucast (ucast e + 1 :: u64) :: u32) = unat (e + 1)"
    by (simp add: unsigned_ucast_eq unat_word_ariths take_bit_eq_mod)
  then show ?thesis by (simp only: word_unat_eq_iff)
qed

lemma log_dirD:
  "log_dir dir w fs \<Longrightarrow>
    exists_file w (dir @ n) \<and> n \<noteq> [] \<and> CHR ''/'' \<notin> set n \<longleftrightarrow> dir @ n \<in> fst ` set fs"
  by (simp add: log_dir_def)

lemma log_dir_holds: "log_dir dir w fs \<Longrightarrow> (n, x) \<in> set fs \<Longrightarrow> holds w n x"
  by (auto simp: log_dir_def)

lemma epoch_fresh_after:
  assumes d: "log_dir dir w fs" and names: "\<And>n x. (n, x) \<in> set fs \<Longrightarrow> \<exists>e' m. n = log_name dir e' m \<and> e' < e"
    and same: "\<And>m. m \<notin> fst ` set fs \<Longrightarrow> exists_file w' m = exists_file w m"
      "\<And>m. m \<notin> fst ` set fs \<Longrightarrow> map_of (durable w') m = map_of (durable w) m"
    and dur: "\<forall>n. \<not> exists_file w n \<longrightarrow> map_of (durable w) n = None"
  shows "epoch_fresh dir e w'"
  unfolding epoch_fresh_def
proof
  fix m
  define n where "n = hex8 e @ hex8 m @ ''.log''"
  have n: "log_name dir e m = dir @ n" by (simp add: log_name_def n_def)
  have out: "log_name dir e m \<notin> fst ` set fs"
  proof
    assume "log_name dir e m \<in> fst ` set fs"
    then obtain x where "(log_name dir e m, x) \<in> set fs" by force
    from names [OF this] show False by auto
  qed
  have "n \<noteq> []" "CHR ''/'' \<notin> set n"
    using log_name_exists_in_dir [OF n [symmetric]] by blast+
  then have "\<not> exists_file w (log_name dir e m)"
    using log_dirD [OF d, of n] out unfolding n by blast
  then show "map_of (files w') (log_name dir e m) = None \<and> map_of (durable w') (log_name dir e m) = None"
    using same [OF out] dur by (simp add: exists_file_def map_of_eq_None_iff)
qed

lemma recovered_after:
  assumes d: "log_dir dir w fs" and rep: "\<forall>(n, x) \<in> set fs. repaired w' n x"
    and same: "\<And>m. m \<notin> fst ` set fs \<Longrightarrow> exists_file w' m = exists_file w m"
    and names: "\<And>n x. (n, x) \<in> set fs \<Longrightarrow> \<exists>e' m. n = log_name dir e' m \<and> e' < e"
    and fresh: "epoch_fresh dir e w'" and fs: "fs = map (\<lambda>(n, rs). (n, Some rs)) olds"
  shows "recovered_dir dir e w' olds"
proof -
  have held: "holds w' n x" if "(n, x) \<in> set fs" for n x
  proof -
    from that fs obtain rs where x: "x = Some rs" by auto
    have "\<forall>r \<in> set rs. rec_fits r"
      using log_dir_holds [OF d that] x by (simp add: holds_def readable_def)
    with bspec [OF rep that] x show ?thesis
      by (auto simp: repaired_def holds_def readable_def intro: exI [of _ "[]"])
  qed
  have "exists_file w' (dir @ n) = exists_file w (dir @ n)" for n
  proof (cases "dir @ n \<in> fst ` set fs")
    case True
    then obtain x where "(dir @ n, x) \<in> set fs" by force
    then have "exists_file w' (dir @ n)" using held holds_exists by blast
    moreover have "exists_file w (dir @ n)" using True log_dirD [OF d, of n] by blast
    ultimately show ?thesis by simp
  qed (rule same)
  then have "log_dir dir w' fs" using d held unfolding log_dir_def by blast
  with rep names fresh show ?thesis unfolding fs by (fastforce simp: recovered_dir_def)
qed

lemma KVDB_Start_ready:
  assumes disk: "log_disk dir w fs" and cl: "idle_clients cl" and inj: "inj alloc"
    and dir: "with_slash dbDir = Done dir"
  shows "\<exists>st st0 m0. KVDB_Instance dbDir w alloc cl = Done st \<and> KVDB_Start st = Done (E_OK, st0) \<and>
    kv_inv_at dir (kv_world st0) m0 (map sealed (all_records fs)) [] 0 (map sealed (all_records fs)) [] [] st0 \<and>
    mDataStore st0 = Map.empty \<and> (fs = [] \<longrightarrow> mMaxLogId st0 = 0) \<and> requests st0 = cl \<and>
    (\<forall>n. prefix (durable_of (kv_world st0) n) (file_of (kv_world st0) n))"
proof -
  let ?pl = "\<lparr>mCurrentLog = None, mLogDir = dir, mPersistMaxLogId = 0\<rparr>"
  let ?lc = "started_service ''LogCenter'' 5000" and ?rc = "started_service ''request center'' 0"
  let ?h2 = "started_heap 1 (started_heap 0 empty_heap)"
  obtain st where st: "KVDB_Instance dbDir w alloc cl = Done st"
    and f: "lc_svc st = new_LogCenter ''LogCenter''" "rc_svc st = new_RequestCenter ''request center''"
      "kv_heap st = empty_heap" "mPersistLogger st = ?pl" "kv_world st = w" "mMaxLogId st = 0" "mDBEpoch st = 0"
      "mLogId2RequestId st = []" "mToFlushLog st = []" "mFlushCount st = replicate FLUSH_COUNTERS 0"
      "mRequestID st = 0" "mRequests st = []" "mDataStore st = Map.empty" "requests st = cl"
      "pair_addr st = alloc"
    using dir by (simp add: KVDB_Instance_def new_persist_logger_def)
  let ?st2 = "st\<lparr>lc_svc := ?lc, rc_svc := ?rc, kv_heap := ?h2\<rparr>"
  have s12: "start_service log_center 0 st = Done (E_OK, st\<lparr>lc_svc := ?lc, kv_heap := started_heap 0 empty_heap\<rparr>)"
    "start_service request_center 1 (st\<lparr>lc_svc := ?lc, kv_heap := started_heap 0 empty_heap\<rparr>) = Done (E_OK, ?st2)"
    using start_service_lc [OF f(1)] start_service_rc [of "st\<lparr>lc_svc := ?lc, kv_heap := started_heap 0 empty_heap\<rparr>"]
      f(2,3) by simp_all
  let ?olds = "map (\<lambda>(e, m, rs). (log_name dir e m, rs)) fs"
  let ?fs = "map (\<lambda>(n, rs). (n, Some rs)) ?olds"
  let ?init = "\<lparr>rv_records = [], rv_max_id = 0, rv_epoch = 0\<rparr>"
  let ?rv = "fold (\<lambda>(n, x). after_redo n x) ?fs ?init"
  have eq_fs: "map (\<lambda>(e, m, rs). (log_name dir e m, Some rs)) fs = ?fs" by (simp add: case_prod_beta)
  have d: "log_dir dir w ?fs" "benign w" "\<forall>n. \<not> exists_file w n \<longrightarrow> map_of (durable w) n = None"
    using disk unfolding log_disk_def eq_fs by blast+
  from RecoverFromLog_spec [OF d(1,2), of ?init] obtain w' where
    w': "RecoverFromLog dir (?init, w) = Done (E_OK, ?rv, w')" "\<forall>(n, x) \<in> set ?fs. repaired w' n x" "benign w'"
    and same: "\<forall>m. m \<notin> fst ` set ?fs \<longrightarrow> file_of w' m = file_of w m \<and> durable_of w' m = durable_of w m \<and>
      exists_file w' m = exists_file w m \<and> map_of (durable w') m = map_of (durable w) m" by blast
  have fits: "rec_fits r" if "r \<in> set (all_records fs)" for r
    using that d(1) by (fastforce simp: all_records_def log_dir_def holds_def readable_def)
  have recs: "rv_records ?rv = map sealed (all_records fs)"
    using rv_records_after [of ?fs ?init] by (simp add: all_records_def case_prod_beta comp_def)
  let ?R = "map sealed (all_records fs)"
  have app: "applicable r" if "r \<in> set ?R" for r
  proof -
    from that obtain r' where r': "r = sealed r'" "r' \<in> set (all_records fs)" by auto
    have "is_write_op (mOpType r')" using r'(2) disk by (auto simp: all_records_def log_disk_def)
    with r'(1) rec_fits_Some [OF fits [OF r'(2)]] show ?thesis by (auto simp: applicable_def)
  qed
  have q2: "queue_ok (kv_heap (?st2\<lparr>kv_world := w'\<rparr>)) (pending log_center (?st2\<lparr>kv_world := w'\<rparr>)) [] [] []"
    by (simp add: queue_ok_def pending_def)
  obtain h s where hs: "append_recovered ?R (?st2\<lparr>kv_world := w'\<rparr>) =
      Done (?st2\<lparr>kv_world := w', kv_heap := h, lc_svc := s\<rparr>)"
    "queue_ok h (ctxVec s @ mQueue s) [] (lc_entries ?R []) []" "service_ok 5000 s"
    using append_recovered_run [OF q2, of ?R] by auto
  let ?E = "rv_epoch ?rv + 1" and ?M = "rv_max_id ?rv"
  let ?st0 = "st\<lparr>lc_svc := s, rc_svc := ?rc, kv_heap := h, kv_world := w', mMaxLogId := ?M, mDBEpoch := ?E\<rparr>"
  have "KVDB_Recover ?st2 = Done (E_OK, st\<lparr>lc_svc := s, rc_svc := ?rc, kv_heap := h, kv_world := w',
      mMaxLogId := ?M, mDBEpoch := rv_epoch ?rv\<rparr>)"
    using w'(1) hs(1) f(4-7) recs
    by (simp add: KVDB_Recover_def GetMaxLogId_def GetEpoch_def SetEpoch_def SetMaxLogId_def)
  then have start: "KVDB_Start st = Done (E_OK, ?st0)"
    using s12 by (simp add: KVDB_Start_def NotifyNewEpoch_def)
  let ?e = "ucast ?E :: u32"
  have epoch: "?e = (if fs = [] then 1 else fst (last fs) + 1)"
  proof (cases "fs = []")
    case False
    obtain e m rs where l: "last fs = (e, m, rs)" by (cases "last fs") auto
    have "last dir = CHR ''/''" using d(1) by (simp add: log_dir_def)
    then have "ParseEpochFromLogName (log_name dir e m) = ucast e" using ParseEpoch_log_name by blast
    with False l show ?thesis
      using rv_epoch_after [of ?olds ?init] epoch_step [of e] by (simp add: last_map)
  qed simp
  have below: "e < ?e" if "(e, m, rs) \<in> set fs" for e m rs
    using log_disk_last_epoch [OF disk that] that epoch by auto
  have names: "(n, x) \<in> set ?fs \<Longrightarrow> \<exists>e m. n = log_name dir e m \<and> e < ?e" for n x
    using below by auto
  have exists: "exists_file w' m = exists_file w m" "map_of (durable w') m = map_of (durable w) m"
    if "m \<notin> fst ` set ?fs" for m using same that by blast+
  have fresh: "epoch_fresh dir ?e w'" by (rule epoch_fresh_after [OF d(1) names exists(1,2) d(3)])
  have rec: "recovered_dir dir ?e w' ?olds"
    by (rule recovered_after [OF d(1) w'(2) exists(1) names fresh refl])
  have "all_records fs = concat (map snd ?olds)" by (simp add: all_records_def case_prod_beta comp_def)
  then have "started_from dir ?e w' ?R" unfolding started_from_def using rec by metis
  moreover have "unat ?M < 2 ^ 32" by (rule rv_max_id_after) simp
  then have "ids_ok (unat ?M) [] 0 ?st0"
    using f by (auto simp: ids_ok_def ids_from_def word_le_nat_alt)
  moreover have "plog_inv dir ?e w' [] (?pl, w')"
    using w'(3) by (simp add: plog_inv_def segs_closed_def others_same_def)
  ultimately have "core dir w' (unat ?M) ?R [] 0 ?R [] [] ?st0"
    using cl app inj f
    by (simp add: core_def flush_ok_def requests_ok_def outstanding_def log_ok_def plog_of_def
        on_disk_def numbered_def acked_ok_def store_from_def flatten_def idle_clients_def)
  then have "kv_inv_at dir w' (unat ?M) ?R [] 0 ?R [] [] ?st0"
    using hs(2,3) by (simp add: kv_inv_at_def pending_def)
  moreover have "prefix (durable_of w' n) (file_of w' n)" for n
  proof (cases "n \<in> fst ` set ?fs")
    case True
    then obtain x where x: "(n, x) \<in> set ?fs" by force
    then obtain rs where "x = Some rs" by auto
    with bspec [OF w'(2) x] show ?thesis by (simp add: repaired_def)
  next
    case False
    with same disk show ?thesis by (simp add: log_disk_def)
  qed
  ultimately show ?thesis using st start f(13,14)
    by (intro exI [of _ st] exI [of _ ?st0] exI [of _ "unat ?M"]) simp
qed

section \<open>Running the two threads in turn\<close>

definition run_round :: "kvdb \<Rightarrow> kvdb outcome" where
  "run_round st =
     obind (Run_step log_center st) (\<lambda>r.
     let st1 = (case r of None \<Rightarrow> st | Some st1 \<Rightarrow> st1) in
     obind (Run_step request_center st1) (\<lambda>r.
     Done (case r of None \<Rightarrow> st1 | Some st2 \<Rightarrow> st2)))"

fun run_rounds :: "nat \<Rightarrow> kvdb \<Rightarrow> kvdb outcome" where
  "run_rounds 0 st = Done st"
| "run_rounds (Suc n) st = obind (run_round st) (run_rounds n)"

definition rc_blocked :: "kvdb \<Rightarrow> bool" where
  "rc_blocked st \<longleftrightarrow> pending request_center st = [] \<and> run_pc (rc_svc st) = Waiting"

definition rounds_left :: "nat \<Rightarrow> kvdb \<Rightarrow> nat" where
  "rounds_left n st = 10 * n +
     (if rc_blocked st then loop_distance (lc_svc st) else 5 + loop_distance (rc_svc st))"

lemma loop_distance_le: "loop_distance s \<le> 4"
  by (simp add: loop_distance_def split: run_pc.split)

text \<open>When the log center idles and the request center sleeps, nobody waits.\<close>

lemma nothing_left:
  assumes "kv_inv dir w0 m0 R0 st" "lc_idle st" "pending request_center st = []" "requests st a = Some rq"
  shows "mSync rq"
proof (rule ccontr)
  assume "\<not> mSync rq"
  from assms(1) obtain segs F rs ws q where i: "kv_inv_at dir w0 m0 R0 segs F rs ws q st"
    unfolding kv_inv_def by blast
  have "lc_entries rs ws = []" "map rc_entry q = []"
    using i assms(2,3) by (auto simp: kv_inv_at_def queue_ok_def lc_idle_def)
  then have e: "ws = []" "q = []" by (simp_all add: lc_entries_def)
  have "requests_ok [] [] st"
    using i e assms(2) by (simp add: kv_inv_at_def core_def outstanding_def lc_idle_def)
  with assms(4) \<open>\<not> mSync rq\<close> show False by (auto simp: requests_ok_def)
qed

lemma LogCenter_Idle_rc:
  assumes "LogCenter_Idle s = Done s1"
  shows "\<exists>q. rc_svc s1 = (rc_svc s)\<lparr>mQueue := mQueue (rc_svc s) @ q\<rparr>"
proof (cases "mToFlushLog s = []")
  case True
  with assms show ?thesis by (auto simp: LogCenter_Idle_def intro!: exI [of _ "[]"])
next
  case False
  with assms have "rc_svc s1 = (rc_svc s)\<lparr>mQueue := mQueue (rc_svc s) @ [next_ctx (kv_heap s)]\<rparr>"
    by (auto simp: LogCenter_Idle_def outcome_simps Let_def ReceiveKVResponse_def send_cases
        dest!: FlushLog_lc_frame collect_pairs_frame split: if_splits)
  then show ?thesis by blast
qed

lemma log_center_base_Process:
  assumes "base_Process log_center p s = Done (b, s1)"
  shows "rc_svc s1 = rc_svc s \<and> requests s1 = requests s"
proof -
  from assms obtain c where c: "read_ctx p (kv_heap s) = Done c"
    by (auto simp: base_Process_def outcome_simps)
  show ?thesis
    by (cases "GetType c")
      (use assms c in \<open>auto simp: base_Process_def ProcessStart_def ProcessStop_def outcome_simps
        Let_def on_heap_def on_svc_def\<close>)
qed

lemma log_center_Run_one_rc: "Run_one log_center p s = Done s1 \<Longrightarrow> rc_svc s1 = rc_svc s"
  by (auto simp: Run_one_def outcome_simps on_heap_def split: if_splits
      dest!: LogCenter_Process_frame log_center_base_Process)

lemma lc_step_rc:
  assumes "Run_step log_center st = Done (Some st1)"
  shows "\<exists>q. rc_svc st1 = (rc_svc st)\<lparr>mQueue := mQueue (rc_svc st) @ q\<rparr>"
proof -
  have same: ?thesis if "rc_svc st1 = rc_svc st" using that by (intro exI [of _ "[]"]) simp
  show ?thesis
  proof (cases "run_pc (lc_svc st)")
    case Waiting
    let ?s1 = "st\<lparr>lc_svc := (lc_svc st)\<lparr>ctxVec := mQueue (lc_svc st), mQueue := [], run_pc := InBatch\<rparr>\<rparr>"
    from Waiting assms have "st1 = ?s1 \<or> LogCenter_Idle ?s1 = Done st1"
      by (auto simp: Run_step_def Run_grab_def Let_def on_svc_def outcome_simps split: if_splits)
    with same LogCenter_Idle_rc [of ?s1 st1] show ?thesis by auto
  next
    case InBatch
    with assms same log_center_Run_one_rc show ?thesis
      by (fastforce simp: Run_step_def on_svc_def outcome_simps split: list.splits)
  qed (use assms same in \<open>auto simp: Run_step_def Run_enter_def base_Init_def base_Finit_def
      on_svc_def split: if_splits\<close>)
qed

lemma lc_step_keeps_rc:
  assumes "Run_step log_center st = Done (Some st1)"
  shows "loop_distance (rc_svc st1) = loop_distance (rc_svc st)"
    "run_pc (rc_svc st1) = run_pc (rc_svc st)"
    "\<exists>q. pending request_center st1 = pending request_center st @ q"
  using lc_step_rc [OF assms] by (auto simp: loop_distance_def pending_def)

lemma rc_blocked_step:
  assumes "kv_inv dir w0 m0 R0 st" "rc_blocked st"
  shows "Run_step request_center st = Done None"
proof -
  have "service_ok 0 (rc_svc st)" using assms(1) by (auto simp: kv_inv_def kv_inv_at_def)
  with assms(2) show ?thesis
    by (simp add: rc_blocked_def Run_step_def Run_grab_def pending_def service_ok_def)
qed

lemma round_progress:
  assumes n: "kv_work dir w0 m0 R0 n st"
  shows "\<exists>st2 n2. run_round st = Done st2 \<and> kv_work dir w0 m0 R0 n2 st2 \<and>
    (\<exists>st1. kv_step polite st st1 \<and> (st2 = st1 \<or> kv_step polite st1 st2)) \<and>
    ((\<forall>a rq. requests st a = Some rq \<longrightarrow> mSync rq) \<or> rounds_left n2 st2 < rounds_left n st)"
proof -
  obtain st1 n1 where s1: "Run_step log_center st = Done (Some st1)" "kv_work dir w0 m0 R0 n1 st1"
    and less1: "n1 < n \<or> n1 = n \<and> rc_svc st1 = rc_svc st \<and>
      (loop_distance (lc_svc st1) < loop_distance (lc_svc st) \<or> lc_idle st)"
    using kv_inv_lc [OF n] by blast
  note keep = lc_step_keeps_rc [OF s1(1)]
  have step1: "kv_step polite st st1" by (rule kv_step.log_thread [OF s1(1)])
  have inv: "kv_inv dir w0 m0 R0 st" "kv_inv dir w0 m0 R0 st1"
    using n s1(2) unfolding kv_inv_work by blast+
  consider (blocked) "Run_step request_center st1 = Done None" "pending request_center st1 = []"
      "run_pc (rc_svc st1) = Waiting"
    | (ran) st2 n2 where "Run_step request_center st1 = Done (Some st2)" "kv_work dir w0 m0 R0 n2 st2"
      "n2 < n1 \<or> n2 = n1 \<and> loop_distance (rc_svc st2) < loop_distance (rc_svc st1)"
    using kv_inv_rc [OF s1(2)] by blast
  then show ?thesis
  proof cases
    case b: blocked
    then have blk: "rc_blocked st1" "rc_blocked st" using keep by (auto simp: rc_blocked_def)
    have "(\<forall>a rq. requests st a = Some rq \<longrightarrow> mSync rq) \<or> rounds_left n1 st1 < rounds_left n st"
    proof (cases "n1 = n \<and> lc_idle st")
      case True
      with nothing_left [OF inv(1)] blk(2) show ?thesis by (simp add: rc_blocked_def)
    next
      case False
      with less1 blk loop_distance_le [of "lc_svc st1"] show ?thesis by (auto simp: rounds_left_def)
    qed
    moreover have "run_round st = Done st1" using s1(1) b(1) by (simp add: run_round_def)
    ultimately show ?thesis using s1(2) step1 by blast
  next
    case s2: ran
    note less2 = s2(3)
    have "rounds_left n2 st2 < rounds_left n st"
    proof (cases "n2 < n")
      case True
      then show ?thesis
        using loop_distance_le [of "lc_svc st2"] loop_distance_le [of "rc_svc st2"]
        by (simp add: rounds_left_def)
    next
      case False
      with less1 less2 have eq: "n1 = n" "n2 = n" "rc_svc st1 = rc_svc st"
        "loop_distance (rc_svc st2) < loop_distance (rc_svc st)" by auto
      have "\<not> rc_blocked st"
      proof
        assume "rc_blocked st"
        then have "rc_blocked st1" using eq(3) by (simp add: rc_blocked_def pending_def)
        from rc_blocked_step [OF inv(2) this] s2(1) show False by simp
      qed
      then show ?thesis
        using eq loop_distance_le [of "lc_svc st2"] by (simp add: rounds_left_def)
    qed
    moreover have "run_round st = Done st2" using s1(1) s2(1) by (simp add: run_round_def)
    moreover have "kv_step polite st1 st2" by (rule kv_step.request_thread [OF s2(1)])
    ultimately show ?thesis using s2(2) step1 by blast
  qed
qed

lemma rounds_answer:
  "kv_work dir w0 m0 R0 n st \<Longrightarrow> kv_reach polite st0 st \<Longrightarrow>
    \<exists>k \<le> rounds_left n st. \<exists>st'. run_rounds k st = Done st' \<and> kv_reach polite st0 st' \<and>
      (\<forall>a rq. requests st' a = Some rq \<longrightarrow> mSync rq)"
proof (induction "rounds_left n st" arbitrary: n st rule: less_induct)
  case less
  show ?case
  proof (cases "\<forall>a rq. requests st a = Some rq \<longrightarrow> mSync rq")
    case True
    then show ?thesis using less.prems by (intro exI [of _ "0 :: nat"] conjI exI [of _ st]) simp_all
  next
    case False
    with round_progress [OF less.prems(1)] obtain st2 n2 st1 where
      r: "run_round st = Done st2" "kv_work dir w0 m0 R0 n2 st2" "kv_step polite st st1"
      "st2 = st1 \<or> kv_step polite st1 st2" "rounds_left n2 st2 < rounds_left n st" by blast
    have "kv_reach polite st0 st2" using less.prems(2) r(3,4) kv_reach.step by blast
    from less.hyps [OF r(5,2) this] obtain k st' where
      "k \<le> rounds_left n2 st2" "run_rounds k st2 = Done st'" "kv_reach polite st0 st'"
      "\<forall>a rq. requests st' a = Some rq \<longrightarrow> mSync rq" by blast
    with r(1,5) show ?thesis by (intro exI [of _ "Suc k"]) auto
  qed
qed

section \<open>Crash and recovery\<close>

text \<open>A directory that lost no file and gained none is the same log directory.\<close>

lemma log_dir_same:
  assumes d: "log_dir dir w fs" and old: "\<And>n. exists_file w' n \<Longrightarrow> exists_file w n"
    and held: "\<And>n x. (n, x) \<in> set fs \<Longrightarrow> holds w' n x"
  shows "log_dir dir w' fs"
proof -
  have names: "exists_file w (dir @ n) \<and> n \<noteq> [] \<and> CHR ''/'' \<notin> set n \<longleftrightarrow> dir @ n \<in> fst ` set fs" for n
    using d unfolding log_dir_def by blast
  have kept: "exists_file w' n" if "n \<in> fst ` set fs" for n
  proof -
    from that obtain x where "(n, x) \<in> set fs" by force
    from holds_exists [OF held [OF this]] show ?thesis .
  qed
  have "exists_file w' (dir @ n) \<and> n \<noteq> [] \<and> CHR ''/'' \<notin> set n \<longleftrightarrow> dir @ n \<in> fst ` set fs" for n
    using names [of n] old [of "dir @ n"] kept [of "dir @ n"] by argo
  moreover have "\<exists>e m. n = log_name dir e m" if "(n, x) \<in> set fs" for n x
    using d that by (auto simp: log_dir_def)
  ultimately show ?thesis using d held by (auto simp: log_dir_def)
qed

text \<open>A crash before the run has opened a log file of its own.\<close>

lemma crash_recover_none:
  assumes rec: "recovered_dir dir e w0 olds" and inv: "plog_inv dir e w0 [] s"
    and cr: "crash (snd s) wc" "benign wc"
  shows "\<exists>rv' w'. RecoverFromLog dir (rv, wc) = Done (E_OK, rv', w') \<and>
    rv_records rv' = rv_records rv @ map sealed (concat (map snd olds))"
proof -
  let ?fs = "map (\<lambda>(n, rs). (n, Some rs)) olds"
  have same: "exists_file (snd s) n = exists_file w0 n" "repaired (snd s) n x = repaired w0 n x" for n x
    using inv others_same_exists [of dir e "{}" w0 "snd s" n]
    by (simp_all add: plog_inv_def repaired_def headless_def split: option.split)
  have d: "log_dir dir w0 ?fs" using rec by (simp add: recovered_dir_def)
  have held: "holds wc n x" if "(n, x) \<in> set ?fs" for n x
  proof -
    from that obtain rs where x: "x = Some rs" "(n, rs) \<in> set olds" by auto
    have "repaired w0 n (Some rs)" using rec x(2) by (auto simp: recovered_dir_def)
    then have "repaired (snd s) n (Some rs)" using same(2) by simp
    moreover have "\<forall>r \<in> set rs. rec_fits r"
      using log_dir_holds [OF d that] x(1) by (simp add: holds_def readable_def)
    ultimately show ?thesis using crash_repaired [OF cr(1)] x(1) by simp
  qed
  have "exists_file w0 n" if "exists_file wc n" for n
    using crashD(1) [OF cr(1) that] same(1) by simp
  from log_dir_same [OF d this held] have "log_dir dir wc ?fs" .
  from RecoverFromLog_spec [OF this cr(2), of rv] obtain w' where
    "RecoverFromLog dir (rv, wc) = Done (E_OK, fold (\<lambda>(n, x). after_redo n x) ?fs rv, w')" by blast
  then show ?thesis using rv_records_after [of ?fs rv] by (simp add: case_prod_beta comp_def)
qed

lemma kv_inv_crash:
  assumes i: "kv_inv_at dir w0 m0 R0 segs F rs ws rq st" and cr: "crash (kv_world st) wc" "benign wc"
  shows "\<exists>rv' w'. RecoverFromLog dir (rv, wc) = Done (E_OK, rv', w') \<and>
    set R0 \<union> sealed ` set (take F (concat (map snd segs))) \<subseteq> set (rv_records rv')"
proof -
  let ?wr = "concat (map snd segs)"
  have lg: "plog_inv dir (ucast (mDBEpoch st)) w0 segs (plog_of st)"
    "on_disk dir (ucast (mDBEpoch st)) F segs (snd (plog_of st))"
    "started_from dir (ucast (mDBEpoch st)) w0 R0"
    using i by (simp_all add: kv_inv_at_def core_def log_ok_def plog_of_def)
  from lg(3) obtain olds where olds: "recovered_dir dir (ucast (mDBEpoch st)) w0 olds"
    "R0 = map sealed (concat (map snd olds))" by (auto simp: started_from_def)
  have cr': "crash (snd (plog_of st)) wc" using cr(1) by (simp add: plog_of_def)
  show ?thesis
  proof (cases "segs = []")
    case True
    with crash_recover_none [OF olds(1) _ cr' cr(2), of rv] lg(1) olds(2) show ?thesis by auto
  next
    case False
    from crash_recover [OF olds(1) lg(1,2) False cr' cr(2), of rv] obtain K rv' w' where
      K: "F \<le> K" "RecoverFromLog dir (rv, wc) = Done (E_OK, rv', w')"
      "rv_records rv' = rv_records rv @ map sealed (concat (map snd olds) @ take K ?wr)" by blast
    have "set (take F ?wr) \<subseteq> set (take K ?wr)" using K(1) by (rule set_take_subset_set_take)
    with K(2,3) olds(2) show ?thesis by auto
  qed
qed

text \<open>The assumptions of the theorems below: a program that was started on a log directory.\<close>

lemma kv_invI: "kv_inv_at dir w0 m0 R0 segs F rs ws rq st \<Longrightarrow> kv_inv dir w0 m0 R0 st"
  unfolding kv_inv_def by blast

definition database ::
  "string \<Rightarrow> string \<Rightarrow> world \<Rightarrow> (u32 \<times> u32 \<times> log_record list) list \<Rightarrow> (nat \<Rightarrow> nat) \<Rightarrow>
   (nat \<rightharpoonup> kv_request) \<Rightarrow> kvdb \<Rightarrow> bool" where
  "database dbDir dir w fs alloc cl st0 \<longleftrightarrow>
     log_disk dir w fs \<and> idle_clients cl \<and> inj alloc \<and> with_slash dbDir = Done dir \<and>
     (\<exists>st. KVDB_Instance dbDir w alloc cl = Done st \<and> KVDB_Start st = Done (E_OK, st0))"

lemma database_inv:
  assumes "database dbDir dir w fs alloc cl st0" "kv_reach polite st0 st"
  shows "\<exists>w0 m0. kv_inv dir w0 m0 (map sealed (all_records fs)) st"
proof -
  from assms(1) obtain st1 where d: "log_disk dir w fs" "idle_clients cl" "inj alloc"
    "with_slash dbDir = Done dir" "KVDB_Instance dbDir w alloc cl = Done st1"
    "KVDB_Start st1 = Done (E_OK, st0)" by (auto simp: database_def)
  from KVDB_Start_ready [OF d(1-4)] d(5,6) obtain m0 where
    "kv_inv dir (kv_world st0) m0 (map sealed (all_records fs)) st0" by (metis Pair_inject kv_invI outcome.inject(1))
  from kv_inv_reach [OF assms(2) this] show ?thesis by blast
qed

lemma database_exists:
  assumes "log_disk dir w fs" "idle_clients cl" "inj alloc" "with_slash dbDir = Done dir"
  shows "\<exists>st0. database dbDir dir w fs alloc cl st0 \<and> requests st0 = cl \<and>
    mDataStore st0 = Map.empty \<and> (fs = [] \<longrightarrow> mMaxLogId st0 = 0) \<and>
    (\<forall>n. prefix (durable_of (kv_world st0) n) (file_of (kv_world st0) n)) \<and>
    (\<exists>m0. kv_inv dir (kv_world st0) m0 (map sealed (all_records fs)) st0)"
  using KVDB_Start_ready [OF assms] assms kv_invI unfolding database_def by blast

text \<open>Right after the start the store is empty and the log center has the whole log to apply.\<close>

lemma database_fresh:
  assumes "database dbDir dir w fs alloc cl st0"
  shows "mDataStore st0 = Map.empty \<and> (\<exists>m0. kv_inv_at dir (kv_world st0) m0
    (map sealed (all_records fs)) [] 0 (map sealed (all_records fs)) [] [] st0)"
proof -
  from assms obtain st1 where d: "log_disk dir w fs" "idle_clients cl" "inj alloc"
    "with_slash dbDir = Done dir" "KVDB_Instance dbDir w alloc cl = Done st1"
    "KVDB_Start st1 = Done (E_OK, st0)" by (auto simp: database_def)
  from KVDB_Start_ready [OF d(1-4)] d(5,6) show ?thesis by auto
qed

text \<open>A crash may lose nothing at all.\<close>

lemma crash_self:
  assumes "kv_inv dir w0 m0 R0 st" "\<forall>n. prefix (durable_of w0 n) (file_of w0 n)"
  shows "crash (kv_world st) (kv_world st) \<and> benign (kv_world st)"
proof -
  from assms(1) obtain segs F rs ws rq where "kv_inv_at dir w0 m0 R0 segs F rs ws rq st"
    unfolding kv_inv_def by blast
  then have inv: "plog_inv dir (ucast (mDBEpoch st)) w0 segs (plog_of st)"
    by (simp add: kv_inv_at_def core_def log_ok_def)
  let ?e = "ucast (mDBEpoch st) :: u32" and ?w = "kv_world st"
  have "prefix (durable_of ?w n) (file_of ?w n)" for n
  proof (cases "n \<in> log_name dir ?e ` fst ` set segs")
    case False
    then show ?thesis
      using inv assms(2) others_same_exists(2,3) [of dir ?e "fst ` set segs" w0 ?w n]
      by (simp add: plog_inv_def plog_of_def)
  next
    case True
    then have ne: "segs \<noteq> []" by auto
    from True obtain m where m: "n = log_name dir ?e m" "m \<in> fst ` set segs" by blast
    have "fst ` set segs = insert (fst (last segs)) (fst ` set (butlast segs))"
      using seg_number_last(2) [OF _ ne] inv by (simp add: plog_inv_def)
    with m(2) consider "m = fst (last segs)" | "m \<in> fst ` set (butlast segs)" by blast
    then show ?thesis
    proof cases
      case 1
      with inv ne m(1) show ?thesis
        by (auto simp: plog_inv_def seg_current_def writer_inv_def plog_of_def log_io_of_def)
    next
      case 2
      then obtain r where "(m, r) \<in> set (butlast segs)" by force
      with inv have "repaired ?w n (Some r)"
        unfolding m(1) by (auto simp: plog_inv_def segs_closed_def plog_of_def)
      then show ?thesis by (simp add: repaired_def)
    qed
  qed
  with inv show ?thesis by (simp add: crash_def plog_inv_def plog_of_def)
qed

end
