(* ===== verification/KVTheorems.thy ===== *)
theory KVTheorems
  imports KVSafety
begin

text \<open>
  The properties of the database as a whole. The first part is about a started database and
  polite clients; the second shows what happens outside those assumptions.
\<close>

section \<open>What the threads keep of a request\<close>

text \<open>The part of a request that says what it asks for: a read has its value filled in.\<close>

definition asks :: "kv_request \<Rightarrow> u32 \<times> bytes \<times> bytes \<times> bytes" where
  "asks rq = (mOpType_rq rq, mTableName_rq rq, mKey_rq rq,
     if mOpType_rq rq = OP_get then [] else mValue_rq rq)"

definition same_questions :: "kvdb \<Rightarrow> kvdb \<Rightarrow> bool" where
  "same_questions st st' \<longleftrightarrow>
     (\<forall>a. map_option asks (requests st' a) = map_option asks (requests st a))"

lemma same_questions_refl: "requests st' = requests st \<Longrightarrow> same_questions st st'"
  by (simp add: same_questions_def)

lemma same_questions_trans:
  "same_questions st st1 \<Longrightarrow> same_questions st1 st2 \<Longrightarrow> same_questions st st2"
  by (simp add: same_questions_def)

lemma asks_simps [simp]:
  "asks (Signal_rq rq) = asks rq" "asks (rq\<lparr>mErr := e\<rparr>) = asks rq"
  "mOpType_rq rq = OP_get \<Longrightarrow> asks (rq\<lparr>mErr := e, mValue_rq := v\<rparr>) = asks rq"
  by (simp_all add: asks_def Signal_rq_def)

lemma asks_write:
  "asks rq = asks rq' \<Longrightarrow> is_write_op (mOpType_rq rq) = is_write_op (mOpType_rq rq')"
  "asks rq = asks rq' \<Longrightarrow> is_write_op (mOpType_rq rq) \<Longrightarrow> carries r rq = carries r rq'"
  by (auto simp: asks_def carries_def is_write_op_def op_codes split: if_splits)

lemma respond_questions: "respond ps st = Done st1 \<Longrightarrow> same_questions st st1"
proof (induction ps st rule: respond.induct)
  case (2 addr i r ps st)
  from "2.prems" obtain a e st2 rq where s: "map_of (mRequests st) i = Some a"
    "UpdateDataStore r st = Done (e, st2)" "requests st2 a = Some rq"
    "respond ps (st2\<lparr>requests := (requests st2)(a \<mapsto> Signal_rq (rq\<lparr>mErr := e\<rparr>)),
       mRequests := AList.delete i (mRequests st2)\<rparr>) = Done st1"
    by (auto simp: outcome_simps split: option.splits)
  have "requests st2 = requests st" using UpdateDataStore_frame [OF s(2)] by auto
  then have "same_questions st (st2\<lparr>requests := (requests st2)(a \<mapsto> Signal_rq (rq\<lparr>mErr := e\<rparr>)),
       mRequests := AList.delete i (mRequests st2)\<rparr>)"
    using s(3) by (simp add: same_questions_def)
  from same_questions_trans [OF this "2.IH" [OF s(1,2) refl s(3,4)]] show ?case .
qed (simp add: same_questions_def)

lemma HandleNewKVRequest_questions:
  assumes "HandleNewKVRequest a st = Done st1"
  shows "same_questions st st1"
proof -
  from assms obtain rq where rq: "requests st a = Some rq"
    by (auto simp: HandleNewKVRequest_def split: option.splits)
  show ?thesis
  proof (cases "mOpType_rq rq = OP_get")
    case True
    with assms rq show ?thesis
      by (auto simp: HandleNewKVRequest_def same_questions_def Let_def split_beta GetOpType_rq_def)
  next
    case False
    with assms rq show ?thesis
      by (auto simp: HandleNewKVRequest_def outcome_simps Let_def GetOpType_rq_def
          intro!: same_questions_refl dest!: ReceiveClientRequest_frame)
  qed
qed

lemma RequestCenter_Process_questions:
  assumes "RequestCenter_Process p s = Done (b, s1)"
  shows "same_questions s s1"
proof -
  from assms obtain l s2 h where l: "HandleLocalRequest l s = Done s2" "s1 = s2\<lparr>kv_heap := h\<rparr>"
    by (auto simp: RequestCenter_Process_def outcome_simps split: if_splits)
  have "same_questions s s2"
    by (cases "GetCtxType l") (use l(1) in \<open>auto simp: HandleLocalRequest_def HandleKVResponse_def
      outcome_simps dest: HandleNewKVRequest_questions respond_questions\<close>)
  with l(2) show ?thesis by (simp add: same_questions_def)
qed

lemma request_center_base_Process:
  assumes "base_Process request_center p s = Done (b, s1)"
  shows "requests s1 = requests s"
proof -
  from assms obtain c where c: "read_ctx p (kv_heap s) = Done c"
    by (auto simp: base_Process_def outcome_simps)
  show ?thesis
    by (cases "GetType c")
      (use assms c in \<open>auto simp: base_Process_def ProcessStart_def ProcessStop_def outcome_simps
        Let_def on_heap_def on_svc_def\<close>)
qed

lemma request_step_questions:
  assumes "Run_step request_center st = Done (Some st1)"
  shows "same_questions st st1"
proof (cases "run_pc (rc_svc st) = InBatch \<and> ctxVec (rc_svc st) \<noteq> []")
  case True
  let ?s = "st\<lparr>rc_svc := (rc_svc st)\<lparr>ctxVec := tl (ctxVec (rc_svc st))\<rparr>\<rparr>"
  from True assms have o: "Run_one request_center (hd (ctxVec (rc_svc st))) ?s = Done st1"
    by (cases "ctxVec (rc_svc st)") (auto simp: Run_step_def on_svc_def outcome_simps)
  have "same_questions ?s st1"
  proof (cases "mRunning (rc_svc ?s)")
    case False
    with o show ?thesis by (auto simp: Run_one_def outcome_simps on_heap_def same_questions_def)
  next
    case r: True
    from o r obtain b st2 where b: "base_Process request_center (hd (ctxVec (rc_svc st))) ?s = Done (b, st2)"
      and rest: "if b then on_heap request_center (DecRef (hd (ctxVec (rc_svc st)))) st2 = Done st1
        else \<exists>st3. RequestCenter_Process (hd (ctxVec (rc_svc st))) st2 = Done (True, st3) \<and>
          on_heap request_center (DecRef (hd (ctxVec (rc_svc st)))) st3 = Done st1"
      by (fastforce simp: Run_one_def outcome_simps split: if_splits)
    from request_center_base_Process [OF b] have b1: "same_questions ?s st2" by (rule same_questions_refl)
    show ?thesis
    proof (cases b)
      case True
      with rest have "requests st1 = requests st2" by (auto simp: on_heap_def outcome_simps)
      with b1 show ?thesis by (simp add: same_questions_def)
    next
      case False
      with rest obtain st3 where st3: "RequestCenter_Process (hd (ctxVec (rc_svc st))) st2 = Done (True, st3)"
        "on_heap request_center (DecRef (hd (ctxVec (rc_svc st)))) st3 = Done st1" by auto
      then have "requests st1 = requests st3" by (auto simp: on_heap_def outcome_simps)
      with same_questions_trans [OF b1 RequestCenter_Process_questions [OF st3(1)]] show ?thesis
        by (simp add: same_questions_def)
    qed
  qed
  then show ?thesis by (simp add: same_questions_def)
next
  case False
  with assms show ?thesis
    by (cases "run_pc (rc_svc st)")
      (auto simp: Run_step_def Run_enter_def Run_grab_def base_Init_def base_Finit_def base_Idle_def
        on_svc_def outcome_simps Let_def split: if_splits list.splits intro!: same_questions_refl)
qed

lemma LogCenter_Idle_requests: "LogCenter_Idle s = Done s1 \<Longrightarrow> requests s1 = requests s"
  by (auto simp: LogCenter_Idle_def outcome_simps Let_def ReceiveKVResponse_def send_cases set_plog_def
      dest!: FlushLog_lc_frame collect_pairs_frame split: if_splits)

lemma LogCenter_Process_requests:
  assumes "LogCenter_Process p s = Done (b, s1)"
  shows "requests s1 = requests s"
proof -
  from assms obtain l s2 h where l: "HandleLocalContext l s = Done s2" "s1 = s2\<lparr>kv_heap := h\<rparr>"
    by (auto simp: LogCenter_Process_def outcome_simps split: if_splits)
  have w: "requests s2 = requests s" if "HandleWriteOper r s = Done (e, s2)" for r e
    by (subst HandleWriteOper_frame [OF that]) (simp add: set_plog_def)
  have "requests s2 = requests s"
    by (cases "GetCtxType l") (use l(1) w in \<open>auto simp: HandleLocalContext_def HandleRecoverLog_def
      outcome_simps dest!: UpdateDataStore_frame\<close>)
  with l(2) show ?thesis by simp
qed

lemma log_step_requests:
  assumes "Run_step log_center st = Done (Some st1)"
  shows "requests st1 = requests st"
proof (cases "run_pc (lc_svc st) = InBatch \<and> ctxVec (lc_svc st) \<noteq> []")
  case True
  let ?s = "st\<lparr>lc_svc := (lc_svc st)\<lparr>ctxVec := tl (ctxVec (lc_svc st))\<rparr>\<rparr>"
  from True assms have "Run_one log_center (hd (ctxVec (lc_svc st))) ?s = Done st1"
    by (cases "ctxVec (lc_svc st)") (auto simp: Run_step_def on_svc_def outcome_simps)
  then have "requests st1 = requests ?s"
    by (auto simp: Run_one_def outcome_simps on_heap_def split: if_splits
        dest!: LogCenter_Process_requests log_center_base_Process)
  then show ?thesis by simp
next
  case False
  with assms show ?thesis
    by (cases "run_pc (lc_svc st)")
      (auto simp: Run_step_def Run_enter_def Run_grab_def base_Init_def base_Finit_def
        on_svc_def outcome_simps Let_def split: if_splits list.splits dest!: LogCenter_Idle_requests)
qed

lemma run_round_questions:
  assumes "run_round st = Done st'"
  shows "same_questions st st'"
proof -
  from assms obtain r1 r2 where r: "Run_step log_center st = Done r1"
    "Run_step request_center (case r1 of None \<Rightarrow> st | Some st1 \<Rightarrow> st1) = Done r2"
    "st' = (case r2 of None \<Rightarrow> (case r1 of None \<Rightarrow> st | Some st1 \<Rightarrow> st1) | Some st2 \<Rightarrow> st2)"
    by (auto simp: run_round_def outcome_simps Let_def)
  have "same_questions st (case r1 of None \<Rightarrow> st | Some st1 \<Rightarrow> st1)"
    using r(1) log_step_requests by (auto intro: same_questions_refl split: option.split)
  moreover have "same_questions (case r1 of None \<Rightarrow> st | Some st1 \<Rightarrow> st1) st'"
    using r(2,3) request_step_questions by (auto intro: same_questions_refl split: option.splits)
  ultimately show ?thesis by (rule same_questions_trans)
qed

lemma run_rounds_questions: "run_rounds k st = Done st' \<Longrightarrow> same_questions st st'"
proof (induction k arbitrary: st)
  case (Suc k)
  from Suc.prems obtain st1 where "run_round st = Done st1" "run_rounds k st1 = Done st'"
    by (auto simp: outcome_simps)
  with Suc.IH run_round_questions same_questions_trans show ?case by blast
qed (simp add: same_questions_refl)

text \<open>Nobody waits: every posted request has been answered.\<close>

definition all_answered :: "kvdb \<Rightarrow> bool" where
  "all_answered st \<longleftrightarrow> (\<forall>a rq. requests st a = Some rq \<longrightarrow> mSync rq)"

lemma answered_nothing_out:
  assumes "requests_ok out ns st" "all_answered st"
  shows "out = []" "ns = []"
proof -
  have "\<not> waits_for st x" for x using assms(2) by (auto simp: waits_for_def all_answered_def)
  with assms(1) show "out = []" unfolding requests_ok_def by (cases out) auto
  show "ns = []" using assms by (cases ns) (auto simp: requests_ok_def all_answered_def)
qed

lemma kv_inv_none_numbered:
  assumes "kv_inv dir w0 m0 R0 st" "all_answered st"
  shows "mRequests st = []"
proof -
  from assms(1) obtain segs F rs ws rq where r: "requests_ok (outstanding m0 rq ws st) (news rq) st"
    by (auto simp: kv_inv_def kv_inv_at_def core_def)
  moreover from answered_nothing_out(1) [OF r assms(2)] have "outstanding m0 rq ws st = []" .
  ultimately show ?thesis by (auto simp: requests_ok_def)
qed

section \<open>A database to look at\<close>

text \<open>One client with one request object, on an empty disk.\<close>

definition put_request :: kv_request where
  "put_request = new_KVRequest\<lparr>mOpType_rq := OP_put, mTableName_rq := [116], mKey_rq := [107],
     mValue_rq := [1, 2, 3]\<rparr>"

abbreviation one_client :: "nat \<rightharpoonup> kv_request" where
  "one_client \<equiv> [0 \<mapsto> new_KVRequest]"

lemma demo_disk: "log_disk ''/l/'' empty_disk []"
  by (simp add: log_disk_def log_dir_def exists_file_def benign_def durable_of_def file_of_def)

lemma demo_clients: "idle_clients one_client"
  by (simp add: idle_clients_def FLUSH_COUNTERS_def new_KVRequest_def is_write_op_def op_codes)

lemma demo_database:
  "\<exists>st0. database ''/l/'' ''/l/'' empty_disk [] id one_client st0 \<and> requests st0 = one_client \<and>
    mDataStore st0 = Map.empty \<and> mMaxLogId st0 = 0 \<and>
    (\<forall>n. prefix (durable_of (kv_world st0) n) (file_of (kv_world st0) n)) \<and>
    (\<exists>m0. kv_inv ''/l/'' (kv_world st0) m0 [] st0)"
  using database_exists [OF demo_disk demo_clients inj_on_id, of "''/l/''"]
  by (simp add: with_slash_def all_records_def)

text \<open>The client posts, and the threads run until it has its answer.\<close>

lemma demo_posted:
  "\<exists>st0 st1. database ''/l/'' ''/l/'' empty_disk [] id one_client st0 \<and> kv_reach polite st0 st1 \<and>
    requests st1 0 = Some (Wait_rq put_request) \<and> mRequests st1 = [] \<and>
    (\<forall>n. prefix (durable_of (kv_world st0) n) (file_of (kv_world st0) n)) \<and>
    (\<exists>m0. kv_inv ''/l/'' (kv_world st0) m0 [] st0 \<and> kv_inv ''/l/'' (kv_world st0) m0 [] st1)"
proof -
  from demo_database obtain st0 m0 where d: "database ''/l/'' ''/l/'' empty_disk [] id one_client st0"
    "requests st0 = one_client" "mMaxLogId st0 = 0"
    "\<forall>n. prefix (durable_of (kv_world st0) n) (file_of (kv_world st0) n)"
    "kv_inv ''/l/'' (kv_world st0) m0 [] st0" by blast
  have idle: "requests st0 0 = Some new_KVRequest" "mSync new_KVRequest"
    using d(2) by (simp_all add: new_KVRequest_def)
  have pol: "polite st0 put_request"
    using d(3) by (simp add: polite_def good_request_def put_request_def new_KVRequest_def is_write_op_def
        op_codes body_fits_def body_bytes_def FLUSH_COUNTERS_def)
  from kv_inv_post [OF d(5) idle pol] obtain st1 where
    st1: "PostKVRequest 0 (st0\<lparr>requests := (requests st0)(0 \<mapsto> put_request)\<rparr>) = Done st1"
    "kv_inv ''/l/'' (kv_world st0) m0 [] st1" by blast
  have r1: "kv_reach polite st0 st1"
    by (rule kv_reach.step [OF kv_reach.start kv_step.client [where st = st0 and may_post = polite and rq' = put_request, OF idle pol st1(1)]])
  have "all_answered st0" using d(2) by (simp add: all_answered_def new_KVRequest_def)
  from kv_inv_none_numbered [OF d(5) this] have "requests st1 0 = Some (Wait_rq put_request)" "mRequests st1 = []"
    using st1(1) by (auto simp: PostKVRequest_def EnqueueKVRequest_def send_cases split: if_splits)
  with d(1,4,5) r1 st1(2) show ?thesis by blast
qed

lemma demo_answered:
  "\<exists>st0 st rq. database ''/l/'' ''/l/'' empty_disk [] id one_client st0 \<and> kv_reach polite st0 st \<and>
    requests st 0 = Some rq \<and> mSync rq \<and> is_write_op (mOpType_rq rq) \<and>
    crash (kv_world st) (kv_world st) \<and> benign (kv_world st)"
proof -
  from demo_posted obtain st0 st1 m0 where d: "database ''/l/'' ''/l/'' empty_disk [] id one_client st0"
    "kv_reach polite st0 st1" "requests st1 0 = Some (Wait_rq put_request)"
    "\<forall>n. prefix (durable_of (kv_world st0) n) (file_of (kv_world st0) n)"
    "kv_inv ''/l/'' (kv_world st0) m0 [] st0" "kv_inv ''/l/'' (kv_world st0) m0 [] st1" by blast
  from d(3) have q1: "map_option asks (requests st1 0) = Some (asks put_request)"
    by (simp add: asks_def Wait_rq_def)
  from d(6) obtain n where "kv_work ''/l/'' (kv_world st0) m0 [] n st1" unfolding kv_inv_work by blast
  from rounds_answer [OF this d(2)] obtain k st where st: "run_rounds k st1 = Done st" "kv_reach polite st0 st"
    "\<forall>a rq. requests st a = Some rq \<longrightarrow> mSync rq" by blast
  have "map_option asks (requests st 0) = Some (asks put_request)"
    using run_rounds_questions [OF st(1)] q1 by (simp add: same_questions_def)
  then obtain rq where rq: "requests st 0 = Some rq" "asks rq = asks put_request" by auto
  have "is_write_op (mOpType_rq rq)"
    using asks_write(1) [OF rq(2)] by (simp add: put_request_def is_write_op_def)
  moreover have "crash (kv_world st) (kv_world st) \<and> benign (kv_world st)"
    by (rule crash_self [OF kv_inv_reach [OF st(2) d(5)] d(4)])
  ultimately show ?thesis using d(1) st(2,3) rq(1) by blast
qed

section \<open>Durability\<close>

text \<open>C1: once the database has told a client that a put, add, delete or table operation is
  done, the operation is in the log for good: whatever a crash destroys of what was not yet
  synced, recovery from the crashed disk succeeds and hands out a record with the operation,
  table, key and value of the request.\<close>

theorem acknowledged_writes_survive_a_crash:
  assumes "database dbDir dir w fs alloc cl st0" "kv_reach polite st0 st"
    and "requests st a = Some rq" "mSync rq" "is_write_op (mOpType_rq rq)"
    and "crash (kv_world st) wc" "benign wc"
  shows "\<exists>rv' w'. RecoverFromLog dir (rv, wc) = Done (E_OK, rv', w') \<and>
    (\<exists>r \<in> set (rv_records rv'). carries r rq)"
proof -
  from database_inv [OF assms(1,2)] obtain w0 m0 segs F rs ws q where
    i: "kv_inv_at dir w0 m0 (map sealed (all_records fs)) segs F rs ws q st"
    unfolding kv_inv_def by blast
  then have "acked_ok (take F (concat (map snd segs))) st" by (simp add: kv_inv_at_def core_def)
  with assms(3-5) obtain r where r: "r \<in> set (take F (concat (map snd segs)))" "carries r rq"
    unfolding acked_ok_def by blast
  have "carries (sealed r) rq" using r(2) same_op_carries [OF same_op_sealed] by blast
  with kv_inv_crash [OF i assms(6,7), of rv] r(1) show ?thesis by blast
qed

theorem acknowledged_writes_survive_a_crash_witness:
  "\<exists>(st :: kvdb) rq rv' w'. requests st 0 = Some rq \<and>
    RecoverFromLog ''/l/'' (\<lparr>rv_records = [], rv_max_id = 0, rv_epoch = 0\<rparr>, kv_world st) =
      Done (E_OK, rv', w') \<and> (\<exists>r \<in> set (rv_records rv'). carries r rq)"
proof -
  from demo_answered obtain st0 st rq where d: "database ''/l/'' ''/l/'' empty_disk [] id one_client st0"
    "kv_reach polite st0 st" "requests st 0 = Some rq" "mSync rq" "is_write_op (mOpType_rq rq)"
    "crash (kv_world st) (kv_world st)" "benign (kv_world st)" by blast
  from acknowledged_writes_survive_a_crash [OF d, of "\<lparr>rv_records = [], rv_max_id = 0, rv_epoch = 0\<rparr>"] d(3)
  show ?thesis by blast
qed

lemma kv_inv_visible:
  assumes "kv_inv dir w0 m0 R0 st" "cells (flatten (mDataStore st)) (t, k) = Some v"
    "crash (kv_world st) wc" "benign wc"
  shows "\<exists>rv' w'. RecoverFromLog dir (rv, wc) = Done (E_OK, rv', w') \<and>
    (\<exists>r \<in> set (rv_records rv'). record_sets r t k v)"
proof -
  from assms(1) obtain segs F rs ws q where i: "kv_inv_at dir w0 m0 R0 segs F rs ws q st"
    unfolding kv_inv_def by blast
  then have "store_from (set R0 \<union> set (take F (concat (map snd segs)))) (mDataStore st)"
    by (simp add: kv_inv_at_def core_def)
  with assms(2) obtain r where r: "r \<in> set R0 \<union> set (take F (concat (map snd segs)))"
    "record_sets r t k v" unfolding store_from_def by blast
  have sealed: "record_sets (sealed r) t k v"
    using r(2) same_op_sealed [of r] by (simp add: record_sets_def same_op_def)
  from kv_inv_crash [OF i assms(3,4), of rv] obtain rv' w' where
    rv': "RecoverFromLog dir (rv, wc) = Done (E_OK, rv', w')"
    "set R0 \<union> sealed ` set (take F (concat (map snd segs))) \<subseteq> set (rv_records rv')"
    by blast
  have "r \<in> set (rv_records rv') \<or> sealed r \<in> set (rv_records rv')" using r(1) rv'(2) by blast
  with rv'(1) r(2) sealed show ?thesis by blast
qed

text \<open>C4: readers see durable data only. Every value a table of the running database holds was
  set by a put or add whose record recovery finds after any crash: a read never returns
  something that a crash could take back.\<close>

theorem visible_values_are_durable:
  assumes "database dbDir dir w fs alloc cl st0" "kv_reach polite st0 st"
    and "cells (flatten (mDataStore st)) (t, k) = Some v" "crash (kv_world st) wc" "benign wc"
  shows "\<exists>rv' w'. RecoverFromLog dir (rv, wc) = Done (E_OK, rv', w') \<and>
    (\<exists>r \<in> set (rv_records rv'). record_sets r t k v)"
  using database_inv [OF assms(1,2)] kv_inv_visible [OF _ assms(3-5)] by blast

section \<open>Recovery\<close>

text \<open>What one record does to the data store.\<close>

definition replay_one :: "log_record \<Rightarrow> data_store \<Rightarrow> data_store" where
  "replay_one r ds = (case mBody r of None \<Rightarrow> ds
     | Some b \<Rightarrow> (case record_op r b of None \<Rightarrow> ds | Some x \<Rightarrow> snd (exec_op x ds)))"

definition replay :: "log_record list \<Rightarrow> data_store" where
  "replay rs = fold replay_one rs Map.empty"

lemma replay_one_sealed [simp]: "replay_one (sealed r) = replay_one r"
  by (simp add: replay_one_def sealed_def record_op_def fun_eq_iff split: option.split)

lemma fold_replay_sealed: "fold replay_one (map sealed rs) ds = fold replay_one rs ds"
  by (simp add: fold_map comp_def)

lemma UpdateDataStore_replay:
  "UpdateDataStore r st = Done (e, st1) \<Longrightarrow> mDataStore st1 = replay_one r (mDataStore st)"
  by (auto simp: UpdateDataStore_def replay_one_def split_beta split: if_splits option.splits)

text \<open>A step of the log center while recovered records are all it has.\<close>

lemma recover_step:
  assumes inv: "kv_inv_at dir w0 m0 R0 [] 0 (r # rs) [] [] st"
  shows "\<exists>st1 rs1. Run_step log_center st = Done (Some st1) \<and> kv_inv_at dir w0 m0 R0 [] 0 rs1 [] [] st1 \<and>
    fold replay_one rs1 (mDataStore st1) = fold replay_one (r # rs) (mDataStore st) \<and>
    (rs1 = rs \<or> rs1 = r # rs \<and> loop_distance (lc_svc st1) < loop_distance (lc_svc st))"
proof -
  have sv: "service_ok 5000 (lc_svc st)" "mToFlushLog st = []"
    "queue_ok (kv_heap st) (pending log_center st) (pending request_center st) (lc_entries (r # rs) []) []"
    and core: "core dir w0 m0 R0 [] 0 (r # rs) [] [] st"
    using inv by (simp_all add: kv_inv_at_def core_def flush_ok_def)
  show ?thesis
  proof (cases "run_pc (lc_svc st) = InBatch \<and> ctxVec (lc_svc st) \<noteq> []")
    case True
    then obtain p ps where vec: "ctxVec (lc_svc st) = p # ps" by (cases "ctxVec (lc_svc st)") auto
    let ?s = "st\<lparr>lc_svc := (lc_svc st)\<lparr>ctxVec := ps\<rparr>\<rparr>"
    have q: "queue_ok (kv_heap st) (p # ps @ mQueue (lc_svc st)) (pending request_center st)
        ((LOG_recover_log, RecordArg r) # lc_entries rs []) []"
      using sv(3) vec by (simp add: pending_def lc_entries_def)
    then have c: "ctxs (kv_heap st) p = Some (local_ctx LOG_recover_log (RecordArg r))"
      using queue_ok_head(1) by fastforce
    note qd = queue_ok_drop(1) [OF q]
    have "core dir w0 m0 R0 [] 0 (r # rs) [] [] ?s" using core by simp
    from core_recover [OF this] obtain st2 where st2: "HandleRecoverLog r ?s = Done st2"
      "core dir w0 m0 R0 [] 0 rs [] [] st2" "lc_svc st2 = lc_svc ?s" "rc_svc st2 = rc_svc ?s"
      "kv_heap st2 = kv_heap ?s" by blast
    have ds: "mDataStore st2 = replay_one r (mDataStore st)"
      using st2(1) UpdateDataStore_replay by (auto simp: HandleRecoverLog_def outcome_simps)
    have run: "mRunning (lc_svc ?s)" using sv(1) by (simp add: service_ok_def)
    have "Run_one log_center p ?s = Done (st2\<lparr>kv_heap := drop_ctx p (kv_heap st2)\<rparr>)"
      by (rule log_center_one [OF run _ HandleLocalContext_recover [OF st2(1)]]) (use c st2(5) in simp_all)
    then have "Run_step log_center st = Done (Some (st2\<lparr>kv_heap := drop_ctx p (kv_heap st2)\<rparr>))"
      using True vec by (simp add: Run_step_def on_svc_def)
    moreover have "kv_inv_at dir w0 m0 R0 [] 0 rs [] [] (st2\<lparr>kv_heap := drop_ctx p (kv_heap st2)\<rparr>)"
      using inv st2 qd True by (simp add: kv_inv_at_def pending_def service_ok_def loop_wf_def)
    ultimately show ?thesis using ds
      by (intro exI [of _ "st2\<lparr>kv_heap := drop_ctx p (kv_heap st2)\<rparr>"] exI [of _ rs]) simp
  next
    case False
    have ne: "pending log_center st \<noteq> []" using sv(3) by (auto simp: queue_ok_def lc_entries_def)
    have pc: "run_pc (lc_svc st) \<in> {InBatch, AtHead, Waiting}" "run_pc (lc_svc st) \<noteq> InBatch \<longrightarrow> ctxVec (lc_svc st) = []"
      "mRunning (lc_svc st)" "mSleepNanosec (lc_svc st) = 5000"
      using sv(1) by (cases "run_pc (lc_svc st)"; simp add: service_ok_def loop_wf_def)+
    obtain s where s: "Run_step log_center st = Done (Some (st\<lparr>lc_svc := s\<rparr>))" "service_ok 5000 s"
      "ctxVec s @ mQueue s = pending log_center st" "loop_distance s < loop_distance (lc_svc st)"
    proof (cases "run_pc (lc_svc st)")
      case InBatch
      with False pc show ?thesis
        by (intro that [of "(lc_svc st)\<lparr>run_pc := AtHead\<rparr>"])
          (simp_all add: Run_step_def on_svc_def service_ok_def loop_wf_def pending_def loop_distance_def)
    next
      case AtHead
      with pc show ?thesis
        by (intro that [of "(lc_svc st)\<lparr>run_pc := Waiting\<rparr>"])
          (simp_all add: Run_step_def on_svc_def service_ok_def loop_wf_def pending_def loop_distance_def)
    next
      case Waiting
      with pc ne show ?thesis
        by (intro that [of "(lc_svc st)\<lparr>ctxVec := mQueue (lc_svc st), mQueue := [], run_pc := InBatch\<rparr>"])
          (simp_all add: Run_step_def Run_grab_def Let_def on_svc_def service_ok_def loop_wf_def pending_def loop_distance_def)
    qed (use pc in simp_all)
    have "kv_inv_at dir w0 m0 R0 [] 0 (r # rs) [] [] (st\<lparr>lc_svc := s\<rparr>)"
      by (rule kv_inv_at_services(1) [OF inv s(2,3)])
    with s(1,4) show ?thesis by (intro exI [of _ "st\<lparr>lc_svc := s\<rparr>"] exI [of _ "r # rs"]) simp
  qed
qed

lemma recover_steps:
  "kv_inv_at dir w0 m0 R0 [] 0 rs [] [] st \<Longrightarrow> \<exists>k st'. run_steps k log_center st = Done st' \<and>
    pending log_center st' = [] \<and> mDataStore st' = fold replay_one rs (mDataStore st)"
proof (induction "5 * length rs + loop_distance (lc_svc st)" arbitrary: rs st rule: less_induct)
  case less
  show ?case
  proof (cases rs)
    case Nil
    then have "pending log_center st = []"
      using less.prems by (auto simp: kv_inv_at_def queue_ok_def lc_entries_def)
    with Nil show ?thesis by (intro exI [of _ "0 :: nat"] exI [of _ st]) simp
  next
    case (Cons r rs')
    from recover_step [OF less.prems [unfolded Cons]] obtain st1 rs1 where
      s: "Run_step log_center st = Done (Some st1)" "kv_inv_at dir w0 m0 R0 [] 0 rs1 [] [] st1"
      "fold replay_one rs1 (mDataStore st1) = fold replay_one rs (mDataStore st)"
      and less1: "rs1 = rs' \<or> rs1 = rs \<and> loop_distance (lc_svc st1) < loop_distance (lc_svc st)"
      using Cons by blast
    have "5 * length rs1 + loop_distance (lc_svc st1) < 5 * length rs + loop_distance (lc_svc st)"
      using less1 loop_distance_le [of "lc_svc st1"] Cons by auto
    from less.hyps [OF this s(2)] obtain k st' where "run_steps k log_center st1 = Done st'"
      "pending log_center st' = []" "mDataStore st' = fold replay_one rs1 (mDataStore st1)" by blast
    with s(1,3) show ?thesis by (intro exI [of _ "Suc k"] exI [of _ st']) simp
  qed
qed

text \<open>A disk with one log file, for the witnesses.\<close>

abbreviation table_record :: log_record where
  "table_record \<equiv> demo_record\<lparr>mOpType := 5\<rparr>"

definition one_file_disk :: "log_record list \<Rightarrow> world" where
  "one_file_disk rs = \<lparr>files = [(log_name ''/l/'' 1 0, log_image rs [])],
     durable = [(log_name ''/l/'' 1 0, log_image rs [])], resp = [], appending = True\<rparr>"

lemma one_file_log_disk:
  assumes "\<forall>r \<in> set rs. rec_fits r \<and> is_write_op (mOpType r)"
  shows "log_disk ''/l/'' (one_file_disk rs) [(1, 0, rs)]"
proof -
  have "readable (one_file_disk rs) (log_name ''/l/'' 1 0) rs"
    using assms by (auto simp: readable_def one_file_disk_def exists_file_def file_of_def intro: torn_Nil)
  then have "log_dir ''/l/'' (one_file_disk rs) [(log_name ''/l/'' 1 0, Some rs)]"
    using log_name_exists_in_dir [of "''/l/''" _ 1 0]
    by (auto simp: log_dir_def holds_def one_file_disk_def exists_file_def)
  with assms show ?thesis
    by (simp add: log_disk_def benign_def durable_of_def file_of_def one_file_disk_def exists_file_def)
qed

lemma demo_recovered_database:
  "\<exists>st0. database ''/l/'' ''/l/'' (one_file_disk [table_record, demo_record])
      [(1, 0, [table_record, demo_record])] id one_client st0 \<and>
    (\<forall>n. prefix (durable_of (kv_world st0) n) (file_of (kv_world st0) n))"
proof -
  have "rec_fits table_record" using demo_fits by (simp add: rec_fits_def)
  then have "log_disk ''/l/'' (one_file_disk [table_record, demo_record]) [(1, 0, [table_record, demo_record])]"
    using demo_fits by (intro one_file_log_disk) (simp add: is_write_op_def op_codes)
  from database_exists [OF this demo_clients inj_on_id, of "''/l/''"] show ?thesis
    by (auto simp: with_slash_def)
qed

lemma replay_demo: "cells (flatten (replay [table_record, demo_record])) ([116], [107]) = Some [118, 49]"
  by (simp add: replay_def replay_one_def record_op_def op_codes CreateTable_def Put_def DoPut_def
      new_table_def)

lemma run_steps_reach:
  "run_steps k log_center st = Done st' \<Longrightarrow> kv_reach polite st0 st \<Longrightarrow> kv_reach polite st0 st'"
proof (induction k arbitrary: st)
  case (Suc k)
  from Suc.prems(1) obtain r where r: "Run_step log_center st = Done r"
    "(case r of None \<Rightarrow> Done st | Some st1 \<Rightarrow> run_steps k log_center st1) = Done st'"
    by (auto simp: outcome_simps)
  show ?case
  proof (cases r)
    case (Some st1)
    with r Suc.IH [of st1] kv_reach.step [OF Suc.prems(2) kv_step.log_thread] show ?thesis by simp
  qed (use r Suc.prems in simp)
qed simp

text \<open>C5: after a start the thread of the log center rebuilds the data store from the log: it
  applies the records of all log files, in the order of the files and of the records in them,
  to an empty store, and never stops before it is through.\<close>

theorem recovery_replays_the_log:
  assumes "database dbDir dir w fs alloc cl st0"
  shows "\<exists>k st. run_steps k log_center st0 = Done st \<and> pending log_center st = [] \<and>
    mDataStore st = replay (all_records fs)"
proof -
  from database_fresh [OF assms] obtain m0 where "mDataStore st0 = Map.empty"
    "kv_inv_at dir (kv_world st0) m0 (map sealed (all_records fs)) [] 0 (map sealed (all_records fs)) [] [] st0"
    by blast
  with recover_steps [OF this(2)] show ?thesis by (simp add: replay_def fold_replay_sealed)
qed

theorem recovery_replays_the_log_witness:
  "\<exists>st0 k st. run_steps k log_center st0 = Done st \<and> pending log_center st = [] \<and>
    cells (flatten (mDataStore st)) ([116], [107]) = Some [118, 49]"
proof -
  from demo_recovered_database obtain st0 where
    "database ''/l/'' ''/l/'' (one_file_disk [table_record, demo_record])
       [(1, 0, [table_record, demo_record])] id one_client st0" by blast
  from recovery_replays_the_log [OF this] have "\<exists>k st. run_steps k log_center st0 = Done st \<and> pending log_center st = [] \<and>
      mDataStore st = replay [table_record, demo_record]" by (simp add: all_records_def)
  with replay_demo show ?thesis by metis
qed

section \<open>Progress\<close>

text \<open>C3: no assertion, null pointer, index or cast of the database fails, whatever the
  interleaving of the clients with the two threads: in no reachable state does the next step
  of a thread or the next post of a client stop the process.\<close>

theorem database_never_faults:
  assumes "database dbDir dir w fs alloc cl st0" "kv_reach polite st0 st"
  shows "\<not> kv_faults polite st"
  using database_inv [OF assms] kv_inv_no_fault by blast

theorem database_never_faults_witness:
  "\<exists>st0. requests st0 = one_client \<and> \<not> kv_faults polite st0"
  using demo_database database_never_faults [OF _ kv_reach.start] by blast

text \<open>C2: no client waits for ever. From every reachable state it is enough that the two
  threads run in turn, with no further post: after finitely many rounds every request that was
  posted is answered, and it is the request that was asked.\<close>

theorem every_request_is_answered:
  assumes "database dbDir dir w fs alloc cl st0" "kv_reach polite st0 st"
  shows "\<exists>k st'. run_rounds k st = Done st' \<and> all_answered st' \<and> same_questions st st'"
proof -
  from database_inv [OF assms] obtain w0 m0 n where "kv_work dir w0 m0 (map sealed (all_records fs)) n st"
    unfolding kv_inv_work by blast
  from rounds_answer [OF this assms(2)] show ?thesis
    unfolding all_answered_def using run_rounds_questions by blast
qed

theorem every_request_is_answered_witness:
  "\<exists>st0 st k st'. database ''/l/'' ''/l/'' empty_disk [] id one_client st0 \<and>
    \<not> all_answered st \<and> run_rounds k st = Done st' \<and> all_answered st' \<and> same_questions st st'"
proof -
  from demo_posted obtain st0 st1 where d: "database ''/l/'' ''/l/'' empty_disk [] id one_client st0"
    "kv_reach polite st0 st1" "requests st1 0 = Some (Wait_rq put_request)" by blast
  have "\<not> mSync (Wait_rq put_request)" by (simp add: Wait_rq_def)
  with d(3) have "\<not> all_answered st1" unfolding all_answered_def by blast
  with every_request_is_answered [OF d(1,2)] d(1) show ?thesis by blast
qed

theorem visible_values_are_durable_witness:
  "\<exists>(st :: kvdb) rv' w'. cells (flatten (mDataStore st)) ([116], [107]) = Some [118, 49] \<and>
    RecoverFromLog ''/l/'' (\<lparr>rv_records = [], rv_max_id = 0, rv_epoch = 0\<rparr>, kv_world st) =
      Done (E_OK, rv', w') \<and> (\<exists>r \<in> set (rv_records rv'). record_sets r [116] [107] [118, 49])"
proof -
  let ?rs = "[table_record, demo_record]"
  from demo_recovered_database obtain st0 where d:
    "database ''/l/'' ''/l/'' (one_file_disk ?rs) [(1, 0, ?rs)] id one_client st0"
    "\<forall>n. prefix (durable_of (kv_world st0) n) (file_of (kv_world st0) n)" by blast
  from database_fresh [OF d(1)] obtain m0 where m0: "mDataStore st0 = Map.empty"
    "kv_inv_at ''/l/'' (kv_world st0) m0 (map sealed ?rs) [] 0 (map sealed ?rs) [] [] st0"
    by (auto simp: all_records_def)
  from recover_steps [OF m0(2)] obtain k st where st: "run_steps k log_center st0 = Done st"
    "mDataStore st = replay ?rs" using m0(1) by (metis fold_replay_sealed replay_def)
  have r: "kv_reach polite st0 st" by (rule run_steps_reach [OF st(1) kv_reach.start])
  have c: "crash (kv_world st) (kv_world st)" "benign (kv_world st)"
    using crash_self [OF kv_inv_reach [OF r kv_invI [OF m0(2)]] d(2)] by blast+
  have v: "cells (flatten (mDataStore st)) ([116], [107]) = Some [118, 49]"
    using st(2) replay_demo by simp
  from visible_values_are_durable [OF d(1) r v c, of "\<lparr>rv_records = [], rv_max_id = 0, rv_epoch = 0\<rparr>"] v
  show ?thesis by blast
qed

section \<open>The order of responses\<close>

text \<open>
  A response is a set of pointers, so the request center applies the records of one flush in
  the order of the addresses the allocator gave out. That is the order of the log only while
  addresses grow.
\<close>

lemma smap_insert_last:
  "\<forall>k' \<in> fst ` set m. k' < k \<Longrightarrow> smap_insert k v m = m @ [(k, v)]"
  by (rule smap_insert_append)

lemma collect_pairs_in_order:
  assumes "strict_mono (pair_addr st)" "collect_pairs m rsp st = Done (rsp1, st1)"
    "\<forall>a \<in> fst ` set (pairs rsp). a < pair_addr st (pairs_made st)"
  shows "map (\<lambda>x. snd (snd x)) (pairs rsp1) = map (\<lambda>x. snd (snd x)) (pairs rsp) @ map snd m"
  using assms
proof (induction m rsp st rule: collect_pairs.induct)
  case (2 l r m rsp st)
  from "2.prems"(2) obtain i where i: "map_of (mLogId2RequestId st) l = Some i"
    by (auto split: option.splits)
  let ?a = "pair_addr st (pairs_made st)"
  let ?rsp = "rsp\<lparr>pairs := smap_insert ?a (i, r) (pairs rsp)\<rparr>"
  let ?st = "st\<lparr>pairs_made := Suc (pairs_made st)\<rparr>"
  have ins: "smap_insert ?a (i, r) (pairs rsp) = pairs rsp @ [(?a, i, r)]"
    by (rule smap_insert_append) (use "2.prems"(3) in blast)
  have lt: "?a < pair_addr st (Suc (pairs_made st))"
    using "2.prems"(1) by (simp add: strict_mono_def)
  have "\<forall>b \<in> fst ` set (pairs ?rsp). b < pair_addr ?st (pairs_made ?st)"
  proof
    fix b assume "b \<in> fst ` set (pairs ?rsp)"
    then have "b = ?a \<or> b \<in> fst ` set (pairs rsp)" using ins by auto
    then have "b \<le> ?a" using "2.prems"(3) by auto
    with lt show "b < pair_addr ?st (pairs_made ?st)" by simp
  qed
  from "2.IH" [OF i _ _ this] "2.prems"(1,2) i ins show ?case by simp
qed simp

lemma respond_replay:
  "respond ps st = Done st1 \<Longrightarrow>
    mDataStore st1 = fold replay_one (map (\<lambda>x. snd (snd x)) ps) (mDataStore st)"
proof (induction ps st rule: respond.induct)
  case (2 addr i r ps st)
  from "2.prems" obtain a e st2 rq where s: "map_of (mRequests st) i = Some a"
    "UpdateDataStore r st = Done (e, st2)" "requests st2 a = Some rq"
    "respond ps (st2\<lparr>requests := (requests st2)(a \<mapsto> Signal_rq (rq\<lparr>mErr := e\<rparr>)),
       mRequests := AList.delete i (mRequests st2)\<rparr>) = Done st1"
    by (auto simp: outcome_simps split: option.splits)
  from "2.IH" [OF s(1,2) refl s(3,4)] UpdateDataStore_replay [OF s(2)] show ?case by simp
qed simp

text \<open>C12: with an allocator whose addresses grow, the request center applies the records of a
  flush to the data store in the order of the log, so the live store is what replaying those
  records would make of it.\<close>

theorem responses_replay_the_log_in_order:
  assumes "strict_mono (pair_addr st)"
    and "collect_pairs m \<lparr>pairs = []\<rparr> st = Done (rsp, st1)" "HandleKVResponse rsp st2 = Done st3"
  shows "mDataStore st3 = fold replay_one (map snd m) (mDataStore st2)"
  using collect_pairs_in_order [OF assms(1,2)] respond_replay assms(3)
  by (simp add: HandleKVResponse_def)

text \<open>Two writes to one key, flushed together.\<close>

definition two_writes :: "(u64 \<times> log_record) list" where
  "two_writes = [(1, demo_record\<lparr>mLogId := 1\<rparr>),
     (2, demo_record\<lparr>mLogId := 2, mBody := Some \<lparr>mTableName = [116], mKey = [107], mValue = [118, 50]\<rparr>\<rparr>)]"

definition two_clients :: "(nat \<Rightarrow> nat) \<Rightarrow> kvdb" where
  "two_clients alloc =
     \<lparr>kv_heap = empty_heap, lc_svc = new_LogCenter ''l'', mLogId2RequestId = [(1, 1), (2, 2)],
       mToFlushLog = two_writes, mMaxLogId = 2, mFlushCount = replicate FLUSH_COUNTERS 0,
       rc_svc = new_RequestCenter ''r'', mRequestID = 2, mRequests = [(1, 0), (2, 1)],
       mPersistLogger = \<lparr>mCurrentLog = None, mLogDir = ''/l/'', mPersistMaxLogId = 2\<rparr>,
       kv_world = empty_disk, mDataStore = replay [table_record], mDBEpoch = 1,
       requests = [0 \<mapsto> Wait_rq put_request, 1 \<mapsto> Wait_rq put_request], pair_addr = alloc, pairs_made = 0\<rparr>"

theorem responses_replay_the_log_in_order_witness:
  "\<exists>rsp st1 st3. collect_pairs two_writes \<lparr>pairs = []\<rparr> (two_clients id) = Done (rsp, st1) \<and>
    HandleKVResponse rsp st1 = Done st3 \<and>
    mDataStore st3 = fold replay_one (map snd two_writes) (replay [table_record])"
proof -
  have m: "strict_mono (pair_addr (two_clients id))" by (simp add: two_clients_def strict_mono_def)
  let ?rsp = "\<lparr>pairs = [(0, 1, snd (two_writes ! 0)), (1, 2, snd (two_writes ! 1))]\<rparr>"
  let ?st1 = "(two_clients id)\<lparr>pairs_made := 2\<rparr>"
  have c: "collect_pairs two_writes \<lparr>pairs = []\<rparr> (two_clients id) = Done (?rsp, ?st1)"
    by (simp add: two_writes_def two_clients_def numeral_2_eq_2)
  have "\<exists>st3. HandleKVResponse ?rsp ?st1 = Done st3"
    by (simp add: HandleKVResponse_def two_writes_def two_clients_def UpdateDataStore_def
        record_op_def op_codes split_beta)
  moreover have "mDataStore ?st1 = replay [table_record]" by (simp add: two_clients_def)
  ultimately show ?thesis using c responses_replay_the_log_in_order [OF m c] by metis
qed

text \<open>
  What a record does to one cell: it may write it, and it may remove the whole table. The last record
  that writes the cell decides, in whatever order the records are applied.
\<close>

definition record_kv :: "log_record \<Rightarrow> kv_op option" where
  "record_kv r = Option.bind (mBody r) (record_op r)"

fun op_touches :: "bytes \<Rightarrow> bytes \<Rightarrow> kv_op \<Rightarrow> bool" where
  "op_touches t k (KPut t' k' v) \<longleftrightarrow> t' = t \<and> k' = k"
| "op_touches t k (KAdd t' k' v) \<longleftrightarrow> t' = t \<and> k' = k"
| "op_touches t k (KDel t' k') \<longleftrightarrow> t' = t \<and> k' = k"
| "op_touches t k _ \<longleftrightarrow> False"

definition touches :: "bytes \<Rightarrow> bytes \<Rightarrow> log_record \<Rightarrow> bool" where
  "touches t k r \<longleftrightarrow> (case record_kv r of None \<Rightarrow> False | Some x \<Rightarrow> op_touches t k x)"

definition drops :: "bytes \<Rightarrow> log_record \<Rightarrow> bool" where
  "drops t r \<longleftrightarrow> record_kv r = Some (KDropTable t)"

definition puts :: "bytes \<Rightarrow> bytes \<Rightarrow> bytes \<Rightarrow> log_record \<Rightarrow> bool" where
  "puts t k v r \<longleftrightarrow> record_kv r = Some (KPut t k v)"

lemma replay_one_kv: "replay_one r ds = (case record_kv r of None \<Rightarrow> ds | Some x \<Rightarrow> snd (exec_op x ds))"
  by (simp add: replay_one_def record_kv_def split: option.split)

lemma replay_keeps_table: "\<not> drops t r \<Longrightarrow> t \<in> dom ds \<Longrightarrow> t \<in> dom (replay_one r ds)"
proof -
  assume "\<not> drops t r" "t \<in> dom ds"
  moreover have "t \<in> dom (snd (exec_op x ds))" if "t \<in> dom ds" "x \<noteq> KDropTable t" for x
    using that by (cases x) (auto simp: store_ops split_beta split: option.splits)
  ultimately show ?thesis by (cases "record_kv r") (simp_all add: replay_one_kv drops_def)
qed

lemma replay_puts: "puts t k v r \<Longrightarrow> t \<in> dom ds \<Longrightarrow> Get t k d (replay_one r ds) = (E_OK, v)"
  using get_after_put by (simp add: puts_def replay_one_kv)

lemma replay_elsewhere:
  assumes "\<not> touches t k r" "\<not> drops t r" "t \<in> dom ds"
  shows "Get t k d (replay_one r ds) = Get t k d ds"
proof -
  have "Get t k d (snd (exec_op x ds)) = Get t k d ds" if "\<not> op_touches t k x" "x \<noteq> KDropTable t" for x
    using that assms(3) by (cases x) (auto simp: Get_def store_ops split_beta sdt.table_laws split: option.splits)
  with assms(1,2) show ?thesis by (auto simp: replay_one_kv touches_def drops_def split: option.splits)
qed

lemma last_put_stays:
  assumes "t \<in> dom ds" "n < length rs" "puts t k v (rs ! n)" "\<forall>r \<in> set rs. \<not> drops t r"
    and "\<And>j. n < j \<Longrightarrow> j < length rs \<Longrightarrow> \<not> touches t k (rs ! j)"
  shows "Get t k d (fold replay_one rs ds) = (E_OK, v)"
proof -
  have tab: "t \<in> dom (fold replay_one rs ds)" if "t \<in> dom ds" "\<forall>r \<in> set rs. \<not> drops t r" for rs ds
    using that by (induction rs arbitrary: ds) (simp_all add: replay_keeps_table)
  have same: "Get t k d (fold replay_one rs ds) = Get t k d ds"
    if "t \<in> dom ds" "\<forall>r \<in> set rs. \<not> drops t r" "\<forall>r \<in> set rs. \<not> touches t k r" for rs ds
    using that by (induction rs arbitrary: ds) (simp_all add: replay_keeps_table replay_elsewhere)
  let ?a = "fold replay_one (take n rs) ds"
  have rs: "rs = take n rs @ rs ! n # drop (Suc n) rs" by (rule id_take_nth_drop [OF assms(2)])
  have a: "t \<in> dom ?a" by (rule tab [OF assms(1)]) (use assms(4) in \<open>auto dest: in_set_takeD\<close>)
  have "\<not> touches t k r" if "r \<in> set (drop (Suc n) rs)" for r
    using that assms(5) by (auto simp: in_set_conv_nth)
  moreover have "\<forall>r \<in> set (drop (Suc n) rs). \<not> drops t r" using assms(4) by (auto dest: in_set_dropD)
  moreover have "t \<in> dom (replay_one (rs ! n) ?a)" by (rule replay_keeps_table [OF _ a]) (use assms(2,4) in simp)
  ultimately have "Get t k d (fold replay_one (drop (Suc n) rs) (replay_one (rs ! n) ?a)) = (E_OK, v)"
    using same replay_puts [OF assms(3) a] by simp
  then show ?thesis by (subst rs) simp
qed

text \<open>The set of pairs holds every record at its address, in the order of the addresses.\<close>

lemma set_smap_insert: "k \<notin> fst ` set m \<Longrightarrow> set (smap_insert k v m) = insert (k, v) (set m)"
  by (induction k v m rule: smap_insert.induct) auto

abbreviation addr_record :: "nat \<times> request_id_log_record \<Rightarrow> nat \<times> log_record" where
  "addr_record x \<equiv> (fst x, snd (snd x))"

lemma collect_pairs_set:
  assumes "inj (pair_addr st)" "collect_pairs m rsp st = Done (rsp1, st1)" "smap_sorted (pairs rsp)"
    and "fst ` set (pairs rsp) \<subseteq> pair_addr st ` {..<pairs_made st}"
  shows "smap_sorted (pairs rsp1) \<and> addr_record ` set (pairs rsp1) = addr_record ` set (pairs rsp) \<union>
    (\<lambda>n. (pair_addr st (pairs_made st + n), snd (m ! n))) ` {..<length m}"
  using assms
proof (induction m rsp st rule: collect_pairs.induct)
  case (2 l r m rsp st)
  from "2.prems"(2) obtain i where i: "map_of (mLogId2RequestId st) l = Some i" by (auto split: option.splits)
  let ?a = "pair_addr st (pairs_made st)"
  let ?rsp = "rsp\<lparr>pairs := smap_insert ?a (i, r) (pairs rsp)\<rparr>" and ?st = "st\<lparr>pairs_made := Suc (pairs_made st)\<rparr>"
  have "?a \<notin> pair_addr st ` {..<pairs_made st}" using "2.prems"(1) by (auto dest: injD)
  then have new: "?a \<notin> fst ` set (pairs rsp)" using "2.prems"(4) by blast
  have "smap_sorted (pairs ?rsp)" using smap_sorted_insert [OF "2.prems"(3)] by simp
  moreover have "fst ` set (pairs ?rsp) \<subseteq> pair_addr ?st ` {..<pairs_made ?st}"
    using "2.prems"(4) by (auto simp: lessThan_Suc)
  ultimately have ih: "smap_sorted (pairs rsp1) \<and> addr_record ` set (pairs rsp1) = addr_record ` set (pairs ?rsp) \<union>
      (\<lambda>n. (pair_addr st (Suc (pairs_made st + n)), snd (m ! n))) ` {..<length m}"
    using "2.IH" [OF i] "2.prems"(1,2) i by simp
  have "{..<length ((l, r) # m)} = insert 0 (Suc ` {..<length m})" by (simp add: lessThan_Suc_eq_insert_0)
  then have "(\<lambda>n. (pair_addr st (pairs_made st + n), snd (((l, r) # m) ! n))) ` {..<length ((l, r) # m)} =
      insert (?a, r) ((\<lambda>n. (pair_addr st (Suc (pairs_made st + n)), snd (m ! n))) ` {..<length m})"
    by (simp add: image_image)
  with ih show ?case using set_smap_insert [OF new] by simp
qed simp

text \<open>C13: Of the writes of one flush to a key the live store keeps the one whose response object has the
  highest address, and the log the one that was logged last: when no record of the flush drops the table, the i-th
  record is the last in the log to write the key and the j-th the one with the highest address to do so, and both
  are puts, then a get is answered with the value of the j-th, while replaying those records gives the value
  of the i-th. Unless they are the same, clients read a value that a restart takes away.\<close>

theorem response_order_may_contradict_the_log:
  assumes "inj (pair_addr st)"
    and "collect_pairs m \<lparr>pairs = []\<rparr> st = Done (rsp, st1)" "HandleKVResponse rsp st2 = Done st3"
    and "t \<in> dom (mDataStore st2)" "\<forall>(l, r) \<in> set m. \<not> drops t r"
    and "i < length m" "puts t k u (snd (m ! i))" "j < length m" "puts t k v (snd (m ! j))"
    and "\<forall>n < length m. touches t k (snd (m ! n)) \<longrightarrow>
      n \<le> i \<and> pair_addr st (pairs_made st + n) \<le> pair_addr st (pairs_made st + j)"
  shows "Get t k d (mDataStore st3) = (E_OK, v) \<and>
    Get t k d (fold replay_one (map snd m) (mDataStore st2)) = (E_OK, u)"
proof
  let ?addr = "\<lambda>n. pair_addr st (pairs_made st + n)"
  let ?ps = "pairs rsp" and ?rec = "\<lambda>x. snd (snd x)"
  have ps: "smap_sorted ?ps" "addr_record ` set ?ps = (\<lambda>n. (?addr n, snd (m ! n))) ` {..<length m}"
    using collect_pairs_set [OF assms(1,2)] by simp_all
  have live: "mDataStore st3 = fold replay_one (map ?rec ?ps) (mDataStore st2)"
    using respond_replay assms(3) by (simp add: HandleKVResponse_def)
  from ps(2) assms(8) have "(?addr j, snd (m ! j)) \<in> addr_record ` set ?ps" by simp
  then obtain x where "x \<in> set ?ps" "fst x = ?addr j" "?rec x = snd (m ! j)" by auto
  then obtain q where q: "q < length ?ps" "fst (?ps ! q) = ?addr j" "?rec (?ps ! q) = snd (m ! j)"
    by (metis in_set_conv_nth)
  have mem: "\<exists>n < length m. fst x = ?addr n \<and> ?rec x = snd (m ! n)" if "x \<in> set ?ps" for x
  proof -
    have "addr_record x \<in> addr_record ` set ?ps" using that by blast
    then show ?thesis unfolding ps(2) by auto
  qed
  show "Get t k d (mDataStore st3) = (E_OK, v)"
    unfolding live
  proof (rule last_put_stays [OF assms(4), of q])
    show "\<forall>r \<in> set (map ?rec ?ps). \<not> drops t r" using mem assms(5) by (fastforce simp: case_prod_unfold)
    fix p assume p: "q < p" "p < length (map ?rec ?ps)"
    then have "fst (?ps ! q) < fst (?ps ! p)" using ps(1) by (simp add: sorted_wrt_iff_nth_less)
    moreover from mem [of "?ps ! p"] p obtain n where
      n: "n < length m" "fst (?ps ! p) = ?addr n" "?rec (?ps ! p) = snd (m ! n)" by auto
    ultimately show "\<not> touches t k (map ?rec ?ps ! p)" using assms(10) n q(2) p(2) by auto
  qed (use q assms(9) in simp_all)
  show "Get t k d (fold replay_one (map snd m) (mDataStore st2)) = (E_OK, u)"
    by (rule last_put_stays [OF assms(4), of i]) (use assms(5-7,10) in \<open>auto simp: leD\<close>)
qed

theorem response_order_may_contradict_the_log_witness:
  "\<exists>rsp st1 st3. collect_pairs two_writes \<lparr>pairs = []\<rparr> (two_clients (\<lambda>n. if n < 2 then 1 - n else n)) = Done (rsp, st1) \<and>
    HandleKVResponse rsp st1 = Done st3 \<and>
    Get [116] [107] [] (mDataStore st3) = (E_OK, [118, 49]) \<and>
    Get [116] [107] [] (fold replay_one (map snd two_writes) (mDataStore st1)) = (E_OK, [118, 50])"
proof -
  let ?a = "\<lambda>n :: nat. if n < 2 then 1 - n else n"
  let ?rsp = "\<lparr>pairs = [(0, 2, snd (two_writes ! 1)), (1, 1, snd (two_writes ! 0))]\<rparr>"
  let ?st1 = "(two_clients ?a)\<lparr>pairs_made := 2\<rparr>"
  have c: "collect_pairs two_writes \<lparr>pairs = []\<rparr> (two_clients ?a) = Done (?rsp, ?st1)"
    by (simp add: two_writes_def two_clients_def numeral_2_eq_2)
  have "\<exists>st3. HandleKVResponse ?rsp ?st1 = Done st3"
    by (simp add: HandleKVResponse_def two_writes_def two_clients_def UpdateDataStore_def
        record_op_def op_codes split_beta)
  then obtain st3 where st3: "HandleKVResponse ?rsp ?st1 = Done st3" by blast
  have inj: "inj (pair_addr (two_clients ?a))" by (auto simp: two_clients_def inj_def split: if_splits)
  have puts: "puts [116] [107] [118, 49] (snd (two_writes ! 0))" "puts [116] [107] [118, 50] (snd (two_writes ! 1))"
    by (simp_all add: two_writes_def puts_def record_kv_def record_op_def op_codes)
  have "[116] \<in> dom (mDataStore ?st1)"
    by (simp add: two_clients_def replay_def replay_one_def record_op_def op_codes CreateTable_def)
  moreover have "\<forall>(l, r) \<in> set two_writes. \<not> drops [116] r"
    by (simp add: two_writes_def drops_def record_kv_def record_op_def op_codes)
  moreover have "\<forall>n < length two_writes. touches [116] [107] (snd (two_writes ! n)) \<longrightarrow>
      n \<le> 1 \<and> pair_addr (two_clients ?a) (pairs_made (two_clients ?a) + n) \<le>
        pair_addr (two_clients ?a) (pairs_made (two_clients ?a) + 0)"
    by (auto simp: two_writes_def two_clients_def less_Suc_eq)
  ultimately have "Get [116] [107] [] (mDataStore st3) = (E_OK, [118, 49]) \<and>
      Get [116] [107] [] (fold replay_one (map snd two_writes) (mDataStore ?st1)) = (E_OK, [118, 50])"
    by (intro response_order_may_contradict_the_log [OF inj c st3, of "[116]" 1 "[107]" "[118, 50]" 0 "[118, 49]"])
      (use puts in \<open>simp_all add: two_writes_def\<close>)
  with c st3 show ?thesis by blast
qed

section \<open>Records that stop recovery\<close>

text \<open>C14: the operation code of a request is checked only after it is on disk. A request with an
  unknown code is numbered and queued for the log like any other write, the log writes its
  record as it is, and from then on every recovery runs into the assertion of the data store
  update when it reaches that record.\<close>

theorem unknown_operation_poisons_the_log:
  assumes "requests st a = Some rq" "mOpType_rq rq \<noteq> OP_get" "\<not> is_write_op (mOpType_rq rq)"
    and "mRunning (lc_svc st)"
  shows "\<exists>st1 p r. HandleNewKVRequest a st = Done st1 \<and>
    mQueue (lc_svc st1) = mQueue (lc_svc st) @ [p] \<and>
    ctxs (kv_heap st1) p = Some (local_ctx LOG_write_log (RecordArg r)) \<and> carries r rq \<and>
    HandleRecoverLog (sealed r) st2 = Abort Assertion_failed"
proof -
  let ?l = "mMaxLogId st + 1"
  let ?r = "request_record ?l (mOpType_rq rq) (mTableName_rq rq) (mKey_rq rq) (mValue_rq rq)"
  have "carries ?r rq" "HandleRecoverLog (sealed ?r) st2 = Abort Assertion_failed"
    using assms(3) by (auto simp: carries_def request_record_def HandleRecoverLog_def UpdateDataStore_def is_write_op_def)
  moreover obtain st1 where "HandleNewKVRequest a st = Done st1"
    "mQueue (lc_svc st1) = mQueue (lc_svc st) @ [next_ctx (kv_heap st)]"
    "ctxs (kv_heap st1) (next_ctx (kv_heap st)) = Some (local_ctx LOG_write_log (RecordArg ?r))"
    using assms by (simp add: HandleNewKVRequest_def GetOpType_rq_def Let_def ReceiveClientRequest_def
        GenerateLogId_def AppendLogRecord_lc_def send_cases)
  ultimately show ?thesis by blast
qed

theorem unknown_operation_poisons_the_log_witness:
  "\<exists>st st1 p r. HandleNewKVRequest 0 st = Done st1 \<and>
    ctxs (kv_heap st1) p = Some (local_ctx LOG_write_log (RecordArg r)) \<and> mOpType r = 77 \<and>
    HandleRecoverLog (sealed r) st = Abort Assertion_failed"
proof -
  let ?rq = "put_request\<lparr>mOpType_rq := 77\<rparr>"
  let ?st = "(two_clients id)\<lparr>requests := [0 \<mapsto> ?rq], lc_svc := started_service ''l'' 5000\<rparr>"
  have rq: "requests ?st 0 = Some ?rq" "mOpType_rq ?rq \<noteq> OP_get" "\<not> is_write_op (mOpType_rq ?rq)"
    "mRunning (lc_svc ?st)" by (simp_all add: op_codes is_write_op_def)
  from unknown_operation_poisons_the_log [OF rq, of ?st] show ?thesis
    unfolding carries_def by fastforce
qed

section \<open>Flush counters\<close>

text \<open>
  A flush of 50 or more records counts itself in an array of 50 counters: this is what the
  bound on the number of clients keeps away.
\<close>

lemma flush_counter_out_of_bounds:
  "FlushLog_lc st = Done (E_OK, st1) \<Longrightarrow> length (mFlushCount st) = FLUSH_COUNTERS \<Longrightarrow>
    FLUSH_COUNTERS \<le> length (mToFlushLog st) \<Longrightarrow> LogCenter_Idle st = Abort Out_of_bounds"
  using FlushLog_lc_frame [of st E_OK st1]
  by (auto simp: LogCenter_Idle_def FLUSH_COUNTERS_def set_plog_def Let_def)

end
