(* ===== verification/Closure.thy ===== *)
theory Closure
  imports SyncPrelude
begin

text \<open>
  \<^verbatim>\<open>src/Common/include/Closure.hpp\<close>: the rendezvous between a client that waits for its
  request and the service that answers it. The constructor leaves the mutex locked, so a
  signal cannot be given before the client has gone to sleep. The model has one waiting
  thread (it owns the closure and may use it again and again, as the worker loop of
  \<^verbatim>\<open>Main.cpp\<close> does) and one signalling thread; their mutex and condition variable operations
  interleave.
\<close>

section \<open>State\<close>

datatype party = Waiter | Signaller

text \<open>
  Where the waiter is: outside, after handing the request over, asleep in
  \<^verbatim>\<open>pthread_cond_wait\<close>, or woken and about to take the mutex again.
\<close>

datatype waiter_pc = Running | Posted | Asleep | Woken

text \<open>Inside \<^verbatim>\<open>Signal\<close>: before the lock, before the broadcast, before the unlock.\<close>

datatype signaller_pc = Outside | Locked | Broadcast

record sync_closure =
  mMutex :: "party option"
  wpc :: waiter_pc
  spc :: signaller_pc
  posted :: nat
  signalled :: nat
  returned :: nat

definition SyncClosure :: sync_closure where
  "SyncClosure = \<lparr>mMutex = Some Waiter, wpc = Running, spc = Outside,
     posted = 0, signalled = 0, returned = 0\<rparr>"

section \<open>Operations\<close>

text \<open>An operation that cannot proceed gives \<^const>\<open>None\<close>: the thread blocks.\<close>

definition post :: "sync_closure \<Rightarrow> sync_closure option" where
  "post s = (if wpc s = Running then Some (s\<lparr>wpc := Posted, posted := Suc (posted s)\<rparr>) else None)"

text \<open>\<^verbatim>\<open>Wait\<close>: the mutex is released and the thread blocked in one step.\<close>

definition Wait_sleep :: "sync_closure \<Rightarrow> sync_closure option" where
  "Wait_sleep s =
     (if wpc s = Posted \<and> mMutex s = Some Waiter then Some (s\<lparr>wpc := Asleep, mMutex := None\<rparr>)
      else None)"

definition Wait_return :: "sync_closure \<Rightarrow> sync_closure option" where
  "Wait_return s =
     (if wpc s = Woken \<and> mMutex s = None
      then Some (s\<lparr>wpc := Running, mMutex := Some Waiter, returned := Suc (returned s)\<rparr>)
      else None)"

text \<open>\<^verbatim>\<open>Signal\<close> is called once for every request that was handed over.\<close>

definition Signal_lock :: "sync_closure \<Rightarrow> sync_closure option" where
  "Signal_lock s =
     (if spc s = Outside \<and> signalled s < posted s \<and> mMutex s = None
      then Some (s\<lparr>spc := Locked, mMutex := Some Signaller\<rparr>) else None)"

definition Signal_broadcast :: "sync_closure \<Rightarrow> sync_closure option" where
  "Signal_broadcast s =
     (if spc s = Locked
      then Some (s\<lparr>spc := Broadcast, wpc := (if wpc s = Asleep then Woken else wpc s),
                   signalled := Suc (signalled s)\<rparr>)
      else None)"

definition Signal_unlock :: "sync_closure \<Rightarrow> sync_closure option" where
  "Signal_unlock s = (if spc s = Broadcast then Some (s\<lparr>spc := Outside, mMutex := None\<rparr>) else None)"

text \<open>POSIX allows \<^verbatim>\<open>pthread_cond_wait\<close> to return although nobody signalled.\<close>

definition spurious_wakeup :: "sync_closure \<Rightarrow> sync_closure option" where
  "spurious_wakeup s = (if wpc s = Asleep then Some (s\<lparr>wpc := Woken\<rparr>) else None)"

lemmas closure_ops = post_def Wait_sleep_def Wait_return_def Signal_lock_def Signal_broadcast_def
  Signal_unlock_def spurious_wakeup_def

text \<open>The steps that finish a request, and all steps.\<close>

inductive serve_step :: "sync_closure \<Rightarrow> sync_closure \<Rightarrow> bool" where
  "Wait_sleep s = Some s' \<Longrightarrow> serve_step s s'"
| "Wait_return s = Some s' \<Longrightarrow> serve_step s s'"
| "Signal_lock s = Some s' \<Longrightarrow> serve_step s s'"
| "Signal_broadcast s = Some s' \<Longrightarrow> serve_step s s'"
| "Signal_unlock s = Some s' \<Longrightarrow> serve_step s s'"

inductive closure_step :: "bool \<Rightarrow> sync_closure \<Rightarrow> sync_closure \<Rightarrow> bool" for spurious where
  "post s = Some s' \<Longrightarrow> closure_step spurious s s'"
| "serve_step s s' \<Longrightarrow> closure_step spurious s s'"
| "spurious \<Longrightarrow> spurious_wakeup s = Some s' \<Longrightarrow> closure_step spurious s s'"

inductive_cases serve_stepE: "serve_step s s'"
inductive_cases closure_stepE: "closure_step spurious s s'"

inductive closure_reachable :: "bool \<Rightarrow> sync_closure \<Rightarrow> bool" for spurious where
  start: "closure_reachable spurious SyncClosure"
| step: "closure_reachable spurious s \<Longrightarrow> closure_step spurious s s' \<Longrightarrow> closure_reachable spurious s'"

section \<open>Invariant\<close>

text \<open>
  Who holds the mutex is determined by the two program counters, and so is the balance of
  hand-overs, signals and returns.
\<close>

definition closure_inv :: "sync_closure \<Rightarrow> bool" where
  "closure_inv s \<longleftrightarrow>
     mMutex s = (if wpc s = Running \<or> wpc s = Posted then Some Waiter
                 else if spc s = Outside then None else Some Signaller) \<and>
     (wpc s = Running \<or> wpc s = Posted \<longrightarrow> spc s = Outside) \<and>
     (spc s = Broadcast \<longrightarrow> wpc s = Woken) \<and> (spc s = Locked \<longrightarrow> wpc s = Asleep) \<and>
     posted s = returned s + (if wpc s = Running then 0 else 1) \<and>
     signalled s = returned s + (if wpc s = Woken then 1 else 0)"

lemma closure_inv_start: "closure_inv SyncClosure"
  by (simp add: closure_inv_def SyncClosure_def)

lemma closure_inv_step: "closure_step False s s' \<Longrightarrow> closure_inv s \<Longrightarrow> closure_inv s'"
  by (cases "wpc s"; cases "spc s")
    (auto elim!: closure_stepE serve_stepE simp: closure_ops closure_inv_def split: if_splits)

lemma closure_reachable_inv: "closure_reachable False s \<Longrightarrow> closure_inv s"
  by (induction rule: closure_reachable.induct) (auto intro: closure_inv_start closure_inv_step)

section \<open>Progress\<close>

text \<open>What is left to do for the request in progress.\<close>

fun work_left :: "waiter_pc \<Rightarrow> signaller_pc \<Rightarrow> nat" where
  "work_left Running _ = 0"
| "work_left Posted _ = 5"
| "work_left Asleep Outside = 4"
| "work_left Asleep _ = 3"
| "work_left Woken Outside = 1"
| "work_left Woken _ = 2"

lemma serve_step_work:
  "serve_step s s' \<Longrightarrow> closure_inv s \<Longrightarrow>
    work_left (wpc s') (spc s') < work_left (wpc s) (spc s)"
  by (cases "wpc s"; cases "spc s")
    (auto elim!: serve_stepE simp: closure_ops closure_inv_def split: if_splits)

lemma serve_step_enabled:
  assumes "closure_inv s" "wpc s \<noteq> Running"
  shows "\<exists>s'. serve_step s s'"
proof -
  have "Wait_sleep s \<noteq> None \<or> Wait_return s \<noteq> None \<or> Signal_lock s \<noteq> None \<or>
      Signal_broadcast s \<noteq> None \<or> Signal_unlock s \<noteq> None"
    using assms by (cases "wpc s"; cases "spc s") (auto simp: closure_ops closure_inv_def)
  then show ?thesis by (auto intro: serve_step.intros)
qed

inductive served_in :: "nat \<Rightarrow> sync_closure \<Rightarrow> sync_closure \<Rightarrow> bool" where
  "served_in 0 s s"
| "serve_step s s1 \<Longrightarrow> served_in n s1 s' \<Longrightarrow> served_in (Suc n) s s'"

lemma served_in_inv:
  "served_in n s s' \<Longrightarrow> closure_inv s \<Longrightarrow>
    closure_inv s' \<and> n + work_left (wpc s') (spc s') \<le> work_left (wpc s) (spc s) \<and> posted s' = posted s"
proof (induction rule: served_in.induct)
  case (2 s s1 n s')
  have "closure_inv s1" using closure_inv_step 2(1,4) closure_step.intros(2) by blast
  moreover have "posted s1 = posted s"
    using 2(1) by (auto elim!: serve_stepE simp: closure_ops split: if_splits)
  ultimately show ?case using 2(3) serve_step_work [OF 2(1,4)] by simp
qed simp

lemma work_left_bound: "work_left w p \<le> 5"
  by (cases "(w, p)" rule: work_left.cases) auto

section \<open>Properties\<close>

text \<open>C15: if the condition variable never wakes a thread on its own, no wake-up is lost and no
  call returns early: whenever the waiter is outside \<^verbatim>\<open>Wait\<close>, every request it handed over has
  been signalled exactly once and every \<^verbatim>\<open>Wait\<close> has returned; the two threads are never inside
  the critical section together; a request in progress always has a next step, and after at
  most five steps of the two threads there is none left and the wait has returned.\<close>

theorem no_wakeup_is_lost:
  assumes "closure_reachable False s"
  shows "(wpc s = Running \<longrightarrow> returned s = posted s \<and> signalled s = posted s) \<and>
    (spc s \<noteq> Outside \<longrightarrow> mMutex s = Some Signaller) \<and>
    (\<forall>n s'. served_in n s s' \<longrightarrow>
       n \<le> 5 \<and> ((\<nexists>s''. serve_step s' s'') \<longleftrightarrow> returned s' = posted s))"
proof -
  have inv: "closure_inv s" by (rule closure_reachable_inv [OF assms])
  have "n \<le> 5 \<and> ((\<nexists>s''. serve_step s' s'') \<longleftrightarrow> returned s' = posted s)" if "served_in n s s'" for n s'
  proof -
    from served_in_inv [OF that inv] have i: "closure_inv s'" "posted s' = posted s"
      and n: "n + work_left (wpc s') (spc s') \<le> work_left (wpc s) (spc s)" by simp_all
    have "\<not> serve_step s' s''" if "wpc s' = Running" for s''
      using serve_step_work [of s' s''] i(1) that by auto
    then have "(\<nexists>s''. serve_step s' s'') \<longleftrightarrow> wpc s' = Running"
      using serve_step_enabled [OF i(1)] by blast
    moreover have "wpc s' = Running \<longleftrightarrow> returned s' = posted s"
      using i by (cases "wpc s'") (simp_all add: closure_inv_def)
    moreover have "n \<le> 5" using n work_left_bound [of "wpc s" "spc s"] by linarith
    ultimately show ?thesis by blast
  qed
  then show ?thesis
    using inv by (cases "wpc s"; cases "spc s") (simp_all add: closure_inv_def)
qed

theorem no_wakeup_is_lost_witness:
  "\<exists>s s'. wpc s = Posted \<and> served_in 1 s s' \<and> returned s' = 0 \<and> (\<exists>s''. serve_step s' s'')"
proof -
  let ?s1 = "SyncClosure\<lparr>wpc := Posted, posted := 1\<rparr>"
  let ?s2 = "?s1\<lparr>wpc := Asleep, mMutex := None\<rparr>"
  have "closure_step False SyncClosure ?s1"
    by (rule closure_step.intros(1)) (simp add: post_def SyncClosure_def)
  then have r: "closure_reachable False ?s1" using closure_reachable.intros by metis
  have "serve_step ?s1 ?s2"
    by (rule serve_step.intros(1)) (simp add: Wait_sleep_def SyncClosure_def)
  then have "served_in (Suc 0) ?s1 ?s2" by (rule served_in.intros(2) [OF _ served_in.intros(1)])
  then have v: "served_in 1 ?s1 ?s2" by simp
  have "(\<nexists>s''. serve_step ?s2 s'') \<longleftrightarrow> returned ?s2 = posted ?s1"
    using no_wakeup_is_lost [OF r] v by blast
  then have "\<exists>s''. serve_step ?s2 s''" by (simp add: SyncClosure_def)
  moreover have "wpc ?s1 = Posted" "returned ?s2 = 0" by (simp_all add: SyncClosure_def)
  ultimately show ?thesis using v by metis
qed

text \<open>\<^verbatim>\<open>Wait\<close> does not test a condition in a loop, so a spurious wake-up, which POSIX
  allows, makes a call return before its request was answered.\<close>

lemma spurious_wakeup_returns_early:
  "\<exists>s. closure_reachable True s \<and> wpc s = Running \<and> returned s = 1 \<and> signalled s = 0"
proof -
  let ?s1 = "SyncClosure\<lparr>wpc := Posted, posted := 1\<rparr>"
  let ?s2 = "?s1\<lparr>wpc := Asleep, mMutex := None\<rparr>"
  let ?s3 = "?s2\<lparr>wpc := Woken\<rparr>"
  let ?s4 = "?s3\<lparr>wpc := Running, mMutex := Some Waiter, returned := 1\<rparr>"
  have "closure_step True SyncClosure ?s1"
    by (rule closure_step.intros(1)) (simp add: post_def SyncClosure_def)
  moreover have "closure_step True ?s1 ?s2"
    by (rule closure_step.intros(2), rule serve_step.intros(1)) (simp add: Wait_sleep_def SyncClosure_def)
  moreover have "closure_step True ?s2 ?s3"
    by (rule closure_step.intros(3)) (simp_all add: spurious_wakeup_def)
  moreover have "closure_step True ?s3 ?s4"
    by (rule closure_step.intros(2), rule serve_step.intros(2)) (simp add: Wait_return_def SyncClosure_def)
  ultimately have "closure_reachable True ?s4"
    using closure_reachable.intros by metis
  then show ?thesis by (intro exI [of _ ?s4]) (simp add: SyncClosure_def)
qed

end
