(* ===== verification/Msg.thy ===== *)
theory Msg
  imports ByteBuffer Context
begin

text \<open>
  \<^verbatim>\<open>src/Common/include/Msg.hpp\<close> and \<^verbatim>\<open>src/Common/src/Msg.cpp\<close>: a message is a heap buffer
  with a head of eight bytes, a read offset and a write offset, both counted from the end of
  the head in 32 bits. The buffer is modelled with the size it was really allocated with;
  \<open>mMallocSize\<close> is what the object believes. A byte nobody has written is \<^const>\<open>None\<close>.
\<close>

section \<open>Memory\<close>

type_synonym cell = "u8 option"

definition store_cells :: "nat \<Rightarrow> cell list \<Rightarrow> cell list \<Rightarrow> cell list outcome" where
  "store_cells off bs d =
     (if off + length bs \<le> length d then Done (take off d @ bs @ drop (off + length bs) d)
      else Abort Out_of_bounds)"

definition load_cells :: "nat \<Rightarrow> nat \<Rightarrow> cell list \<Rightarrow> cell list outcome" where
  "load_cells off n d =
     (if off + n \<le> length d then Done (take n (drop off d)) else Abort Out_of_bounds)"

definition defined_bytes :: "cell list \<Rightarrow> bytes outcome" where
  "defined_bytes cs = (if None \<in> set cs then Abort Uninitialised_read else Done (map the cs))"

definition HEAD_LENGTH :: nat where
  "HEAD_LENGTH = 8"

text \<open>\<^verbatim>\<open>getpagesize()\<close> on the hosts the build targets.\<close>

definition getpagesize :: u32 where
  "getpagesize = 4096"

section \<open>The object\<close>

record msg =
  mRef_msg :: int
  mData :: "cell list"
  mReadOffset :: u32
  mWriteOffset :: u32
  mMallocSize :: u32

definition raw_Msg :: "u32 \<Rightarrow> msg" where
  "raw_Msg n = \<lparr>mRef_msg = 1, mData = replicate (unat n) None, mReadOffset = 0,
     mWriteOffset = 0, mMallocSize = n\<rparr>"

text \<open>\<open>len\<close> holds the bits of the \<^verbatim>\<open>int\<close> argument; allocation is taken to succeed.\<close>

definition new_Msg_len :: "u32 \<Rightarrow> msg outcome" where
  "new_Msg_len len =
     (if sint len + int HEAD_LENGTH > INT_MAX then Abort Signed_overflow
      else Done (raw_Msg (len + of_nat HEAD_LENGTH)))"

definition new_Msg :: msg where
  "new_Msg = raw_Msg getpagesize"

definition ResetReadOffset :: "msg \<Rightarrow> msg" where
  "ResetReadOffset m = m\<lparr>mReadOffset := 0\<rparr>"

definition GetTotalLen :: "msg \<Rightarrow> u32" where
  "GetTotalLen m = mWriteOffset m + of_nat HEAD_LENGTH"

definition GetBuffer :: "msg \<Rightarrow> cell list" where
  "GetBuffer m = mData m"

definition GetMallocedSize :: "msg \<Rightarrow> u32" where
  "GetMallocedSize m = mMallocSize m"

definition SetLen_to :: "u32 \<Rightarrow> msg \<Rightarrow> msg outcome" where
  "SetLen_to len m =
     obind (store_cells 0 (map Some (le_bytes 4 (htonl len))) (mData m)) (\<lambda>d. Done (m\<lparr>mData := d\<rparr>))"

definition SetLen :: "msg \<Rightarrow> msg outcome" where
  "SetLen m = SetLen_to (mWriteOffset m) m"

definition Dup :: "msg \<Rightarrow> msg outcome" where
  "Dup m =
     obind (new_Msg_len (mWriteOffset m)) (\<lambda>ret.
     let n = unat (mWriteOffset m + of_nat HEAD_LENGTH) in
     obind (load_cells 0 n (mData m)) (\<lambda>cs.
     obind (store_cells 0 cs (mData ret)) (\<lambda>d.
     SetLen (ResetReadOffset (ret\<lparr>mData := d, mWriteOffset := mWriteOffset m\<rparr>)))))"

section \<open>Writing\<close>

definition LeftSize :: "msg \<Rightarrow> u32" where
  "LeftSize m = mMallocSize m - mWriteOffset m - of_nat HEAD_LENGTH"

text \<open>
  The new buffer has \<^verbatim>\<open>sizeof(char*)\<close> bytes per byte asked for, and \<^verbatim>\<open>mMallocSize\<close> stays.
\<close>

definition Reverse :: "u32 \<Rightarrow> msg \<Rightarrow> msg outcome" where
  "Reverse n m =
     (if n < mMallocSize m then Done m
      else if n = mMallocSize m then Done m
      else
        let size1 = (if n < 2 * mMallocSize m then 2 * mMallocSize m else n);
            size2 = size1 + size1 mod getpagesize in
        obind (load_cells 0 (unat (mWriteOffset m + of_nat HEAD_LENGTH)) (mData m)) (\<lambda>old.
        obind (store_cells 0 old (replicate (8 * unat size2) None)) (\<lambda>d.
        Done (m\<lparr>mData := d\<rparr>))))"

definition WriteByte :: "bytes \<Rightarrow> msg \<Rightarrow> msg outcome" where
  "WriteByte r m =
     obind (if unat (LeftSize m) < length r then Reverse (of_nat (length r)) m else Done m) (\<lambda>m1.
     obind (store_cells (HEAD_LENGTH + unat (mWriteOffset m1)) (map Some r) (mData m1)) (\<lambda>d.
     Done (m1\<lparr>mData := d, mWriteOffset := mWriteOffset m1 + of_nat (length r)\<rparr>)))"

text \<open>The integer operators repeat the body of \<^verbatim>\<open>WriteByte\<close> on the bytes of the converted value.\<close>

definition put_int :: "u32 \<Rightarrow> msg \<Rightarrow> msg outcome" where
  "put_int r m = WriteByte (le_bytes 4 (htonl r)) m"

definition put_u16 :: "u16 \<Rightarrow> msg \<Rightarrow> msg outcome" where
  "put_u16 r m = WriteByte (le_bytes 2 (htons r)) m"

definition put_u32 :: "u32 \<Rightarrow> msg \<Rightarrow> msg outcome" where
  "put_u32 r m = WriteByte (le_bytes 4 (htonl r)) m"

definition put_u64 :: "u64 \<Rightarrow> msg \<Rightarrow> msg outcome" where
  "put_u64 r m = WriteByte (le_bytes 8 (htonll r)) m"

text \<open>\<^verbatim>\<open>r.length()\<close> is a \<^verbatim>\<open>size_t\<close>, so the 64-bit operator is chosen for it.\<close>

definition put_string :: "bytes \<Rightarrow> msg \<Rightarrow> msg outcome" where
  "put_string r m = obind (put_u64 (of_nat (length r)) m) (WriteByte r)"

section \<open>Reading\<close>

definition ReadByte :: "nat \<Rightarrow> msg \<Rightarrow> (bytes \<times> msg) outcome" where
  "ReadByte len m =
     obind (load_cells (HEAD_LENGTH + unat (mReadOffset m)) len (mData m)) (\<lambda>cs.
     obind (defined_bytes cs) (\<lambda>r.
     Done (r, m\<lparr>mReadOffset := mReadOffset m + of_nat len\<rparr>)))"

definition get_int :: "msg \<Rightarrow> (u32 \<times> msg) outcome" where
  "get_int m = obind (ReadByte 4 m) (\<lambda>(r, m1). Done (ntohl (le_word r), m1))"

definition get_u16 :: "msg \<Rightarrow> (u16 \<times> msg) outcome" where
  "get_u16 m = obind (ReadByte 2 m) (\<lambda>(r, m1). Done (ntohs (le_word r), m1))"

definition get_u32 :: "msg \<Rightarrow> (u32 \<times> msg) outcome" where
  "get_u32 m = obind (ReadByte 4 m) (\<lambda>(r, m1). Done (ntohl (le_word r), m1))"

definition get_u64 :: "msg \<Rightarrow> (u64 \<times> msg) outcome" where
  "get_u64 m = obind (ReadByte 8 m) (\<lambda>(r, m1). Done (ntohll (le_word r), m1))"

text \<open>\<^verbatim>\<open>std::string::assign\<close> throws when the length is beyond its \<^verbatim>\<open>max_size\<close>.\<close>

definition get_string :: "msg \<Rightarrow> (bytes \<times> msg) outcome" where
  "get_string m =
     obind (get_u64 m) (\<lambda>(len, m1).
     if unat len > 2 ^ 63 - 1 then Abort Length_error else ReadByte (unat len) m1)"

section \<open>Reference counts\<close>

text \<open>Messages by address, as the components that pass them on see them.\<close>

type_synonym msg_heap = "nat \<rightharpoonup> msg"

definition read_msg :: "nat \<Rightarrow> msg_heap \<Rightarrow> msg outcome" where
  "read_msg p h = (case h p of None \<Rightarrow> Abort Dangling_pointer | Some m \<Rightarrow> Done m)"

definition delete_msg :: "nat \<Rightarrow> msg_heap \<Rightarrow> msg_heap outcome" where
  "delete_msg p h = obind (read_msg p h) (\<lambda>m. Done (h(p := None)))"

definition Msg_Decref :: "nat \<Rightarrow> msg_heap \<Rightarrow> msg_heap outcome" where
  "Msg_Decref p h =
     obind (read_msg p h) (\<lambda>m.
     obind (assert_that (mRef_msg m > 0)) (\<lambda>_.
     let m' = m\<lparr>mRef_msg := mRef_msg m - 1\<rparr> in
     if mRef_msg m' \<le> 0 then delete_msg p h else Done (h(p \<mapsto> m'))))"

definition Msg_Incref :: "nat \<Rightarrow> msg_heap \<Rightarrow> msg_heap outcome" where
  "Msg_Incref p h =
     obind (read_msg p h) (\<lambda>m.
     obind (assert_that (mRef_msg m > 0)) (\<lambda>_.
     if mRef_msg m = INT_MAX then Abort Signed_overflow
     else Done (h(p \<mapsto> m\<lparr>mRef_msg := mRef_msg m + 1\<rparr>))))"

text \<open>What contexts and messages promise alike about their counts.\<close>

locale ref_counted =
  fixes count :: "'h \<Rightarrow> nat \<rightharpoonup> int"
    and inc :: "nat \<Rightarrow> 'h \<Rightarrow> 'h outcome"
    and dec :: "nat \<Rightarrow> 'h \<Rightarrow> 'h outcome"
  assumes inc_live: "count h p = Some n \<Longrightarrow> 0 < n \<Longrightarrow> n < INT_MAX \<Longrightarrow>
      \<exists>h'. inc p h = Done h' \<and> count h' = (count h)(p \<mapsto> n + 1)"
    and dec_shared: "count h p = Some n \<Longrightarrow> 1 < n \<Longrightarrow>
      \<exists>h'. dec p h = Done h' \<and> count h' = (count h)(p \<mapsto> n - 1)"
    and dec_last: "count h p = Some 1 \<Longrightarrow> dec p h = Done h' \<Longrightarrow> count h' = (count h)(p := None)"
    and dead: "count h p = None \<Longrightarrow> inc p h = Abort Dangling_pointer \<and> dec p h = Abort Dangling_pointer"
begin

lemma inc_dec:
  assumes "count h p = Some n" "0 < n" "n < INT_MAX"
  shows "\<exists>h'. obind (inc p h) (dec p) = Done h' \<and> count h' = count h"
proof -
  from inc_live [OF assms] obtain h1 where h1: "inc p h = Done h1" "count h1 = (count h)(p \<mapsto> n + 1)"
    by blast
  then have "count h1 p = Some (n + 1)" by simp
  from dec_shared [OF this] assms(2) obtain h2 where "dec p h1 = Done h2" "count h2 = (count h1)(p \<mapsto> n)"
    by auto
  with h1 assms(1) show ?thesis by (auto simp: fun_eq_iff)
qed

lemma released_once:
  assumes "count h p = Some 1" "dec p h = Done h'"
  shows "inc p h' = Abort Dangling_pointer \<and> dec p h' = Abort Dangling_pointer"
  using dead [of h' p] dec_last [OF assms] by simp

end

lemma ctx_inc_live:
  "map_option mRef (ctxs h p) = Some n \<Longrightarrow> 0 < n \<Longrightarrow> n < INT_MAX \<Longrightarrow>
    \<exists>h'. IncRef p h = Done h' \<and>
      (\<lambda>p. map_option mRef (ctxs h' p)) = (\<lambda>p. map_option mRef (ctxs h p))(p \<mapsto> n + 1)"
  using IncRef_run [of h p] by (auto intro!: ext)

lemma ctx_dec_shared:
  "map_option mRef (ctxs h p) = Some n \<Longrightarrow> 1 < n \<Longrightarrow>
    \<exists>h'. DecRef p h = Done h' \<and>
      (\<lambda>p. map_option mRef (ctxs h' p)) = (\<lambda>p. map_option mRef (ctxs h p))(p \<mapsto> n - 1)"
  using DecRef_shared [of h p] by (auto intro!: ext)

lemma ctx_dec_last:
  "map_option mRef (ctxs h p) = Some 1 \<Longrightarrow> DecRef p h = Done h' \<Longrightarrow>
    (\<lambda>p. map_option mRef (ctxs h' p)) = (\<lambda>p. map_option mRef (ctxs h p))(p := None)"
  using DecRef_last [of h p] by (auto intro!: ext split: if_splits)

interpretation ctx_refs: ref_counted "\<lambda>h p. map_option mRef (ctxs h p)" IncRef DecRef
  by (unfold_locales; (rule ctx_inc_live ctx_dec_shared ctx_dec_last)?)
    (assumption | simp add: IncRef_def DecRef_def read_ctx_def)+

lemma msg_inc_live:
  "map_option mRef_msg (h p) = Some n \<Longrightarrow> 0 < n \<Longrightarrow> n < INT_MAX \<Longrightarrow>
    \<exists>h'. Msg_Incref p h = Done h' \<and>
      (\<lambda>p. map_option mRef_msg (h' p)) = (\<lambda>p. map_option mRef_msg (h p))(p \<mapsto> n + 1)"
  by (auto simp: Msg_Incref_def read_msg_def intro!: ext)

lemma msg_dec_shared:
  "map_option mRef_msg (h p) = Some n \<Longrightarrow> 1 < n \<Longrightarrow>
    \<exists>h'. Msg_Decref p h = Done h' \<and>
      (\<lambda>p. map_option mRef_msg (h' p)) = (\<lambda>p. map_option mRef_msg (h p))(p \<mapsto> n - 1)"
  by (auto simp: Msg_Decref_def read_msg_def intro!: ext)

lemma msg_dec_last:
  "map_option mRef_msg (h p) = Some 1 \<Longrightarrow> Msg_Decref p h = Done h' \<Longrightarrow>
    (\<lambda>p. map_option mRef_msg (h' p)) = (\<lambda>p. map_option mRef_msg (h p))(p := None)"
  by (auto simp: Msg_Decref_def read_msg_def delete_msg_def intro!: ext)

interpretation msg_refs: ref_counted "\<lambda>h p. map_option mRef_msg (h p)" Msg_Incref Msg_Decref
  by (unfold_locales; (rule msg_inc_live msg_dec_shared msg_dec_last)?)
    (assumption | simp add: Msg_Incref_def Msg_Decref_def read_msg_def)+

section \<open>Memory lemmas\<close>

lemma length_store_cells: "store_cells off bs d = Done d' \<Longrightarrow> length d' = length d"
  by (auto simp: store_cells_def split: if_splits)

lemma store_cells_run:
  assumes "off + length bs \<le> length d"
  shows "\<exists>d'. store_cells off bs d = Done d' \<and> length d' = length d \<and> take off d' = take off d \<and>
    take (length bs) (drop off d') = bs \<and> drop (off + length bs) d' = drop (off + length bs) d"
  using assms by (simp add: store_cells_def)

lemma defined_bytes_Some [simp]: "defined_bytes (map Some bs) = Done bs"
  by (auto simp: defined_bytes_def comp_def)

lemma sint_small: 
  fixes n :: u32
  assumes "unat n < 2 ^ 31" shows "sint n = int (unat n)"
proof -
  have u: "uint n < 2 ^ 31" using assms of_nat_less_iff [of "unat n" "2 ^ 31", where 'a = int] unfolding uint_nat by simp
  have "sint n = signed_take_bit 31 (uint n)" by (simp add: sint_uint)
  also have "\<dots> = uint n" by (rule signed_take_bit_int_eq_self) (use u uint_ge_0 [of n] in linarith)+
  finally show ?thesis by (simp only: uint_nat)
qed
lemma getpagesize_unat [simp]: "unat getpagesize = 4096"
  by (simp add: getpagesize_def)

section \<open>The invariant of a message\<close>

text \<open>The buffer is as large as the object believes, and the write offset is inside it.\<close>

definition msg_wf :: "msg \<Rightarrow> bool" where
  "msg_wf m \<longleftrightarrow> length (mData m) = unat (mMallocSize m) \<and>
     HEAD_LENGTH + unat (mWriteOffset m) \<le> unat (mMallocSize m)"

text \<open>What has been written behind the head.\<close>

definition msg_body :: "msg \<Rightarrow> cell list" where
  "msg_body m = take (unat (mWriteOffset m)) (drop HEAD_LENGTH (mData m))"

lemma unat_LeftSize:
  assumes "msg_wf m"
  shows "unat (LeftSize m) = unat (mMallocSize m) - unat (mWriteOffset m) - 8"
proof -
  have le: "mWriteOffset m \<le> mMallocSize m" using assms by (simp add: msg_wf_def word_le_nat_alt)
  then have s: "unat (mMallocSize m - mWriteOffset m) = unat (mMallocSize m) - unat (mWriteOffset m)"
    by (rule unat_sub)
  have "(8 :: u32) \<le> mMallocSize m - mWriteOffset m"
  proof -
    have "8 + unat (mWriteOffset m) \<le> unat (mMallocSize m)"
      using assms by (simp add: msg_wf_def HEAD_LENGTH_def)
    then have "unat (8 :: u32) \<le> unat (mMallocSize m) - unat (mWriteOffset m)" by simp
    then show ?thesis unfolding word_le_nat_alt s .
  qed
  from unat_sub [OF this] s show ?thesis by (simp add: LeftSize_def HEAD_LENGTH_def)
qed

text \<open>A write that fits appends its bytes to the body and touches nothing else.\<close>

lemma WriteByte_run:
  assumes wf: "msg_wf m" and fits: "length r \<le> unat (LeftSize m)"
  shows "\<exists>m'. WriteByte r m = Done m' \<and> msg_wf m' \<and> msg_body m' = msg_body m @ map Some r \<and>
    unat (mWriteOffset m') = unat (mWriteOffset m) + length r \<and>
    take HEAD_LENGTH (mData m') = take HEAD_LENGTH (mData m) \<and>
    mMallocSize m' = mMallocSize m \<and> mReadOffset m' = mReadOffset m \<and> mRef_msg m' = mRef_msg m"
proof -
  let ?w = "unat (mWriteOffset m)"
  have room: "HEAD_LENGTH + ?w + length r \<le> length (mData m)"
    using assms unat_LeftSize [OF wf] by (auto simp: msg_wf_def HEAD_LENGTH_def)
  then have "HEAD_LENGTH + ?w + length (map Some r) \<le> length (mData m)" by simp
  from store_cells_run [OF this] obtain d where
    d: "store_cells (HEAD_LENGTH + ?w) (map Some r) (mData m) = Done d" "length d = length (mData m)"
    "take (HEAD_LENGTH + ?w) d = take (HEAD_LENGTH + ?w) (mData m)"
    "take (length r) (drop (HEAD_LENGTH + ?w) d) = map Some r" by auto
  let ?m' = "m\<lparr>mData := d, mWriteOffset := mWriteOffset m + of_nat (length r)\<rparr>"
  have lt: "?w + length r < 2 ^ 32"
    using room wf unsigned_less [of "mMallocSize m", where 'a = nat] by (simp add: msg_wf_def)
  then have w': "unat (mWriteOffset ?m') = ?w + length r"
    by (simp add: unat_word_ariths unat_of_nat take_bit_nat_eq_self)
  have h: "take HEAD_LENGTH d = take HEAD_LENGTH (mData m)"
    using arg_cong [OF d(3), of "take HEAD_LENGTH"] by (simp add: min_def)
  have "take ?w (drop HEAD_LENGTH d) = msg_body m"
    using arg_cong [OF d(3), of "drop HEAD_LENGTH"] by (simp add: msg_body_def drop_take)
  then have b: "msg_body ?m' = msg_body m @ map Some r"
  proof -
    have "msg_body ?m' = take (?w + length r) (drop HEAD_LENGTH d)"
      using w' unfolding msg_body_def by simp
    also have "\<dots> = take ?w (drop HEAD_LENGTH d) @ take (length r) (drop (HEAD_LENGTH + ?w) d)"
      unfolding take_add drop_drop by (simp add: add.commute)
    finally show ?thesis using \<open>take ?w (drop HEAD_LENGTH d) = msg_body m\<close> d(4) by simp
  qed
  have "WriteByte r m = Done ?m'" using fits d(1) by (simp add: WriteByte_def)
  moreover have "msg_wf ?m'" using room wf w' d(2) by (simp add: msg_wf_def)
  ultimately show ?thesis using w' h b by (intro exI [of _ ?m']) simp
qed

lemma new_Msg_len_run:
  assumes "unat n + 8 < 2 ^ 31"
  shows "new_Msg_len n = Done (raw_Msg (n + of_nat HEAD_LENGTH))"
proof -
  have "sint n = int (unat n)" by (rule sint_small) (use assms in simp)
  then have "sint n + int HEAD_LENGTH \<le> INT_MAX"
    using of_nat_less_iff [of "unat n + 8" "2 ^ 31", where 'a = int] assms
    by (simp only: INT_MAX_def HEAD_LENGTH_def) simp
  then show ?thesis by (simp add: new_Msg_len_def)
qed

lemma raw_Msg_wf: "HEAD_LENGTH \<le> unat n \<Longrightarrow> msg_wf (raw_Msg n)"
  by (simp add: msg_wf_def raw_Msg_def)

text \<open>Reading bytes that are there.\<close>

lemma ReadByte_run:
  assumes "take (length bs) (drop (HEAD_LENGTH + unat (mReadOffset m)) (mData m)) = map Some bs"
    and "HEAD_LENGTH + unat (mReadOffset m) \<le> length (mData m)"
  shows "ReadByte (length bs) m = Done (bs, m\<lparr>mReadOffset := mReadOffset m + of_nat (length bs)\<rparr>)"
proof -
  have "length bs \<le> length (mData m) - (HEAD_LENGTH + unat (mReadOffset m))"
    using arg_cong [OF assms(1), of length] by simp
  then have "bs \<noteq> [] \<longrightarrow> HEAD_LENGTH + unat (mReadOffset m) + length bs \<le> length (mData m)"
    by (cases bs) auto
  then have "HEAD_LENGTH + unat (mReadOffset m) + length bs \<le> length (mData m)"
    using assms(2) by (cases "bs = []") auto
  with assms(1) show ?thesis by (simp add: ReadByte_def load_cells_def)
qed

section \<open>Fields\<close>

datatype field = FInt u32 | F16 u16 | F32 u32 | F64 u64 | FStr bytes
datatype field_type = TInt | T16 | T32 | T64 | TStr

fun field_type_of :: "field \<Rightarrow> field_type" where
  "field_type_of (FInt _) = TInt"
| "field_type_of (F16 _) = T16"
| "field_type_of (F32 _) = T32"
| "field_type_of (F64 _) = T64"
| "field_type_of (FStr _) = TStr"

text \<open>What a field looks like on the wire: numbers most significant byte first.\<close>

fun wire :: "field \<Rightarrow> bytes" where
  "wire (FInt r) = rev (le_bytes 4 r)"
| "wire (F16 r) = rev (le_bytes 2 r)"
| "wire (F32 r) = rev (le_bytes 4 r)"
| "wire (F64 r) = rev (le_bytes 8 r)"
| "wire (FStr s) = rev (le_bytes 8 (of_nat (length s) :: u64)) @ s"

fun put_field :: "field \<Rightarrow> msg \<Rightarrow> msg outcome" where
  "put_field (FInt r) = put_int r"
| "put_field (F16 r) = put_u16 r"
| "put_field (F32 r) = put_u32 r"
| "put_field (F64 r) = put_u64 r"
| "put_field (FStr s) = put_string s"

fun get_field :: "field_type \<Rightarrow> msg \<Rightarrow> (field \<times> msg) outcome" where
  "get_field TInt m = obind (get_int m) (\<lambda>(r, m1). Done (FInt r, m1))"
| "get_field T16 m = obind (get_u16 m) (\<lambda>(r, m1). Done (F16 r, m1))"
| "get_field T32 m = obind (get_u32 m) (\<lambda>(r, m1). Done (F32 r, m1))"
| "get_field T64 m = obind (get_u64 m) (\<lambda>(r, m1). Done (F64 r, m1))"
| "get_field TStr m = obind (get_string m) (\<lambda>(r, m1). Done (FStr r, m1))"

fun put_fields :: "field list \<Rightarrow> msg \<Rightarrow> msg outcome" where
  "put_fields [] m = Done m"
| "put_fields (f # fs) m = obind (put_field f m) (put_fields fs)"

fun get_fields :: "field_type list \<Rightarrow> msg \<Rightarrow> (field list \<times> msg) outcome" where
  "get_fields [] m = Done ([], m)"
| "get_fields (t # ts) m =
     obind (get_field t m) (\<lambda>(f, m1). obind (get_fields ts m1) (\<lambda>(fs, m2). Done (f # fs, m2)))"

lemma htonll_bytes: "le_bytes 8 (htonll r) = rev (le_bytes 8 r)"
  using le_bytes_le_word [where 'a = 64, of "rev (le_bytes 8 r)"] by (simp add: htonll_def ntohll_rev)

lemma put_field_run:
  assumes wf: "msg_wf m" and fits: "length (wire f) \<le> unat (LeftSize m)"
  shows "\<exists>m'. put_field f m = Done m' \<and> msg_wf m' \<and> msg_body m' = msg_body m @ map Some (wire f) \<and>
    unat (mWriteOffset m') = unat (mWriteOffset m) + length (wire f) \<and>
    take HEAD_LENGTH (mData m') = take HEAD_LENGTH (mData m) \<and>
    mMallocSize m' = mMallocSize m \<and> mReadOffset m' = mReadOffset m \<and> mRef_msg m' = mRef_msg m"
proof (cases f)
  case (FStr s)
  let ?n = "le_bytes 8 (htonll (of_nat (length s)))"
  have n: "?n = rev (le_bytes 8 (of_nat (length s) :: u64))" by (rule htonll_bytes)
  have "length ?n \<le> unat (LeftSize m)" using fits FStr by simp
  from WriteByte_run [OF wf this] obtain m1 where m1: "WriteByte ?n m = Done m1" "msg_wf m1"
    "msg_body m1 = msg_body m @ map Some ?n" "unat (mWriteOffset m1) = unat (mWriteOffset m) + 8"
    "take HEAD_LENGTH (mData m1) = take HEAD_LENGTH (mData m)"
    "mMallocSize m1 = mMallocSize m" "mReadOffset m1 = mReadOffset m" "mRef_msg m1 = mRef_msg m" by auto
  have "length s \<le> unat (LeftSize m1)"
    using fits FStr unat_LeftSize [OF wf] unat_LeftSize [OF m1(2)] m1(4,6) by simp
  from WriteByte_run [OF m1(2) this] m1 FStr n show ?thesis
    by (auto simp: put_string_def put_u64_def)
qed (use WriteByte_run [OF wf, of "wire f"] fits in
  \<open>simp_all add: put_int_def put_u16_def put_u32_def put_u64_def le_bytes_htonl le_bytes_htons htonll_bytes\<close>)

lemma put_fields_run:
  "msg_wf m \<Longrightarrow> length (concat (map wire fs)) \<le> unat (LeftSize m) \<Longrightarrow>
    \<exists>m'. put_fields fs m = Done m' \<and> msg_wf m' \<and> msg_body m' = msg_body m @ map Some (concat (map wire fs)) \<and>
      unat (mWriteOffset m') = unat (mWriteOffset m) + length (concat (map wire fs)) \<and>
      take HEAD_LENGTH (mData m') = take HEAD_LENGTH (mData m) \<and> mMallocSize m' = mMallocSize m"
proof (induction fs arbitrary: m)
  case (Cons f fs)
  have "length (wire f) \<le> unat (LeftSize m)" using Cons.prems(2) by simp
  from put_field_run [OF Cons.prems(1) this] obtain m1 where m1: "put_field f m = Done m1" "msg_wf m1"
    "msg_body m1 = msg_body m @ map Some (wire f)"
    "unat (mWriteOffset m1) = unat (mWriteOffset m) + length (wire f)"
    "take HEAD_LENGTH (mData m1) = take HEAD_LENGTH (mData m)" "mMallocSize m1 = mMallocSize m" by blast
  have "length (concat (map wire fs)) \<le> unat (LeftSize m1)"
    using Cons.prems unat_LeftSize [OF m1(2)] unat_LeftSize [OF Cons.prems(1)] m1(4,6) by simp
  from Cons.IH [OF m1(2) this] m1 show ?case by auto
qed simp

text \<open>A message object whose buffer has the bytes at its read offset.\<close>

definition reads_next :: "bytes \<Rightarrow> msg \<Rightarrow> bool" where
  "reads_next bs m \<longleftrightarrow> unat (mReadOffset m) + length bs < 2 ^ 32 \<and>
     HEAD_LENGTH + unat (mReadOffset m) + length bs \<le> length (mData m) \<and>
     take (length bs) (drop (HEAD_LENGTH + unat (mReadOffset m)) (mData m)) = map Some bs"

lemma reads_next_append:
  assumes "reads_next (bs @ cs) m"
  shows "\<exists>m1. ReadByte (length bs) m = Done (bs, m1) \<and> reads_next cs m1 \<and> mData m1 = mData m"
proof -
  let ?d = "drop (HEAD_LENGTH + unat (mReadOffset m)) (mData m)"
  let ?m1 = "m\<lparr>mReadOffset := mReadOffset m + of_nat (length bs)\<rparr>"
  have t: "take (length bs + length cs) ?d = map Some bs @ map Some cs" and lim:
    "unat (mReadOffset m) + (length bs + length cs) < 2 ^ 32"
    "HEAD_LENGTH + unat (mReadOffset m) + (length bs + length cs) \<le> length (mData m)"
    using assms by (simp_all add: reads_next_def)
  have l: "length (take (length bs) ?d) = length bs" using lim(2) by simp
  have t1: "take (length bs) ?d = map Some bs" and t2: "take (length cs) (drop (length bs) ?d) = map Some cs"
    using t l unfolding take_add by (simp_all add: append_eq_append_conv)
  have ro: "unat (mReadOffset ?m1) = unat (mReadOffset m) + length bs"
    using lim(1) by (simp add: unat_word_ariths unat_of_nat take_bit_nat_eq_self)
  have "ReadByte (length bs) m = Done (bs, ?m1)" by (rule ReadByte_run [OF t1]) (use lim(2) in simp)
  moreover have "reads_next cs ?m1"
    using lim t2 ro unfolding reads_next_def by (simp add: add.commute add.left_commute)
  ultimately show ?thesis by (intro exI [of _ ?m1]) simp
qed

lemma get_number:
  "ntohl (le_word (rev (le_bytes 4 r))) = r" "ntohs (le_word (rev (le_bytes 2 q))) = q"
  "ntohll (le_word (rev (le_bytes 8 u))) = u"
proof -
  have "le_word (rev (le_bytes 4 r)) = htonl r" "le_word (rev (le_bytes 2 q)) = htons q"
    "le_word (rev (le_bytes 8 u)) = htonll u"
    by (simp_all add: htonl_def htons_def htonll_def ntohll_rev)
  then show "ntohl (le_word (rev (le_bytes 4 r))) = r" "ntohs (le_word (rev (le_bytes 2 q))) = q"
    "ntohll (le_word (rev (le_bytes 8 u))) = u" by simp_all
qed

lemma get_field_run:
  assumes "reads_next (wire f @ cs) m"
  shows "\<exists>m1. get_field (field_type_of f) m = Done (f, m1) \<and> reads_next cs m1 \<and> mData m1 = mData m"
proof (cases f)
  case (FStr s)
  let ?n = "rev (le_bytes 8 (of_nat (length s) :: u64))"
  have "reads_next (?n @ (s @ cs)) m" using assms FStr by simp
  from reads_next_append [OF this] obtain m1 where m1: "ReadByte 8 m = Done (?n, m1)"
    "reads_next (s @ cs) m1" "mData m1 = mData m" by auto
  from reads_next_append [OF m1(2)] obtain m2 where m2: "ReadByte (length s) m1 = Done (s, m2)"
    "reads_next cs m2" "mData m2 = mData m1" by blast
  have "length s < 2 ^ 32" using m1(2) by (simp add: reads_next_def)
  then have "unat (of_nat (length s) :: u64) = length s"
    by (simp add: unat_of_nat take_bit_nat_eq_self)
  with m1 m2 FStr \<open>length s < 2 ^ 32\<close> show ?thesis
    by (simp add: get_string_def get_u64_def get_number)
qed (use reads_next_append [OF assms] in
  \<open>auto simp: get_int_def get_u16_def get_u32_def get_u64_def get_number\<close>)

lemma get_fields_run:
  "reads_next (concat (map wire fs)) m \<Longrightarrow>
    \<exists>m1. get_fields (map field_type_of fs) m = Done (fs, m1) \<and> mData m1 = mData m"
proof (induction fs arbitrary: m)
  case (Cons f fs)
  then have "reads_next (wire f @ concat (map wire fs)) m" by simp
  from get_field_run [OF this] obtain m1 where "get_field (field_type_of f) m = Done (f, m1)"
    "reads_next (concat (map wire fs)) m1" "mData m1 = mData m" by blast
  with Cons.IH [of m1] show ?case by auto
qed simp

lemma msg_body_reads:
  assumes "msg_wf m" "msg_body m = map Some bs" "mReadOffset m = 0"
  shows "reads_next bs m"
proof -
  have l: "unat (mWriteOffset m) = length bs"
    using assms(1) arg_cong [OF assms(2), of length]
    by (auto simp: msg_body_def msg_wf_def min_def split: if_splits)
  then have "length bs < 2 ^ 32" using unsigned_less [of "mWriteOffset m", where 'a = nat] by simp
  with assms l show ?thesis by (simp add: reads_next_def msg_body_def msg_wf_def)
qed

lemma WriteByte_read_offset: "WriteByte r m = Done m' \<Longrightarrow> mReadOffset m' = mReadOffset m"
  by (auto simp: WriteByte_def Reverse_def outcome_simps Let_def split: if_splits)

lemma put_fields_read_offset: "put_fields fs m = Done m' \<Longrightarrow> mReadOffset m = 0 \<Longrightarrow> mReadOffset m' = 0"
proof (induction fs arbitrary: m)
  case (Cons f fs)
  from Cons.prems(1) obtain m1 where m1: "put_field f m = Done m1" "put_fields fs m1 = Done m'"
    by (auto simp: outcome_simps)
  have "mReadOffset m1 = mReadOffset m"
    by (cases f) (use m1(1) in \<open>auto simp: put_int_def put_u16_def put_u32_def put_u64_def put_string_def
      outcome_simps dest!: WriteByte_read_offset\<close>)
  with Cons.IH [OF m1(2)] Cons.prems(2) show ?case by simp
qed simp

lemma Dup_run:
  assumes wf: "msg_wf m" and small: "unat (mWriteOffset m) + 8 < 2 ^ 31"
  shows "\<exists>d. Dup m = Done d \<and> msg_wf d \<and> msg_body d = msg_body m \<and> mReadOffset d = 0 \<and>
    mWriteOffset d = mWriteOffset m \<and> mRef_msg d = 1 \<and>
    take 4 (mData d) = map Some (le_bytes 4 (htonl (mWriteOffset m)))"
proof -
  let ?w = "mWriteOffset m"
  have n: "unat (?w + of_nat HEAD_LENGTH) = unat ?w + 8"
    using small by (simp add: HEAD_LENGTH_def unat_word_ariths take_bit_nat_eq_self)
  have new: "new_Msg_len ?w = Done (raw_Msg (?w + of_nat HEAD_LENGTH))"
    by (rule new_Msg_len_run) (use small in simp)
  have len: "unat ?w + 8 \<le> length (mData m)" using wf by (simp add: msg_wf_def HEAD_LENGTH_def)
  let ?cs = "take (unat ?w + 8) (mData m)"
  let ?h = "map Some (le_bytes 4 (htonl ?w))"
  let ?d = "(raw_Msg (?w + of_nat HEAD_LENGTH))\<lparr>mData := ?h @ drop 4 ?cs, mWriteOffset := ?w\<rparr>"
  have st: "store_cells 0 ?cs (mData (raw_Msg (?w + of_nat HEAD_LENGTH))) = Done ?cs"
    using len n by (simp add: store_cells_def raw_Msg_def)
  have "Dup m = Done ?d"
    using new st len n
    by (simp add: Dup_def load_cells_def SetLen_def SetLen_to_def ResetReadOffset_def raw_Msg_def store_cells_def)
  moreover have "msg_wf ?d" using n len by (simp add: msg_wf_def raw_Msg_def HEAD_LENGTH_def)
  moreover have "msg_body ?d = msg_body m"
    using len by (simp add: msg_body_def raw_Msg_def HEAD_LENGTH_def drop_take)
  ultimately show ?thesis by (intro exI [of _ ?d]) (simp add: raw_Msg_def)
qed

section \<open>Properties\<close>

text \<open>C34: what is put into a message comes out again. If the fields fit into the size the message
  was made with, writing them succeeds, and reading the same types back gives the same values,
  from the message itself and from a duplicate of it, whose first four bytes hold the length.\<close>

theorem message_roundtrip:
  assumes "length (concat (map wire fs)) \<le> unat n" "unat n + 8 < 2 ^ 31"
  shows "\<exists>m0 m m1 d d1. new_Msg_len n = Done m0 \<and> put_fields fs m0 = Done m \<and>
    unat (GetTotalLen m) = length (concat (map wire fs)) + 8 \<and>
    get_fields (map field_type_of fs) m = Done (fs, m1) \<and>
    Dup m = Done d \<and> get_fields (map field_type_of fs) d = Done (fs, d1) \<and>
    take 4 (GetBuffer d) = map Some (rev (le_bytes 4 (of_nat (length (concat (map wire fs))) :: u32)))"
proof -
  let ?bs = "concat (map wire fs)"
  let ?m0 = "raw_Msg (n + of_nat HEAD_LENGTH)"
  have new: "new_Msg_len n = Done ?m0" by (rule new_Msg_len_run) (use assms(2) in simp)
  have sz: "unat (n + of_nat HEAD_LENGTH) = unat n + 8"
    using assms(2) by (simp add: HEAD_LENGTH_def unat_word_ariths take_bit_nat_eq_self)
  have wf: "msg_wf ?m0" using sz by (intro raw_Msg_wf) (simp add: HEAD_LENGTH_def)
  have "length ?bs \<le> unat (LeftSize ?m0)"
    using assms(1) sz unat_LeftSize [OF wf] by (simp add: raw_Msg_def)
  from put_fields_run [OF wf this] obtain m where m: "put_fields fs ?m0 = Done m" "msg_wf m"
    "msg_body m = map Some ?bs" "unat (mWriteOffset m) = length ?bs"
    by (auto simp: msg_body_def raw_Msg_def)
  have small: "unat (mWriteOffset m) + 8 < 2 ^ 31" using m(4) assms by simp
  from Dup_run [OF m(2) small] obtain d where d: "Dup m = Done d" "msg_wf d" "msg_body d = map Some ?bs"
    "mReadOffset d = 0" "take 4 (mData d) = map Some (le_bytes 4 (htonl (mWriteOffset m)))" using m(3) by auto
  have r0: "mReadOffset m = 0" using m(1) by (rule put_fields_read_offset) (simp add: raw_Msg_def)
  have "mWriteOffset m = of_nat (length ?bs)" using m(4) by (metis of_nat_unat ucast_id)
  then have "take 4 (GetBuffer d) = map Some (rev (le_bytes 4 (of_nat (length ?bs) :: u32)))"
    using d(5) by (simp add: GetBuffer_def le_bytes_htonl)
  moreover have "unat (GetTotalLen m) = length ?bs + 8"
    using small m(4) by (simp add: GetTotalLen_def HEAD_LENGTH_def unat_word_ariths take_bit_nat_eq_self)
  ultimately show ?thesis
    using new m(1) d(1) get_fields_run [OF msg_body_reads [OF m(2,3) r0]]
      get_fields_run [OF msg_body_reads [OF d(2,3,4)]] by blast
qed

theorem message_roundtrip_witness:
  "\<exists>m0 m m1. new_Msg_len 26 = Done m0 \<and> put_fields [F16 7, FStr [104, 105], F64 9, FInt (- 1)] m0 = Done m \<and>
    get_fields [T16, TStr, T64, TInt] m = Done ([F16 7, FStr [104, 105], F64 9, FInt (- 1)], m1)"
  using message_roundtrip [of "[F16 7, FStr [104, 105], F64 9, FInt (- 1)]" 26] by auto

text \<open>C35: the buffer is not grown when it has to be. A write that no longer fits behind what was
  written, but is no longer than the whole buffer, leaves the buffer as it is and runs over
  its end.\<close>

theorem write_overflows_the_buffer:
  assumes "msg_wf m" "unat (LeftSize m) < length r" "length r \<le> unat (mMallocSize m)"
  shows "WriteByte r m = Abort Out_of_bounds"
proof -
  have "length r < 2 ^ 32" using assms(3) unsigned_less [of "mMallocSize m", where 'a = nat] by simp
  then have "unat (of_nat (length r) :: u32) = length r" by (simp add: unat_of_nat take_bit_nat_eq_self)
  then have "Reverse (of_nat (length r)) m = Done m"
    using assms(3) by (simp add: Reverse_def word_less_nat_alt word_unat_eq_iff)
  with assms unat_LeftSize [OF assms(1)] show ?thesis
    by (auto simp: WriteByte_def store_cells_def msg_wf_def HEAD_LENGTH_def)
qed

theorem write_overflows_the_buffer_witness:
  "put_string (replicate 4081 0) new_Msg = Abort Out_of_bounds"
proof -
  have "msg_wf new_Msg" unfolding new_Msg_def by (rule raw_Msg_wf) (simp add: HEAD_LENGTH_def)
  moreover have "length (le_bytes 8 (htonll (of_nat (length (replicate 4081 (0 :: u8)))))) \<le> unat (LeftSize new_Msg)"
    using unat_LeftSize [OF calculation] by (simp add: new_Msg_def raw_Msg_def)
  ultimately obtain m where m: "put_u64 (of_nat (length (replicate 4081 (0 :: u8)))) new_Msg = Done m" "msg_wf m"
    "unat (mWriteOffset m) = 8" "mMallocSize m = getpagesize"
    using WriteByte_run [of new_Msg] by (fastforce simp: put_u64_def new_Msg_def raw_Msg_def)
  have "unat (LeftSize m) < length (replicate 4081 (0 :: u8))" "length (replicate 4081 (0 :: u8)) \<le> unat (mMallocSize m)"
    using unat_LeftSize [OF m(2)] m(3,4) by simp_all
  from write_overflows_the_buffer [OF m(2) this] m(1) show ?thesis by (simp add: put_string_def)
qed

end
