(* ===== verification/TcpSocket.thy ===== *)
theory TcpSocket
  imports Msg FileSys
begin

text \<open>
  \<^verbatim>\<open>src/Common/include/TcpSocket.hpp\<close> over a small network: what each descriptor will receive,
  what has been handed to the kernel for it, and the answers to the coming calls. Received and
  sent bytes are cells: a byte of a buffer that nobody wrote goes out as \<^const>\<open>None\<close>, some value
  the program does not determine.
\<close>

section \<open>The network\<close>

text \<open>
  A \<^verbatim>\<open>recv\<close> takes from the first piece at most what it asks for; \<open>Broken\<close> is a call that fails.
  After the last piece the peer has closed the connection.
\<close>

datatype arrival = Chunk cell "cell list" | Broken err

text \<open>What \<^verbatim>\<open>select\<close> finds: a failure, a timeout, or readiness to read, to write, and \<^verbatim>\<open>SO_ERROR\<close>.\<close>

datatype select_answer = Select_fails err | Timed_out | Ready bool bool err

record net_world =
  incoming :: "int \<Rightarrow> arrival list"
  outgoing :: "int \<Rightarrow> cell list"
  answers :: "sysresp list"
  selects :: "select_answer list"
  peers :: "(bytes \<times> u16) list"
  fresh_fd :: int
  errno :: err

text \<open>A failing call sets a non-zero errno.\<close>

definition next_answer :: "net_world \<Rightarrow> sysresp \<times> net_world" where
  "next_answer w =
     (case answers w of [] \<Rightarrow> (RFull, w)
      | r # rs \<Rightarrow>
         (case r of RFail e \<Rightarrow> (if e = E_OK then (RFull, w\<lparr>answers := rs\<rparr>)
                               else (r, w\<lparr>answers := rs, errno := e\<rparr>))
          | _ \<Rightarrow> (r, w\<lparr>answers := rs\<rparr>)))"

text \<open>A call that only succeeds or fails.\<close>

definition net_call :: "net_world \<Rightarrow> err \<times> net_world" where
  "net_call w = (case next_answer w of (RFail e, w1) \<Rightarrow> (e, w1) | (_, w1) \<Rightarrow> (E_OK, w1))"

fun rest_of :: "cell list \<Rightarrow> arrival list \<Rightarrow> arrival list" where
  "rest_of [] as = as"
| "rest_of (c # cs) as = Chunk c cs # as"

definition sys_recv :: "int \<Rightarrow> nat \<Rightarrow> net_world \<Rightarrow> (err + cell list) \<times> net_world" where
  "sys_recv fd n w =
     (case incoming w fd of
        [] \<Rightarrow> (Inr [], w)
      | Broken e # as \<Rightarrow>
          (let e' = (if e = E_OK then EIO else e) in
           (Inl e', w\<lparr>incoming := (incoming w)(fd := as), errno := e'\<rparr>))
      | Chunk c cs # as \<Rightarrow>
          (Inr (take n (c # cs)), w\<lparr>incoming := (incoming w)(fd := rest_of (drop n (c # cs)) as)\<rparr>))"

definition sys_send :: "int \<Rightarrow> cell list \<Rightarrow> net_world \<Rightarrow> (err + nat) \<times> net_world" where
  "sys_send fd d w =
     (let (r, w1) = next_answer w in
      case r of RFail e \<Rightarrow> (Inl e, w1)
      | _ \<Rightarrow> (let k = transfer r (length d) in
             (Inr k, w1\<lparr>outgoing := (outgoing w1)(fd := outgoing w1 fd @ take k d)\<rparr>)))"

section \<open>The object\<close>

text \<open>The constructor leaves the port alone.\<close>

record tcp_socket =
  mIP :: bytes
  mPort :: "u16 option"
  mPreRecv :: bool
  mSocket :: int
  mClosed :: bool
  mError :: err

type_synonym sock_io = "tcp_socket \<times> net_world"

definition new_TcpSocket :: tcp_socket where
  "new_TcpSocket = \<lparr>mIP = [], mPort = None, mPreRecv = False, mSocket = -1, mClosed = True, mError = E_OK\<rparr>"

definition Create :: "int \<Rightarrow> sock_io \<Rightarrow> err \<times> sock_io" where
  "Create sock sw =
     (let (s, w) = sw;
          (err, w1) = net_call w;
          (err, s1, w2) =
            (if sock = -1 then
               (if err = E_OK then (E_OK, s\<lparr>mSocket := fresh_fd w1\<rparr>, w1\<lparr>fresh_fd := fresh_fd w1 + 1\<rparr>)
                else (err, s\<lparr>mSocket := -1\<rparr>, w1))
             else if err = E_OK then (E_OK, s\<lparr>mSocket := sock\<rparr>, w1) else (err, s, w1))
      in (err, if err = E_OK then s1\<lparr>mClosed := False\<rparr> else s1, w2))"

definition SetReuseAddr :: "sock_io \<Rightarrow> err \<times> sock_io" where
  "SetReuseAddr sw = (let (err, w1) = net_call (snd sw) in (err, fst sw, w1))"

definition Listen :: "bytes \<Rightarrow> u16 \<Rightarrow> sock_io \<Rightarrow> err \<times> sock_io" where
  "Listen ip port sw =
     (let (err, s, w) = SetReuseAddr sw in
      if err \<noteq> E_OK then (err, s, w) else
      let (err, w1) = net_call w in
      if err \<noteq> E_OK then (err, s, w1) else
      let (err, w2) = net_call w1 in
      if err \<noteq> E_OK then (err, s, w2) else
      (E_OK, s\<lparr>mIP := ip, mPort := Some port\<rparr>, w2))"

text \<open>
  The loop of \<^verbatim>\<open>CheckConnect\<close> ends when \<^verbatim>\<open>select\<close> reports something; \<^const>\<open>None\<close> is a loop that goes
  on for ever. A non-zero \<^verbatim>\<open>SO_ERROR\<close> is replaced by whatever \<^verbatim>\<open>errno\<close> is at that moment.
\<close>

fun check_connect :: "select_answer list \<Rightarrow> net_world \<Rightarrow> (err \<times> net_world) option" where
  "check_connect [] w = None"
| "check_connect (Select_fails e # as) w =
     (let e' = (if e = E_OK then EIO else e) in Some (e', w\<lparr>selects := as, errno := e'\<rparr>))"
| "check_connect (Timed_out # as) w = check_connect as w"
| "check_connect (Ready r wr so # as) w =
     (if r \<and> wr then
        (case net_call (w\<lparr>selects := as\<rparr>) of (e, w1) \<Rightarrow>
           if e \<noteq> E_OK then Some (e, w1)
           else if so \<noteq> E_OK then Some (errno w1, w1)
           else Some (E_OK, w1))
      else Some (E_OK, w\<lparr>selects := as\<rparr>))"

definition CheckConnect :: "sock_io \<Rightarrow> (err \<times> sock_io) option" where
  "CheckConnect sw =
     map_option (\<lambda>(e, w1). (e, fst sw, w1)) (check_connect (selects (snd sw)) (snd sw))"

definition Connect :: "bytes \<Rightarrow> u16 \<Rightarrow> sock_io \<Rightarrow> (err \<times> sock_io) option" where
  "Connect ip port sw =
     (let (err, w1) = net_call (snd sw); s = fst sw;
          done = (\<lambda>w. (E_OK, s\<lparr>mClosed := False, mIP := ip, mPort := Some port\<rparr>, w)) in
      if err = E_OK then Some (done w1)
      else if err \<noteq> EINPROGRESS then Some (err, s, w1)
      else map_option (\<lambda>(e, _, w2). if e \<noteq> E_OK then (e, s, w2) else done w2) (CheckConnect (s, w1)))"

text \<open>\<open>peers\<close> lists who is connecting; a call beyond them fails as a non-blocking one would.\<close>

definition Accept :: "sock_io \<Rightarrow> err \<times> (int \<times> bytes \<times> u16) option \<times> sock_io" where
  "Accept sw =
     (let (err, w1) = net_call (snd sw) in
      if err \<noteq> E_OK then (err, None, fst sw, w1)
      else case peers w1 of [] \<Rightarrow> (EAGAIN, None, fst sw, w1\<lparr>errno := EAGAIN\<rparr>)
      | (ip, port) # ps \<Rightarrow>
          (E_OK, Some (fresh_fd w1, ip, port), fst sw, w1\<lparr>peers := ps, fresh_fd := fresh_fd w1 + 1\<rparr>))"

definition Close_sock :: "sock_io \<Rightarrow> err \<times> sock_io" where
  "Close_sock sw =
     (let (s, w) = sw in
      if mSocket s \<noteq> -1 then
        (let (err, w1) = net_call w in (err, s\<lparr>mSocket := -1, mClosed := True\<rparr>, w1))
      else (E_OK, s, w))"

definition SetAddr :: "bytes \<Rightarrow> u16 \<Rightarrow> tcp_socket \<Rightarrow> tcp_socket" where
  "SetAddr ip port s = s\<lparr>mIP := ip, mPort := Some port\<rparr>"

text \<open>Two calls of \<^verbatim>\<open>fcntl\<close>; the result of the inner one is not looked at.\<close>

definition SetNonblocking :: "sock_io \<Rightarrow> err \<times> sock_io" where
  "SetNonblocking sw =
     (let (_, w1) = net_call (snd sw); (err, w2) = net_call w1 in (err, fst sw, w2))"

definition GetFd :: "tcp_socket \<Rightarrow> int" where
  "GetFd s = mSocket s"

definition NoOK :: "tcp_socket \<Rightarrow> bool" where
  "NoOK s \<longleftrightarrow> mClosed s \<or> mError s \<noteq> E_OK"

section \<open>Sending\<close>

text \<open>\<open>sent\<close> is what the caller's variable holds; it is -1 after a call that would block.\<close>

definition Send :: "cell list \<Rightarrow> int \<Rightarrow> sock_io \<Rightarrow> err \<times> int \<times> sock_io" where
  "Send buf sent sw =
     (let (s, w) = sw in
      if NoOK s then (EINVAL, sent, s, w)
      else case sys_send (mSocket s) buf w of
        (Inr k, w1) \<Rightarrow> (E_OK, int k, s, w1)
      | (Inl e, w1) \<Rightarrow> if e \<noteq> EAGAIN then (e, -1, s\<lparr>mError := e\<rparr>, w1) else (E_OK, -1, s, w1))"

lemma next_answer_RFail:
  "next_answer w = (RFail e, w1) \<Longrightarrow> e \<noteq> E_OK \<and> length (answers w1) < length (answers w) \<and>
     errno w1 = e \<and> incoming w1 = incoming w \<and> outgoing w1 = outgoing w"
  by (auto simp: next_answer_def split: list.splits sysresp.splits if_splits)

lemma next_answer_frame:
  "next_answer w = (r, w1) \<Longrightarrow> incoming w1 = incoming w \<and> outgoing w1 = outgoing w \<and>
     length (answers w1) \<le> length (answers w)"
  by (auto simp: next_answer_def split: list.splits sysresp.splits if_splits)

lemma sys_send_Inl:
  "sys_send fd d w = (Inl e, w1) \<Longrightarrow> next_answer w = (RFail e, w1)"
  by (auto simp: sys_send_def Let_def split: prod.splits sysresp.splits)

lemma sys_send_Inr:
  assumes "sys_send fd d w = (Inr k, w1)"
  shows "k \<le> length d \<and> (d = [] \<or> 0 < k) \<and> length (answers w1) \<le> length (answers w) \<and>
    outgoing w1 = (outgoing w)(fd := outgoing w fd @ take k d) \<and> incoming w1 = incoming w"
proof -
  obtain r w2 where r: "next_answer w = (r, w2)" by fastforce
  with assms have "\<forall>e. r \<noteq> RFail e" "k = transfer r (length d)"
    "w1 = w2\<lparr>outgoing := (outgoing w2)(fd := outgoing w2 fd @ take k d)\<rparr>"
    by (auto simp: sys_send_def Let_def split: sysresp.splits)
  then show ?thesis
    using next_answer_frame [OF r] transfer_le [of r "length d"] transfer_pos [of "length d" r]
    by (cases "d = []") auto
qed

text \<open>
  \<^verbatim>\<open>SendAll\<close> asks again as long as a call would block, and that may go on for ever: the answers of the kernel
  to the calls of its loop are an endless sequence, an argument, and the loop is a partial function. \<^const>\<open>None\<close>
  is a call that does not return. An \<open>RFail\<close> without an errno is a call that sends all it is given.
\<close>

definition send_answered :: "sysresp \<Rightarrow> int \<Rightarrow> cell list \<Rightarrow> net_world \<Rightarrow> (err + nat) \<times> net_world" where
  "send_answered r fd d w =
     (let (x, w1) = sys_send fd d (w\<lparr>answers := [r]\<rparr>) in (x, w1\<lparr>answers := answers w\<rparr>))"

partial_function (option) send_loop ::
  "(nat \<Rightarrow> sysresp) \<Rightarrow> nat \<Rightarrow> int \<Rightarrow> cell list \<Rightarrow> net_world \<Rightarrow> (err \<times> net_world) option" where
  "send_loop reply i fd buf w =
     (case send_answered (reply i) fd buf w of
        (Inl e, w1) \<Rightarrow> if e = EAGAIN then send_loop reply (Suc i) fd buf w1 else Some (e, w1)
      | (Inr k, w1) \<Rightarrow> if k = length buf then Some (E_OK, w1) else send_loop reply (Suc i) fd (drop k buf) w1)"

definition SendAll :: "(nat \<Rightarrow> sysresp) \<Rightarrow> cell list \<Rightarrow> sock_io \<Rightarrow> (err \<times> sock_io) option" where
  "SendAll reply buf sw =
     (let (s, w) = sw in
      if NoOK s then Some (EINVAL, s, w)
      else case send_loop reply 0 (mSocket s) buf w of None \<Rightarrow> None
        | Some (err, w1) \<Rightarrow> Some (err, if err = E_OK then s else s\<lparr>mError := err\<rparr>, w1))"

section \<open>Receiving\<close>

definition HasPreRecv :: "tcp_socket \<Rightarrow> bool" where
  "HasPreRecv s = mPreRecv s"

definition SetPreRecv :: "bool \<Rightarrow> tcp_socket \<Rightarrow> tcp_socket" where
  "SetPreRecv has s = s\<lparr>mPreRecv := has\<rparr>"

text \<open>
  \<open>received\<close> is unsigned: a failing \<^verbatim>\<open>recv\<close> stores the largest number there, which is neither
  negative nor zero, so the failure is reported as success.
\<close>

definition Recv :: "nat \<Rightarrow> u32 \<Rightarrow> sock_io \<Rightarrow> err \<times> u32 \<times> cell list \<times> sock_io" where
  "Recv len received sw =
     (let (s, w) = sw in
      if NoOK s then (EINVAL, received, [], s, w)
      else case sys_recv (mSocket s) len w of
        (Inl e, w1) \<Rightarrow> (E_OK, -1, [], s, w1)
      | (Inr d, w1) \<Rightarrow>
          if d = [] then (EINVAL, 0, [], s\<lparr>mClosed := True\<rparr>, w1)
          else (E_OK, of_nat (length d), d, s, w1))"

text \<open>The result of the loop: an error, whether the peer closed, and what was received.\<close>

function recv_loop :: "int \<Rightarrow> nat \<Rightarrow> net_world \<Rightarrow> err \<times> bool \<times> cell list \<times> net_world" where
  "recv_loop fd n w =
     (case sys_recv fd n w of
        (Inl e, w1) \<Rightarrow> if e = EAGAIN then recv_loop fd n w1 else (e, False, [], w1)
      | (Inr d, w1) \<Rightarrow>
          if d = [] then (EINVAL, True, [], w1)
          else if length d = n then (E_OK, False, d, w1)
          else let (e, c, d', w2) = recv_loop fd (n - length d) w1 in (e, c, d @ d', w2))"
  by pat_completeness auto

lemma sys_recv_Inl:
  assumes "sys_recv fd n w = (Inl e, w1)"
  shows "\<exists>e' as. incoming w fd = Broken e' # as \<and> e = (if e' = E_OK then EIO else e') \<and>
      incoming w1 = (incoming w)(fd := as) \<and> outgoing w1 = outgoing w"
proof (cases "incoming w fd")
  case (Cons a as)
  with assms show ?thesis by (cases a) (auto simp: sys_recv_def Let_def)
qed (use assms in \<open>simp add: sys_recv_def\<close>)

lemma sys_recv_Inr:
  assumes "sys_recv fd n w = (Inr d, w1)" "d \<noteq> []"
  shows "\<exists>c cs as. incoming w fd = Chunk c cs # as \<and> d = take n (c # cs) \<and>
      incoming w1 = (incoming w)(fd := rest_of (drop n (c # cs)) as) \<and> outgoing w1 = outgoing w"
proof (cases "incoming w fd")
  case (Cons a as)
  with assms show ?thesis by (cases a) (auto simp: sys_recv_def Let_def)
qed (use assms in \<open>simp add: sys_recv_def\<close>)

lemma length_rest_of: "length (rest_of cs as) \<le> Suc (length as)"
  by (cases cs) auto

termination recv_loop
proof (relation "measure (\<lambda>(fd, n, w). n + length (incoming w fd))", goal_cases)
  case (2 fd n w x1 w1 e)
  from sys_recv_Inl [of fd n w e w1] 2 show ?case by auto
next
  case (3 fd n w x1 w1 d)
  from sys_recv_Inr [of fd n w d w1] 3 obtain c cs as where c: "incoming w fd = Chunk c cs # as"
    "d = take n (c # cs)" "incoming w1 fd = rest_of (drop n (c # cs)) as" by auto
  have "length d < n" using c(2) 3 by (auto simp: min_def split: if_splits)
  moreover obtain k where "length d = Suc k" using 3 by (cases d) auto
  ultimately show ?case using c(1,3) length_rest_of [of "drop n (c # cs)" as] by simp
qed simp

definition RecvAll :: "nat \<Rightarrow> sock_io \<Rightarrow> err \<times> cell list \<times> sock_io" where
  "RecvAll len sw =
     (let (s, w) = sw in
      if NoOK s then (EINVAL, [], s, w)
      else let (err, closed, d, w1) = recv_loop (mSocket s) len w in
        (err, d, if err = E_OK then s else if closed then s\<lparr>mClosed := True\<rparr> else s\<lparr>mError := err\<rparr>, w1))"

text \<open>\<open>len\<close> is what the caller's variable holds.\<close>

definition PreRecv :: "u32 \<Rightarrow> sock_io \<Rightarrow> (err \<times> u32 \<times> sock_io) outcome" where
  "PreRecv len sw =
     (let (s, w) = sw in
      if NoOK s then Done (EINVAL, len, s, w)
      else if mPreRecv s then Abort Assertion_failed
      else
        let (err, d, s1, w1) = RecvAll 4 (s\<lparr>mPreRecv := True\<rparr>, w) in
        if err \<noteq> E_OK then Done (err, len, s1, w1)
        else obind (defined_bytes d) (\<lambda>buf. Done (E_OK, ntohl (le_word buf), s1, w1)))"

declare send_loop.simps [simp del] recv_loop.simps [simp del]

section \<open>Streams\<close>

text \<open>What a loop that retries on \<^const>\<open>EAGAIN\<close> can get from a list of arrivals.\<close>

fun stream :: "arrival list \<Rightarrow> cell list" where
  "stream [] = []"
| "stream (Chunk c cs # as) = c # cs @ stream as"
| "stream (Broken e # as) = (if e = EAGAIN then stream as else [])"

lemma stream_rest_of [simp]: "stream (rest_of cs as) = cs @ stream as"
  by (cases cs) simp_all

text \<open>How the stream ends does not depend on what was read from it.\<close>

fun stream_end :: "arrival list \<Rightarrow> err \<times> bool" where
  "stream_end [] = (EINVAL, True)"
| "stream_end (Chunk c cs # as) = stream_end as"
| "stream_end (Broken e # as) = (if e = EAGAIN then stream_end as
     else (if e = E_OK then EIO else e, False))"

lemma stream_end_rest_of [simp]: "stream_end (rest_of cs as) = stream_end as"
  by (cases cs) simp_all

lemma recv_loop_spec:
  "recv_loop fd n w = (e, c, d, w') \<Longrightarrow> 0 < n \<Longrightarrow>
    d = take n (stream (incoming w fd)) \<and> outgoing w' = outgoing w \<and>
    (\<forall>g. g \<noteq> fd \<longrightarrow> incoming w' g = incoming w g) \<and>
    (if n \<le> length (stream (incoming w fd))
     then (e, c) = (E_OK, False) \<and> stream (incoming w' fd) = drop n (stream (incoming w fd)) \<and>
       stream_end (incoming w' fd) = stream_end (incoming w fd)
     else (e, c) = stream_end (incoming w fd))"
proof (induction fd n w arbitrary: e c d w' rule: recv_loop.induct)
  case (1 fd n w)
  obtain x w1 where x: "sys_recv fd n w = (x, w1)" by fastforce
  show ?case
  proof (cases x)
    case (Inl e1)
    from sys_recv_Inl [OF x [unfolded Inl]] obtain e' as where a: "incoming w fd = Broken e' # as"
      "e1 = (if e' = E_OK then EIO else e')" "incoming w1 = (incoming w)(fd := as)" "outgoing w1 = outgoing w"
      by blast
    show ?thesis
    proof (cases "e1 = EAGAIN")
      case True
      then have "recv_loop fd n w1 = (e, c, d, w')"
        using "1.prems"(1) x Inl by (simp add: recv_loop.simps [of fd n w])
      from "1.IH"(1) [OF x [symmetric] Inl True this "1.prems"(2)] a True show ?thesis
        by (auto split: if_splits)
    next
      case False
      then have "(e, c, d, w') = (e1, False, [], w1)"
        using "1.prems"(1) x Inl by (simp add: recv_loop.simps [of fd n w])
      with a False "1.prems"(2) show ?thesis by (auto split: if_splits)
    qed
  next
    case (Inr d1)
    show ?thesis
    proof (cases "d1 = []")
      case True
      then have r: "(e, c, d, w') = (EINVAL, True, [], w1)"
        using "1.prems"(1) x Inr by (simp add: recv_loop.simps [of fd n w])
      have "incoming w fd = [] \<and> w1 = w"
      proof (cases "incoming w fd")
        case (Cons a as)
        then show ?thesis using x Inr True "1.prems"(2)
          by (cases a; cases n) (auto simp: sys_recv_def Let_def)
      qed (use x in \<open>simp add: sys_recv_def\<close>)
      with r "1.prems"(2) show ?thesis by simp
    next
      case False
      from sys_recv_Inr [OF x [unfolded Inr] False] obtain c1 cs as where a:
        "incoming w fd = Chunk c1 cs # as" "d1 = take n (c1 # cs)"
        "incoming w1 = (incoming w)(fd := rest_of (drop n (c1 # cs)) as)" "outgoing w1 = outgoing w" by blast
      have st: "stream (incoming w fd) = (c1 # cs) @ stream as" using a(1) by simp
      show ?thesis
      proof (cases "length d1 = n")
        case True
        then have r: "(e, c, d, w') = (E_OK, False, d1, w1)"
          using "1.prems"(1) x Inr False by (simp add: recv_loop.simps [of fd n w])
        have le: "n \<le> length (c1 # cs)" using True a(2) by (simp add: min_def split: if_splits)
        then have "take n (stream (incoming w fd)) = d1"
          "drop n (stream (incoming w fd)) = drop n (c1 # cs) @ stream as"
          "n \<le> length (stream (incoming w fd))"
          unfolding st a(2) take_append drop_append by simp_all
        with r a show ?thesis by (simp del: drop_Cons')
      next
        case short: False
        then have d1: "d1 = c1 # cs" "length d1 < n" using a(2) by (simp_all add: min_def split: if_splits)
        obtain d2 where r: "recv_loop fd (n - length d1) w1 = (e, c, d2, w')" "d = d1 @ d2"
          using "1.prems"(1) x Inr False short by (auto simp: recv_loop.simps [of fd n w] split: prod.splits)
        have i1: "incoming w1 = (incoming w)(fd := as)" using a(3) d1 by simp
        have "0 < n - length d1" using d1(2) by simp
        from "1.IH"(2) [OF x [symmetric] Inr False short r(1) this] have IH:
          "d2 = take (n - length d1) (stream as) \<and> outgoing w' = outgoing w \<and>
           (\<forall>g. g \<noteq> fd \<longrightarrow> incoming w' g = incoming w g) \<and>
           (if n - length d1 \<le> length (stream as)
            then (e, c) = (E_OK, False) \<and> stream (incoming w' fd) = drop (n - length d1) (stream as) \<and>
              stream_end (incoming w' fd) = stream_end as
            else (e, c) = stream_end as)"
          using i1 a(4) by auto
        have st': "stream (incoming w fd) = d1 @ stream as" using st d1 by simp
        have "take n (stream (incoming w fd)) = d1 @ take (n - length d1) (stream as)"
          "drop n (stream (incoming w fd)) = drop (n - length d1) (stream as)"
          "n \<le> length (stream (incoming w fd)) \<longleftrightarrow> n - length d1 \<le> length (stream as)"
          "stream_end (incoming w fd) = stream_end as"
          using d1(2) a(1) unfolding st' by auto
        with IH r(2) show ?thesis by simp
      qed
    qed
  qed
qed

lemma stream_end_fails: "fst (stream_end as) \<noteq> E_OK"
  by (induction as rule: stream_end.induct) auto

text \<open>\<^verbatim>\<open>PreRecv\<close> takes the length prefix off the stream.\<close>

lemma PreRecv_run:
  assumes "\<not> NoOK s" "\<not> mPreRecv s" "stream (incoming w (mSocket s)) = map Some (le_bytes 4 (htonl n)) @ cs"
  shows "\<exists>w'. PreRecv len (s, w) = Done (E_OK, n, s\<lparr>mPreRecv := True\<rparr>, w') \<and>
    stream (incoming w' (mSocket s)) = cs \<and> outgoing w' = outgoing w \<and>
    (\<forall>g. g \<noteq> mSocket s \<longrightarrow> incoming w' g = incoming w g)"
proof -
  obtain e c d w' where r: "recv_loop (mSocket s) 4 w = (e, c, d, w')" by (metis prod_cases4)
  from recv_loop_spec [OF r] assms(3) have w': "(e, c) = (E_OK, False)" "d = map Some (le_bytes 4 (htonl n))"
    "stream (incoming w' (mSocket s)) = cs" "outgoing w' = outgoing w"
    "\<forall>g. g \<noteq> mSocket s \<longrightarrow> incoming w' g = incoming w g" by simp_all
  have "NoOK (s\<lparr>mPreRecv := True\<rparr>) = NoOK s" by (simp add: NoOK_def)
  with r w' assms(1,2) show ?thesis by (simp add: PreRecv_def RecvAll_def le_word_le_bytes)
qed

section \<open>What SendAll does\<close>

text \<open>What the kernel takes of the bytes that are left, and of a buffer of \<open>n\<close> bytes in the first \<open>i\<close> calls.\<close>

definition taken :: "sysresp \<Rightarrow> nat \<Rightarrow> nat" where
  "taken r n = (case r of RFail e \<Rightarrow> if e = E_OK then n else 0 | _ \<Rightarrow> transfer r n)"

fun sent_by :: "(nat \<Rightarrow> sysresp) \<Rightarrow> nat \<Rightarrow> nat \<Rightarrow> nat" where
  "sent_by reply n 0 = 0"
| "sent_by reply n (Suc i) = sent_by reply n i + taken (reply i) (n - sent_by reply n i)"

text \<open>A failure that is not a call that would block.\<close>

definition hard_failure :: "sysresp \<Rightarrow> bool" where
  "hard_failure r \<longleftrightarrow> (case r of RFail e \<Rightarrow> e \<notin> {E_OK, EAGAIN} | _ \<Rightarrow> False)"

text \<open>From some call on every call would block, while bytes are left and no call has failed.\<close>

definition blocks_for_ever :: "(nat \<Rightarrow> sysresp) \<Rightarrow> nat \<Rightarrow> bool" where
  "blocks_for_ever reply n \<longleftrightarrow> (\<exists>i. sent_by reply n i < n \<and> (\<forall>j < i. \<not> hard_failure (reply j)) \<and>
     (\<forall>j \<ge> i. reply j = RFail EAGAIN))"

lemma taken_le: "taken r n \<le> n"
  using transfer_le [of r n] by (simp add: taken_def split: sysresp.split)

lemma sent_by_le: "sent_by reply n i \<le> n"
proof (induction i)
  case (Suc i)
  with taken_le [of "reply i" "n - sent_by reply n i"] show ?case by simp
qed simp

lemma sent_by_mono: "i \<le> j \<Longrightarrow> sent_by reply n i \<le> sent_by reply n j"
  by (induction rule: dec_induct) simp_all

lemma taken_none: "taken r n = 0 \<Longrightarrow> 0 < n \<Longrightarrow> \<not> hard_failure r \<Longrightarrow> r = RFail EAGAIN"
  by (cases r) (auto simp: taken_def hard_failure_def split: if_splits)

lemma send_answered_fails:
  "r = RFail e \<Longrightarrow> e \<noteq> E_OK \<Longrightarrow> send_answered r fd d w = (Inl e, w\<lparr>errno := e\<rparr>)"
  by (cases w) (simp add: send_answered_def sys_send_def next_answer_def)

lemma send_answered_takes:
  "\<nexists>e. r = RFail e \<and> e \<noteq> E_OK \<Longrightarrow> send_answered r fd d w =
    (Inr (taken r (length d)), w\<lparr>outgoing := (outgoing w)(fd := outgoing w fd @ take (taken r (length d)) d)\<rparr>)"
  by (cases w; cases r) (auto simp: send_answered_def sys_send_def next_answer_def taken_def Let_def split: if_splits)

text \<open>As long as nothing has failed and bytes are left, the loop is where the counts say.\<close>

definition sent_world :: "nat \<Rightarrow> int \<Rightarrow> cell list \<Rightarrow> net_world \<Rightarrow> net_world \<Rightarrow> bool" where
  "sent_world m fd buf w w' \<longleftrightarrow> incoming w' = incoming w \<and>
     outgoing w' = (outgoing w)(fd := outgoing w fd @ take m buf)"

lemma send_loop_at:
  assumes "\<forall>j < i. \<not> hard_failure (reply j)" "sent_by reply (length buf) i < length buf"
  shows "\<exists>w'. send_loop reply 0 fd buf w = send_loop reply i fd (drop (sent_by reply (length buf) i) buf) w' \<and>
    sent_world (sent_by reply (length buf) i) fd buf w w'"
  using assms
proof (induction i)
  case (Suc i)
  let ?m = "sent_by reply (length buf) i" and ?r = "reply i"
  have "?m < length buf" using Suc.prems(2) by simp
  with Suc obtain w1 where w1: "send_loop reply 0 fd buf w = send_loop reply i fd (drop ?m buf) w1"
    "sent_world ?m fd buf w w1" by auto
  show ?case
  proof (cases "\<exists>e. ?r = RFail e \<and> e \<noteq> E_OK")
    case True
    then have r: "?r = RFail EAGAIN" using Suc.prems(1) by (auto simp: hard_failure_def)
    then have "sent_by reply (length buf) (Suc i) = ?m" by (simp add: taken_def)
    moreover have "send_loop reply i fd (drop ?m buf) w1 = send_loop reply (Suc i) fd (drop ?m buf) (w1\<lparr>errno := EAGAIN\<rparr>)"
      by (subst send_loop.simps) (simp add: r send_answered_fails [of "RFail EAGAIN"])
    ultimately show ?thesis using w1 by (intro exI [of _ "w1\<lparr>errno := EAGAIN\<rparr>"]) (simp add: sent_world_def)
  next
    case False
    let ?k = "taken ?r (length buf - ?m)"
    let ?w2 = "w1\<lparr>outgoing := (outgoing w1)(fd := outgoing w1 fd @ take ?k (drop ?m buf))\<rparr>"
    have "?k \<noteq> length buf - ?m" using Suc.prems(2) by auto
    then have "send_loop reply i fd (drop ?m buf) w1 = send_loop reply (Suc i) fd (drop ?k (drop ?m buf)) ?w2"
      using send_answered_takes [OF False, of fd "drop ?m buf" w1] by (subst send_loop.simps) simp
    moreover have "sent_world (?m + ?k) fd buf w ?w2" using w1(2) by (simp add: sent_world_def take_add)
    ultimately show ?thesis using w1(1) by (intro exI [of _ ?w2]) (simp add: add.commute)
  qed
qed (auto simp: sent_world_def)

text \<open>Once every call would block the loop does not return.\<close>

lemma send_loop_stuck:
  assumes "\<forall>j \<ge> i. reply j = RFail EAGAIN"
  shows "send_loop reply i fd buf w = None"
proof (rule ccontr)
  assume "send_loop reply i fd buf w \<noteq> None"
  then obtain y where "send_loop reply i fd buf w = Some y" by blast
  then have "\<not> (\<forall>j \<ge> i. reply j = RFail EAGAIN)"
  proof (rule send_loop.raw_induct [where P = "\<lambda>reply i fd buf w y. \<not> (\<forall>j \<ge> i. reply j = RFail EAGAIN)", rotated])
    fix f :: "(nat \<Rightarrow> sysresp) \<Rightarrow> nat \<Rightarrow> int \<Rightarrow> cell list \<Rightarrow> net_world \<Rightarrow> (err \<times> net_world) option"
      and reply i fd buf w y
    assume IH: "\<And>reply i fd buf w y. f reply i fd buf w = Some y \<Longrightarrow> \<not> (\<forall>j \<ge> i. reply j = RFail EAGAIN)"
      and eq: "(case send_answered (reply i) fd buf w of
          (Inl e, w1) \<Rightarrow> if e = EAGAIN then f reply (Suc i) fd buf w1 else Some (e, w1)
        | (Inr k, w1) \<Rightarrow> if k = length buf then Some (E_OK, w1) else f reply (Suc i) fd (drop k buf) w1) = Some y"
    show "\<not> (\<forall>j \<ge> i. reply j = RFail EAGAIN)"
    proof
      assume all: "\<forall>j \<ge> i. reply j = RFail EAGAIN"
      then have "reply i = RFail EAGAIN" by simp
      then have "f reply (Suc i) fd buf (w\<lparr>errno := EAGAIN\<rparr>) = Some y"
        using eq send_answered_fails [of "reply i" EAGAIN] by simp
      from IH [OF this] all show False by simp
    qed
  qed
  with assms show False by blast
qed

text \<open>Otherwise some call ends it.\<close>

lemma send_loop_last:
  assumes "0 < n" "\<not> blocks_for_ever reply n"
  shows "\<exists>i. (\<forall>j < i. \<not> hard_failure (reply j)) \<and> sent_by reply n i < n \<and>
    (hard_failure (reply i) \<or> sent_by reply n (Suc i) = n)"
proof (rule ccontr)
  assume no: "\<not> ?thesis"
  have all: "(\<forall>j < i. \<not> hard_failure (reply j)) \<and> sent_by reply n i < n" for i
  proof (induction i)
    case (Suc i)
    with no have "\<not> hard_failure (reply i)" "sent_by reply n (Suc i) \<noteq> n" by blast+
    with Suc sent_by_le [of reply n "Suc i"] show ?case by (auto simp: less_Suc_eq)
  qed (use assms(1) in simp)
  have "finite (range (sent_by reply n))" by (rule finite_subset [of _ "{..n}"]) (auto simp: sent_by_le)
  then have "Max (range (sent_by reply n)) \<in> range (sent_by reply n)" by (rule Max_in) simp
  then obtain i where i: "sent_by reply n i = Max (range (sent_by reply n))" unfolding image_iff by metis
  have "reply j = RFail EAGAIN" if j: "i \<le> j" for j
  proof -
    have "sent_by reply n (Suc j) \<le> sent_by reply n i"
      unfolding i using \<open>finite (range (sent_by reply n))\<close> by (rule Max_ge) (rule rangeI)
    with sent_by_mono [OF j, of reply n] have "taken (reply j) (n - sent_by reply n j) = 0" by simp
    with taken_none all [of j] all [of "Suc j"] show ?thesis by simp
  qed
  with all [of i] assms(2) show False unfolding blocks_for_ever_def by blast
qed

section \<open>Properties\<close>

text \<open>C36: \<^verbatim>\<open>RecvAll\<close> takes exactly the next \<open>len\<close> bytes off the stream, however the network cuts it
  into pieces and whatever calls would block in between, and what follows stays for the next
  call. If the stream ends or fails earlier, that error is reported, the bytes that did arrive
  are lost, and the socket is marked as not usable.\<close>

theorem RecvAll_reads_the_stream:
  assumes "\<not> NoOK s" "0 < len"
  shows "\<exists>e d s' w'. RecvAll len (s, w) = (e, d, s', w') \<and>
    d = take len (stream (incoming w (mSocket s))) \<and> outgoing w' = outgoing w \<and>
    (if len \<le> length (stream (incoming w (mSocket s)))
     then e = E_OK \<and> s' = s \<and> stream (incoming w' (mSocket s)) = drop len (stream (incoming w (mSocket s)))
     else e = fst (stream_end (incoming w (mSocket s))) \<and> e \<noteq> E_OK \<and> NoOK s')"
proof -
  obtain e c d w' where r: "recv_loop (mSocket s) len w = (e, c, d, w')" by (metis prod_cases4)
  note spec = recv_loop_spec [OF r assms(2)]
  show ?thesis
  proof (cases "len \<le> length (stream (incoming w (mSocket s)))")
    case True
    with r spec assms(1) show ?thesis by (simp add: RecvAll_def)
  next
    case False
    with spec have e: "(e, c) = stream_end (incoming w (mSocket s))" by simp
    then have "e \<noteq> E_OK" using stream_end_fails [of "incoming w (mSocket s)"] by (metis fst_conv)
    with r spec False assms(1) e show ?thesis by (auto simp: RecvAll_def NoOK_def dest: arg_cong [of _ _ fst])
  qed
qed

lemma RecvAll_reads_the_stream_witness:
  "\<exists>e d s' w'. RecvAll 3 (new_TcpSocket\<lparr>mSocket := 5, mClosed := False\<rparr>,
      \<lparr>incoming = (\<lambda>_. [])(5 := [Chunk (Some 1) [Some 2], Broken EAGAIN, Chunk (Some 3) [Some 4]]),
       outgoing = (\<lambda>_. []), answers = [], selects = [], peers = [], fresh_fd = 6, errno = E_OK\<rparr>) = (e, d, s', w') \<and>
    d = [Some 1, Some 2, Some 3] \<and> e = E_OK \<and> stream (incoming w' 5) = [Some 4]"
  using RecvAll_reads_the_stream [of "new_TcpSocket\<lparr>mSocket := 5, mClosed := False\<rparr>" 3
    "\<lparr>incoming = (\<lambda>_. [])(5 := [Chunk (Some 1) [Some 2], Broken EAGAIN, Chunk (Some 3) [Some 4]]),
       outgoing = (\<lambda>_. []), answers = [], selects = [], peers = [], fresh_fd = 6, errno = E_OK\<rparr>"]
  by (auto simp: NoOK_def new_TcpSocket_def)

text \<open>C37: When \<^verbatim>\<open>SendAll\<close> of a non-empty buffer on a usable socket returns, and when it does not. It goes on for ever
  exactly when from some call on every call would block while bytes are left and no call has failed. Otherwise it returns,
  nothing is received meanwhile, and what it has handed to the kernel for this descriptor, and for no other, is the
  beginning of the buffer, in order: all of it if it reports success, and then the socket is unchanged; a proper part
  of it if it reports an error, which is then that of the first call that failed other than by blocking, and is
  kept in the socket.\<close>

theorem SendAll_sends_or_blocks:
  assumes "\<not> NoOK s" "buf \<noteq> []"
  shows "if blocks_for_ever reply (length buf) then SendAll reply buf (s, w) = None
    else \<exists>e s' w' i m. SendAll reply buf (s, w) = Some (e, s', w') \<and> incoming w' = incoming w \<and>
      outgoing w' = (outgoing w)(mSocket s := outgoing w (mSocket s) @ take m buf) \<and>
      (\<forall>j < i. \<not> hard_failure (reply j)) \<and>
      (e = E_OK \<and> s' = s \<and> m = length buf \<or>
       reply i = RFail e \<and> hard_failure (reply i) \<and> s' = s\<lparr>mError := e\<rparr> \<and> m < length buf)"
proof (cases "blocks_for_ever reply (length buf)")
  case True
  then obtain i where i: "sent_by reply (length buf) i < length buf" "\<forall>j < i. \<not> hard_failure (reply j)"
    "\<forall>j \<ge> i. reply j = RFail EAGAIN" unfolding blocks_for_ever_def by blast
  from send_loop_at [OF i(2,1), of "mSocket s" w] send_loop_stuck [OF i(3)]
  have "send_loop reply 0 (mSocket s) buf w = None" by metis
  with True assms(1) show ?thesis by (simp add: SendAll_def)
next
  case False
  have "0 < length buf" using assms(2) by simp
  from send_loop_last [OF this False] obtain i where
    i: "\<forall>j < i. \<not> hard_failure (reply j)" "sent_by reply (length buf) i < length buf"
      "hard_failure (reply i) \<or> sent_by reply (length buf) (Suc i) = length buf" by blast
  let ?m = "sent_by reply (length buf) i"
  from send_loop_at [OF i(1,2), of "mSocket s" w] obtain w1 where
    w1: "send_loop reply 0 (mSocket s) buf w = send_loop reply i (mSocket s) (drop ?m buf) w1"
      "sent_world ?m (mSocket s) buf w w1" by blast
  show ?thesis
  proof (cases "hard_failure (reply i)")
    case True
    then obtain e where e: "reply i = RFail e" "e \<noteq> E_OK" "e \<noteq> EAGAIN"
      by (auto simp: hard_failure_def split: sysresp.splits)
    have "send_loop reply i (mSocket s) (drop ?m buf) w1 = Some (e, w1\<lparr>errno := e\<rparr>)"
      using e by (subst send_loop.simps) (simp add: send_answered_fails [OF refl])
    then have "SendAll reply buf (s, w) = Some (e, s\<lparr>mError := e\<rparr>, w1\<lparr>errno := e\<rparr>)"
      using assms(1) w1(1) e(2) by (simp add: SendAll_def)
    moreover have "sent_world ?m (mSocket s) buf w (w1\<lparr>errno := e\<rparr>)" using w1(2) by (simp add: sent_world_def)
    ultimately show ?thesis using False i(1,2) e(1) True
      unfolding if_not_P [OF False]
      by (intro exI [of _ e] exI [of _ "s\<lparr>mError := e\<rparr>"] exI [of _ "w1\<lparr>errno := e\<rparr>"] exI [of _ i] exI [of _ ?m])
        (simp add: sent_world_def)
  next
    case ok: False
    with i(2,3) have all: "taken (reply i) (length buf - ?m) = length buf - ?m" by simp
    with i(2) ok have "\<nexists>e. reply i = RFail e \<and> e \<noteq> E_OK" by (auto simp: taken_def split: if_splits)
    from send_answered_takes [OF this, of "mSocket s" "drop ?m buf" w1] all
    have run: "send_loop reply i (mSocket s) (drop ?m buf) w1 =
        Some (E_OK, w1\<lparr>outgoing := (outgoing w1)(mSocket s := outgoing w1 (mSocket s) @ drop ?m buf)\<rparr>)"
      by (subst send_loop.simps) simp
    let ?w' = "w1\<lparr>outgoing := (outgoing w1)(mSocket s := outgoing w1 (mSocket s) @ drop ?m buf)\<rparr>"
    have "SendAll reply buf (s, w) = Some (E_OK, s, ?w')" using assms(1) w1(1) run by (simp add: SendAll_def)
    with i(1) w1(2) show ?thesis
      unfolding if_not_P [OF False]
      by (intro exI [of _ E_OK] exI [of _ s] exI [of _ ?w'] exI [of _ i] exI [of _ "length buf"])
        (simp add: sent_world_def)
  qed
qed

lemma SendAll_sends_or_blocks_witness:
  "(\<exists>w'. SendAll (\<lambda>i. if i = 1 then RShort 0 else if i < 4 then RFail EAGAIN else RFull) [Some 1, Some 2, None]
      (new_TcpSocket\<lparr>mSocket := 5, mClosed := False\<rparr>,
      \<lparr>incoming = (\<lambda>_. []), outgoing = (\<lambda>_. []), answers = [],
       selects = [], peers = [], fresh_fd = 6, errno = E_OK\<rparr>) =
      Some (E_OK, new_TcpSocket\<lparr>mSocket := 5, mClosed := False\<rparr>, w') \<and> outgoing w' 5 = [Some 1, Some 2, None]) \<and>
    SendAll (\<lambda>i. if i = 1 then RShort 0 else RFail EAGAIN) [Some 1, Some 2, None]
      (new_TcpSocket\<lparr>mSocket := 5, mClosed := False\<rparr>,
      \<lparr>incoming = (\<lambda>_. []), outgoing = (\<lambda>_. []), answers = [],
       selects = [], peers = [], fresh_fd = 6, errno = E_OK\<rparr>) = None"
proof -
  let ?s = "new_TcpSocket\<lparr>mSocket := 5, mClosed := False\<rparr>" and ?buf = "[Some 1, Some 2, None] :: cell list"
  let ?w = "\<lparr>incoming = (\<lambda>_. []), outgoing = (\<lambda>_. []), answers = [],
    selects = [], peers = [], fresh_fd = 6, errno = E_OK\<rparr> :: net_world"
  let ?k1 = "\<lambda>i :: nat. if i = 1 then RShort 0 else if i < 4 then RFail EAGAIN else RFull"
  let ?k2 = "\<lambda>i :: nat. if i = 1 then RShort 0 else RFail EAGAIN"
  have s: "\<not> NoOK ?s" "?buf \<noteq> []" by (simp_all add: NoOK_def new_TcpSocket_def)
  have b1: "\<not> blocks_for_ever ?k1 (length ?buf)"
  proof
    assume "blocks_for_ever ?k1 (length ?buf)"
    then obtain i where i: "\<forall>j \<ge> i. ?k1 j = RFail EAGAIN" unfolding blocks_for_ever_def by blast
    have "?k1 (i + 4) = RFail EAGAIN" by (rule i [rule_format]) simp
    then show False by simp
  qed
  have h1: "\<not> hard_failure (?k1 i)" for i by (simp add: hard_failure_def)
  have b2: "blocks_for_ever ?k2 (length ?buf)"
    unfolding blocks_for_ever_def
    by (intro exI [of _ 2]) (auto simp: numeral_2_eq_2 taken_def hard_failure_def)
  from SendAll_sends_or_blocks [OF s, of ?k1 ?w] b1 h1 obtain w' where
    "SendAll ?k1 ?buf (?s, ?w) = Some (E_OK, ?s, w')" "outgoing w' = (outgoing ?w)(mSocket ?s := outgoing ?w (mSocket ?s) @ ?buf)"
    by fastforce
  moreover have "SendAll ?k2 ?buf (?s, ?w) = None" using SendAll_sends_or_blocks [OF s, of ?k2 ?w] b2 by simp
  ultimately show ?thesis by simp
qed

end
