(* ===== verification/Driver.thy ===== *)
theory Driver
  imports LogicService
begin

text \<open>
  \<^verbatim>\<open>src/Common/include/Driver.hpp\<close>, \<^verbatim>\<open>src/Common/src/Driver.cpp\<close> and \<^verbatim>\<open>RWConnection.hpp\<close>: which
  connection is told about which descriptor. The event library is not part of the sources: its
  functions are the fields of an argument \<open>lib\<close>, over a base of any type \<open>'b\<close>.
\<close>

section \<open>The event library\<close>

text \<open>Events and connections are named by addresses.\<close>

datatype handler = ReadHandler | WriteHandler | TimeOut

definition EV_TIMEOUT :: u16 where "EV_TIMEOUT = 1"
definition EV_READ :: u16 where "EV_READ = 2"
definition EV_WRITE :: u16 where "EV_WRITE = 4"
definition EV_PERSIST :: u16 where "EV_PERSIST = 16"

record 'b event_lib =
  event_new :: "int \<Rightarrow> u16 \<Rightarrow> handler \<Rightarrow> nat \<Rightarrow> 'b \<Rightarrow> nat \<times> 'b"
  event_add :: "nat \<Rightarrow> 'b \<Rightarrow> int \<times> 'b"
  event_del :: "nat \<Rightarrow> 'b \<Rightarrow> int \<times> 'b"
  event_free :: "nat \<Rightarrow> 'b \<Rightarrow> 'b"
  event_base_loopbreak :: "'b \<Rightarrow> int \<times> 'b"

section \<open>EventInfo\<close>

record event_info =
  read_ev :: "nat option"
  write_ev :: "nat option"
  read_conn :: "nat option"
  write_conn :: "nat option"

definition new_EventInfo :: event_info where
  "new_EventInfo = \<lparr>read_ev = None, write_ev = None, read_conn = None, write_conn = None\<rparr>"

definition FreeEvent :: "'b event_lib \<Rightarrow> nat option \<Rightarrow> 'b \<Rightarrow> 'b" where
  "FreeEvent lib ev b =
     (case ev of None \<Rightarrow> b | Some e \<Rightarrow> event_free lib e (snd (event_del lib e b)))"

definition FreeReadEvent :: "'b event_lib \<Rightarrow> event_info \<times> 'b \<Rightarrow> event_info \<times> 'b" where
  "FreeReadEvent lib ib = ((fst ib)\<lparr>read_ev := None\<rparr>, FreeEvent lib (read_ev (fst ib)) (snd ib))"

definition FreeWriteEvent :: "'b event_lib \<Rightarrow> event_info \<times> 'b \<Rightarrow> event_info \<times> 'b" where
  "FreeWriteEvent lib ib = ((fst ib)\<lparr>write_ev := None\<rparr>, FreeEvent lib (write_ev (fst ib)) (snd ib))"

definition IsInvalid :: "event_info \<Rightarrow> bool" where
  "IsInvalid info \<longleftrightarrow> read_ev info = None \<and> write_ev info = None"

text \<open>The destructor frees what is left.\<close>

definition destroy_EventInfo :: "'b event_lib \<Rightarrow> event_info \<times> 'b \<Rightarrow> 'b" where
  "destroy_EventInfo lib ib = FreeEvent lib (write_ev (fst ib)) (FreeEvent lib (read_ev (fst ib)) (snd ib))"

section \<open>Driver\<close>

record 'b driver =
  mEventBase :: "'b option"
  mEventsInfo :: "(int \<times> event_info) list"
  mName_drv :: string
  mThread_drv :: "thread option"
  mTimerEvent :: "nat option"
  mRunning_drv :: bool

text \<open>\<open>b\<close> is the base that \<^verbatim>\<open>event_base_new\<close> made. The timer member is not set.\<close>

definition new_Driver :: "string \<Rightarrow> 'b option \<Rightarrow> 'b driver outcome" where
  "new_Driver name b =
     obind (assert_that (b \<noteq> None)) (\<lambda>_.
     Done \<lparr>mEventBase = b, mEventsInfo = [], mName_drv = name,
       mThread_drv = Some (new_Thread name False), mTimerEvent = None, mRunning_drv = False\<rparr>)"

text \<open>The library is called with the base of the driver; after \<^verbatim>\<open>Stop\<close> there is none.\<close>

definition base_of :: "'b driver \<Rightarrow> 'b outcome" where
  "base_of d = (case mEventBase d of None \<Rightarrow> Abort Null_pointer | Some b \<Rightarrow> Done b)"

definition RegistReadEvent :: "'b event_lib \<Rightarrow> int \<Rightarrow> nat \<Rightarrow> 'b driver \<Rightarrow> (err \<times> 'b driver) outcome" where
  "RegistReadEvent lib fd conn d =
     (let found = map_of (mEventsInfo d) fd in
      if (case found of None \<Rightarrow> False | Some i \<Rightarrow> read_ev i \<noteq> None) then Done (EEXIST, d)
      else
        obind (base_of d) (\<lambda>b.
        let (ev, b1) = event_new lib fd (EV_READ OR EV_PERSIST) ReadHandler conn b;
            b2 = snd (event_add lib ev b1);
            info = (case found of None \<Rightarrow> new_EventInfo | Some i \<Rightarrow> i)\<lparr>read_ev := Some ev, read_conn := Some conn\<rparr> in
        Done (E_OK, d\<lparr>mEventBase := Some b2,
          mEventsInfo := (if found = None then smap_insert fd info (mEventsInfo d)
                          else AList.update fd info (mEventsInfo d))\<rparr>)))"

definition RegistWriteEvent :: "'b event_lib \<Rightarrow> int \<Rightarrow> nat \<Rightarrow> 'b driver \<Rightarrow> (err \<times> 'b driver) outcome" where
  "RegistWriteEvent lib fd conn d =
     (let found = map_of (mEventsInfo d) fd in
      if (case found of None \<Rightarrow> False | Some i \<Rightarrow> write_ev i \<noteq> None) then Done (EEXIST, d)
      else
        obind (base_of d) (\<lambda>b.
        let (ev, b1) = event_new lib fd (EV_READ OR EV_PERSIST) WriteHandler conn b;
            b2 = snd (event_add lib ev b1);
            info = (case found of None \<Rightarrow> new_EventInfo | Some i \<Rightarrow> i)\<lparr>write_ev := Some ev, write_conn := Some conn\<rparr> in
        Done (E_OK, d\<lparr>mEventBase := Some b2,
          mEventsInfo := (if found = None then smap_insert fd info (mEventsInfo d)
                          else AList.update fd info (mEventsInfo d))\<rparr>)))"

text \<open>An event knows its base, so deleting it after \<^verbatim>\<open>Stop\<close> has freed the base is a fault.\<close>

definition UnRegistReadEvent :: "'b event_lib \<Rightarrow> int \<Rightarrow> 'b driver \<Rightarrow> (err \<times> 'b driver) outcome" where
  "UnRegistReadEvent lib fd d =
     (case map_of (mEventsInfo d) fd of None \<Rightarrow> Done (ENOENT, d)
      | Some i \<Rightarrow>
        obind (base_of d) (\<lambda>b.
        let (i1, b1) = FreeReadEvent lib (i, b) in
        if IsInvalid i1 then
          Done (E_OK, d\<lparr>mEventBase := Some (destroy_EventInfo lib (i1, b1)),
            mEventsInfo := AList.delete fd (mEventsInfo d)\<rparr>)
        else Done (E_OK, d\<lparr>mEventBase := Some b1, mEventsInfo := AList.update fd i1 (mEventsInfo d)\<rparr>)))"

definition UnRegistWriteEvent :: "'b event_lib \<Rightarrow> int \<Rightarrow> 'b driver \<Rightarrow> (err \<times> 'b driver) outcome" where
  "UnRegistWriteEvent lib fd d =
     (case map_of (mEventsInfo d) fd of None \<Rightarrow> Done (ENOENT, d)
      | Some i \<Rightarrow>
        obind (base_of d) (\<lambda>b.
        let (i1, b1) = FreeWriteEvent lib (i, b) in
        if IsInvalid i1 then
          Done (E_OK, d\<lparr>mEventBase := Some (destroy_EventInfo lib (i1, b1)),
            mEventsInfo := AList.delete fd (mEventsInfo d)\<rparr>)
        else Done (E_OK, d\<lparr>mEventBase := Some b1, mEventsInfo := AList.update fd i1 (mEventsInfo d)\<rparr>)))"

text \<open>\<^verbatim>\<open>this\<close>, the argument of the timer, has address 0; the interval is not looked at.\<close>

definition Driver_Init :: "'b event_lib \<Rightarrow> 'b driver \<Rightarrow> (err \<times> 'b driver) outcome" where
  "Driver_Init lib d =
     obind (assert_that (mEventBase d \<noteq> None)) (\<lambda>_.
     obind (base_of d) (\<lambda>b.
     let (ev, b1) = event_new lib (-1) (EV_TIMEOUT OR EV_PERSIST) TimeOut 0 b;
         b2 = snd (event_add lib ev b1) in
     Done (E_OK, d\<lparr>mEventBase := Some b2, mTimerEvent := Some ev\<rparr>)))"

definition Driver_Finit :: "'b event_lib \<Rightarrow> 'b driver \<Rightarrow> (err \<times> 'b driver) outcome" where
  "Driver_Finit lib d =
     (case mTimerEvent d of None \<Rightarrow> Abort Uninitialised_read
      | Some ev \<Rightarrow>
        obind (base_of d) (\<lambda>b.
        Done (E_OK, d\<lparr>mEventBase := Some (event_free lib ev (snd (event_del lib ev b)))\<rparr>)))"

text \<open>
  \<^verbatim>\<open>Start\<close> makes the thread and polls until \<^verbatim>\<open>Run\<close>, on that thread, has set \<^verbatim>\<open>mRunning\<close>; the loop
  of the library is what runs between \<open>Run_begin\<close> and \<open>Run_end\<close>.
\<close>

definition Driver_Run_begin :: "'b event_lib \<Rightarrow> 'b driver \<Rightarrow> (err \<times> 'b driver) outcome" where
  "Driver_Run_begin lib d =
     (if mRunning_drv d then Done (E_OK, d)
      else
        obind (assert_that (mEventBase d \<noteq> None)) (\<lambda>_.
        obind (Driver_Init lib d) (\<lambda>(err, d1).
        obind (assert_that (err = E_OK)) (\<lambda>_.
        obind (assert_that (mEventBase d1 \<noteq> None)) (\<lambda>_. Done (E_OK, d1\<lparr>mRunning_drv := True\<rparr>))))))"

definition Driver_Run_end :: "int \<Rightarrow> 'b driver \<Rightarrow> (err \<times> 'b driver) outcome" where
  "Driver_Run_end loop d = obind (assert_that (loop = 0)) (\<lambda>_. Done (E_OK, d))"

definition Driver_Start :: "'b event_lib \<Rightarrow> 'b driver \<Rightarrow> (err \<times> 'b driver) outcome" where
  "Driver_Start lib d =
     (case mThread_drv d of None \<Rightarrow> Abort Assertion_failed
      | Some t \<Rightarrow>
        obind (Thread_Start E_OK t) (\<lambda>(_, t1).
        obind (Driver_Run_begin lib (d\<lparr>mThread_drv := Some t1\<rparr>)) (\<lambda>(_, d1). Done (E_OK, d1))))"

definition Driver_Stop :: "'b event_lib \<Rightarrow> 'b driver \<Rightarrow> (err \<times> 'b driver) outcome" where
  "Driver_Stop lib d =
     (if \<not> mRunning_drv d then Done (E_OK, d)
      else
        obind (Driver_Finit lib (d\<lparr>mRunning_drv := False\<rparr>)) (\<lambda>(_, d1).
        obind (base_of d1) (\<lambda>b.
        let (r, b1) = event_base_loopbreak lib b in
        obind (assert_that (r = 0)) (\<lambda>_.
        let d2 = d1\<lparr>mEventBase := None\<rparr> in
        case mThread_drv d2 of None \<Rightarrow> Done (E_OK, d2)
        | Some t \<Rightarrow> obind (Thread_Join E_OK t) (\<lambda>_. Done (E_OK, d2\<lparr>mThread_drv := None\<rparr>))))))"

section \<open>RWConnection\<close>

definition RW_RegistReadEvent :: "'b event_lib \<Rightarrow> int \<Rightarrow> nat \<Rightarrow> 'b driver \<Rightarrow> 'b driver outcome" where
  "RW_RegistReadEvent lib fd conn d =
     obind (RegistReadEvent lib fd conn d) (\<lambda>(e, d1). obind (assert_that (e = E_OK)) (\<lambda>_. Done d1))"

definition RW_RegistWriteEvent :: "'b event_lib \<Rightarrow> int \<Rightarrow> nat \<Rightarrow> 'b driver \<Rightarrow> 'b driver outcome" where
  "RW_RegistWriteEvent lib fd conn d =
     obind (RegistWriteEvent lib fd conn d) (\<lambda>(e, d1). obind (assert_that (e = E_OK)) (\<lambda>_. Done d1))"

definition RegistRWEvent :: "'b event_lib \<Rightarrow> int \<Rightarrow> nat \<Rightarrow> 'b driver \<Rightarrow> 'b driver outcome" where
  "RegistRWEvent lib fd conn d =
     obind (RW_RegistReadEvent lib fd conn d) (RW_RegistWriteEvent lib fd conn)"

definition RW_UnRegistReadEvent :: "'b event_lib \<Rightarrow> int \<Rightarrow> 'b driver \<Rightarrow> 'b driver outcome" where
  "RW_UnRegistReadEvent lib fd d =
     obind (UnRegistReadEvent lib fd d) (\<lambda>(e, d1). obind (assert_that (e = E_OK)) (\<lambda>_. Done d1))"

definition RW_UnRegistWriteEvent :: "'b event_lib \<Rightarrow> int \<Rightarrow> 'b driver \<Rightarrow> 'b driver outcome" where
  "RW_UnRegistWriteEvent lib fd d =
     obind (UnRegistWriteEvent lib fd d) (\<lambda>(e, d1). obind (assert_that (e = E_OK)) (\<lambda>_. Done d1))"

definition UnRegistRWEvent :: "'b event_lib \<Rightarrow> int \<Rightarrow> 'b driver \<Rightarrow> 'b driver outcome" where
  "UnRegistRWEvent lib fd d = obind (RW_UnRegistReadEvent lib fd d) (RW_UnRegistWriteEvent lib fd)"

section \<open>The map of events\<close>

text \<open>
  The map is sorted, every entry has an event, and an event comes with its connection.
\<close>

definition info_ok :: "event_info \<Rightarrow> bool" where
  "info_ok i \<longleftrightarrow> \<not> IsInvalid i \<and> (read_ev i \<noteq> None \<longrightarrow> read_conn i \<noteq> None) \<and>
     (write_ev i \<noteq> None \<longrightarrow> write_conn i \<noteq> None)"

definition events_ok :: "'b driver \<Rightarrow> bool" where
  "events_ok d \<longleftrightarrow> smap_sorted (mEventsInfo d) \<and> (\<forall>i \<in> snd ` set (mEventsInfo d). info_ok i)"

lemma keys_update_member: "k \<in> fst ` set m \<Longrightarrow> map fst (AList.update k v m) = map fst m"
  by (induction m) auto

lemma smap_sorted_delete: "smap_sorted m \<Longrightarrow> smap_sorted (AList.delete k m)"
  by (simp add: AList.delete_eq sorted_wrt_map) (rule sorted_wrt_filter)

lemma snd_smap_insert: "snd ` set (smap_insert k v m) \<subseteq> insert v (snd ` set m)"
  by (induction k v m rule: smap_insert.induct) auto

lemma snd_update: "snd ` set (AList.update k v m) \<subseteq> insert v (snd ` set m)"
  by (induction m) auto

lemma snd_delete: "snd ` set (AList.delete k m) \<subseteq> snd ` set m"
  by (auto simp: AList.delete_eq)

lemma map_of_delete_sorted: "map_of (AList.delete k m) = (map_of m)(k := None)"
  by (simp add: delete_conv')

text \<open>Registering puts an entry where there is none, or completes the one there is.\<close>

lemma events_ok_put:
  assumes "events_ok d" "info_ok i"
    and "m = (if map_of (mEventsInfo d) fd = None then smap_insert fd i (mEventsInfo d)
              else AList.update fd i (mEventsInfo d))"
  shows "events_ok (d\<lparr>mEventBase := b, mEventsInfo := m\<rparr>)"
    and "map_of m = (map_of (mEventsInfo d))(fd \<mapsto> i)"
proof -
  have s: "smap_sorted (mEventsInfo d)" using assms(1) by (simp add: events_ok_def)
  have "smap_sorted m"
  proof (cases "map_of (mEventsInfo d) fd = None")
    case False
    then have "fd \<in> fst ` set (mEventsInfo d)" by (simp add: map_of_eq_None_iff)
    with s assms(3) False show ?thesis by (simp add: keys_update_member)
  qed (use s assms(3) smap_sorted_insert in simp)
  moreover have "snd ` set m \<subseteq> insert i (snd ` set (mEventsInfo d))"
    using assms(3) snd_smap_insert [of fd i] snd_update [of fd i] by simp
  then have "\<forall>j \<in> snd ` set m. info_ok j" using assms(1,2) unfolding events_ok_def by blast
  ultimately show "events_ok (d\<lparr>mEventBase := b, mEventsInfo := m\<rparr>)" by (simp add: events_ok_def)
  show "map_of m = (map_of (mEventsInfo d))(fd \<mapsto> i)"
    using assms(3) map_of_smap_insert [OF s] by (auto simp: fun_eq_iff update_conv')
qed

lemma events_ok_base [simp]: "events_ok (d\<lparr>mEventBase := b\<rparr>) = events_ok d"
  by (simp add: events_ok_def)

lemma events_ok_update:
  assumes "events_ok d" "map_of (mEventsInfo d) fd = Some j" "info_ok i"
  shows "events_ok (d\<lparr>mEventBase := b, mEventsInfo := AList.update fd i (mEventsInfo d)\<rparr>)"
  by (rule events_ok_put(1) [where fd = fd, OF assms(1,3)]) (use assms(2) in simp)

lemma events_ok_delete:
  assumes "events_ok d"
  shows "events_ok (d\<lparr>mEventBase := b, mEventsInfo := AList.delete fd (mEventsInfo d)\<rparr>)"
proof -
  have "\<forall>j \<in> snd ` set (AList.delete fd (mEventsInfo d)). info_ok j"
    using assms snd_delete [of fd "mEventsInfo d"] unfolding events_ok_def by blast
  with assms show ?thesis by (simp add: events_ok_def smap_sorted_delete)
qed

lemma events_ok_lookup: "events_ok d \<Longrightarrow> map_of (mEventsInfo d) fd = Some i \<Longrightarrow> info_ok i"
  unfolding events_ok_def by (metis image_eqI map_of_SomeD snd_conv)

lemma RegistReadEvent_ok:
  assumes ok: "events_ok d" and run: "RegistReadEvent lib fd conn d = Done (e, d')"
  shows "events_ok d'"
proof (cases "\<exists>i. map_of (mEventsInfo d) fd = Some i \<and> read_ev i \<noteq> None")
  case True
  with ok run show ?thesis by (auto simp: RegistReadEvent_def)
next
  case False
  let ?i = "\<lambda>ev. (case map_of (mEventsInfo d) fd of None \<Rightarrow> new_EventInfo | Some i \<Rightarrow> i)
    \<lparr>read_ev := Some ev, read_conn := Some conn\<rparr>"
  from False have n: "(case map_of (mEventsInfo d) fd of None \<Rightarrow> False | Some i \<Rightarrow> read_ev i \<noteq> None) = False"
    by (auto split: option.split)
  have i: "info_ok (?i ev)" for ev
    using events_ok_lookup [OF ok, of fd]
    by (auto simp: info_ok_def IsInvalid_def new_EventInfo_def split: option.split)
  from run n obtain b where b: "base_of d = Done b"
    by (cases "base_of d") (auto simp: RegistReadEvent_def simp del: not_None_eq)
  obtain ev b1 where ev: "event_new lib fd (EV_READ OR EV_PERSIST) ReadHandler conn b = (ev, b1)" by fastforce
  have "d' = d\<lparr>mEventBase := Some (snd (event_add lib ev b1)),
      mEventsInfo := (if map_of (mEventsInfo d) fd = None then smap_insert fd (?i ev) (mEventsInfo d)
                      else AList.update fd (?i ev) (mEventsInfo d))\<rparr>"
    using run unfolding RegistReadEvent_def Let_def n b by (simp add: ev del: not_None_eq)
  then show ?thesis using events_ok_put(1) [where fd = fd, OF ok i refl] by simp
qed

lemma RegistWriteEvent_ok:
  assumes ok: "events_ok d" and run: "RegistWriteEvent lib fd conn d = Done (e, d')"
  shows "events_ok d'"
proof (cases "\<exists>i. map_of (mEventsInfo d) fd = Some i \<and> write_ev i \<noteq> None")
  case True
  with ok run show ?thesis by (auto simp: RegistWriteEvent_def)
next
  case False
  let ?i = "\<lambda>ev. (case map_of (mEventsInfo d) fd of None \<Rightarrow> new_EventInfo | Some i \<Rightarrow> i)
    \<lparr>write_ev := Some ev, write_conn := Some conn\<rparr>"
  from False have n: "(case map_of (mEventsInfo d) fd of None \<Rightarrow> False | Some i \<Rightarrow> write_ev i \<noteq> None) = False"
    by (auto split: option.split)
  have i: "info_ok (?i ev)" for ev
    using events_ok_lookup [OF ok, of fd]
    by (auto simp: info_ok_def IsInvalid_def new_EventInfo_def split: option.split)
  from run n obtain b where b: "base_of d = Done b"
    by (cases "base_of d") (auto simp: RegistWriteEvent_def simp del: not_None_eq)
  obtain ev b1 where ev: "event_new lib fd (EV_READ OR EV_PERSIST) WriteHandler conn b = (ev, b1)" by fastforce
  have "d' = d\<lparr>mEventBase := Some (snd (event_add lib ev b1)),
      mEventsInfo := (if map_of (mEventsInfo d) fd = None then smap_insert fd (?i ev) (mEventsInfo d)
                      else AList.update fd (?i ev) (mEventsInfo d))\<rparr>"
    using run unfolding RegistWriteEvent_def Let_def n b by (simp add: ev del: not_None_eq)
  then show ?thesis using events_ok_put(1) [where fd = fd, OF ok i refl] by simp
qed

lemma UnRegistReadEvent_ok:
  assumes ok: "events_ok d" and run: "UnRegistReadEvent lib fd d = Done (e, d')"
  shows "events_ok d'"
proof (cases "map_of (mEventsInfo d) fd")
  case (Some i)
  from run Some obtain b where b: "base_of d = Done b"
    by (cases "base_of d") (simp_all add: UnRegistReadEvent_def)
  show ?thesis
  proof (cases "IsInvalid (i\<lparr>read_ev := None\<rparr>)")
    case True
    with run Some b ok show ?thesis
      by (auto simp: UnRegistReadEvent_def FreeReadEvent_def events_ok_delete)
  next
    case False
    then have "info_ok (i\<lparr>read_ev := None\<rparr>)"
      using events_ok_lookup [OF ok Some] by (simp add: info_ok_def IsInvalid_def)
    from events_ok_update [OF ok Some this] run Some b False show ?thesis
      by (auto simp: UnRegistReadEvent_def FreeReadEvent_def)
  qed
qed (use assms in \<open>simp add: UnRegistReadEvent_def\<close>)

lemma UnRegistWriteEvent_ok:
  assumes ok: "events_ok d" and run: "UnRegistWriteEvent lib fd d = Done (e, d')"
  shows "events_ok d'"
proof (cases "map_of (mEventsInfo d) fd")
  case (Some i)
  from run Some obtain b where b: "base_of d = Done b"
    by (cases "base_of d") (simp_all add: UnRegistWriteEvent_def)
  show ?thesis
  proof (cases "IsInvalid (i\<lparr>write_ev := None\<rparr>)")
    case True
    with run Some b ok show ?thesis
      by (auto simp: UnRegistWriteEvent_def FreeWriteEvent_def events_ok_delete)
  next
    case False
    then have "info_ok (i\<lparr>write_ev := None\<rparr>)"
      using events_ok_lookup [OF ok Some] by (simp add: info_ok_def IsInvalid_def)
    from events_ok_update [OF ok Some this] run Some b False show ?thesis
      by (auto simp: UnRegistWriteEvent_def FreeWriteEvent_def)
  qed
qed (use assms in \<open>simp add: UnRegistWriteEvent_def\<close>)

text \<open>Registering and unregistering a descriptor for both directions.\<close>

definition registered :: "int \<Rightarrow> nat \<Rightarrow> 'b driver \<Rightarrow> bool" where
  "registered fd conn d \<longleftrightarrow> mEventBase d \<noteq> None \<and>
     (\<exists>r w. map_of (mEventsInfo d) fd =
        Some \<lparr>read_ev = Some r, write_ev = Some w, read_conn = Some conn, write_conn = Some conn\<rparr>)"

lemma RegistRWEvent_run:
  assumes ok: "events_ok d" and new: "map_of (mEventsInfo d) fd = None" and b: "mEventBase d = Some b"
  shows "\<exists>d1. RegistRWEvent lib fd conn d = Done d1 \<and> events_ok d1 \<and> registered fd conn d1 \<and>
    (\<forall>g. g \<noteq> fd \<longrightarrow> map_of (mEventsInfo d1) g = map_of (mEventsInfo d) g) \<and>
    mRunning_drv d1 = mRunning_drv d \<and> mEventBase d1 \<noteq> None"
proof -
  obtain r b1 where r: "event_new lib fd (EV_READ OR EV_PERSIST) ReadHandler conn b = (r, b1)" by fastforce
  let ?i = "new_EventInfo\<lparr>read_ev := Some r, read_conn := Some conn\<rparr>"
  let ?d1 = "d\<lparr>mEventBase := Some (snd (event_add lib r b1)), mEventsInfo := smap_insert fd ?i (mEventsInfo d)\<rparr>"
  have s: "smap_sorted (mEventsInfo d)" using ok by (simp add: events_ok_def)
  have r1: "RegistReadEvent lib fd conn d = Done (E_OK, ?d1)"
    using new b r by (simp add: RegistReadEvent_def base_of_def)
  have m1: "map_of (mEventsInfo ?d1) = (map_of (mEventsInfo d))(fd \<mapsto> ?i)"
    using map_of_smap_insert [OF s] new by (auto simp: fun_eq_iff)
  have ok1: "events_ok ?d1" by (rule RegistReadEvent_ok [OF ok r1])
  obtain w b2 where w: "event_new lib fd (EV_READ OR EV_PERSIST) WriteHandler conn (snd (event_add lib r b1)) = (w, b2)"
    by fastforce
  let ?j = "?i\<lparr>write_ev := Some w, write_conn := Some conn\<rparr>"
  let ?d2 = "?d1\<lparr>mEventBase := Some (snd (event_add lib w b2)), mEventsInfo := AList.update fd ?j (mEventsInfo ?d1)\<rparr>"
  have r2: "RegistWriteEvent lib fd conn ?d1 = Done (E_OK, ?d2)"
    using m1 w by (simp add: RegistWriteEvent_def base_of_def new_EventInfo_def)
  have m2: "map_of (mEventsInfo ?d2) = (map_of (mEventsInfo d))(fd \<mapsto> ?j)"
    using m1 by (auto simp: fun_eq_iff update_conv')
  have "RegistRWEvent lib fd conn d = Done ?d2"
    using r1 r2 by (simp add: RegistRWEvent_def RW_RegistReadEvent_def RW_RegistWriteEvent_def)
  moreover have "registered fd conn ?d2" using m2 by (simp add: registered_def new_EventInfo_def)
  ultimately show ?thesis
    using m2 RegistWriteEvent_ok [OF ok1 r2] by (intro exI [of _ ?d2]) simp
qed

text \<open>Registering touches the base and the map only.\<close>

lemma RegistRWEvent_frame:
  fixes d :: "'b driver"
  assumes "RegistRWEvent lib fd conn d = Done d'"
  shows "d' = d\<lparr>mEventBase := mEventBase d', mEventsInfo := mEventsInfo d'\<rparr>"
proof -
  let ?rest = "\<lambda>d :: 'b driver. (mName_drv d, mThread_drv d, mTimerEvent d, mRunning_drv d)"
  from assms obtain e1 d1 e2 where r: "RegistReadEvent lib fd conn d = Done (e1, d1)"
    and w: "RegistWriteEvent lib fd conn d1 = Done (e2, d')"
    by (auto simp: RegistRWEvent_def RW_RegistReadEvent_def RW_RegistWriteEvent_def outcome_simps)
  have "?rest d1 = ?rest d"
    using r by (auto simp: RegistReadEvent_def Let_def outcome_simps case_prod_unfold split: if_splits)
  moreover have "?rest d' = ?rest d1"
    using w by (auto simp: RegistWriteEvent_def Let_def outcome_simps case_prod_unfold split: if_splits)
  ultimately have "?rest d' = ?rest d" by (rule trans [rotated])
  then show ?thesis by (cases d; cases d') simp
qed

lemma UnRegistRWEvent_run:
  assumes ok: "events_ok d" and reg: "registered fd conn d"
  shows "\<exists>d1. UnRegistRWEvent lib fd d = Done d1 \<and> events_ok d1 \<and>
    map_of (mEventsInfo d1) = (map_of (mEventsInfo d))(fd := None) \<and> mEventBase d1 \<noteq> None \<and>
    mRunning_drv d1 = mRunning_drv d \<and> mEventBase d1 \<noteq> None"
proof -
  from reg obtain b r w where b: "mEventBase d = Some b"
    and i: "map_of (mEventsInfo d) fd = Some \<lparr>read_ev = Some r, write_ev = Some w, read_conn = Some conn, write_conn = Some conn\<rparr>"
    by (auto simp: registered_def)
  let ?i = "\<lparr>read_ev = None, write_ev = Some w, read_conn = Some conn, write_conn = Some conn\<rparr>"
  let ?d1 = "d\<lparr>mEventBase := Some (FreeEvent lib (Some r) b), mEventsInfo := AList.update fd ?i (mEventsInfo d)\<rparr>"
  have r1: "UnRegistReadEvent lib fd d = Done (E_OK, ?d1)"
    using i b by (simp add: UnRegistReadEvent_def base_of_def FreeReadEvent_def IsInvalid_def)
  have m1: "map_of (mEventsInfo ?d1) fd = Some ?i" by (simp add: update_conv')
  have ok1: "events_ok ?d1" by (rule UnRegistReadEvent_ok [OF ok r1])
  let ?b2 = "FreeEvent lib (Some w) (FreeEvent lib (Some r) b)"
  let ?d2 = "?d1\<lparr>mEventBase := Some ?b2, mEventsInfo := AList.delete fd (mEventsInfo ?d1)\<rparr>"
  have "UnRegistWriteEvent lib fd ?d1 = Done (E_OK, ?d2)"
    using m1 by (simp add: UnRegistWriteEvent_def base_of_def FreeWriteEvent_def IsInvalid_def
        destroy_EventInfo_def FreeEvent_def)
  note r2 = this
  have "UnRegistRWEvent lib fd d = Done ?d2"
    using r1 r2 by (simp add: UnRegistRWEvent_def RW_UnRegistReadEvent_def RW_UnRegistWriteEvent_def)
  moreover have "map_of (mEventsInfo ?d2) = (map_of (mEventsInfo d))(fd := None)"
    by (simp add: delete_conv' update_conv')
  ultimately show ?thesis using UnRegistWriteEvent_ok [OF ok1 r2] by (intro exI [of _ ?d2]) simp
qed

text \<open>The event for writing is registered with the flags of the one for reading.\<close>

lemma write_event_waits_for_input:
  assumes "\<And>fl. fl AND EV_WRITE = 0 \<Longrightarrow> event_new lib fd fl = event_new lib' fd fl"
    and "event_add lib = event_add lib'"
  shows "RegistWriteEvent lib fd conn d = RegistWriteEvent lib' fd conn d"
proof -
  have "(EV_READ OR EV_PERSIST) AND EV_WRITE = 0"
    by (simp add: EV_READ_def EV_PERSIST_def EV_WRITE_def)
  from assms(1) [OF this] assms(2) show ?thesis unfolding RegistWriteEvent_def by presburger
qed

section \<open>Events and the library\<close>

text \<open>
  What the driver relies on: a new event is none of the live ones, adding and deleting an event
  neither make nor free one, and \<^verbatim>\<open>event_free\<close> frees the event it is given. Adding, deleting or freeing
  an event that is not live, such as one that was freed already, is undefined; \<open>misused\<close> says that it
  has happened, and stays true from then on.
\<close>

definition library_ok :: "'b event_lib \<Rightarrow> ('b \<Rightarrow> nat set) \<Rightarrow> ('b \<Rightarrow> bool) \<Rightarrow> bool" where
  "library_ok lib live misused \<longleftrightarrow>
     (\<forall>fd fl h a b. fst (event_new lib fd fl h a b) \<notin> live b \<and>
        live (snd (event_new lib fd fl h a b)) = insert (fst (event_new lib fd fl h a b)) (live b) \<and>
        misused (snd (event_new lib fd fl h a b)) = misused b) \<and>
     (\<forall>e b. live (snd (event_add lib e b)) = live b \<and> live (snd (event_del lib e b)) = live b \<and>
        live (event_free lib e b) = live b - {e}) \<and>
     (\<forall>e b. misused (snd (event_add lib e b)) = (misused b \<or> e \<notin> live b) \<and>
        misused (snd (event_del lib e b)) = (misused b \<or> e \<notin> live b) \<and>
        misused (event_free lib e b) = (misused b \<or> e \<notin> live b))"

text \<open>The event that watches a descriptor for input (\<^const>\<open>True\<close>) or output.\<close>

definition watch :: "'b driver \<Rightarrow> int \<times> bool \<rightharpoonup> nat" where
  "watch d x = (case map_of (mEventsInfo d) (fst x) of None \<Rightarrow> None
     | Some i \<Rightarrow> if snd x then read_ev i else write_ev i)"

text \<open>The live events are the watching ones, each watching once, and no event was used that was not live.\<close>

definition events_owned :: "('b \<Rightarrow> nat set) \<Rightarrow> ('b \<Rightarrow> bool) \<Rightarrow> 'b driver \<Rightarrow> bool" where
  "events_owned live misused d \<longleftrightarrow> events_ok d \<and> inj_on (watch d) (dom (watch d)) \<and>
     (\<forall>b. mEventBase d = Some b \<longrightarrow> live b = ran (watch d) \<and> \<not> misused b)"

lemma inj_on_put:
  assumes "inj_on f (dom f)" "e \<notin> ran f"
  shows "inj_on (f(x \<mapsto> e)) (dom (f(x \<mapsto> e)))"
proof (rule inj_onI)
  fix a b
  assume *: "a \<in> dom (f(x \<mapsto> e))" "b \<in> dom (f(x \<mapsto> e))" "(f(x \<mapsto> e)) a = (f(x \<mapsto> e)) b"
  have ne: "f c \<noteq> Some e" for c using assms(2) unfolding ran_def by blast
  consider "a = x" "b = x" | "a = x" "b \<noteq> x" | "a \<noteq> x" "b = x" | "a \<noteq> x" "b \<noteq> x" by blast
  then show "a = b"
  proof cases
    case 2
    with * have "Some e = f b" by simp
    with ne [of b] show ?thesis by metis
  next
    case 3
    with * ne [of a] show ?thesis by simp
  next
    case 4
    with * have "f a = f b" "a \<in> dom f" "b \<in> dom f" by simp_all
    with assms(1) show ?thesis by (rule inj_onD)
  qed simp
qed

lemma inj_on_drop: "inj_on f (dom f) \<Longrightarrow> inj_on (f(x := None)) (dom (f(x := None)))"
  by (simp add: inj_on_def)

lemma ran_drop:
  assumes "inj_on f (dom f)" "f x = Some e"
  shows "ran (f(x := None)) = ran f - {e}"
proof -
  have a: "a = x" if "f a = Some e" for a
    by (rule inj_onD [OF assms(1)]) (use assms(2) that in auto)
  have "ran f = insert e (ran (f(x := None)))"
    using assms(2) by (metis fun_upd_triv fun_upd_upd map_upd_Some_unfold ran_map_upd fun_upd_same)
  moreover have "e \<notin> ran (f(x := None))" using a by (auto simp: ran_def)
  ultimately show ?thesis by simp
qed

lemma watch_put:
  assumes "events_ok d" "mEventsInfo d' = (if map_of (mEventsInfo d) fd = None
      then smap_insert fd i (mEventsInfo d) else AList.update fd i (mEventsInfo d))"
    and "info_ok i"
  shows "watch d' = (watch d)((fd, True) := read_ev i, (fd, False) := write_ev i)"
  using events_ok_put(2) [OF assms(1,3,2)] by (auto simp: watch_def fun_eq_iff)

lemma watch_delete:
  assumes "mEventsInfo d' = AList.delete fd (mEventsInfo d)"
  shows "watch d' = (watch d)((fd, True) := None, (fd, False) := None)"
  using assms by (auto simp: watch_def fun_eq_iff map_of_delete_sorted)

text \<open>One call: which event it makes or frees.\<close>

definition makes_event :: "('b \<Rightarrow> nat set) \<Rightarrow> ('b \<Rightarrow> bool) \<Rightarrow> int \<times> bool \<Rightarrow> 'b driver \<Rightarrow> 'b driver \<Rightarrow> bool" where
  "makes_event live misused x d d' \<longleftrightarrow> watch d x = None \<and> (\<exists>b b' e. mEventBase d = Some b \<and>
     mEventBase d' = Some b' \<and> e \<notin> live b \<and> live b' = insert e (live b) \<and> misused b' = misused b \<and>
     watch d' = (watch d)(x \<mapsto> e))"

definition frees_event :: "('b \<Rightarrow> nat set) \<Rightarrow> ('b \<Rightarrow> bool) \<Rightarrow> int \<times> bool \<Rightarrow> 'b driver \<Rightarrow> 'b driver \<Rightarrow> bool" where
  "frees_event live misused x d d' \<longleftrightarrow> (\<exists>b b'. mEventBase d = Some b \<and> mEventBase d' = Some b' \<and>
     live b' = live b - set_option (watch d x) \<and> (set_option (watch d x) \<subseteq> live b \<longrightarrow> misused b' = misused b) \<and>
     watch d' = (watch d)(x := None))"

lemma makes_event_owned:
  assumes "events_owned live misused d" "makes_event live misused x d d'" "events_ok d'"
  shows "events_owned live misused d'"
proof -
  from assms(2) obtain b b' e where m: "watch d x = None" "mEventBase d = Some b" "mEventBase d' = Some b'"
    "e \<notin> live b" "live b' = insert e (live b)" "misused b' = misused b" "watch d' = (watch d)(x \<mapsto> e)"
    unfolding makes_event_def by blast
  with assms(1) have "live b = ran (watch d)" "\<not> misused b" "inj_on (watch d) (dom (watch d))"
    by (simp_all add: events_owned_def)
  with m assms(3) show ?thesis by (simp add: events_owned_def inj_on_put del: dom_fun_upd)
qed

lemma frees_event_owned:
  assumes "events_owned live misused d" "frees_event live misused x d d'" "events_ok d'"
  shows "events_owned live misused d'"
proof -
  from assms(2) obtain b b' where m: "mEventBase d = Some b" "mEventBase d' = Some b'"
    "live b' = live b - set_option (watch d x)" "watch d' = (watch d)(x := None)"
    and bad: "set_option (watch d x) \<subseteq> live b \<longrightarrow> misused b' = misused b"
    unfolding frees_event_def by blast
  with assms(1) have o: "live b = ran (watch d)" "inj_on (watch d) (dom (watch d))" "\<not> misused b"
    by (simp_all add: events_owned_def)
  have "set_option (watch d x) \<subseteq> live b" using o(1) by (auto intro: ranI)
  with bad o(3) have nb: "\<not> misused b'" by simp
  have "ran (watch d') = ran (watch d) - set_option (watch d x)"
  proof (cases "watch d x")
    case None
    with m(4) show ?thesis by (simp add: fun_upd_idem)
  qed (use m(4) ran_drop [OF o(2)] in simp)
  with m o nb assms(3) show ?thesis by (simp add: events_owned_def inj_on_drop del: dom_fun_upd)
qed

lemma library_makes:
  assumes "library_ok lib live misused" "event_new lib fd fl h a b = (ev, b1)"
  shows "ev \<notin> live b" "live (snd (event_add lib ev b1)) = insert ev (live b)"
    "misused (snd (event_add lib ev b1)) = misused b"
proof -
  have "ev \<notin> live b" "live b1 = insert ev (live b)" "misused b1 = misused b"
    using assms unfolding library_ok_def by (metis fst_conv snd_conv)+
  with assms(1) show "ev \<notin> live b" "live (snd (event_add lib ev b1)) = insert ev (live b)"
    "misused (snd (event_add lib ev b1)) = misused b" by (simp_all add: library_ok_def)
qed

lemma library_frees:
  assumes "library_ok lib live misused"
  shows "live (FreeEvent lib ev b) = live b - set_option ev"
    and "set_option ev \<subseteq> live b \<longrightarrow> misused (FreeEvent lib ev b) = misused b"
  using assms by (simp_all add: FreeEvent_def library_ok_def split: option.split)

lemma RegistReadEvent_makes:
  assumes lib: "library_ok lib live misused" and ok: "events_ok d"
    and run: "RegistReadEvent lib fd conn d = Done (e, d')"
  shows "e = EEXIST \<and> d' = d \<or> e = E_OK \<and> makes_event live misused (fd, True) d d'"
proof (cases "\<exists>i. map_of (mEventsInfo d) fd = Some i \<and> read_ev i \<noteq> None")
  case True
  with run show ?thesis by (auto simp: RegistReadEvent_def)
next
  case False
  let ?i = "\<lambda>ev. (case map_of (mEventsInfo d) fd of None \<Rightarrow> new_EventInfo | Some i \<Rightarrow> i)
    \<lparr>read_ev := Some ev, read_conn := Some conn\<rparr>"
  from False have n: "(case map_of (mEventsInfo d) fd of None \<Rightarrow> False | Some i \<Rightarrow> read_ev i \<noteq> None) = False"
    by (auto split: option.split)
  have i: "info_ok (?i ev)" for ev
    using events_ok_lookup [OF ok, of fd]
    by (auto simp: info_ok_def IsInvalid_def new_EventInfo_def split: option.split)
  from run n obtain b where b: "base_of d = Done b"
    by (cases "base_of d") (auto simp: RegistReadEvent_def simp del: not_None_eq)
  obtain ev b1 where ev: "event_new lib fd (EV_READ OR EV_PERSIST) ReadHandler conn b = (ev, b1)" by fastforce
  from library_makes [OF lib ev]
  have live: "ev \<notin> live b" "live (snd (event_add lib ev b1)) = insert ev (live b)"
    "misused (snd (event_add lib ev b1)) = misused b" .
  have d': "e = E_OK" "d' = d\<lparr>mEventBase := Some (snd (event_add lib ev b1)),
      mEventsInfo := (if map_of (mEventsInfo d) fd = None then smap_insert fd (?i ev) (mEventsInfo d)
                      else AList.update fd (?i ev) (mEventsInfo d))\<rparr>"
    using run unfolding RegistReadEvent_def Let_def n b by (simp_all add: ev del: not_None_eq)
  have "mEventsInfo d' = (if map_of (mEventsInfo d) fd = None then smap_insert fd (?i ev) (mEventsInfo d)
      else AList.update fd (?i ev) (mEventsInfo d))" by (simp add: d')
  from watch_put [OF ok this i] have "watch d' = (watch d)((fd, True) \<mapsto> ev)"
    by (auto simp: watch_def fun_eq_iff new_EventInfo_def split: option.splits)
  moreover have "watch d (fd, True) = None" using False by (auto simp: watch_def split: option.split)
  moreover have "mEventBase d = Some b" using b by (auto simp: base_of_def split: option.splits)
  ultimately show ?thesis using live d' by (auto simp: makes_event_def)
qed

lemma UnRegistReadEvent_frees:
  assumes lib: "library_ok lib live misused" and ok: "events_ok d"
    and run: "UnRegistReadEvent lib fd d = Done (e, d')"
  shows "e = ENOENT \<and> d' = d \<or> e = E_OK \<and> frees_event live misused (fd, True) d d'"
proof (cases "map_of (mEventsInfo d) fd")
  case (Some i)
  from run Some obtain b where b: "mEventBase d = Some b"
    by (cases "mEventBase d") (simp_all add: UnRegistReadEvent_def base_of_def)
  let ?i = "i\<lparr>read_ev := None\<rparr>" and ?b = "FreeEvent lib (read_ev i) b"
  have live: "live ?b = live b - set_option (watch d (fd, True))"
    "set_option (watch d (fd, True)) \<subseteq> live b \<longrightarrow> misused ?b = misused b"
    using library_frees [OF lib] Some by (simp_all add: watch_def)
  show ?thesis
  proof (cases "IsInvalid ?i")
    case True
    have d': "e = E_OK" "d' = d\<lparr>mEventBase := Some ?b, mEventsInfo := AList.delete fd (mEventsInfo d)\<rparr>"
      using run Some b True
      by (simp_all add: UnRegistReadEvent_def base_of_def FreeReadEvent_def destroy_EventInfo_def
          FreeEvent_def IsInvalid_def)
    then have "watch d' = (watch d)((fd, True) := None, (fd, False) := None)"
      by (intro watch_delete) simp
    also have "\<dots> = (watch d)((fd, True) := None)"
      using True Some by (auto simp: fun_eq_iff watch_def IsInvalid_def)
    finally show ?thesis using live d' b by (auto simp: frees_event_def)
  next
    case False
    have d': "e = E_OK" "d' = d\<lparr>mEventBase := Some ?b, mEventsInfo := AList.update fd ?i (mEventsInfo d)\<rparr>"
      using run Some b False by (simp_all add: UnRegistReadEvent_def base_of_def FreeReadEvent_def)
    have "info_ok ?i" using False events_ok_lookup [OF ok Some] by (simp add: info_ok_def IsInvalid_def)
    from watch_put [OF ok _ this, of d' fd] d' Some
    have "watch d' = (watch d)((fd, True) := read_ev ?i, (fd, False) := write_ev ?i)" by simp
    also have "\<dots> = (watch d)((fd, True) := None)" using Some by (auto simp: fun_eq_iff watch_def)
    finally show ?thesis using live d' b by (auto simp: frees_event_def)
  qed
qed (use run in \<open>simp add: UnRegistReadEvent_def\<close>)

lemma RegistWriteEvent_makes:
  assumes lib: "library_ok lib live misused" and ok: "events_ok d"
    and run: "RegistWriteEvent lib fd conn d = Done (e, d')"
  shows "e = EEXIST \<and> d' = d \<or> e = E_OK \<and> makes_event live misused (fd, False) d d'"
proof (cases "\<exists>i. map_of (mEventsInfo d) fd = Some i \<and> write_ev i \<noteq> None")
  case True
  with run show ?thesis by (auto simp: RegistWriteEvent_def)
next
  case False
  let ?i = "\<lambda>ev. (case map_of (mEventsInfo d) fd of None \<Rightarrow> new_EventInfo | Some i \<Rightarrow> i)
    \<lparr>write_ev := Some ev, write_conn := Some conn\<rparr>"
  from False have n: "(case map_of (mEventsInfo d) fd of None \<Rightarrow> False | Some i \<Rightarrow> write_ev i \<noteq> None) = False"
    by (auto split: option.split)
  have i: "info_ok (?i ev)" for ev
    using events_ok_lookup [OF ok, of fd]
    by (auto simp: info_ok_def IsInvalid_def new_EventInfo_def split: option.split)
  from run n obtain b where b: "base_of d = Done b"
    by (cases "base_of d") (auto simp: RegistWriteEvent_def simp del: not_None_eq)
  obtain ev b1 where ev: "event_new lib fd (EV_READ OR EV_PERSIST) WriteHandler conn b = (ev, b1)" by fastforce
  from library_makes [OF lib ev]
  have live: "ev \<notin> live b" "live (snd (event_add lib ev b1)) = insert ev (live b)"
    "misused (snd (event_add lib ev b1)) = misused b" .
  have d': "e = E_OK" "d' = d\<lparr>mEventBase := Some (snd (event_add lib ev b1)),
      mEventsInfo := (if map_of (mEventsInfo d) fd = None then smap_insert fd (?i ev) (mEventsInfo d)
                      else AList.update fd (?i ev) (mEventsInfo d))\<rparr>"
    using run unfolding RegistWriteEvent_def Let_def n b by (simp_all add: ev del: not_None_eq)
  have "mEventsInfo d' = (if map_of (mEventsInfo d) fd = None then smap_insert fd (?i ev) (mEventsInfo d)
      else AList.update fd (?i ev) (mEventsInfo d))" by (simp add: d')
  from watch_put [OF ok this i] have "watch d' = (watch d)((fd, False) \<mapsto> ev)"
    by (auto simp: watch_def fun_eq_iff new_EventInfo_def split: option.splits)
  moreover have "watch d (fd, False) = None" using False by (auto simp: watch_def split: option.split)
  moreover have "mEventBase d = Some b" using b by (auto simp: base_of_def split: option.splits)
  ultimately show ?thesis using live d' by (auto simp: makes_event_def)
qed

lemma UnRegistWriteEvent_frees:
  assumes lib: "library_ok lib live misused" and ok: "events_ok d"
    and run: "UnRegistWriteEvent lib fd d = Done (e, d')"
  shows "e = ENOENT \<and> d' = d \<or> e = E_OK \<and> frees_event live misused (fd, False) d d'"
proof (cases "map_of (mEventsInfo d) fd")
  case (Some i)
  from run Some obtain b where b: "mEventBase d = Some b"
    by (cases "mEventBase d") (simp_all add: UnRegistWriteEvent_def base_of_def)
  let ?i = "i\<lparr>write_ev := None\<rparr>" and ?b = "FreeEvent lib (write_ev i) b"
  have live: "live ?b = live b - set_option (watch d (fd, False))"
    "set_option (watch d (fd, False)) \<subseteq> live b \<longrightarrow> misused ?b = misused b"
    using library_frees [OF lib] Some by (simp_all add: watch_def)
  show ?thesis
  proof (cases "IsInvalid ?i")
    case True
    have d': "e = E_OK" "d' = d\<lparr>mEventBase := Some ?b, mEventsInfo := AList.delete fd (mEventsInfo d)\<rparr>"
      using run Some b True
      by (simp_all add: UnRegistWriteEvent_def base_of_def FreeWriteEvent_def destroy_EventInfo_def
          FreeEvent_def IsInvalid_def)
    then have "watch d' = (watch d)((fd, True) := None, (fd, False) := None)"
      by (intro watch_delete) simp
    also have "\<dots> = (watch d)((fd, False) := None)"
      using True Some by (auto simp: fun_eq_iff watch_def IsInvalid_def)
    finally show ?thesis using live d' b by (auto simp: frees_event_def)
  next
    case False
    have d': "e = E_OK" "d' = d\<lparr>mEventBase := Some ?b, mEventsInfo := AList.update fd ?i (mEventsInfo d)\<rparr>"
      using run Some b False by (simp_all add: UnRegistWriteEvent_def base_of_def FreeWriteEvent_def)
    have "info_ok ?i" using False events_ok_lookup [OF ok Some] by (simp add: info_ok_def IsInvalid_def)
    from watch_put [OF ok _ this, of d' fd] d' Some
    have "watch d' = (watch d)((fd, True) := read_ev ?i, (fd, False) := write_ev ?i)" by simp
    also have "\<dots> = (watch d)((fd, False) := None)" using Some by (auto simp: fun_eq_iff watch_def)
    finally show ?thesis using live d' b by (auto simp: frees_event_def)
  qed
qed (use run in \<open>simp add: UnRegistWriteEvent_def\<close>)

section \<open>Any sequence of calls\<close>

datatype watch_call = Watch_read int nat | Watch_write int nat | Unwatch_read int | Unwatch_write int

fun driver_call :: "'b event_lib \<Rightarrow> watch_call \<Rightarrow> 'b driver \<Rightarrow> (err \<times> 'b driver) outcome" where
  "driver_call lib (Watch_read fd conn) d = RegistReadEvent lib fd conn d"
| "driver_call lib (Watch_write fd conn) d = RegistWriteEvent lib fd conn d"
| "driver_call lib (Unwatch_read fd) d = UnRegistReadEvent lib fd d"
| "driver_call lib (Unwatch_write fd) d = UnRegistWriteEvent lib fd d"

fun driver_calls :: "'b event_lib \<Rightarrow> watch_call list \<Rightarrow> 'b driver \<Rightarrow> 'b driver outcome" where
  "driver_calls lib [] d = Done d"
| "driver_calls lib (c # cs) d = obind (driver_call lib c d) (\<lambda>(e, d1). driver_calls lib cs d1)"

lemma driver_call_owned:
  assumes "library_ok lib live misused" "events_owned live misused d" "driver_call lib c d = Done (e, d')"
  shows "events_owned live misused d'"
proof -
  have ok: "events_ok d" using assms(2) by (simp add: events_owned_def)
  show ?thesis
  proof (cases c)
    case (Watch_read fd conn)
    with assms(3) have r: "RegistReadEvent lib fd conn d = Done (e, d')" by simp
    from RegistReadEvent_makes [OF assms(1) ok r] show ?thesis
      using assms(2) makes_event_owned [OF assms(2) _ RegistReadEvent_ok [OF ok r]] by blast
  next
    case (Watch_write fd conn)
    with assms(3) have r: "RegistWriteEvent lib fd conn d = Done (e, d')" by simp
    from RegistWriteEvent_makes [OF assms(1) ok r] show ?thesis
      using assms(2) makes_event_owned [OF assms(2) _ RegistWriteEvent_ok [OF ok r]] by blast
  next
    case (Unwatch_read fd)
    with assms(3) have r: "UnRegistReadEvent lib fd d = Done (e, d')" by simp
    from UnRegistReadEvent_frees [OF assms(1) ok r] show ?thesis
      using assms(2) frees_event_owned [OF assms(2) _ UnRegistReadEvent_ok [OF ok r]] by blast
  next
    case (Unwatch_write fd)
    with assms(3) have r: "UnRegistWriteEvent lib fd d = Done (e, d')" by simp
    from UnRegistWriteEvent_frees [OF assms(1) ok r] show ?thesis
      using assms(2) frees_event_owned [OF assms(2) _ UnRegistWriteEvent_ok [OF ok r]] by blast
  qed
qed

lemma driver_calls_owned:
  "library_ok lib live misused \<Longrightarrow> events_owned live misused d \<Longrightarrow> driver_calls lib cs d = Done d' \<Longrightarrow> events_owned live misused d'"
proof (induction cs arbitrary: d)
  case (Cons c cs)
  from Cons.prems(3) obtain e d1 where d1: "driver_call lib c d = Done (e, d1)" "driver_calls lib cs d1 = Done d'"
    by (auto simp: outcome_simps)
  show ?case by (rule Cons.IH [OF Cons.prems(1) driver_call_owned [OF Cons.prems(1,2) d1(1)] d1(2)])
qed simp

lemma driver_calls_return:
  assumes "mEventBase d \<noteq> None"
  shows "\<exists>d'. driver_calls lib cs d = Done d' \<and> mEventBase d' \<noteq> None"
  using assms
proof (induction cs arbitrary: d)
  case (Cons c cs)
  have "\<exists>e d1. driver_call lib c d = Done (e, d1) \<and> mEventBase d1 \<noteq> None"
    using Cons.prems
    by (cases c) (auto simp: RegistReadEvent_def RegistWriteEvent_def UnRegistReadEvent_def
        UnRegistWriteEvent_def base_of_def Let_def FreeReadEvent_def FreeWriteEvent_def
        simp del: not_None_eq split: option.split prod.split)
  with Cons.IH show ?case by fastforce
qed simp

lemma new_Driver_owned:
  "live b = {} \<Longrightarrow> \<not> misused b \<Longrightarrow> new_Driver name (Some b) = Done d \<Longrightarrow> events_owned live misused d \<and> mEventBase d \<noteq> None"
proof -
  assume "live b = {}" "\<not> misused b" "new_Driver name (Some b) = Done d"
  then have e: "mEventsInfo d = []" "mEventBase d = Some b" by (auto simp: new_Driver_def)
  then have "watch d = Map.empty" by (simp add: watch_def fun_eq_iff)
  with e \<open>live b = {}\<close> \<open>\<not> misused b\<close> show ?thesis by (simp add: events_owned_def events_ok_def)
qed

section \<open>Properties\<close>

text \<open>C38: From a new driver on, any sequence of calls that register and unregister events
  returns and keeps the table of events well formed: sorted, every entry with an event and with
  the connection it is for, and the events the library holds are the ones in the table, each in
  one place, so that none is leaked; and no event was added, deleted or freed that the library did not hold
  at that time, so that none is used after it was freed and none is freed twice.\<close>

theorem event_table_well_formed:
  assumes "library_ok lib live misused" "live b = {}" "\<not> misused b" "new_Driver name (Some b) = Done d"
  shows "\<exists>d' b'. driver_calls lib cs d = Done d' \<and> events_ok d' \<and> mEventBase d' = Some b' \<and>
    live b' = ran (watch d') \<and> inj_on (watch d') (dom (watch d')) \<and> \<not> misused b'"
proof -
  from new_Driver_owned [of live b misused name d] assms(2-4) have o: "events_owned live misused d" "mEventBase d \<noteq> None" by simp_all
  from driver_calls_return [OF o(2)] obtain d' b' where r: "driver_calls lib cs d = Done d'" "mEventBase d' = Some b'"
    by blast
  from driver_calls_owned [OF assms(1) o(1) r(1)] r show ?thesis by (auto simp: events_owned_def)
qed

text \<open>A library that counts: its base is the next address and the events that live.\<close>

definition list_lib :: "(nat \<times> nat list) event_lib" where
  "list_lib =
     \<lparr>event_new = (\<lambda>fd fl h a b. (fst b, (Suc (fst b), fst b # snd b))),
      event_add = (\<lambda>e b. (0, b)), event_del = (\<lambda>e b. (0, b)),
      event_free = (\<lambda>e b. (fst b, removeAll e (snd b))), event_base_loopbreak = (\<lambda>b. (0, b))\<rparr>"

text \<open>
  One that also notes when an event is used that does not live. Addresses are never used again, so the
  events below the next address are what it may hold.
\<close>

definition strict_live :: "nat \<times> nat list \<times> bool \<Rightarrow> nat set" where
  "strict_live b = set (fst (snd b)) \<inter> {..<fst b}"

definition strict_lib :: "(nat \<times> nat list \<times> bool) event_lib" where
  "strict_lib =
     \<lparr>event_new = (\<lambda>fd fl h a (n, es, bad). (n, (Suc n, n # es, bad))),
      event_add = (\<lambda>e (n, es, bad). (0, (n, es, bad \<or> e \<notin> strict_live (n, es, bad)))),
      event_del = (\<lambda>e (n, es, bad). (0, (n, es, bad \<or> e \<notin> strict_live (n, es, bad)))),
      event_free = (\<lambda>e (n, es, bad). (n, removeAll e es, bad \<or> e \<notin> strict_live (n, es, bad))),
      event_base_loopbreak = (\<lambda>b. (0, b))\<rparr>"

lemma library_ok_strict: "library_ok strict_lib strict_live (\<lambda>b. snd (snd b))"
  by (auto simp: library_ok_def strict_lib_def strict_live_def)

lemma event_table_well_formed_witness:
  "\<exists>d' n es. driver_calls strict_lib
      [Watch_read 7 1, Watch_write 7 1, Watch_read 7 2, Unwatch_read 7, Unwatch_read 7, Unwatch_write 7, Watch_read 8 3]
      \<lparr>mEventBase = Some (0, [], False), mEventsInfo = [], mName_drv = ''d'',
       mThread_drv = Some (new_Thread ''d'' False), mTimerEvent = None, mRunning_drv = False\<rparr> = Done d' \<and>
    events_ok d' \<and> mEventBase d' = Some (n, es, False) \<and> strict_live (n, es, False) = ran (watch d') \<and>
    inj_on (watch d') (dom (watch d'))"
proof -
  let ?cs = "[Watch_read 7 1, Watch_write 7 1, Watch_read 7 2, Unwatch_read 7, Unwatch_read 7, Unwatch_write 7, Watch_read 8 3]"
  let ?d = "\<lparr>mEventBase = Some (0, [], False), mEventsInfo = [], mName_drv = ''d'',
    mThread_drv = Some (new_Thread ''d'' False), mTimerEvent = None, mRunning_drv = False\<rparr>"
  have "strict_live (0, [], False) = {}" "\<not> snd (snd (0 :: nat, [] :: nat list, False))"
    "new_Driver ''d'' (Some (0, [], False)) = Done ?d"
    by (simp_all add: strict_live_def new_Driver_def)
  from event_table_well_formed [OF library_ok_strict this, of ?cs] obtain d' b' where
    d': "driver_calls strict_lib ?cs ?d = Done d'" "events_ok d'" "mEventBase d' = Some b'"
      "strict_live b' = ran (watch d')" "inj_on (watch d') (dom (watch d'))" "\<not> snd (snd b')" by blast
  obtain n es where "b' = (n, es, False)" using d'(6) by (cases b') auto
  with d'(1-5) show ?thesis by (intro exI [of _ d'] exI [of _ n] exI [of _ es]) simp
qed

text \<open>Registering a new descriptor for both directions and unregistering it restores the
  table of the driver; a second registration of the descriptor in between is refused, which the
  connection asserts it never is.\<close>

lemma registration_roundtrip:
  assumes "events_ok d" "map_of (mEventsInfo d) fd = None" "mEventBase d = Some b"
  shows "\<exists>d1 d2. RegistRWEvent lib fd conn d = Done d1 \<and> registered fd conn d1 \<and>
    RegistRWEvent lib fd conn' d1 = Abort Assertion_failed \<and>
    UnRegistRWEvent lib fd d1 = Done d2 \<and> map_of (mEventsInfo d2) = map_of (mEventsInfo d)"
proof -
  from RegistRWEvent_run [OF assms] obtain d1 where d1: "RegistRWEvent lib fd conn d = Done d1"
    "events_ok d1" "registered fd conn d1" "\<forall>g. g \<noteq> fd \<longrightarrow> map_of (mEventsInfo d1) g = map_of (mEventsInfo d) g"
    by blast
  from UnRegistRWEvent_run [OF d1(2,3)] obtain d2 where d2: "UnRegistRWEvent lib fd d1 = Done d2"
    "map_of (mEventsInfo d2) = (map_of (mEventsInfo d1))(fd := None)" by blast
  have "RegistRWEvent lib fd conn' d1 = Abort Assertion_failed"
    using d1(3) by (auto simp: registered_def RegistRWEvent_def RW_RegistReadEvent_def RegistReadEvent_def)
  moreover have "map_of (mEventsInfo d2) = map_of (mEventsInfo d)"
    using d2(2) d1(4) assms(2) by (auto simp: fun_eq_iff)
  ultimately show ?thesis using d1 d2 by blast
qed

lemma registration_roundtrip_witness:
  "\<exists>d1 d2. RegistRWEvent list_lib 5 1
      \<lparr>mEventBase = Some (0, []), mEventsInfo = [], mName_drv = [], mThread_drv = None,
       mTimerEvent = None, mRunning_drv = False\<rparr> = Done d1 \<and> registered 5 1 d1 \<and>
    RegistRWEvent list_lib 5 2 d1 = Abort Assertion_failed \<and>
    UnRegistRWEvent list_lib 5 d1 = Done d2 \<and> map_of (mEventsInfo d2) = Map.empty"
  using registration_roundtrip [of "\<lparr>mEventBase = Some (0, []), mEventsInfo = [], mName_drv = [],
    mThread_drv = None, mTimerEvent = None, mRunning_drv = False\<rparr>" 5 "(0, [])" list_lib 1 2]
  by (simp add: events_ok_def)

end
