(* ===== verification/TcpConnection.thy ===== *)
theory TcpConnection
  imports TcpSocket Driver
begin

text \<open>
  \<^verbatim>\<open>src/Common/include/TcpConnection.hpp\<close> and \<^verbatim>\<open>src/Common/src/TcpConnection.cpp\<close>: frames in and
  out of a connection, and the state that the network side of the program shares. A handler runs
  under the recursive mutex of its connection and is one step. Connections, acceptors and
  messages are named by addresses, so that a freed one can still be pointed to.
\<close>

section \<open>The state of the network side\<close>

text \<open>The socket is owned by its connection. The driver and the service are those of the program.\<close>

record tcp_connection =
  mToRecv :: u32
  mRecved :: u32
  mCurrentRecvMsg :: "nat option"
  mToSend :: int
  mSent :: int
  mCurrentSendMsg :: "nat option"
  mToSendMsg :: "nat list"
  mSock :: tcp_socket
  mConnID_conn :: u64
  mClosed_conn :: bool

text \<open>The constructor of an acceptor leaves the pointer to the socket as it is.\<close>

record accepter =
  mListenSocket :: "tcp_socket option"
  mIP_acc :: bytes
  mPort_acc :: u16

text \<open>
  \<open>ns_svc\<close> is the queue and thread of the network service, \<open>srv_svc\<close> those of the service it
  hands requests to. \<open>conn_objs\<close>, \<open>acc_objs\<close> and \<open>msgs\<close> hold the live objects, \<open>next_obj\<close> and
  \<open>next_msg\<close> the next unused addresses. \<open>new_base\<close> is what \<^verbatim>\<open>event_base_new\<close> gives next.
\<close>

record 'b netst =
  ns_heap :: "(nat, nat, tcp_socket) ctx_heap"
  ns_svc :: logic_service
  srv_svc :: logic_service
  msgs :: msg_heap
  next_msg :: nat
  net :: net_world
  drv :: "'b driver option"
  new_base :: "'b option"
  conn_objs :: "nat \<rightharpoonup> tcp_connection"
  acc_objs :: "nat \<rightharpoonup> accepter"
  next_obj :: nat
  mConns :: "(u64 \<times> nat) list"
  mLocalAddrs :: "(bytes \<times> (bytes \<times> u16)) list"
  mAccepters :: "(bytes \<times> nat) list"
  mMaxID :: u64

text \<open>\<open>drv\<close> is \<^const>\<open>None\<close> until \<^verbatim>\<open>Init\<close>: the constructor leaves the pointer alone.\<close>

text \<open>The part of the network service that \<^verbatim>\<open>Enqueue\<close> uses; the virtual functions come later.\<close>

definition net_queue :: "(nat, nat, tcp_socket, 'b netst) service" where
  "net_queue =
     \<lparr>svc = ns_svc, set_svc = (\<lambda>s st. st\<lparr>ns_svc := s\<rparr>),
      heap = ns_heap, set_heap = (\<lambda>h st. st\<lparr>ns_heap := h\<rparr>),
      vInit = base_Init, vFinit = base_Finit, vIdle = base_Idle, vProcess = (\<lambda>p st. Done (False, st))\<rparr>"

definition read_conn_obj :: "nat \<Rightarrow> 'b netst \<Rightarrow> tcp_connection outcome" where
  "read_conn_obj c st = (case conn_objs st c of None \<Rightarrow> Abort Dangling_pointer | Some k \<Rightarrow> Done k)"

definition put_conn :: "nat \<Rightarrow> tcp_connection \<Rightarrow> 'b netst \<Rightarrow> 'b netst" where
  "put_conn c k st = st\<lparr>conn_objs := (conn_objs st)(c \<mapsto> k)\<rparr>"

definition on_driver :: "('b driver \<Rightarrow> 'b driver outcome) \<Rightarrow> 'b netst \<Rightarrow> 'b netst outcome" where
  "on_driver f st =
     (case drv st of None \<Rightarrow> Abort Uninitialised_read
      | Some d \<Rightarrow> obind (f d) (\<lambda>d1. Done (st\<lparr>drv := Some d1\<rparr>)))"

text \<open>A context posted with a message, which is taken out again when the queue is closed.\<close>

definition post_ctx ::
  "(nat, nat, tcp_socket) oper_context \<Rightarrow> 'b netst \<Rightarrow> (bool \<times> 'b netst) outcome" where
  "post_ctx ctx st =
     (let (p, h) = alloc_ctx ctx (ns_heap st) in
      obind (Enqueue net_queue p (st\<lparr>ns_heap := h\<rparr>)) (\<lambda>(pushed, st1).
      obind (if pushed then Done st1 else on_heap net_queue (modify_ctx p (SetMessage None)) st1) (\<lambda>st2.
      obind (on_heap net_queue (DecRef p) st2) (\<lambda>st3. Done (pushed, st3)))))"

section \<open>TcpConnection\<close>

definition new_TcpConnection :: "tcp_socket \<Rightarrow> u64 \<Rightarrow> tcp_connection" where
  "new_TcpConnection sock connID =
     \<lparr>mToRecv = 0, mRecved = 0, mCurrentRecvMsg = None, mToSend = 0, mSent = 0,
      mCurrentSendMsg = None, mToSendMsg = [], mSock = sock, mConnID_conn = connID, mClosed_conn = False\<rparr>"

definition GetClientIP :: "tcp_connection \<Rightarrow> bytes" where
  "GetClientIP k = mIP (mSock k)"

definition GetClientPort :: "tcp_connection \<Rightarrow> u16 outcome" where
  "GetClientPort k = (case mPort (mSock k) of None \<Rightarrow> Abort Uninitialised_read | Some p \<Rightarrow> Done p)"

definition ResetRecv :: "tcp_connection \<Rightarrow> tcp_connection" where
  "ResetRecv k = k\<lparr>mToRecv := 0, mRecved := 0, mCurrentRecvMsg := None, mSock := SetPreRecv False (mSock k)\<rparr>"

definition ResetSend :: "tcp_connection \<Rightarrow> tcp_connection" where
  "ResetSend k = k\<lparr>mToSend := 0, mSent := 0, mCurrentSendMsg := None\<rparr>"

fun delete_msgs :: "nat list \<Rightarrow> msg_heap \<Rightarrow> msg_heap outcome" where
  "delete_msgs [] h = Done h"
| "delete_msgs (p # ps) h = obind (delete_msg p h) (delete_msgs ps)"

definition FreeNotSendMsg :: "nat \<Rightarrow> 'b netst \<Rightarrow> 'b netst outcome" where
  "FreeNotSendMsg c st =
     obind (read_conn_obj c st) (\<lambda>k.
     obind (delete_msgs (mToSendMsg k) (msgs st)) (\<lambda>h.
     Done (put_conn c (k\<lparr>mToSendMsg := []\<rparr>) (st\<lparr>msgs := h\<rparr>))))"

definition Close_conn :: "'b event_lib \<Rightarrow> nat \<Rightarrow> 'b netst \<Rightarrow> (err \<times> 'b netst) outcome" where
  "Close_conn lib c st =
     obind (read_conn_obj c st) (\<lambda>k.
     if mClosed_conn k then Done (E_OK, st)
     else
       let st1 = put_conn c (k\<lparr>mClosed_conn := True\<rparr>) st in
       obind (on_driver (UnRegistRWEvent lib (GetFd (mSock k))) st1) (\<lambda>st2.
       let (_, s1, w1) = Close_sock (mSock k, net st2);
           st3 = put_conn c (k\<lparr>mClosed_conn := True, mSock := s1\<rparr>) (st2\<lparr>net := w1\<rparr>) in
       obind (FreeNotSendMsg c st3) (\<lambda>st4. Done (E_OK, st4))))"

text \<open>The destructor; the socket it deletes closes itself.\<close>

definition destroy_conn :: "nat \<Rightarrow> 'b netst \<Rightarrow> 'b netst outcome" where
  "destroy_conn c st =
     obind (read_conn_obj c st) (\<lambda>k.
     let (_, s1, w1) = Close_sock (mSock k, net st) in
     obind (FreeNotSendMsg c (st\<lparr>net := w1\<rparr>)) (\<lambda>st1.
     Done (st1\<lparr>conn_objs := (conn_objs st1)(c := None)\<rparr>)))"

definition Enqueue_conn :: "nat \<Rightarrow> nat \<Rightarrow> 'b netst \<Rightarrow> 'b netst outcome" where
  "Enqueue_conn p c st =
     obind (read_conn_obj c st) (\<lambda>k. Done (put_conn c (k\<lparr>mToSendMsg := mToSendMsg k @ [p]\<rparr>) st))"

section \<open>Receiving\<close>

text \<open>
  The first part of the loop body of \<^verbatim>\<open>ReadData\<close>: unless it was done before, take the length off
  the stream and make a message of that size. The flag says whether the body goes on.
\<close>

definition read_head :: "'b event_lib \<Rightarrow> nat \<Rightarrow> 'b netst \<Rightarrow> (err \<times> bool \<times> 'b netst) outcome" where
  "read_head lib c st =
     obind (read_conn_obj c st) (\<lambda>k.
     if HasPreRecv (mSock k) then Done (E_OK, True, st)
     else
       obind (PreRecv 0 (mSock k, net st)) (\<lambda>(err, dataLen, s1, w1).
       let k1 = k\<lparr>mSock := s1\<rparr>; st1 = put_conn c k1 (st\<lparr>net := w1\<rparr>) in
       if err \<noteq> E_OK \<or> unat dataLen < 4 then
         obind (Close_conn lib c st1) (\<lambda>(_, st2). Done (err, False, st2))
       else
         obind (assert_that (mCurrentRecvMsg k = None)) (\<lambda>_.
         obind (new_Msg_len dataLen) (\<lambda>m.
         obind (SetLen_to dataLen m) (\<lambda>m1.
         let p = next_msg st1;
             k2 = k1\<lparr>mCurrentRecvMsg := Some p, mRecved := 4, mToRecv := dataLen + of_nat HEAD_LENGTH\<rparr> in
         Done (E_OK, True, put_conn c k2 (st1\<lparr>msgs := (msgs st1)(p \<mapsto> m1), next_msg := Suc p\<rparr>)))))))"

definition read_body :: "'b event_lib \<Rightarrow> nat \<Rightarrow> 'b netst \<Rightarrow> (err \<times> 'b netst) outcome" where
  "read_body lib c st =
     obind (read_conn_obj c st) (\<lambda>k.
     case mCurrentRecvMsg k of None \<Rightarrow> Abort Null_pointer
     | Some p \<Rightarrow>
       obind (read_msg p (msgs st)) (\<lambda>m.
       let (err, recved, d, s1, w1) = Recv (unat (mToRecv k - mRecved k)) 0 (mSock k, net st) in
       obind (store_cells (unat (mRecved k)) d (GetBuffer m)) (\<lambda>buf.
       let k1 = k\<lparr>mSock := s1\<rparr>;
           st1 = put_conn c k1 (st\<lparr>net := w1, msgs := (msgs st)(p \<mapsto> m\<lparr>mData := buf\<rparr>)\<rparr>) in
       if err \<noteq> E_OK then obind (Close_conn lib c st1) (\<lambda>(_, st2). Done (err, st2))
       else Done (E_OK, put_conn c (k1\<lparr>mRecved := mRecved k + recved\<rparr>) st1))))"

text \<open>A message that is complete is handed to the service.\<close>

definition read_done :: "nat \<Rightarrow> err \<Rightarrow> 'b netst \<Rightarrow> (err \<times> 'b netst) outcome" where
  "read_done c err st =
     obind (read_conn_obj c st) (\<lambda>k.
     if mRecved k = mToRecv k \<and> unat (mRecved k) > 4 then
       obind (GetClientPort k) (\<lambda>port.
       let ctx = SetDest (GetClientIP k) port (SetConnID (mConnID_conn k)
             (SetMessage (mCurrentRecvMsg k) (new_OperContext OP_RECV))) in
       obind (post_ctx ctx st) (\<lambda>(pushed, st1).
       Done (if pushed then err else EINVAL, put_conn c (ResetRecv k) st1)))
     else Done (err, st))"

definition read_failed :: "nat \<Rightarrow> err \<Rightarrow> 'b netst \<Rightarrow> 'b netst outcome" where
  "read_failed c err st =
     (if err = E_OK then Done st
      else
        obind (read_conn_obj c st) (\<lambda>k.
        obind (case mCurrentRecvMsg k of None \<Rightarrow> Done (msgs st) | Some p \<Rightarrow> delete_msg p (msgs st)) (\<lambda>h.
        let st1 = put_conn c (ResetRecv k) (st\<lparr>msgs := h\<rparr>) in
        obind (send_ctx net_queue (SetConnID (mConnID_conn k) (new_OperContext OP_DROP)) st1) (\<lambda>(_, st2).
        Done st2))))"

definition ReadData :: "'b event_lib \<Rightarrow> nat \<Rightarrow> 'b netst \<Rightarrow> (err \<times> 'b netst) outcome" where
  "ReadData lib c st =
     obind (read_conn_obj c st) (\<lambda>k.
     obind (if NoOK (mSock k) then Done (EINVAL, st)
            else obind (read_head lib c st) (\<lambda>(err, go, st1).
              if go then read_body lib c st1 else Done (err, st1))) (\<lambda>(err, st1).
     obind (read_done c err st1) (\<lambda>(err1, st2).
     obind (read_failed c err1 st2) (\<lambda>st3. Done (err1, st3)))))"

section \<open>Sending\<close>

text \<open>\<^verbatim>\<open>mToSend\<close> is signed; the length is converted as the compiler does it.\<close>

definition InitNextSend :: "nat \<Rightarrow> 'b netst \<Rightarrow> (bool \<times> 'b netst) outcome" where
  "InitNextSend c st =
     obind (read_conn_obj c st) (\<lambda>k.
     case mToSendMsg k of [] \<Rightarrow> Done (False, st)
     | p # ps \<Rightarrow>
       obind (read_msg p (msgs st)) (\<lambda>m.
       Done (True, put_conn c (k\<lparr>mCurrentSendMsg := Some p, mToSend := sint (GetTotalLen m), mSent := 0\<rparr>) st)))"

text \<open>The bytes at an offset of a buffer that an \<^verbatim>\<open>int\<close> counts.\<close>

definition buffer_at :: "int \<Rightarrow> int \<Rightarrow> cell list \<Rightarrow> cell list outcome" where
  "buffer_at off n d = (if off < 0 \<or> n < 0 then Abort Out_of_bounds else load_cells (nat off) (nat n) d)"

definition send_some :: "'b event_lib \<Rightarrow> nat \<Rightarrow> 'b netst \<Rightarrow> (err \<times> 'b netst) outcome" where
  "send_some lib c st =
     obind (read_conn_obj c st) (\<lambda>k.
     case mCurrentSendMsg k of None \<Rightarrow> Abort Assertion_failed
     | Some p \<Rightarrow>
       obind (read_msg p (msgs st)) (\<lambda>m.
       obind (buffer_at (mSent k) (mToSend k) (GetBuffer m)) (\<lambda>buf.
       let (err, sent, s1, w1) = Send buf 0 (mSock k, net st);
           k1 = k\<lparr>mSock := s1\<rparr>; st1 = st\<lparr>net := w1\<rparr> in
       if err \<noteq> E_OK then
         obind (Close_conn lib c (put_conn c (ResetSend k1) st1)) (\<lambda>(_, st2).
         obind (send_ctx net_queue (SetConnID (mConnID_conn k) (new_OperContext OP_DROP)) st2) (\<lambda>(_, st3).
         Done (err, st3)))
       else
         let k2 = k1\<lparr>mSent := mSent k + sent, mToSend := mToSend k - sent\<rparr> in
         if mToSend k2 = 0 then
           obind (delete_msg p (msgs st1)) (\<lambda>h.
           Done (E_OK, put_conn c (ResetSend (k2\<lparr>mToSendMsg := tl (mToSendMsg k2)\<rparr>)) (st1\<lparr>msgs := h\<rparr>)))
         else Done (E_OK, put_conn c k2 st1))))"

definition WriteData :: "'b event_lib \<Rightarrow> nat \<Rightarrow> 'b netst \<Rightarrow> (err \<times> 'b netst) outcome" where
  "WriteData lib c st =
     obind (read_conn_obj c st) (\<lambda>k.
     if mClosed_conn k \<or> NoOK (mSock k) then Done (EINVAL, st)
     else
       obind (if mCurrentSendMsg k = None then InitNextSend c st else Done (True, st)) (\<lambda>(has, st1).
       if has then send_some lib c st1 else Done (E_OK, st1)))"

section \<open>Posting\<close>

lemma net_queue_simps [simp]:
  "svc net_queue = ns_svc" "set_svc net_queue = (\<lambda>s st. st\<lparr>ns_svc := s\<rparr>)"
  "heap net_queue = ns_heap" "set_heap net_queue = (\<lambda>h st. st\<lparr>ns_heap := h\<rparr>)"
  by (simp_all add: net_queue_def)

text \<open>The context is on the queue, and the queue holds the only reference.\<close>

definition posted :: "(nat, nat, tcp_socket) oper_context \<Rightarrow> 'b netst \<Rightarrow> 'b netst" where
  "posted ctx st =
     st\<lparr>ns_heap := (ns_heap st)\<lparr>ctxs := (ctxs (ns_heap st))(next_ctx (ns_heap st) \<mapsto> ctx),
                                 next_ctx := Suc (next_ctx (ns_heap st))\<rparr>,
        ns_svc := (ns_svc st)\<lparr>mQueue := mQueue (ns_svc st) @ [next_ctx (ns_heap st)]\<rparr>\<rparr>"

lemma Enqueue_alloc_run:
  assumes "mRunning (ns_svc st)" "mRef ctx = 1" "alloc_ctx ctx (ns_heap st) = (p, h)"
  shows "\<exists>st1. Enqueue net_queue p (st\<lparr>ns_heap := h\<rparr>) = Done (True, st1) \<and>
    on_heap net_queue (DecRef p) st1 = Done (posted ctx st)"
proof -
  have p: "p = next_ctx (ns_heap st)" and h: "ctxs h = (ctxs (ns_heap st))(p \<mapsto> ctx)"
    "next_ctx h = Suc p" "signals h = signals (ns_heap st)"
    using assms(3) by (auto simp: alloc_ctx_def)
  have "ctxs h p = Some ctx" using h by simp
  from IncRef_run [OF this] assms(2) have i: "IncRef p h = Done (h\<lparr>ctxs := (ctxs h)(p \<mapsto> ctx\<lparr>mRef := 2\<rparr>)\<rparr>)"
    by (simp add: INT_MAX_def)
  let ?h1 = "h\<lparr>ctxs := (ctxs h)(p \<mapsto> ctx\<lparr>mRef := 2\<rparr>)\<rparr>"
  have "ctxs ?h1 p = Some (ctx\<lparr>mRef := 2\<rparr>)" by simp
  from DecRef_shared [OF this] assms(2)
  have "DecRef p ?h1 = Done (h\<lparr>ctxs := (ctxs h)(p \<mapsto> ctx\<lparr>mRef := 1\<rparr>)\<rparr>)" by simp
  moreover have "ctx\<lparr>mRef := 1\<rparr> = ctx" using assms(2) by (cases ctx) simp
  then have "(ctxs h)(p \<mapsto> ctx\<lparr>mRef := 1\<rparr>) = ctxs h" using h(1) by (simp add: fun_upd_idem)
  ultimately have d: "DecRef p ?h1 = Done h" by simp
  have hh: "h = (ns_heap st)\<lparr>ctxs := (ctxs (ns_heap st))(p \<mapsto> ctx), next_ctx := Suc p\<rparr>"
    using h by simp
  show ?thesis
    using i d assms(1) hh p by (simp add: Enqueue_def on_heap_def on_svc_def posted_def)
qed

lemma post_ctx_run:
  assumes "mRunning (ns_svc st)" "mRef ctx = 1"
  shows "post_ctx ctx st = Done (True, posted ctx st)"
proof -
  obtain p h where a: "alloc_ctx ctx (ns_heap st) = (p, h)" by fastforce
  from Enqueue_alloc_run [OF assms a] a show ?thesis by (auto simp: post_ctx_def)
qed

lemma send_ctx_posted:
  assumes "mRunning (ns_svc st)" "mRef ctx = 1"
  shows "send_ctx net_queue ctx st = Done (True, posted ctx st)"
proof -
  obtain p h where a: "alloc_ctx ctx (ns_heap st) = (p, h)" by fastforce
  from Enqueue_alloc_run [OF assms a] a show ?thesis by (auto simp: send_ctx_def)
qed

section \<open>Receiving a frame\<close>

text \<open>What a message looks like on the wire; nobody sets the four bytes of its type.\<close>

definition frame :: "cell list \<Rightarrow> bytes \<Rightarrow> cell list" where
  "frame t bs = map Some (be32 (of_nat (length bs))) @ t @ map Some bs"

definition unbroken :: "arrival list \<Rightarrow> bool" where
  "unbroken as \<longleftrightarrow> (\<forall>e. Broken e \<notin> set as)"

lemma unbroken_rest_of [simp]: "unbroken (rest_of cs as) = unbroken as"
  by (cases cs) (auto simp: unbroken_def)

lemma unbroken_stream: "unbroken as \<Longrightarrow> stream as \<noteq> [] \<Longrightarrow> \<exists>c cs bs. as = Chunk c cs # bs \<and> unbroken bs"
  by (cases as rule: stream.cases) (auto simp: unbroken_def)

lemma recv_loop_unbroken:
  "recv_loop fd n w = (e, c, d, w') \<Longrightarrow> unbroken (incoming w fd) \<Longrightarrow> unbroken (incoming w' fd)"
proof (induction fd n w arbitrary: e c d w' rule: recv_loop.induct)
  case (1 fd n w)
  obtain x w1 where x: "sys_recv fd n w = (x, w1)" by fastforce
  have u: "unbroken (incoming w1 fd) \<and> (\<exists>d1. x = Inr d1)"
  proof (cases "incoming w fd")
    case (Cons a as)
    with x "1.prems"(2) show ?thesis
      by (cases a) (auto simp: sys_recv_def unbroken_def Let_def, (metis list.set_intros(1) unbroken_def unbroken_rest_of list.set_intros(2))+)
  qed (use x in \<open>auto simp: sys_recv_def unbroken_def\<close>)
  then obtain d1 where d1: "x = Inr d1" by blast
  show ?case
  proof (cases "d1 = [] \<or> length d1 = n")
    case True
    with "1.prems"(1) x d1 u show ?thesis by (auto simp: recv_loop.simps [of fd n w] split: if_splits)
  next
    case False
    then have f: "d1 \<noteq> []" "length d1 \<noteq> n" by simp_all
    then obtain d2 where r: "recv_loop fd (n - length d1) w1 = (e, c, d2, w')"
      using "1.prems"(1) x d1 by (auto simp: recv_loop.simps [of fd n w] split: prod.splits)
    from "1.IH"(2) [OF x [symmetric] d1 f r] u show ?thesis by simp
  qed
qed

text \<open>The message while it is being received, the connection that receives it, and the program.\<close>

definition frame_msg :: "nat \<Rightarrow> cell list \<Rightarrow> msg" where
  "frame_msg N r = (raw_Msg (of_nat (N + 8)))\<lparr>mData := map Some (be32 (of_nat N)) @ r @ replicate (N + 4 - length r) None\<rparr>"

definition mid_conn :: "tcp_connection \<Rightarrow> nat \<Rightarrow> nat \<Rightarrow> nat \<Rightarrow> tcp_connection" where
  "mid_conn k p N n = k\<lparr>mSock := SetPreRecv True (mSock k), mCurrentRecvMsg := Some p,
     mRecved := of_nat (4 + n), mToRecv := of_nat (N + 8)\<rparr>"

definition mid_state ::
  "nat \<Rightarrow> tcp_connection \<Rightarrow> 'b netst \<Rightarrow> nat \<Rightarrow> cell list \<Rightarrow> net_world \<Rightarrow> 'b netst" where
  "mid_state c k st N r w = st\<lparr>net := w, msgs := (msgs st)(next_msg st \<mapsto> frame_msg N r),
     next_msg := Suc (next_msg st), conn_objs := (conn_objs st)(c \<mapsto> mid_conn k (next_msg st) N (length r))\<rparr>"

lemma mid_conn_simps:
  "mCurrentRecvMsg (mid_conn k p N n) = Some p" "mRecved (mid_conn k p N n) = of_nat (4 + n)"
  "mToRecv (mid_conn k p N n) = of_nat (N + 8)" "mSock (mid_conn k p N n) = SetPreRecv True (mSock k)"
  "(mid_conn k p N n)\<lparr>mSock := SetPreRecv True (mSock k)\<rparr> = mid_conn k p N n"
  "(mid_conn k p N n)\<lparr>mRecved := of_nat (4 + n) + of_nat m\<rparr> = mid_conn k p N (n + m)"
  by (cases k, simp add: mid_conn_def add.assoc)+

lemma frame_msg_data: "(frame_msg N r)\<lparr>mData := mData (frame_msg N r')\<rparr> = frame_msg N r'"
  by (simp add: frame_msg_def)

text \<open>A connection between two frames.\<close>

definition at_rest :: "tcp_connection \<Rightarrow> bool" where
  "at_rest k \<longleftrightarrow> \<not> NoOK (mSock k) \<and> mPort (mSock k) \<noteq> None \<and> \<not> mPreRecv (mSock k) \<and>
     mCurrentRecvMsg k = None \<and> mRecved k = 0 \<and> mToRecv k = 0"

abbreviation fd_of :: "tcp_connection \<Rightarrow> int" where
  "fd_of k \<equiv> mSocket (mSock k)"

lemma of_nat_u32: "n < 2 ^ 32 \<Longrightarrow> unat (of_nat n :: u32) = n"
  by (simp add: unat_of_nat take_bit_nat_eq_self)

lemma read_head_run:
  assumes c: "conn_objs st c = Some k" and k: "at_rest k" and N: "4 \<le> N" "N + 8 < 2 ^ 31"
    and s: "stream (incoming (net st) (fd_of k)) = map Some (be32 (of_nat N)) @ cs"
    and u: "unbroken (incoming (net st) (fd_of k))"
  shows "\<exists>w. read_head lib c st = Done (E_OK, True, mid_state c k st N [] w) \<and>
    stream (incoming w (fd_of k)) = cs \<and> unbroken (incoming w (fd_of k))"
proof -
  let ?N = "of_nat N :: u32"
  have ok: "\<not> NoOK (mSock k)" "\<not> mPreRecv (mSock k)" "mCurrentRecvMsg k = None"
    using k by (simp_all add: at_rest_def)
  from PreRecv_run [OF ok(1,2), of "net st" ?N cs 0] s obtain w where
    w: "PreRecv 0 (mSock k, net st) = Done (E_OK, ?N, (mSock k)\<lparr>mPreRecv := True\<rparr>, w)"
    "stream (incoming w (fd_of k)) = cs" by (auto simp: be32_def)
  have uw: "unbroken (incoming w (fd_of k))"
    using w(1) ok u recv_loop_unbroken [of "fd_of k" 4 "net st"]
    by (auto simp: PreRecv_def RecvAll_def NoOK_def Let_def outcome_simps split: prod.splits if_splits)
  have uN: "unat ?N = N" by (rule of_nat_u32) (use N in simp)
  have N8: "?N + of_nat HEAD_LENGTH = of_nat (N + 8)" by (simp add: HEAD_LENGTH_def)
  have new: "new_Msg_len ?N = Done (raw_Msg (of_nat (N + 8)))"
    using new_Msg_len_run [of ?N] uN N N8 by simp
  have "unat (of_nat (N + 8) :: u32) = N + 8" by (rule of_nat_u32) (use N in simp)
  then have set: "SetLen_to ?N (raw_Msg (of_nat (N + 8))) = Done (frame_msg N [])"
    by (simp add: SetLen_to_def store_cells_def raw_Msg_def frame_msg_def be32_def)
  show ?thesis
    using c ok w uw new set uN N N8
    by (intro exI [of _ w]) (simp add: read_head_def read_conn_obj_def HasPreRecv_def put_conn_def
        mid_state_def mid_conn_def SetPreRecv_def Let_def)
qed

lemma read_body_run:
  assumes N: "N + 8 < 2 ^ 31" and ok: "\<not> NoOK (mSock k)" and r: "length r < N + 4"
    and s: "stream (incoming w (fd_of k)) = f @ mo" "length f = N + 4 - length r"
    and u: "unbroken (incoming w (fd_of k))"
  shows "\<exists>n w'. 0 < n \<and> n \<le> length f \<and>
    read_body lib c (mid_state c k st N r w) = Done (E_OK, mid_state c k st N (r @ take n f) w') \<and>
    stream (incoming w' (fd_of k)) = drop n f @ mo \<and> unbroken (incoming w' (fd_of k))"
proof -
  have "stream (incoming w (fd_of k)) \<noteq> []" using s r by (cases f) auto
  from unbroken_stream [OF u this] obtain x xs as where as: "incoming w (fd_of k) = Chunk x xs # as" "unbroken as"
    by blast
  let ?n = "N + 4 - length r"
  let ?d = "take ?n (x # xs)"
  let ?w = "w\<lparr>incoming := (incoming w)(fd_of k := rest_of (drop ?n (x # xs)) as)\<rparr>"
  have m: "unat (of_nat (N + 8) - of_nat (4 + length r) :: u32) = ?n"
  proof -
    have "(of_nat (N + 8) - of_nat (4 + length r) :: u32) = of_nat (N + 8 - (4 + length r))"
      by (rule of_nat_diff [symmetric]) (use r in simp)
    then show ?thesis using of_nat_u32 [of "N + 8 - (4 + length r)"] N by simp
  qed
  have fx: "f @ mo = (x # xs) @ stream as" using s(1) as(1) by simp
  have d: "?d = take (length ?d) f" "length ?d \<le> length f" "0 < length ?d"
  proof -
    have "?d = take ?n (take (length (x # xs)) (f @ mo))" unfolding fx by simp
    also have "\<dots> = take (min ?n (length (x # xs))) f" using s(2) r by (simp add: min_def)
    finally have e: "?d = take (min ?n (length (x # xs))) f" .
    have l: "length ?d = min ?n (length (x # xs))" by (simp only: length_take min.commute)
    show "?d = take (length ?d) f" unfolding l by (rule e)
    show "length ?d \<le> length f" "0 < length ?d" using s(2) r by simp_all
  qed
  have st: "stream (incoming ?w (fd_of k)) = drop (length ?d) f @ mo"
  proof -
    have "?d @ (drop ?n (x # xs) @ stream as) = f @ mo"
      unfolding fx append.assoc [symmetric] append_take_drop_id ..
    then have "drop ?n (x # xs) @ stream as = drop (length ?d) (f @ mo)"
      unfolding append_eq_conv_conj by (rule conjunct2)
    then have e: "drop (length ?d) (f @ mo) = drop ?n (x # xs) @ stream as" by (rule sym)
    have z: "length ?d - length f = 0" using d(2) by (rule diff_is_0_eq')
    have "stream (incoming ?w (fd_of k)) = drop ?n (x # xs) @ stream as" by (simp del: drop_Cons')
    with e show ?thesis unfolding drop_append z drop_0 by simp
  qed
  have recv: "Recv ?n 0 (SetPreRecv True (mSock k), w) = (E_OK, of_nat (length ?d), ?d, SetPreRecv True (mSock k), ?w)"
    using ok as(1) d(3) by (simp add: Recv_def NoOK_def SetPreRecv_def sys_recv_def)
  have o: "unat (of_nat (4 + length r) :: u32) = 4 + length r" by (rule of_nat_u32) (use r N in simp)
  have data: "store_cells (4 + length r) ?d (mData (frame_msg N r)) = Done (mData (frame_msg N (r @ ?d)))"
    using r d(2) s(2) by (simp add: store_cells_def frame_msg_def min_def)
  have "read_body lib c (mid_state c k st N r w) = Done (E_OK, mid_state c k st N (r @ ?d) ?w)"
    using recv o data m
    by (simp add: read_body_def read_conn_obj_def mid_state_def mid_conn_simps read_msg_def GetBuffer_def put_conn_def
        frame_msg_data del: of_nat_add length_take take_Cons')
  then have "read_body lib c (mid_state c k st N r w) = Done (E_OK, mid_state c k st N (r @ take (length ?d) f) ?w)"
    unfolding d(1) [symmetric] .
  moreover have "unbroken (incoming ?w (fd_of k))" using as(2) by simp
  ultimately show ?thesis using d(2,3) st by blast
qed

text \<open>The state when the frame is complete, before the message is handed over and after.\<close>

definition recv_ctx :: "tcp_connection \<Rightarrow> nat \<Rightarrow> (nat, nat, tcp_socket) oper_context" where
  "recv_ctx k p = SetDest (mIP (mSock k)) (the (mPort (mSock k))) (SetConnID (mConnID_conn k)
     (SetMessage (Some p) (new_OperContext OP_RECV)))"

definition end_state ::
  "tcp_connection \<Rightarrow> 'b netst \<Rightarrow> nat \<Rightarrow> cell list \<Rightarrow> net_world \<Rightarrow> 'b netst" where
  "end_state k st N r w = posted (recv_ctx k (next_msg st))
     (st\<lparr>net := w, msgs := (msgs st)(next_msg st \<mapsto> frame_msg N r), next_msg := Suc (next_msg st)\<rparr>)"

lemma read_done_run:
  assumes c: "conn_objs st c = Some k" and k: "at_rest k" and N: "N + 8 < 2 ^ 31" and r: "length r \<le> N + 4"
    and run: "mRunning (ns_svc st)"
  shows "read_done c E_OK (mid_state c k st N r w) =
    Done (E_OK, if length r = N + 4 then end_state k st N r w else mid_state c k st N r w)"
proof -
  let ?k = "mid_conn k (next_msg st) N (length r)"
  have n: "unat (mRecved ?k) = 4 + length r" "unat (mToRecv ?k) = N + 8"
    using of_nat_u32 [of "4 + length r"] of_nat_u32 [of "N + 8"] N r by (simp_all add: mid_conn_def)
  have eq: "mRecved ?k = mToRecv ?k \<longleftrightarrow> length r = N + 4"
    unfolding word_unat_eq_iff n by auto
  obtain port where port: "mPort (mSock k) = Some port" using k by (auto simp: at_rest_def)
  show ?thesis
  proof (cases "length r = N + 4")
    case False
    with eq show ?thesis by (simp add: read_done_def read_conn_obj_def mid_state_def)
  next
    case True
    have reset: "ResetRecv ?k = k"
      using k by (cases k) (simp add: ResetRecv_def mid_conn_def SetPreRecv_def at_rest_def)
    have ctx: "SetDest (GetClientIP ?k) port (SetConnID (mConnID_conn ?k)
        (SetMessage (mCurrentRecvMsg ?k) (new_OperContext OP_RECV))) = recv_ctx k (next_msg st)"
      using port by (simp add: recv_ctx_def GetClientIP_def mid_conn_def SetPreRecv_def)
    have p: "post_ctx (recv_ctx k (next_msg st)) (mid_state c k st N r w) =
        Done (True, posted (recv_ctx k (next_msg st)) (mid_state c k st N r w))"
      by (rule post_ctx_run) (use run in \<open>simp_all add: mid_state_def recv_ctx_def ctx_ops new_OperContext_def\<close>)
    have port': "GetClientPort ?k = Done port"
      using port by (simp add: GetClientPort_def mid_conn_def SetPreRecv_def)
    have "conn_objs (mid_state c k st N r w) c = Some ?k" by (simp add: mid_state_def)
    with True eq n have "read_done c E_OK (mid_state c k st N r w) =
        Done (E_OK, put_conn c k (posted (recv_ctx k (next_msg st)) (mid_state c k st N r w)))"
      using p port' ctx reset by (simp add: read_done_def read_conn_obj_def)
    also have "put_conn c k (posted (recv_ctx k (next_msg st)) (mid_state c k st N r w)) = end_state k st N r w"
      using c by (simp add: put_conn_def posted_def mid_state_def end_state_def fun_upd_idem)
    finally show ?thesis using True by simp
  qed
qed

section \<open>Calls of the driver\<close>

fun read_calls :: "'b event_lib \<Rightarrow> nat \<Rightarrow> nat \<Rightarrow> 'b netst \<Rightarrow> 'b netst outcome" where
  "read_calls lib c 0 st = Done st"
| "read_calls lib c (Suc n) st = obind (ReadData lib c st) (\<lambda>(err, st1). read_calls lib c n st1)"

lemma read_calls_add:
  "read_calls lib c n st = Done st1 \<Longrightarrow> read_calls lib c (n + n') st = read_calls lib c n' st1"
proof (induction n arbitrary: st)
  case (Suc n)
  then obtain e st2 where "ReadData lib c st = Done (e, st2)" "read_calls lib c n st2 = Done st1"
    by (auto simp: outcome_simps)
  with Suc.IH show ?case by simp
qed simp

text \<open>One call once the length is known.\<close>

lemma ReadData_mid:
  assumes c: "conn_objs st c = Some k" and k: "at_rest k" and N: "N + 8 < 2 ^ 31" and r: "length r < N + 4"
    and run: "mRunning (ns_svc st)"
    and s: "stream (incoming w (fd_of k)) = f @ mo" "length f = N + 4 - length r"
    and u: "unbroken (incoming w (fd_of k))"
  shows "\<exists>n w'. 0 < n \<and> n \<le> length f \<and>
    obind (read_body lib c (mid_state c k st N r w)) (\<lambda>(err, st1).
      obind (read_done c err st1) (\<lambda>(err1, st2). obind (read_failed c err1 st2) (\<lambda>st3. Done (err1, st3)))) =
    Done (E_OK, if n = length f then end_state k st N (r @ f) w' else mid_state c k st N (r @ take n f) w') \<and>
    stream (incoming w' (fd_of k)) = drop n f @ mo \<and> unbroken (incoming w' (fd_of k))"
proof -
  have ok: "\<not> NoOK (mSock k)" using k by (simp add: at_rest_def)
  from read_body_run [OF N ok r s u] obtain n w' where n: "0 < n" "n \<le> length f"
    "read_body lib c (mid_state c k st N r w) = Done (E_OK, mid_state c k st N (r @ take n f) w')"
    "stream (incoming w' (fd_of k)) = drop n f @ mo" "unbroken (incoming w' (fd_of k))" by blast
  have l: "length (r @ take n f) \<le> N + 4" "length (r @ take n f) = N + 4 \<longleftrightarrow> n = length f"
    using n(2) s(2) r by (auto simp: min_def)
  from read_done_run [OF c k N l(1) run, of w'] n l(2) show ?thesis
    by (intro exI [of _ n] exI [of _ w']) (auto simp: read_failed_def)
qed

lemma ReadData_mid_call:
  assumes "at_rest k"
  shows "ReadData lib c (mid_state c k st N r w) =
    obind (read_body lib c (mid_state c k st N r w)) (\<lambda>(err, st1).
      obind (read_done c err st1) (\<lambda>(err1, st2). obind (read_failed c err1 st2) (\<lambda>st3. Done (err1, st3))))"
proof -
  have "conn_objs (mid_state c k st N r w) c = Some (mid_conn k (next_msg st) N (length r))"
    by (simp add: mid_state_def)
  moreover have "\<not> NoOK (mSock (mid_conn k p N n))" "mPreRecv (mSock (mid_conn k p N n))" for p n
    using assms by (simp_all add: at_rest_def mid_conn_def SetPreRecv_def NoOK_def)
  ultimately show ?thesis by (simp add: ReadData_def read_head_def read_conn_obj_def HasPreRecv_def)
qed

lemma read_calls_mid:
  assumes "conn_objs st c = Some k" "at_rest k" "N + 8 < 2 ^ 31" "length r < N + 4" "mRunning (ns_svc st)"
    "stream (incoming w (fd_of k)) = f @ mo" "length f = N + 4 - length r" "unbroken (incoming w (fd_of k))"
  shows "\<exists>n w'. n \<le> length f \<and> read_calls lib c n (mid_state c k st N r w) = Done (end_state k st N (r @ f) w') \<and>
    stream (incoming w' (fd_of k)) = mo \<and> unbroken (incoming w' (fd_of k))"
  using assms(4,6,7,8)
proof (induction "length f" arbitrary: r f w rule: less_induct)
  case less
  from ReadData_mid [OF assms(1-3) less.prems(1) assms(5) less.prems(2-4)] obtain n w1 where n: "0 < n" "n \<le> length f"
    and call: "ReadData lib c (mid_state c k st N r w) =
      Done (E_OK, if n = length f then end_state k st N (r @ f) w1 else mid_state c k st N (r @ take n f) w1)"
    and s1: "stream (incoming w1 (fd_of k)) = drop n f @ mo" "unbroken (incoming w1 (fd_of k))"
    unfolding ReadData_mid_call [OF assms(2)] by blast
  show ?case
  proof (cases "n = length f")
    case True
    with call s1 n show ?thesis by (intro exI [of _ 1] exI [of _ w1]) (simp add: Suc_le_eq)
  next
    case False
    have "length (drop n f) < length f" "length (r @ take n f) < N + 4"
      "length (drop n f) = N + 4 - length (r @ take n f)"
      using n False less.prems by auto
    from less.hyps [OF this(1,2) s1(1) this(3) s1(2)] obtain n2 w2 where
      n2: "n2 \<le> length (drop n f)" "read_calls lib c n2 (mid_state c k st N (r @ take n f) w1) =
        Done (end_state k st N ((r @ take n f) @ drop n f) w2)"
      "stream (incoming w2 (fd_of k)) = mo" "unbroken (incoming w2 (fd_of k))" by blast
    with call False n show ?thesis by (intro exI [of _ "Suc n2"] exI [of _ w2]) simp
  qed
qed

text \<open>A whole frame.\<close>

lemma read_calls_frame:
  assumes c: "conn_objs st c = Some k" and k: "at_rest k" and run: "mRunning (ns_svc st)"
    and bs: "4 \<le> length bs" "length bs + 8 < 2 ^ 31" and t: "length t = 4"
    and s: "stream (incoming (net st) (fd_of k)) = frame t bs @ mo"
    and u: "unbroken (incoming (net st) (fd_of k))"
  shows "\<exists>n w. n \<le> length bs + 4 \<and> read_calls lib c n st = Done (end_state k st (length bs) (t @ map Some bs) w) \<and>
    stream (incoming w (fd_of k)) = mo \<and> unbroken (incoming w (fd_of k))"
proof -
  let ?f = "t @ map Some bs"
  have s': "stream (incoming (net st) (fd_of k)) = map Some (be32 (of_nat (length bs))) @ (?f @ mo)"
    using s by (simp add: frame_def)
  from read_head_run [OF c k bs s' u] obtain w where w: "read_head lib c st = Done (E_OK, True, mid_state c k st (length bs) [] w)"
    "stream (incoming w (fd_of k)) = ?f @ mo" "unbroken (incoming w (fd_of k))" by blast
  have ok: "\<not> NoOK (mSock k)" using k by (simp add: at_rest_def)
  have first: "ReadData lib c st = ReadData lib c (mid_state c k st (length bs) [] w)"
    unfolding ReadData_mid_call [OF k] using c ok w(1) by (simp add: ReadData_def read_conn_obj_def)
  have l: "length ?f = length bs + 4 - length ([] :: cell list)" "length ([] :: cell list) < length bs + 4"
    using t by simp_all
  from read_calls_mid [OF c k bs(2) l(2) run w(2) l(1) w(3)] obtain n w' where n: "n \<le> length ?f"
    "read_calls lib c n (mid_state c k st (length bs) [] w) = Done (end_state k st (length bs) ?f w')"
    "stream (incoming w' (fd_of k)) = mo" "unbroken (incoming w' (fd_of k))" by fastforce
  have "n \<noteq> 0"
  proof
    assume "n = 0"
    with n(2) have "mid_state c k st (length bs) [] w = end_state k st (length bs) ?f w'" by simp
    then have "msgs (mid_state c k st (length bs) [] w) (next_msg st) = msgs (end_state k st (length bs) ?f w') (next_msg st)"
      by simp
    then have "mData (frame_msg (length bs) []) = mData (frame_msg (length bs) ?f)"
      by (simp add: mid_state_def end_state_def posted_def)
    then have "replicate (length bs + 4) None = ?f" using t by (simp add: frame_msg_def)
    then have "drop 4 (replicate (length bs + 4) (None :: cell)) = map Some bs" using t by simp
    then have "replicate (length bs) (None :: cell) = map Some bs" by (simp add: drop_replicate)
    with bs(1) show False by (cases bs) auto
  qed
  then obtain n' where n': "n = Suc n'" by (cases n) auto
  have "read_calls lib c n st = Done (end_state k st (length bs) ?f w')"
    using n(2) first unfolding n' by simp
  with n t show ?thesis by (intro exI [of _ n] exI [of _ w']) simp
qed

section \<open>Received messages\<close>

text \<open>Context \<open>q\<close> hands over a message of connection \<open>k\<close> that reads back as the fields \<open>fs\<close>.\<close>

definition delivered :: "tcp_connection \<Rightarrow> 'b netst \<Rightarrow> nat \<Rightarrow> field list \<Rightarrow> bool" where
  "delivered k st q fs \<longleftrightarrow> (\<exists>ctx p m m'. ctxs (ns_heap st) q = Some ctx \<and> GetType ctx = OP_RECV \<and>
     GetConnID ctx = mConnID_conn k \<and> GetMessage ctx = Done p \<and> p < next_msg st \<and> msgs st p = Some m \<and>
     get_fields (map field_type_of fs) m = Done (fs, m'))"

abbreviation wires :: "field list \<Rightarrow> bytes" where
  "wires fs \<equiv> concat (map wire fs)"

definition fields_frame :: "cell list \<times> field list \<Rightarrow> cell list" where
  "fields_frame f = frame (fst f) (wires (snd f))"

text \<open>What can be received: a type of four bytes, a body of at least four, and no overflow.\<close>

definition frame_ok :: "cell list \<times> field list \<Rightarrow> bool" where
  "frame_ok f \<longleftrightarrow> length (fst f) = 4 \<and> 4 \<le> length (wires (snd f)) \<and> length (wires (snd f)) + 8 < 2 ^ 31"

lemma end_state_simps [simp]:
  "conn_objs (end_state k st N r w) = conn_objs st" "net (end_state k st N r w) = w"
  "msgs (end_state k st N r w) = (msgs st)(next_msg st \<mapsto> frame_msg N r)"
  "next_msg (end_state k st N r w) = Suc (next_msg st)"
  "ctxs (ns_heap (end_state k st N r w)) = (ctxs (ns_heap st))(next_ctx (ns_heap st) \<mapsto> recv_ctx k (next_msg st))"
  "next_ctx (ns_heap (end_state k st N r w)) = Suc (next_ctx (ns_heap st))"
  "mQueue (ns_svc (end_state k st N r w)) = mQueue (ns_svc st) @ [next_ctx (ns_heap st)]"
  "mRunning (ns_svc (end_state k st N r w)) = mRunning (ns_svc st)"
  by (simp_all add: end_state_def posted_def)

lemma end_state_delivered:
  assumes "frame_ok (t, fs)"
  shows "delivered k (end_state k st (length (wires fs)) (t @ map Some (wires fs)) w) (next_ctx (ns_heap st)) fs"
proof -
  let ?N = "length (wires fs)"
  have "reads_next (wires fs) (frame_msg ?N (t @ map Some (wires fs)))"
    using assms by (simp add: reads_next_def frame_msg_def raw_Msg_def HEAD_LENGTH_def frame_ok_def del: length_concat)
  from get_fields_run [OF this] obtain m' where
    "get_fields (map field_type_of fs) (frame_msg ?N (t @ map Some (wires fs))) = Done (fs, m')" by blast
  then show ?thesis
    by (simp add: delivered_def recv_ctx_def ctx_ops new_OperContext_def)
qed

lemma delivered_mono:
  assumes "delivered k st q fs" "q < next_ctx (ns_heap st)" "next_msg st \<le> next_msg st'"
    "\<forall>p < next_msg st. msgs st' p = msgs st p" "\<forall>q < next_ctx (ns_heap st). ctxs (ns_heap st') q = ctxs (ns_heap st) q"
  shows "delivered k st' q fs"
proof -
  from assms(1) obtain ctx p m m' where "ctxs (ns_heap st) q = Some ctx" "GetType ctx = OP_RECV"
    "GetConnID ctx = mConnID_conn k" "GetMessage ctx = Done p" "p < next_msg st" "msgs st p = Some m"
    "get_fields (map field_type_of fs) m = Done (fs, m')" unfolding delivered_def by blast
  with assms(2-5) show ?thesis unfolding delivered_def by (intro exI [of _ ctx] exI [of _ p] exI [of _ m] exI [of _ m']) simp
qed

lemma read_calls_frames:
  assumes "conn_objs st c = Some k" "at_rest k" "mRunning (ns_svc st)" "list_all frame_ok frames"
    "stream (incoming (net st) (fd_of k)) = concat (map fields_frame frames) @ mo"
    "unbroken (incoming (net st) (fd_of k))"
  shows "\<exists>n st' qs. n \<le> length (concat (map fields_frame frames)) \<and> read_calls lib c n st = Done st' \<and>
    conn_objs st' = conn_objs st \<and> stream (incoming (net st') (fd_of k)) = mo \<and>
    mQueue (ns_svc st') = mQueue (ns_svc st) @ qs \<and> list_all2 (delivered k st') qs (map snd frames) \<and>
    next_msg st \<le> next_msg st' \<and> next_ctx (ns_heap st) \<le> next_ctx (ns_heap st') \<and>
    (\<forall>p < next_msg st. msgs st' p = msgs st p) \<and>
    (\<forall>q < next_ctx (ns_heap st). ctxs (ns_heap st') q = ctxs (ns_heap st) q)"
  using assms
proof (induction frames arbitrary: st)
  case Nil
  then show ?case by (intro exI [of _ 0] exI [of _ st]) simp
next
  case (Cons f frames)
  obtain t fs where f: "f = (t, fs)" by fastforce
  let ?N = "length (wires fs)"
  have ok: "frame_ok (t, fs)" "list_all frame_ok frames" using Cons.prems(4) f by simp_all
  have s: "stream (incoming (net st) (fd_of k)) = frame t (wires fs) @ (concat (map fields_frame frames) @ mo)"
    using Cons.prems(5) f fields_frame_def [of f] by simp
  from read_calls_frame [where lib = lib, OF Cons.prems(1-3) _ _ _ s Cons.prems(6)] ok(1) obtain n w where
    n: "n \<le> ?N + 4" "read_calls lib c n st = Done (end_state k st ?N (t @ map Some (wires fs)) w)"
    and w: "stream (incoming w (fd_of k)) = concat (map fields_frame frames) @ mo" "unbroken (incoming w (fd_of k))"
    by (auto simp: frame_ok_def simp del: length_concat)
  let ?st1 = "end_state k st ?N (t @ map Some (wires fs)) w"
  have "conn_objs ?st1 c = Some k" "mRunning (ns_svc ?st1)" "stream (incoming (net ?st1) (fd_of k)) =
      concat (map fields_frame frames) @ mo" "unbroken (incoming (net ?st1) (fd_of k))"
    using Cons.prems w by simp_all
  from Cons.IH [OF this(1) Cons.prems(2) this(2) ok(2) this(3,4)] obtain n' st' qs where
    n': "n' \<le> length (concat (map fields_frame frames))" "read_calls lib c n' ?st1 = Done st'"
    and co: "conn_objs st' = conn_objs ?st1" and s': "stream (incoming (net st') (fd_of k)) = mo"
    and q: "mQueue (ns_svc st') = mQueue (ns_svc ?st1) @ qs" "list_all2 (delivered k st') qs (map snd frames)"
    and le: "next_msg ?st1 \<le> next_msg st'" "next_ctx (ns_heap ?st1) \<le> next_ctx (ns_heap st')"
    and fr: "\<forall>p < next_msg ?st1. msgs st' p = msgs ?st1 p"
      "\<forall>q < next_ctx (ns_heap ?st1). ctxs (ns_heap st') q = ctxs (ns_heap ?st1) q" by blast
  let ?q = "next_ctx (ns_heap st)"
  have "delivered k st' ?q fs"
    by (rule delivered_mono [OF end_state_delivered [OF ok(1), of k st w]]) (use fr le in simp_all)
  then have "list_all2 (delivered k st') (?q # qs) (map snd (f # frames))" using q(2) f by simp
  moreover have "read_calls lib c (n + n') st = Done st'" using read_calls_add [OF n(2)] n'(2) by simp
  moreover have "n + n' \<le> length (concat (map fields_frame (f # frames)))"
    using n(1) n'(1) f ok(1) fields_frame_def [of f] by (simp add: frame_def del: length_concat)
  moreover have "mQueue (ns_svc st') = mQueue (ns_svc st) @ (?q # qs)" using q(1) by simp
  ultimately show ?case
    using co s' le fr by (intro exI [of _ "n + n'"] exI [of _ st'] exI [of _ "?q # qs"]) simp
qed

section \<open>Sending\<close>

fun write_calls :: "'b event_lib \<Rightarrow> nat \<Rightarrow> nat \<Rightarrow> 'b netst \<Rightarrow> 'b netst outcome" where
  "write_calls lib c 0 st = Done st"
| "write_calls lib c (Suc n) st = obind (WriteData lib c st) (\<lambda>(err, st1). write_calls lib c n st1)"

definition no_failures :: "net_world \<Rightarrow> bool" where
  "no_failures w \<longleftrightarrow> (\<forall>e. RFail e \<notin> set (answers w))"

text \<open>The bytes of a message that go out.\<close>

definition out_bytes :: "msg \<Rightarrow> cell list" where
  "out_bytes m = take (unat (GetTotalLen m)) (mData m)"

definition sendable :: "msg \<Rightarrow> bool" where
  "sendable m \<longleftrightarrow> 0 < unat (GetTotalLen m) \<and> unat (GetTotalLen m) \<le> length (mData m) \<and> unat (GetTotalLen m) < 2 ^ 31"

text \<open>The connection after \<open>n\<close> bytes of the first message.\<close>

definition sending :: "tcp_connection \<Rightarrow> nat \<Rightarrow> nat \<Rightarrow> nat \<Rightarrow> tcp_connection" where
  "sending k p t n = k\<lparr>mCurrentSendMsg := Some p, mToSend := int t - int n, mSent := int n\<rparr>"

definition send_idle :: "tcp_connection \<Rightarrow> bool" where
  "send_idle k \<longleftrightarrow> \<not> NoOK (mSock k) \<and> \<not> mClosed_conn k \<and> mCurrentSendMsg k = None \<and> mToSend k = 0 \<and> mSent k = 0"

lemma sys_send_no_failures:
  assumes "no_failures w" "d \<noteq> []"
  shows "\<exists>n w'. sys_send fd d w = (Inr n, w') \<and> 0 < n \<and> n \<le> length d \<and> no_failures w' \<and>
    outgoing w' = (outgoing w)(fd := outgoing w fd @ take n d) \<and> incoming w' = incoming w"
proof -
  obtain r w1 where r: "next_answer w = (r, w1)" by fastforce
  have nf: "no_failures w1 \<and> (\<forall>e. r \<noteq> RFail e)"
  proof (cases "answers w")
    case (Cons a as)
    with assms(1) r show ?thesis by (cases a) (auto simp: next_answer_def no_failures_def)
  qed (use r assms(1) in \<open>auto simp: next_answer_def no_failures_def\<close>)
  obtain x w' where x: "sys_send fd d w = (x, w')" by fastforce
  show ?thesis
  proof (cases x)
    case (Inl e)
    with sys_send_Inl [of fd d w e w'] x r nf show ?thesis by auto
  next
    case (Inr n)
    with x have s: "sys_send fd d w = (Inr n, w')" by simp
    have "no_failures w'"
      using s r nf by (auto simp: sys_send_def Let_def no_failures_def split: sysresp.splits)
    with sys_send_Inr [OF s] s assms(2) show ?thesis by blast
  qed
qed

lemma sint_total: "sendable m \<Longrightarrow> sint (GetTotalLen m) = int (unat (GetTotalLen m))"
  by (rule sint_small) (simp add: sendable_def)

text \<open>One call that finds \<open>n\<close> bytes of the first message sent.\<close>

definition sent_state ::
  "nat \<Rightarrow> tcp_connection \<Rightarrow> 'b netst \<Rightarrow> nat \<Rightarrow> nat \<Rightarrow> nat \<Rightarrow> net_world \<Rightarrow> 'b netst" where
  "sent_state c k st p t n w = put_conn c (sending k p t n) (st\<lparr>net := w\<rparr>)"

definition next_state :: "nat \<Rightarrow> tcp_connection \<Rightarrow> 'b netst \<Rightarrow> nat \<Rightarrow> net_world \<Rightarrow> 'b netst" where
  "next_state c k st p w =
     put_conn c (k\<lparr>mToSendMsg := tl (mToSendMsg k)\<rparr>) (st\<lparr>net := w, msgs := (msgs st)(p := None)\<rparr>)"

lemma send_some_run:
  assumes k: "send_idle k" and p: "msgs st p = Some m" and m: "sendable m"
    and t: "unat (GetTotalLen m) = t" and n: "n < t" and w: "no_failures w"
  shows "\<exists>i w'. 0 < i \<and> n + i \<le> t \<and>
    send_some lib c (sent_state c k st p t n w) = Done (E_OK, if n + i = t
      then next_state c k st p w' else sent_state c k st p t (n + i) w') \<and>
    no_failures w' \<and> outgoing w' = (outgoing w)(fd_of k := outgoing w (fd_of k) @ take i (drop n (out_bytes m)))"
proof -
  let ?d = "drop n (out_bytes m)"
  have len: "length ?d = t - n" using m t by (simp add: out_bytes_def sendable_def)
  then have ne: "?d \<noteq> []" using n by auto
  from sys_send_no_failures [OF w ne, of "fd_of k"] obtain i w' where
    i: "sys_send (fd_of k) ?d w = (Inr i, w')" "0 < i" "i \<le> length ?d" "no_failures w'"
    "outgoing w' = (outgoing w)(fd_of k := outgoing w (fd_of k) @ take i ?d)" by blast
  have "nat (int t - int n) = t - n" by simp
  then have buf: "buffer_at (int n) (int t - int n) (mData m) = Done ?d"
    using n m t by (simp add: buffer_at_def load_cells_def out_bytes_def sendable_def drop_take)
  have send: "Send ?d 0 (mSock k, w) = (E_OK, int i, mSock k, w')"
    using i(1) k by (simp add: Send_def send_idle_def)
  have "send_some lib c (sent_state c k st p t n w) = Done (E_OK, if n + i = t
      then next_state c k st p w' else sent_state c k st p t (n + i) w')"
  proof (cases "n + i = t")
    case True
    then have "int t - int n - int i = 0" by simp
    moreover have "ResetSend (k\<lparr>mCurrentSendMsg := Some p, mToSend := 0, mSent := int n + int i,
        mToSendMsg := tl (mToSendMsg k)\<rparr>) = k\<lparr>mToSendMsg := tl (mToSendMsg k)\<rparr>"
      using k by (cases k) (simp add: ResetSend_def send_idle_def)
    ultimately show ?thesis
      using True p buf send
      by (cases k) (simp add: send_some_def sent_state_def read_conn_obj_def put_conn_def sending_def read_msg_def
        GetBuffer_def next_state_def delete_msg_def ResetSend_def)
  next
    case False
    then have "int t - int n - int i \<noteq> 0" by simp
    then show ?thesis
      using False p buf send
      by (cases k) (simp add: send_some_def sent_state_def read_conn_obj_def put_conn_def sending_def read_msg_def
        GetBuffer_def algebra_simps)
  qed
  with i len n show ?thesis by (intro exI [of _ i] exI [of _ w']) simp
qed

lemma WriteData_sent_state:
  assumes "send_idle k"
  shows "WriteData lib c (sent_state c k st p t n w) = send_some lib c (sent_state c k st p t n w)"
  using assms by (simp add: WriteData_def sent_state_def put_conn_def read_conn_obj_def sending_def send_idle_def)

lemma WriteData_first:
  assumes "conn_objs st c = Some k" "send_idle k" "mToSendMsg k = p # ps" "msgs st p = Some m" "sendable m"
  shows "WriteData lib c st = WriteData lib c (sent_state c k st p (unat (GetTotalLen m)) 0 (net st))"
  unfolding WriteData_sent_state [OF assms(2)] using assms sint_total [OF assms(5)]
  by (simp add: WriteData_def InitNextSend_def read_conn_obj_def read_msg_def send_idle_def
      sent_state_def put_conn_def sending_def)

lemma write_calls_message:
  assumes k: "send_idle k" and p: "msgs st p = Some m" and m: "sendable m" and t: "unat (GetTotalLen m) = t"
  shows "n < t \<Longrightarrow> no_failures w \<Longrightarrow> \<exists>j w'. 0 < j \<and> j \<le> t - n \<and>
    write_calls lib c j (sent_state c k st p t n w) = Done (next_state c k st p w') \<and> no_failures w' \<and>
    outgoing w' = (outgoing w)(fd_of k := outgoing w (fd_of k) @ drop n (out_bytes m))"
proof (induction "t - n" arbitrary: n w rule: less_induct)
  case less
  from send_some_run [OF k p m t less.prems] obtain i w1 where i: "0 < i" "n + i \<le> t"
    and s: "send_some lib c (sent_state c k st p t n w) = Done (E_OK, if n + i = t
      then next_state c k st p w1 else sent_state c k st p t (n + i) w1)"
    and w1: "no_failures w1" "outgoing w1 = (outgoing w)(fd_of k := outgoing w (fd_of k) @ take i (drop n (out_bytes m)))"
    by blast
  have call: "WriteData lib c (sent_state c k st p t n w) = Done (E_OK, if n + i = t
      then next_state c k st p w1 else sent_state c k st p t (n + i) w1)"
    unfolding WriteData_sent_state [OF k] by (rule s)
  show ?case
  proof (cases "n + i = t")
    case True
    have "length (drop n (out_bytes m)) \<le> i" using True m t by (simp add: out_bytes_def sendable_def)
    with call w1 True i show ?thesis by (intro exI [of _ 1] exI [of _ w1]) simp
  next
    case False
    with i have lt: "t - (n + i) < t - n" "n + i < t" by simp_all
    from less.hyps [OF lt w1(1)] obtain j w2 where j: "0 < j" "j \<le> t - (n + i)"
      "write_calls lib c j (sent_state c k st p t (n + i) w1) = Done (next_state c k st p w2)" "no_failures w2"
      "outgoing w2 = (outgoing w1)(fd_of k := outgoing w1 (fd_of k) @ drop (n + i) (out_bytes m))" by blast
    have "drop n (out_bytes m) = take i (drop n (out_bytes m)) @ drop (n + i) (out_bytes m)"
      by (metis append_take_drop_id drop_drop add.commute)
    then have "outgoing w2 = (outgoing w)(fd_of k := outgoing w (fd_of k) @ drop n (out_bytes m))"
      using j(5) w1(2) by simp
    with call j i False show ?thesis by (intro exI [of _ "Suc j"] exI [of _ w2]) simp
  qed
qed

lemma write_calls_add:
  "write_calls lib c n st = Done st1 \<Longrightarrow> write_calls lib c (n + n') st = write_calls lib c n' st1"
proof (induction n arbitrary: st)
  case (Suc n)
  then obtain e st2 where "WriteData lib c st = Done (e, st2)" "write_calls lib c n st2 = Done st1"
    by (auto simp: outcome_simps)
  with Suc.IH show ?case by simp
qed simp

text \<open>The whole queue.\<close>

lemma write_calls_queue:
  assumes "conn_objs st c = Some k" "send_idle k" "no_failures (net st)" "distinct (mToSendMsg k)"
    "list_all2 (\<lambda>p m. msgs st p = Some m \<and> sendable m) (mToSendMsg k) ms"
  shows "\<exists>n st'. n \<le> length (concat (map out_bytes ms)) \<and> write_calls lib c n st = Done st' \<and>
    conn_objs st' = (conn_objs st)(c \<mapsto> k\<lparr>mToSendMsg := []\<rparr>) \<and> msgs st' = msgs st |` (- set (mToSendMsg k)) \<and>
    outgoing (net st') = (outgoing (net st))(fd_of k := outgoing (net st) (fd_of k) @ concat (map out_bytes ms))"
  using assms
proof (induction ms arbitrary: k st)
  case Nil
  then have q: "mToSendMsg k = []" by simp
  then have "k\<lparr>mToSendMsg := []\<rparr> = k" by (cases k) simp
  with Nil q show ?case by (intro exI [of _ 0] exI [of _ st]) (simp add: fun_upd_idem)
next
  case (Cons m ms)
  from Cons.prems(5) obtain p ps where q: "mToSendMsg k = p # ps" and p: "msgs st p = Some m" "sendable m"
    and ps: "list_all2 (\<lambda>p m. msgs st p = Some m \<and> sendable m) ps ms"
    by (auto simp: list_all2_Cons2)
  let ?t = "unat (GetTotalLen m)"
  have "0 < ?t" using p(2) by (simp add: sendable_def)
  from write_calls_message [OF Cons.prems(2) p refl this Cons.prems(3), of lib c] obtain j w where
    j: "0 < j" "j \<le> ?t" "write_calls lib c j (sent_state c k st p ?t 0 (net st)) = Done (next_state c k st p w)"
    and w: "no_failures w" "outgoing w = (outgoing (net st))(fd_of k := outgoing (net st) (fd_of k) @ out_bytes m)"
    by auto
  obtain j' where "j = Suc j'" using j(1) by (cases j) auto
  then have call: "write_calls lib c j st = Done (next_state c k st p w)"
    using j(3) WriteData_first [OF Cons.prems(1,2) q p] by simp
  let ?k = "k\<lparr>mToSendMsg := ps\<rparr>" and ?st = "next_state c k st p w"
  have np: "p \<notin> set ps" "distinct (mToSendMsg ?k)" using Cons.prems(4) q by simp_all
  have st1: "conn_objs ?st c = Some ?k" "net ?st = w" "msgs ?st = (msgs st)(p := None)"
    "conn_objs ?st = (conn_objs st)(c \<mapsto> ?k)"
    using q by (simp_all add: next_state_def put_conn_def)
  have idle: "send_idle ?k" using Cons.prems(2) by (simp add: send_idle_def)
  have nf: "no_failures (net ?st)" using w(1) st1(2) by simp
  have "list_all2 (\<lambda>p m. msgs ?st p = Some m \<and> sendable m) (mToSendMsg ?k) ms"
    using ps np(1) st1(3) by (auto simp: list_all2_conv_all_nth)
  from Cons.IH [OF st1(1) idle nf np(2) this] obtain n st' where
    n: "n \<le> length (concat (map out_bytes ms))" "write_calls lib c n ?st = Done st'"
    and st': "conn_objs st' = (conn_objs ?st)(c \<mapsto> ?k\<lparr>mToSendMsg := []\<rparr>)"
      "msgs st' = msgs ?st |` (- set (mToSendMsg ?k))"
      "outgoing (net st') = (outgoing (net ?st))(fd_of ?k := outgoing (net ?st) (fd_of ?k) @ concat (map out_bytes ms))"
    by blast
  have "write_calls lib c (j + n) st = Done st'" using write_calls_add [OF call] n(2) by simp
  moreover have "j + n \<le> length (concat (map out_bytes (m # ms)))"
    using j(2) n(1) p(2) by (simp add: out_bytes_def sendable_def)
  moreover have "msgs st' = msgs st |` (- set (mToSendMsg k))"
    using st'(2) q st1(3) by (auto simp: fun_eq_iff restrict_map_def)
  moreover have "conn_objs st' = (conn_objs st)(c \<mapsto> k\<lparr>mToSendMsg := []\<rparr>)"
    using st'(1) st1(4) by simp
  ultimately show ?case using st'(3) st1(2) w(2) by (intro exI [of _ "j + n"] exI [of _ st']) simp
qed

text \<open>A message as its senders make it: allocate, put the fields in, set the length.\<close>

definition made_message :: "field list \<Rightarrow> msg \<Rightarrow> bool" where
  "made_message fs m \<longleftrightarrow> (\<exists>n m0 m1. length (wires fs) \<le> unat n \<and> unat n + 8 < 2 ^ 31 \<and>
     new_Msg_len n = Done m0 \<and> put_fields fs m0 = Done m1 \<and> SetLen m1 = Done m)"

lemma made_message_out:
  assumes "made_message fs m"
  shows "sendable m \<and> out_bytes m = fields_frame (replicate 4 None, fs)"
proof -
  from assms obtain n m0 m1 where n: "length (wires fs) \<le> unat n" "unat n + 8 < 2 ^ 31"
    and m0: "new_Msg_len n = Done m0" and m1: "put_fields fs m0 = Done m1" and m: "SetLen m1 = Done m"
    unfolding made_message_def by blast
  have m0': "m0 = raw_Msg (n + of_nat HEAD_LENGTH)" using m0 new_Msg_len_run [OF n(2)] by simp
  have sz: "unat (n + of_nat HEAD_LENGTH) = unat n + 8"
    using n(2) by (simp add: HEAD_LENGTH_def unat_word_ariths take_bit_nat_eq_self)
  have wf: "msg_wf m0" unfolding m0' by (rule raw_Msg_wf) (use sz in \<open>simp add: HEAD_LENGTH_def\<close>)
  have "length (wires fs) \<le> unat (LeftSize m0)"
    using n(1) sz unat_LeftSize [OF wf] by (simp add: m0' raw_Msg_def del: length_concat)
  from put_fields_run [OF wf this] m1 have m1': "msg_wf m1" "msg_body m1 = map Some (wires fs)"
    "unat (mWriteOffset m1) = length (wires fs)" "take 8 (mData m1) = replicate 8 None"
    "mMallocSize m1 = n + of_nat HEAD_LENGTH"
    using sz by (auto simp: msg_body_def m0' raw_Msg_def HEAD_LENGTH_def min_def simp del: length_concat)
  let ?L = "length (wires fs)"
  have len: "length (mData m1) = unat n + 8" using m1'(1,5) sz by (simp add: msg_wf_def)
  have off: "mWriteOffset m1 = of_nat ?L" using m1'(3) by (metis of_nat_unat ucast_id)
  have data: "m = m1\<lparr>mData := map Some (be32 (of_nat ?L)) @ drop 4 (mData m1)\<rparr>"
    using m off len by (auto simp: SetLen_def SetLen_to_def store_cells_def be32_def simp del: length_concat)
  have total: "unat (GetTotalLen m) = ?L + 8"
    using data m1'(3) n by (simp add: GetTotalLen_def HEAD_LENGTH_def unat_word_ariths take_bit_nat_eq_self
        del: length_concat)
  have "take (?L + 8) (mData m1) = replicate 8 None @ map Some (wires fs)"
    using m1'(2,3,4) by (simp add: msg_body_def HEAD_LENGTH_def take_add add.commute [of _ 8] del: length_concat)
  then have "take (?L + 4) (drop 4 (mData m1)) = drop 4 (replicate 8 None @ map Some (wires fs))"
    by (metis drop_take add_diff_cancel_right' numeral_Bit0 add.assoc)
  then have "take (?L + 4) (drop 4 (mData m1)) = replicate 4 None @ map Some (wires fs)"
    by (simp add: numeral_eq_Suc)
  then have "out_bytes m = fields_frame (replicate 4 None, fs)"
    using data unfolding out_bytes_def total by (simp add: fields_frame_def frame_def add.commute [of 4] del: length_concat)
  moreover have "sendable m"
    using total data len n by (simp add: sendable_def del: length_concat)
  ultimately show ?thesis by blast
qed

lemma made_message_exists:
  fixes n :: u32
  assumes "length (wires fs) \<le> unat n" "unat n + 8 < 2 ^ 31"
  shows "\<exists>m. made_message fs m"
proof -
  let ?m0 = "raw_Msg (n + of_nat HEAD_LENGTH)"
  have sz: "unat (n + of_nat HEAD_LENGTH) = unat n + 8"
    using assms(2) by (simp add: HEAD_LENGTH_def unat_word_ariths take_bit_nat_eq_self)
  have wf: "msg_wf ?m0" by (rule raw_Msg_wf) (use sz in \<open>simp add: HEAD_LENGTH_def\<close>)
  have "length (wires fs) \<le> unat (LeftSize ?m0)"
    using assms(1) sz unat_LeftSize [OF wf] by (simp add: raw_Msg_def del: length_concat)
  from put_fields_run [OF wf this] obtain m1 where m1: "put_fields fs ?m0 = Done m1" "msg_wf m1" by blast
  then have "\<exists>m. SetLen m1 = Done m"
    by (simp add: SetLen_def SetLen_to_def store_cells_def msg_wf_def HEAD_LENGTH_def)
  with m1(1) assms new_Msg_len_run [OF assms(2)] show ?thesis unfolding made_message_def by blast
qed

text \<open>Small states to apply the properties to.\<close>

definition demo_conn :: tcp_connection where
  "demo_conn = new_TcpConnection (new_TcpSocket\<lparr>mSocket := 5, mClosed := False, mPort := Some 80\<rparr>) 0"

definition demo_netst ::
  "tcp_connection \<Rightarrow> msg_heap \<Rightarrow> arrival list \<Rightarrow> (nat \<times> nat list) driver option \<Rightarrow> (nat \<times> nat list) netst" where
  "demo_netst k h as d =
     \<lparr>ns_heap = empty_heap, ns_svc = (new_LogicService ''net'' 0)\<lparr>mRunning := True\<rparr>,
      srv_svc = new_LogicService ''server'' 0, msgs = h, next_msg = 4,
      net = \<lparr>incoming = (\<lambda>_. [])(5 := as), outgoing = (\<lambda>_. []), answers = [], selects = [], peers = [],
        fresh_fd = 6, errno = E_OK\<rparr>,
      drv = d, new_base = None, conn_objs = [0 \<mapsto> k], acc_objs = Map.empty, next_obj = 1,
      mConns = [(0, 0)], mLocalAddrs = [], mAccepters = [], mMaxID = 1\<rparr>"

lemmas demo_simps = demo_netst_def demo_conn_def new_TcpConnection_def new_TcpSocket_def at_rest_def
  send_idle_def NoOK_def new_LogicService_def

section \<open>Properties\<close>

text \<open>C17: Messages arrive. A connection that has messages in its queue sends all of them, in order,
  after finitely many calls of the driver, however little each \<^verbatim>\<open>send\<close> takes, and frees them. A
  connection at the other end to which the network brings these bytes, cut into pieces in any
  way, hands over one context per message to its service, in order, from which the fields that
  were put in can be read; what follows in the stream is left alone.\<close>

theorem messages_arrive_in_order:
  assumes snd: "conn_objs st c = Some k" "send_idle k" "no_failures (net st)" "distinct (mToSendMsg k)"
    and none: "outgoing (net st) (fd_of k) = []"
    and made: "list_all2 (\<lambda>p m. msgs st p = Some m) (mToSendMsg k) ms" "list_all2 made_message fss ms"
    and long: "list_all (\<lambda>fs. 4 \<le> length (wires fs)) fss"
    and rcv: "conn_objs st2 c2 = Some k2" "at_rest k2" "mRunning (ns_svc st2)" "unbroken (incoming (net st2) (fd_of k2))"
  shows "\<exists>n st'. write_calls lib c n st = Done st' \<and> conn_objs st' c = Some (k\<lparr>mToSendMsg := []\<rparr>) \<and>
    msgs st' = msgs st |` (- set (mToSendMsg k)) \<and>
    outgoing (net st') (fd_of k) = concat (map (\<lambda>fs. fields_frame (replicate 4 None, fs)) fss) \<and>
    (\<forall>mo. stream (incoming (net st2) (fd_of k2)) = outgoing (net st') (fd_of k) @ mo \<longrightarrow>
      (\<exists>n2 st2' qs. read_calls lib2 c2 n2 st2 = Done st2' \<and> stream (incoming (net st2') (fd_of k2)) = mo \<and>
        mQueue (ns_svc st2') = mQueue (ns_svc st2) @ qs \<and> list_all2 (delivered k2 st2') qs fss))"
proof -
  let ?frames = "map (\<lambda>fs. (replicate 4 (None :: cell), fs)) fss"
  have "list_all2 (\<lambda>p m. msgs st p = Some m \<and> sendable m) (mToSendMsg k) ms"
    using made by (auto simp: list_all2_conv_all_nth dest: made_message_out)
  from write_calls_queue [OF snd this] obtain n st' where w: "write_calls lib c n st = Done st'"
    "conn_objs st' = (conn_objs st)(c \<mapsto> k\<lparr>mToSendMsg := []\<rparr>)" "msgs st' = msgs st |` (- set (mToSendMsg k))"
    "outgoing (net st') = (outgoing (net st))(fd_of k := outgoing (net st) (fd_of k) @ concat (map out_bytes ms))"
    by blast
  have "map out_bytes ms = map fields_frame ?frames"
    using made(2) by (induction fss ms rule: list_all2_induct) (simp_all add: made_message_out)
  then have out: "outgoing (net st') (fd_of k) = concat (map fields_frame ?frames)" using w(4) none by simp
  have "made_message fs m \<Longrightarrow> length (wires fs) + 8 < 2 ^ 31" for fs m
    unfolding made_message_def by linarith
  then have ok: "list_all frame_ok ?frames"
    using made(2) long by (auto simp: list_all_length list_all2_conv_all_nth frame_ok_def simp del: length_concat)
  have "\<exists>n2 st2' qs. read_calls lib2 c2 n2 st2 = Done st2' \<and> stream (incoming (net st2') (fd_of k2)) = mo \<and>
        mQueue (ns_svc st2') = mQueue (ns_svc st2) @ qs \<and> list_all2 (delivered k2 st2') qs fss"
    if "stream (incoming (net st2) (fd_of k2)) = outgoing (net st') (fd_of k) @ mo" for mo
    using read_calls_frames [where lib = lib2, OF rcv(1-3) ok that [unfolded out] rcv(4)] by (auto simp: comp_def)
  with w out show ?thesis by (intro exI [of _ n] exI [of _ st']) (simp add: comp_def)
qed

lemma messages_arrive_in_order_witness:
  "\<exists>m n st' n2 st2' qs. made_message [F32 7] m \<and>
    write_calls list_lib 0 n (demo_netst (demo_conn\<lparr>mToSendMsg := [3]\<rparr>) [3 \<mapsto> m] [] None) = Done st' \<and>
    read_calls list_lib 0 n2 (demo_netst demo_conn Map.empty
      (map (\<lambda>c. Chunk c []) (fields_frame (replicate 4 None, [F32 7]))) None) = Done st2' \<and>
    list_all2 (delivered demo_conn st2') qs [[F32 7]]"
proof -
  obtain m where m: "made_message [F32 7] m" using made_message_exists [of "[F32 7]" 4] by auto
  let ?k = "demo_conn\<lparr>mToSendMsg := [3]\<rparr>"
  let ?st = "demo_netst ?k [3 \<mapsto> m] [] None"
  let ?as = "map (\<lambda>c. Chunk c []) (fields_frame (replicate 4 None, [F32 7]))"
  let ?st2 = "demo_netst demo_conn Map.empty ?as None"
  have u: "unbroken (map (\<lambda>c. Chunk c []) cs)" "stream (map (\<lambda>c. Chunk c []) cs) = cs" for cs
    by (auto simp: unbroken_def, induction cs) simp_all
  have "\<exists>n st'. write_calls list_lib 0 n ?st = Done st' \<and> conn_objs st' 0 = Some (?k\<lparr>mToSendMsg := []\<rparr>) \<and>
    msgs st' = msgs ?st |` (- set (mToSendMsg ?k)) \<and>
    outgoing (net st') (fd_of ?k) = concat (map (\<lambda>fs. fields_frame (replicate 4 None, fs)) [[F32 7]]) \<and>
    (\<forall>mo. stream (incoming (net ?st2) (fd_of demo_conn)) = outgoing (net st') (fd_of ?k) @ mo \<longrightarrow>
      (\<exists>n2 st2' qs. read_calls list_lib 0 n2 ?st2 = Done st2' \<and> stream (incoming (net st2') (fd_of demo_conn)) = mo \<and>
        mQueue (ns_svc st2') = mQueue (ns_svc ?st2) @ qs \<and> list_all2 (delivered demo_conn st2') qs [[F32 7]]))"
    by (rule messages_arrive_in_order [where ms = "[m]"])
      (use m u in \<open>simp_all add: demo_simps no_failures_def\<close>)
  moreover have "stream (incoming (net ?st2) (fd_of demo_conn)) =
      concat (map (\<lambda>fs. fields_frame (replicate 4 None, fs)) [[F32 7]]) @ []"
    using u(2) by (simp add: demo_simps)
  ultimately show ?thesis using m by metis
qed

text \<open>C39: The length on the wire is not checked. Whoever can connect stops the process with four
  bytes: the size of the buffer overflows, as a signed number or, for lengths that are negative
  as \<^verbatim>\<open>int\<close>, to fewer bytes than the length that is then stored in it.\<close>

theorem hostile_length_stops_the_process:
  assumes c: "conn_objs st c = Some k" and k: "at_rest k"
    and s: "stream (incoming (net st) (fd_of k)) = map Some (be32 len) @ cs"
    and len: "2 ^ 31 - 8 \<le> unat len" "unat len < 2 ^ 31 \<or> 2 ^ 32 - 8 \<le> unat len \<and> unat len < 2 ^ 32 - 4"
  shows "ReadData lib c st = Abort (if unat len < 2 ^ 31 then Signed_overflow else Out_of_bounds)"
proof -
  have ok: "\<not> NoOK (mSock k)" "\<not> mPreRecv (mSock k)" "mCurrentRecvMsg k = None"
    using k by (simp_all add: at_rest_def)
  from PreRecv_run [OF ok(1,2), of "net st" len cs 0] s obtain w where
    w: "PreRecv 0 (mSock k, net st) = Done (E_OK, len, (mSock k)\<lparr>mPreRecv := True\<rparr>, w)" by (auto simp: be32_def)
  have "obind (new_Msg_len len) (SetLen_to len) = Abort (if unat len < 2 ^ 31 then Signed_overflow else Out_of_bounds)"
  proof (cases "unat len < 2 ^ 31")
    case True
    then have "sint len = int (unat len)" by (rule sint_small)
    moreover have "int (2 ^ 31 - 8) \<le> int (unat len)" using len(1) by (simp only: of_nat_le_iff)
    ultimately show ?thesis using True by (simp add: new_Msg_len_def HEAD_LENGTH_def INT_MAX_def)
  next
    case False
    have "2 ^ 31 \<le> uint len"
      using False of_nat_le_iff [of "2 ^ 31" "unat len", where 'a = int] unfolding uint_nat by simp
    from signed_take_bit_int_less_eq [OF this] have "sint len \<le> uint len - 2 ^ 32" by (simp add: sint_uint)
    moreover have "uint len < 2 ^ 32" using uint_lt2p [of len] by simp
    ultimately have le: "sint len + int HEAD_LENGTH \<le> INT_MAX" by (simp add: HEAD_LENGTH_def INT_MAX_def)
    obtain x where x: "unat len = 2 ^ 32 - 8 + x" "x < 4"
    proof
      show "unat len = 2 ^ 32 - 8 + (unat len - (2 ^ 32 - 8))" "unat len - (2 ^ 32 - 8) < 4"
        using False len(2) by auto
    qed
    have "unat (len + of_nat HEAD_LENGTH) = (unat len + 8) mod 2 ^ 32"
      by (simp add: HEAD_LENGTH_def unat_word_ariths take_bit_nat_def)
    also have "\<dots> = (x + 2 ^ 32) mod 2 ^ 32" unfolding x(1) by (simp add: add.commute)
    also have "\<dots> = x" unfolding mod_add_self2 using x(2) by simp
    finally have "unat (len + of_nat HEAD_LENGTH) < 4" using x(2) by simp
    with le False show ?thesis
      by (simp add: new_Msg_len_def SetLen_to_def store_cells_def raw_Msg_def)
  qed
  then consider "new_Msg_len len = Abort (if unat len < 2 ^ 31 then Signed_overflow else Out_of_bounds)"
    | m where "new_Msg_len len = Done m"
        "SetLen_to len m = Abort (if unat len < 2 ^ 31 then Signed_overflow else Out_of_bounds)"
    by (cases "new_Msg_len len") auto
  moreover have "\<not> unat len < 4" using len(1) by simp
  ultimately show ?thesis
    using c ok w by cases (simp_all add: ReadData_def read_head_def read_conn_obj_def HasPreRecv_def put_conn_def Let_def)
qed

lemma hostile_length_stops_the_process_witness:
  "ReadData list_lib 0 (demo_netst demo_conn Map.empty
    [Chunk (Some 255) (map Some [255, 255, 248])] None) = Abort Out_of_bounds"
proof -
  have "be32 4294967288 = [255, 255, 255, 248]" by (simp add: be32_def le_bytes_htonl) code_simp
  then show ?thesis
    using hostile_length_stops_the_process [of "demo_netst demo_conn Map.empty
      [Chunk (Some 255) (map Some [255, 255, 248])] None" 0 demo_conn 4294967288 "[]" list_lib]
    by (simp add: demo_simps)
qed

text \<open>A failing \<^verbatim>\<open>recv\<close> is taken for progress. When the network reports an error in the middle
  of a message, \<^verbatim>\<open>ReadData\<close> returns success: the connection is neither closed nor dropped, and
  its count of received bytes goes down by one, so that the next byte overwrites the last one.\<close>

theorem failed_receive_counts_as_progress:
  assumes c: "conn_objs st c = Some k" and k: "\<not> NoOK (mSock k)" "mPreRecv (mSock k)" "mCurrentRecvMsg k = Some p"
    and m: "msgs st p = Some m" "unat (mRecved k) \<le> length (mData m)"
    and pos: "0 < mRecved k" "mRecved k \<le> mToRecv k"
    and broken: "incoming (net st) (fd_of k) = Broken e # as"
  shows "\<exists>st'. ReadData lib c st = Done (E_OK, st') \<and> conn_objs st' = (conn_objs st)(c \<mapsto> k\<lparr>mRecved := mRecved k - 1\<rparr>) \<and>
    ns_svc st' = ns_svc st \<and> drv st' = drv st \<and> msgs st' = msgs st \<and> incoming (net st') (fd_of k) = as"
proof -
  let ?e = "if e = E_OK then EIO else e"
  let ?w = "(net st)\<lparr>incoming := (incoming (net st))(fd_of k := as), errno := ?e\<rparr>"
  let ?k = "k\<lparr>mRecved := mRecved k - 1\<rparr>"
  let ?st = "st\<lparr>net := ?w, conn_objs := (conn_objs st)(c \<mapsto> ?k)\<rparr>"
  have recv: "Recv n 0 (mSock k, net st) = (E_OK, -1, [], mSock k, ?w)" for n
    using k(1) broken by (simp add: Recv_def sys_recv_def Let_def)
  have "store_cells (unat (mRecved k)) [] (mData m) = Done (mData m)" using m(2) by (simp add: store_cells_def)
  moreover have "m\<lparr>mData := mData m\<rparr> = m" by simp
  then have "(msgs st)(p \<mapsto> m\<lparr>mData := mData m\<rparr>) = msgs st" using m(1) by (simp add: fun_upd_idem)
  ultimately have body: "read_body lib c st = Done (E_OK, ?st)"
    using c k(3) m(1) recv by (simp add: read_body_def read_conn_obj_def read_msg_def GetBuffer_def put_conn_def)
  have "mRecved k - 1 < mToRecv k"
    using pos by (metis less_le_trans word_less_sub1 word_not_simps(1) measure_unat word_less_nat_alt)
  then have "mRecved k - 1 \<noteq> mToRecv k" by simp
  then have "read_done c E_OK ?st = Done (E_OK, ?st)" by (simp add: read_done_def read_conn_obj_def)
  then have "ReadData lib c st = Done (E_OK, ?st)"
    using c k body by (simp add: ReadData_def read_conn_obj_def read_head_def HasPreRecv_def read_failed_def)
  then show ?thesis by (intro exI [of _ ?st]) simp
qed

lemma failed_receive_counts_as_progress_witness:
  "\<exists>st'. ReadData list_lib 0 (demo_netst (mid_conn demo_conn 3 4 0) [3 \<mapsto> frame_msg 4 []] [Broken ECONNRESET] None) =
      Done (E_OK, st') \<and> conn_objs st' 0 = Some ((mid_conn demo_conn 3 4 0)\<lparr>mRecved := 3\<rparr>)"
  using failed_receive_counts_as_progress [of "demo_netst (mid_conn demo_conn 3 4 0) [3 \<mapsto> frame_msg 4 []]
    [Broken ECONNRESET] None" 0 "mid_conn demo_conn 3 4 0" 3 "frame_msg 4 []" ECONNRESET "[]" list_lib]
  by (auto simp: demo_simps mid_conn_simps SetPreRecv_def frame_msg_def)

text \<open>A frame that announces less than four bytes closes the connection, but nobody is told:
  \<^verbatim>\<open>ReadData\<close> returns success and posts no \<^verbatim>\<open>OP_DROP\<close>, and as the descriptor is no longer watched
  it is never called again. The service keeps the dead connection for ever.\<close>

theorem short_frame_leaks_the_connection:
  assumes c: "conn_objs st c = Some k" and k: "at_rest k" "\<not> mClosed_conn k" "mToSendMsg k = []"
    and s: "stream (incoming (net st) (fd_of k)) = map Some (be32 len) @ cs" and len: "unat len < 4"
    and d: "drv st = Some d" "events_ok d" "registered (fd_of k) c d"
  shows "\<exists>st' k' d'. ReadData lib c st = Done (E_OK, st') \<and> conn_objs st' c = Some k' \<and> mClosed_conn k' \<and>
    ns_svc st' = ns_svc st \<and> mConns st' = mConns st \<and>
    drv st' = Some d' \<and> map_of (mEventsInfo d') (fd_of k) = None"
proof -
  have ok: "\<not> NoOK (mSock k)" "\<not> mPreRecv (mSock k)" "mCurrentRecvMsg k = None"
    using k(1) by (simp_all add: at_rest_def)
  from PreRecv_run [OF ok(1,2), of "net st" len cs 0] s obtain w where
    w: "PreRecv 0 (mSock k, net st) = Done (E_OK, len, (mSock k)\<lparr>mPreRecv := True\<rparr>, w)" by (auto simp: be32_def)
  from UnRegistRWEvent_run [OF d(2,3)] obtain d1 where d1: "UnRegistRWEvent lib (fd_of k) d = Done d1"
    "map_of (mEventsInfo d1) = (map_of (mEventsInfo d))(fd_of k := None)" by blast
  let ?k1 = "k\<lparr>mSock := (mSock k)\<lparr>mPreRecv := True\<rparr>\<rparr>"
  let ?st1 = "put_conn c ?k1 (st\<lparr>net := w\<rparr>)"
  obtain e s2 w2 where s2: "Close_sock ((mSock k)\<lparr>mPreRecv := True\<rparr>, w) = (e, s2, w2)" by (metis prod_cases3)
  let ?k2 = "?k1\<lparr>mClosed_conn := True, mSock := s2, mToSendMsg := []\<rparr>"
  have close: "\<exists>st2. Close_conn lib c ?st1 = Done (E_OK, st2) \<and> conn_objs st2 c = Some ?k2 \<and>
      drv st2 = Some d1 \<and> ns_svc st2 = ns_svc st \<and> mConns st2 = mConns st"
    using k(2,3) d(1) d1(1) s2
    by (simp add: Close_conn_def read_conn_obj_def put_conn_def on_driver_def GetFd_def FreeNotSendMsg_def)
  then obtain st2 where st2: "Close_conn lib c ?st1 = Done (E_OK, st2)" "conn_objs st2 c = Some ?k2"
    "drv st2 = Some d1" "ns_svc st2 = ns_svc st" "mConns st2 = mConns st" by blast
  have "read_head lib c st = Done (E_OK, False, st2)"
    using c ok w len st2(1) by (simp add: read_head_def read_conn_obj_def HasPreRecv_def)
  moreover have "read_done c E_OK st2 = Done (E_OK, st2)"
    using st2(2) k(1) by (simp add: read_done_def read_conn_obj_def at_rest_def)
  ultimately have "ReadData lib c st = Done (E_OK, st2)"
    using c ok by (simp add: ReadData_def read_conn_obj_def read_failed_def)
  with st2 d1(2) show ?thesis by (intro exI [of _ st2] exI [of _ ?k2] exI [of _ d1]) simp
qed

lemma short_frame_leaks_the_connection_witness:
  "\<exists>st' k'. ReadData list_lib 0 (demo_netst demo_conn Map.empty [Chunk (Some 0) (map Some [0, 0, 2])]
      (Some \<lparr>mEventBase = Some (2, [0, 1]), mEventsInfo = [(5, \<lparr>read_ev = Some 0, write_ev = Some 1,
        read_conn = Some 0, write_conn = Some 0\<rparr>)], mName_drv = [], mThread_drv = None, mTimerEvent = None,
        mRunning_drv = True\<rparr>)) = Done (E_OK, st') \<and>
    conn_objs st' 0 = Some k' \<and> mClosed_conn k' \<and> mQueue (ns_svc st') = [] \<and> mConns st' = [(0, 0)]"
proof -
  have "be32 2 = [0, 0, 0, 2]" by (simp add: be32_def le_bytes_htonl) code_simp
  then show ?thesis
    using short_frame_leaks_the_connection [of "demo_netst demo_conn Map.empty [Chunk (Some 0) (map Some [0, 0, 2])]
      (Some \<lparr>mEventBase = Some (2, [0, 1]), mEventsInfo = [(5, \<lparr>read_ev = Some 0, write_ev = Some 1,
        read_conn = Some 0, write_conn = Some 0\<rparr>)], mName_drv = [], mThread_drv = None, mTimerEvent = None,
        mRunning_drv = True\<rparr>)" 0 demo_conn 2 "[]" _ list_lib]
    by (fastforce simp: demo_simps events_ok_def info_ok_def IsInvalid_def registered_def)
qed

end
