(* ===== verification/Common.thy ===== *)
theory Common
  imports ByteBuffer
begin

text \<open>
  \<^verbatim>\<open>src/Common/src/Common.cpp\<close>: numbers and addresses as text, in the "C" locale. Parsing an
  address and printing one are library calls and stay parameters.
\<close>

section \<open>Printing\<close>

fun digits_of :: "nat \<Rightarrow> bytes" where
  "digits_of n = (if n < 10 then [of_nat (48 + n)] else digits_of (n div 10) @ [of_nat (48 + n mod 10)])"

declare digits_of.simps [simp del]

definition i2s :: "int \<Rightarrow> bytes" where
  "i2s i = (if i < 0 then 45 # digits_of (nat (- i)) else digits_of (nat i))"

section \<open>Parsing\<close>

definition is_blank :: "u8 \<Rightarrow> bool" where
  "is_blank c \<longleftrightarrow> c \<in> {9, 10, 11, 12, 13, 32}"

definition is_digit :: "u8 \<Rightarrow> bool" where
  "is_digit c \<longleftrightarrow> 48 \<le> c \<and> c \<le> 57"

fun digits_value :: "nat \<Rightarrow> bytes \<Rightarrow> nat" where
  "digits_value a [] = a"
| "digits_value a (c # cs) = (if is_digit c then digits_value (10 * a + (unat c - 48)) cs else a)"

definition clamp_int :: "int \<Rightarrow> int" where
  "clamp_int i = (if i > 2 ^ 31 - 1 then 2 ^ 31 - 1 else if i < - (2 ^ 31) then - (2 ^ 31) else i)"

text \<open>
  \<^verbatim>\<open>ss >> i\<close> stores nothing when there is nothing but white space, 0 when what follows is not a
  number, and the nearest \<^verbatim>\<open>int\<close> when the number is too large.
\<close>

definition StringAsInt :: "bytes \<Rightarrow> int outcome" where
  "StringAsInt str =
     (case dropWhile is_blank str of [] \<Rightarrow> Abort Uninitialised_read
      | c # cs \<Rightarrow>
          if c = 45 then Done (clamp_int (- int (digits_value 0 cs)))
          else if c = 43 then Done (clamp_int (int (digits_value 0 cs)))
          else Done (clamp_int (int (digits_value 0 (c # cs)))))"

definition s2i :: "bytes \<Rightarrow> int outcome" where
  "s2i s = StringAsInt s"

section \<open>Addresses\<close>

text \<open>\<^verbatim>\<open>inet_addr\<close> gives \<^const>\<open>None\<close> for \<^verbatim>\<open>INADDR_NONE\<close>.\<close>

definition InvalidIP :: "(bytes \<Rightarrow> u32 option) \<Rightarrow> bytes \<Rightarrow> bool" where
  "InvalidIP inet_addr ip \<longleftrightarrow> inet_addr ip = None"

definition InvalidPort :: "bytes \<Rightarrow> bool" where
  "InvalidPort port \<longleftrightarrow> (\<exists>c \<in> set port. \<not> is_digit c)"

record sockaddr_in =
  sin_addr :: u32
  sin_port :: u16

definition GetPeerIP :: "(u32 \<Rightarrow> bytes) \<Rightarrow> sockaddr_in \<Rightarrow> bytes" where
  "GetPeerIP inet_ntoa paddr = inet_ntoa (sin_addr paddr)"

definition GetPeerPort :: "sockaddr_in \<Rightarrow> u16" where
  "GetPeerPort paddr = ntohs (sin_port paddr)"

definition GetPeerInfo :: "(u32 \<Rightarrow> bytes) \<Rightarrow> sockaddr_in \<Rightarrow> bytes" where
  "GetPeerInfo inet_ntoa paddr = inet_ntoa (sin_addr paddr) @ [58] @ i2s (uint (ntohs (sin_port paddr)))"

section \<open>Byte order\<close>

text \<open>The functions of \<^verbatim>\<open>Util.cpp\<close> once more, with a reference for an argument.\<close>

definition ntohll_ref :: "u64 \<Rightarrow> u64" where
  "ntohll_ref input = le_word (map (\<lambda>i. ucast (drop_bit (56 - 8 * i) input)) [0..<8])"

definition htonll_ref :: "u64 \<Rightarrow> u64" where
  "htonll_ref input = ntohll_ref input"

lemma ntohll_ref_same: "ntohll_ref = ntohll" "htonll_ref = htonll"
  by (auto simp: fun_eq_iff ntohll_ref_def htonll_ref_def ntohll_def htonll_def upt_rec)

section \<open>Lemmas\<close>

lemma is_digit_of_nat: "d < 10 \<Longrightarrow> is_digit (of_nat (48 + d)) \<and> unat (of_nat (48 + d) :: u8) = 48 + d"
proof -
  assume "d < 10"
  then have "unat (of_nat (48 + d) :: u8) = 48 + d" by (simp only: unat_of_nat) (simp add: take_bit_nat_eq_self)
  then show ?thesis using \<open>d < 10\<close> unfolding is_digit_def word_le_nat_alt by simp
qed

lemma digits_value_append:
  "list_all is_digit ds \<Longrightarrow> digits_value a (ds @ cs) = digits_value (digits_value a ds) cs"
  by (induction a ds rule: digits_value.induct) auto

lemma digits_of_digits: "list_all is_digit (digits_of n) \<and> digits_of n \<noteq> []"
proof (induction n rule: digits_of.induct)
  case (1 n)
  have "n mod 10 < 10" by simp
  from is_digit_of_nat [OF this] 1 show ?case
    using is_digit_of_nat [of n] by (cases "n < 10") (simp_all add: digits_of.simps [of n])
qed

lemma digits_value_digits_of: "digits_value 0 (digits_of n) = n"
proof (induction n rule: digits_of.induct)
  case (1 n)
  show ?case
  proof (cases "n < 10")
    case True
    then show ?thesis using is_digit_of_nat [of n] by (simp add: digits_of.simps [of n])
  next
    case False
    have "n mod 10 < 10" by simp
    note d = is_digit_of_nat [OF this]
    have "digits_value 0 (digits_of n) = digits_value (n div 10) [of_nat (48 + n mod 10)]"
      using False 1 digits_value_append digits_of_digits by (simp add: digits_of.simps [of n])
    also have "\<dots> = n" using d by simp
    finally show ?thesis .
  qed
qed

lemma digit_no_space: "is_digit c \<Longrightarrow> \<not> is_blank c \<and> c \<noteq> 45 \<and> c \<noteq> 43"
  by (auto simp: is_digit_def is_blank_def)

text \<open>A number that was printed is read back, over the whole range of \<^verbatim>\<open>int\<close>.\<close>

lemma number_text_roundtrip:
  assumes "- (2 ^ 31) \<le> i" "i < 2 ^ 31"
  shows "s2i (i2s i) = Done i"
proof -
  obtain c cs where d: "digits_of (nat (abs i)) = c # cs"
    using digits_of_digits [of "nat (abs i)"] by (cases "digits_of (nat (abs i))") auto
  then have c: "is_digit c" using digits_of_digits [of "nat (abs i)"] by simp
  have v: "digits_value 0 (c # cs) = nat (abs i)" using digits_value_digits_of [of "nat (abs i)"] d by simp
  show ?thesis
  proof (cases "i < 0")
    case True
    then have "i2s i = 45 # c # cs" using d by (simp add: i2s_def)
    moreover have "- int (nat (abs i)) = i" "clamp_int i = i" using True assms by (simp_all add: clamp_int_def)
    ultimately show ?thesis using v True
      by (simp add: s2i_def StringAsInt_def is_blank_def del: digits_value.simps)
  next
    case False
    then have "i2s i = c # cs" using d by (simp add: i2s_def)
    moreover have "int (nat (abs i)) = i" "clamp_int i = i" using False assms by (simp_all add: clamp_int_def)
    ultimately show ?thesis using v False digit_no_space [OF c]
      by (simp add: s2i_def StringAsInt_def del: digits_value.simps)
  qed
qed

lemma number_text_roundtrip_witness: "s2i (i2s (- 305)) = Done (- 305)"
  by (rule number_text_roundtrip) simp_all

text \<open>The empty text counts as a port, and reading it as a number gives whatever was on the stack.\<close>

lemma empty_port_is_accepted: "\<not> InvalidPort [] \<and> StringAsInt [] = Abort Uninitialised_read"
  by (simp add: InvalidPort_def StringAsInt_def)

end
