(* ===== verification/NetService.thy ===== *)
theory NetService
  imports TcpConnection Common
begin

text \<open>
  \<^verbatim>\<open>src/Common/include/NetService.hpp\<close>, \<^verbatim>\<open>Accepter.hpp\<close> and \<^verbatim>\<open>src/Common/src/NetService.cpp\<close>: the
  service that owns the connections, accepts clients and passes messages on to another service;
  and \<^verbatim>\<open>LogicService::RecvMsg\<close>, which reads one.
\<close>

section \<open>Addresses\<close>

text \<open>\<^verbatim>\<open>short port\<close> is widened with its sign before it is printed.\<close>

definition Addr_ToString :: "bytes \<times> u16 \<Rightarrow> bytes" where
  "Addr_ToString a = fst a @ i2s (sint (snd a))"

definition Addr_less :: "bytes \<times> u16 \<Rightarrow> bytes \<times> u16 \<Rightarrow> bool" where
  "Addr_less a b \<longleftrightarrow> Addr_ToString a < Addr_ToString b"

text \<open>A set ordered by \<^verbatim>\<open>operator<\<close> holds one address per printed text.\<close>

definition AddListener :: "bytes \<Rightarrow> u16 \<Rightarrow> 'b netst \<Rightarrow> err \<times> 'b netst" where
  "AddListener ip port st =
     (if map_of (mLocalAddrs st) (Addr_ToString (ip, port)) \<noteq> None then (EEXIST, st)
      else (E_OK, st\<lparr>mLocalAddrs := smap_insert (Addr_ToString (ip, port)) (ip, port) (mLocalAddrs st)\<rparr>))"

section \<open>Accepter\<close>

definition new_Accepter :: "bytes \<Rightarrow> u16 \<Rightarrow> accepter" where
  "new_Accepter ip port = \<lparr>mListenSocket = None, mIP_acc = ip, mPort_acc = port\<rparr>"

definition read_acc :: "nat \<Rightarrow> 'b netst \<Rightarrow> accepter outcome" where
  "read_acc a st = (case acc_objs st a of None \<Rightarrow> Abort Dangling_pointer | Some x \<Rightarrow> Done x)"

definition listen_socket :: "accepter \<Rightarrow> tcp_socket outcome" where
  "listen_socket x = (case mListenSocket x of None \<Rightarrow> Abort Uninitialised_read | Some s \<Rightarrow> Done s)"

definition put_listen :: "nat \<Rightarrow> accepter \<Rightarrow> tcp_socket \<times> net_world \<Rightarrow> 'b netst \<Rightarrow> 'b netst" where
  "put_listen a x sw st =
     st\<lparr>acc_objs := (acc_objs st)(a \<mapsto> x\<lparr>mListenSocket := Some (fst sw)\<rparr>), net := snd sw\<rparr>"

definition destroy_Accepter :: "nat \<Rightarrow> 'b netst \<Rightarrow> 'b netst outcome" where
  "destroy_Accepter a st =
     obind (read_acc a st) (\<lambda>x.
     obind (listen_socket x) (\<lambda>s.
     let (_, _, w1) = Close_sock (s, net st) in
     Done (st\<lparr>net := w1, acc_objs := (acc_objs st)(a := None)\<rparr>)))"

definition Accepter_WriteData :: "nat \<Rightarrow> 'b netst \<Rightarrow> (err \<times> 'b netst) outcome" where
  "Accepter_WriteData a st = Abort Assertion_failed"

text \<open>A client socket that could not be made is not deleted.\<close>

definition Accepter_ReadData :: "nat \<Rightarrow> 'b netst \<Rightarrow> (err \<times> 'b netst) outcome" where
  "Accepter_ReadData a st =
     obind (read_acc a st) (\<lambda>x.
     obind (listen_socket x) (\<lambda>s.
     let (err, client, sw) = Accept (s, net st);
         st1 = put_listen a x sw st in
     case client of None \<Rightarrow> Done (E_OK, st1)
     | Some (fd, ip, port) \<Rightarrow>
         let (err, s2, w2) = Create fd (new_TcpSocket, net st1);
             st2 = st1\<lparr>net := w2\<rparr> in
         if err \<noteq> E_OK then Done (E_OK, st2)
         else obind (send_ctx net_queue (new_AcceptContext (SetAddr ip port s2)) st2) (\<lambda>(_, st3).
           Done (E_OK, st3))))"

definition StartListen :: "'b event_lib \<Rightarrow> nat \<Rightarrow> 'b netst \<Rightarrow> (err \<times> 'b netst) outcome" where
  "StartListen lib a st =
     obind (read_acc a st) (\<lambda>x.
     let (err, sw) = Create (-1) (new_TcpSocket, net st);
         st1 = put_listen a x sw st in
     if err \<noteq> E_OK then Done (err, st1)
     else
       let (err, sw2) = Listen (mIP_acc x) (mPort_acc x) sw;
           st2 = put_listen a x sw2 st1 in
       if err \<noteq> E_OK then Done (err, st2)
       else obind (on_driver (RW_RegistReadEvent lib (GetFd (fst sw2)) a) st2) (\<lambda>st3. Done (E_OK, st3)))"

definition StopListen :: "'b event_lib \<Rightarrow> nat \<Rightarrow> 'b netst \<Rightarrow> (err \<times> 'b netst) outcome" where
  "StopListen lib a st =
     obind (read_acc a st) (\<lambda>x.
     obind (listen_socket x) (\<lambda>s.
     obind (on_driver (RW_UnRegistReadEvent lib (GetFd s)) st) (\<lambda>st1.
     let (err, sw) = Close_sock (s, net st1) in
     Done (err, put_listen a x sw st1))))"

section \<open>NetService\<close>

text \<open>The queue of the service that requests are handed to.\<close>

definition server_queue :: "(nat, nat, tcp_socket, 'b netst) service" where
  "server_queue = net_queue\<lparr>svc := srv_svc, set_svc := (\<lambda>s st. st\<lparr>srv_svc := s\<rparr>)\<rparr>"

text \<open>Listeners, in the order of the set; \<^verbatim>\<open>insert\<close> keeps an entry that is there.\<close>

fun start_listeners :: "'b event_lib \<Rightarrow> (bytes \<times> (bytes \<times> u16)) list \<Rightarrow> 'b netst \<Rightarrow> (err \<times> 'b netst) outcome" where
  "start_listeners lib [] st = Done (E_OK, st)"
| "start_listeners lib ((key, ip, port) # as) st =
     (let a = next_obj st;
          st1 = st\<lparr>acc_objs := (acc_objs st)(a \<mapsto> new_Accepter ip port), next_obj := Suc a\<rparr> in
      obind (StartListen lib a st1) (\<lambda>(err, st2).
      if err \<noteq> E_OK then Done (err, st2)
      else start_listeners lib as (st2\<lparr>mAccepters := smap_insert key a (mAccepters st2)\<rparr>)))"

definition StartListener :: "'b event_lib \<Rightarrow> 'b netst \<Rightarrow> (err \<times> 'b netst) outcome" where
  "StartListener lib st =
     (case drv st of None \<Rightarrow> Abort Uninitialised_read
      | Some _ \<Rightarrow> start_listeners lib (mLocalAddrs st) st)"

fun stop_listeners :: "'b event_lib \<Rightarrow> nat list \<Rightarrow> 'b netst \<Rightarrow> 'b netst outcome" where
  "stop_listeners lib [] st = Done st"
| "stop_listeners lib (a # as) st =
     obind (StopListen lib a st) (\<lambda>(_, st1).
     obind (destroy_Accepter a st1) (stop_listeners lib as))"

definition StopListener :: "'b event_lib \<Rightarrow> 'b netst \<Rightarrow> (err \<times> 'b netst) outcome" where
  "StopListener lib st = obind (stop_listeners lib (map snd (mAccepters st)) st) (\<lambda>st1. Done (E_OK, st1))"

text \<open>A connection for a socket under the next number.\<close>

definition add_conn :: "'b event_lib \<Rightarrow> tcp_socket \<Rightarrow> 'b netst \<Rightarrow> 'b netst outcome" where
  "add_conn lib s st =
     (let connID = mMaxID st; c = next_obj st;
          st1 = st\<lparr>mMaxID := connID + 1, next_obj := Suc c,
                   conn_objs := (conn_objs st)(c \<mapsto> new_TcpConnection s connID)\<rparr> in
      obind (assert_that (map_of (mConns st1) connID = None)) (\<lambda>_.
      on_driver (RegistRWEvent lib (GetFd s) c) (st1\<lparr>mConns := smap_insert connID c (mConns st1)\<rparr>)))"

text \<open>
  \<^const>\<open>None\<close> is a connect that never ends. The result also has what \<^verbatim>\<open>connId\<close> holds afterwards;
  a socket that could not be connected is deleted.
\<close>

definition StartConnectRemote ::
  "'b event_lib \<Rightarrow> bytes \<Rightarrow> u16 \<Rightarrow> u64 \<Rightarrow> 'b netst \<Rightarrow> (err \<times> u64 \<times> 'b netst) outcome option" where
  "StartConnectRemote lib ip port connId st =
     (case drv st of None \<Rightarrow> Some (Abort Uninitialised_read)
      | Some _ \<Rightarrow>
        let (err, sw) = Create (-1) (new_TcpSocket, net st);
            failed = (\<lambda>e sw. Done (e, connId, st\<lparr>net := snd (snd (Close_sock sw))\<rparr>)) in
        if err \<noteq> E_OK then Some (failed err sw)
        else
          map_option (\<lambda>(err, s2, w2).
            if err \<noteq> E_OK then failed err (s2, w2)
            else obind (add_conn lib s2 (st\<lparr>net := w2\<rparr>)) (\<lambda>st1. Done (E_OK, mMaxID st, st1)))
          (Connect ip port sw))"

fun drop_conns :: "'b event_lib \<Rightarrow> nat list \<Rightarrow> 'b netst \<Rightarrow> 'b netst outcome" where
  "drop_conns lib [] st = Done st"
| "drop_conns lib (c # cs) st =
     obind (Close_conn lib c st) (\<lambda>(_, st1). obind (destroy_conn c st1) (drop_conns lib cs))"

definition DropAllConnections :: "'b event_lib \<Rightarrow> 'b netst \<Rightarrow> (err \<times> 'b netst) outcome" where
  "DropAllConnections lib st = obind (drop_conns lib (map snd (mConns st)) st) (\<lambda>st1. Done (E_OK, st1))"

definition Net_Init :: "'b event_lib \<Rightarrow> 'b netst \<Rightarrow> (err \<times> 'b netst) outcome" where
  "Net_Init lib st =
     obind (new_Driver ''NetService driver'' (new_base st)) (\<lambda>d.
     obind (StartListener lib (st\<lparr>drv := Some d\<rparr>)) (\<lambda>(err, st1).
     if err \<noteq> E_OK then Done (err, st1)
     else obind (on_driver (\<lambda>d. obind (Driver_Start lib d) (\<lambda>(e, d1).
            obind (assert_that (e = E_OK)) (\<lambda>_. Done d1))) st1) (\<lambda>st2.
          Done (E_OK, st2))))"

definition Net_Finit :: "'b event_lib \<Rightarrow> 'b netst \<Rightarrow> 'b netst outcome" where
  "Net_Finit lib st =
     obind (StopListener lib st) (\<lambda>(_, st1).
     obind (DropAllConnections lib st1) (\<lambda>(_, st2).
     on_driver (\<lambda>d. obind (Driver_Stop lib d) (\<lambda>(e, d1). Done d1)) st2))"

section \<open>Handlers\<close>

definition AcceptConnection :: "'b event_lib \<Rightarrow> nat \<Rightarrow> 'b netst \<Rightarrow> 'b netst outcome" where
  "AcceptConnection lib p st =
     obind (read_ctx p (ns_heap st)) (\<lambda>ctx.
     case mClientSocket ctx of None \<Rightarrow> Abort Bad_cast
     | Some s \<Rightarrow>
         if mPort s = None then Abort Uninitialised_read else add_conn lib s st)"

text \<open>Dead code: \<^verbatim>\<open>Process\<close> does not call it. The reply is sent to the own queue.\<close>

definition reply_text :: bytes where
  "reply_text = map of_char ''this is reply from netservice!''"

definition Net_RecvMsg :: "nat \<Rightarrow> 'b netst \<Rightarrow> 'b netst outcome" where
  "Net_RecvMsg p st =
     obind (read_ctx p (ns_heap st)) (\<lambda>ctx.
     obind (GetMessage ctx) (\<lambda>q.
     obind (read_msg q (msgs st)) (\<lambda>m.
     obind (get_string m) (\<lambda>(data, m1).
     obind (delete_msg q (msgs st)) (\<lambda>h.
     obind (on_heap net_queue (modify_ctx p (SetMessage None)) (st\<lparr>msgs := h\<rparr>)) (\<lambda>st1.
     if mRunning (ns_svc st1) then
       obind (put_string reply_text new_Msg) (\<lambda>r.
       obind (SetLen r) (\<lambda>r1.
       let q1 = next_msg st1; st2 = st1\<lparr>msgs := (msgs st1)(q1 \<mapsto> r1), next_msg := Suc q1\<rparr> in
       obind (post_ctx (SetConnID (GetConnID ctx) (SetMessage (Some q1) (new_OperContext OP_SEND))) st2)
         (\<lambda>(pushed, st3).
         if pushed then Done st3
         else obind (delete_msg q1 (msgs st3)) (\<lambda>h. Done (st3\<lparr>msgs := h\<rparr>)))))
     else Done st1))))))"

text \<open>A message for a connection that is gone is deleted; \<^verbatim>\<open>GetMessage\<close> is called before anything else.\<close>

definition SendMsg :: "'b event_lib \<Rightarrow> nat \<Rightarrow> 'b netst \<Rightarrow> 'b netst outcome" where
  "SendMsg lib p st =
     obind (read_ctx p (ns_heap st)) (\<lambda>ctx.
     obind (case map_of (mConns st) (GetConnID ctx) of
              None \<Rightarrow>
                obind (GetMessage ctx) (\<lambda>q.
                obind (delete_msg q (msgs st)) (\<lambda>h. Done (st\<lparr>msgs := h\<rparr>)))
            | Some c \<Rightarrow>
                obind (GetMessage ctx) (\<lambda>q.
                obind (Enqueue_conn q c st) (\<lambda>st1.
                obind (WriteData lib c st1) (\<lambda>(_, st2). Done st2)))) (\<lambda>st1.
     on_heap net_queue (modify_ctx p (SetMessage None)) st1))"

definition DropConnection :: "nat \<Rightarrow> 'b netst \<Rightarrow> 'b netst outcome" where
  "DropConnection p st =
     obind (read_ctx p (ns_heap st)) (\<lambda>ctx.
     case map_of (mConns st) (mConnID ctx) of None \<Rightarrow> Done st
     | Some c \<Rightarrow>
         obind (read_conn_obj c st) (\<lambda>k.
         obind (GetClientPort k) (\<lambda>_.
         obind (destroy_conn c st) (\<lambda>st1.
         Done (st1\<lparr>mConns := AList.delete (mConnID ctx) (mConns st1)\<rparr>)))))"

definition Net_Process :: "'b event_lib \<Rightarrow> nat \<Rightarrow> 'b netst \<Rightarrow> (bool \<times> 'b netst) outcome" where
  "Net_Process lib p st =
     obind (read_ctx p (ns_heap st)) (\<lambda>ctx.
     case GetType ctx of
       OP_ACCEPT \<Rightarrow> obind (AcceptConnection lib p st) (\<lambda>st1. Done (True, st1))
     | OP_RECV \<Rightarrow> obind (Enqueue server_queue p st) (\<lambda>(_, st1). Done (True, st1))
     | OP_SEND \<Rightarrow> obind (SendMsg lib p st) (\<lambda>st1. Done (True, st1))
     | OP_DROP \<Rightarrow>
         obind (Enqueue server_queue p st) (\<lambda>(_, st1).
         obind (DropConnection p st1) (\<lambda>st2. Done (True, st2)))
     | _ \<Rightarrow> Done (False, st))"

definition net_service :: "'b event_lib \<Rightarrow> (nat, nat, tcp_socket, 'b netst) service" where
  "net_service lib =
     net_queue\<lparr>vInit := Net_Init lib, vFinit := Net_Finit lib, vProcess := Net_Process lib\<rparr>"

text \<open>
  The constructor. The pointer to the driver is not set; \<open>w\<close> is the network, \<open>server\<close> the other
  service and \<open>b\<close> the event base the library will make.
\<close>

definition new_NetService ::
  "string \<Rightarrow> logic_service \<Rightarrow> net_world \<Rightarrow> 'b option \<Rightarrow> 'b netst" where
  "new_NetService name server w b =
     \<lparr>ns_heap = empty_heap, ns_svc = new_LogicService name 0, srv_svc = server, msgs = Map.empty,
      next_msg = 0, net = w, drv = None, new_base = b, conn_objs = Map.empty, acc_objs = Map.empty,
      next_obj = 0, mConns = [], mLocalAddrs = [], mAccepters = [], mMaxID = 0\<rparr>"

section \<open>LogicService::RecvMsg\<close>

text \<open>The result has the text that is printed.\<close>

definition RecvMsg :: "nat \<Rightarrow> 'b netst \<Rightarrow> (bytes \<times> 'b netst) outcome" where
  "RecvMsg p st =
     obind (read_ctx p (ns_heap st)) (\<lambda>ctx.
     obind (GetMessage ctx) (\<lambda>q.
     obind (read_msg q (msgs st)) (\<lambda>m.
     obind (get_string m) (\<lambda>(data, m1).
     obind (delete_msg q (msgs st)) (\<lambda>h.
     obind (on_heap net_queue (modify_ctx p (SetMessage None)) (st\<lparr>msgs := h\<rparr>)) (\<lambda>st1.
     Done (data, st1)))))))"

section \<open>The laws of a service\<close>

lemma net_service_simps [simp]:
  "svc (net_service lib) = ns_svc" "set_svc (net_service lib) = (\<lambda>s st. st\<lparr>ns_svc := s\<rparr>)"
  "heap (net_service lib) = ns_heap" "set_heap (net_service lib) = (\<lambda>h st. st\<lparr>ns_heap := h\<rparr>)"
  "vInit (net_service lib) = Net_Init lib" "vFinit (net_service lib) = Net_Finit lib"
  "vProcess (net_service lib) = Net_Process lib" "vIdle (net_service lib) = base_Idle"
  by (simp_all add: net_service_def net_queue_def)

lemma server_queue_simps [simp]:
  "svc server_queue = srv_svc" "set_svc server_queue = (\<lambda>s st. st\<lparr>srv_svc := s\<rparr>)"
  "heap server_queue = ns_heap" "set_heap server_queue = (\<lambda>h st. st\<lparr>ns_heap := h\<rparr>)"
  by (simp_all add: server_queue_def net_queue_def)

text \<open>What touches the own queue only by appending to it.\<close>

definition appends :: "'b netst \<Rightarrow> 'b netst \<Rightarrow> bool" where
  "appends st st' \<longleftrightarrow> (\<exists>q. ns_svc st' = (ns_svc st)\<lparr>mQueue := mQueue (ns_svc st) @ q\<rparr>)"

lemma appendsI: "ns_svc st' = (ns_svc st)\<lparr>mQueue := mQueue (ns_svc st) @ q\<rparr> \<Longrightarrow> appends st st'"
  by (auto simp: appends_def)

lemma appends_same: "ns_svc st' = ns_svc st \<Longrightarrow> appends st st'"
  by (auto simp: appends_def intro!: exI [of _ "[]"])

lemma appends_trans: "appends st st1 \<Longrightarrow> appends st1 st2 \<Longrightarrow> appends st st2"
  by (auto simp: appends_def)

lemma on_driver_svc: "on_driver f st = Done st' \<Longrightarrow> ns_svc st' = ns_svc st"
  by (auto simp: on_driver_def outcome_simps split: option.splits)

lemma FreeNotSendMsg_svc: "FreeNotSendMsg c st = Done st' \<Longrightarrow> ns_svc st' = ns_svc st"
  by (auto simp: FreeNotSendMsg_def outcome_simps put_conn_def)

lemma Close_conn_svc: "Close_conn lib c st = Done (e, st') \<Longrightarrow> ns_svc st' = ns_svc st"
  by (auto simp: Close_conn_def outcome_simps put_conn_def Let_def case_prod_unfold split: if_splits
      dest!: on_driver_svc FreeNotSendMsg_svc)

lemma destroy_conn_svc: "destroy_conn c st = Done st' \<Longrightarrow> ns_svc st' = ns_svc st"
  by (auto simp: destroy_conn_def outcome_simps case_prod_unfold dest!: FreeNotSendMsg_svc)

lemma Enqueue_net_appends: "Enqueue net_queue p st = Done (b, st') \<Longrightarrow> appends st st'"
  by (cases "mRunning (ns_svc st)")
    (auto simp: Enqueue_def on_heap_def on_svc_def outcome_simps intro: appendsI [of _ _ "[p]"] appends_same)

lemma send_ctx_appends:
  assumes "send_ctx net_queue ctx st = Done (b, st')"
  shows "appends st st'"
proof -
  obtain p h where a: "alloc_ctx ctx (ns_heap st) = (p, h)" by fastforce
  with assms obtain st1 where "Enqueue net_queue p (st\<lparr>ns_heap := h\<rparr>) = Done (b, st1)"
    "on_heap net_queue (DecRef p) st1 = Done st'"
    by (auto simp: send_ctx_def outcome_simps)
  with Enqueue_net_appends [of p "st\<lparr>ns_heap := h\<rparr>" b st1] show ?thesis
    by (auto simp: on_heap_def outcome_simps appends_def)
qed

lemma send_some_appends: "send_some lib c st = Done (e, st') \<Longrightarrow> appends st st'"
proof -
  assume r: "send_some lib c st = Done (e, st')"
  then obtain k p m buf where k: "read_conn_obj c st = Done k" "mCurrentSendMsg k = Some p"
    "read_msg p (msgs st) = Done m" "buffer_at (mSent k) (mToSend k) (GetBuffer m) = Done buf"
    by (auto simp: send_some_def outcome_simps split: option.splits)
  obtain err sent s1 w1 where s: "Send buf 0 (mSock k, net st) = (err, sent, s1, w1)" by (metis prod_cases4)
  show ?thesis
  proof (cases "err = E_OK")
    case True
    with r k s show ?thesis
      by (auto simp: send_some_def outcome_simps put_conn_def Let_def intro!: appends_same split: if_splits)
  next
    case False
    with r k s obtain e1 st1 b where "Close_conn lib c (put_conn c (ResetSend (k\<lparr>mSock := s1\<rparr>)) (st\<lparr>net := w1\<rparr>)) = Done (e1, st1)"
      "send_ctx net_queue (SetConnID (mConnID_conn k) (new_OperContext OP_DROP)) st1 = Done (b, st')"
      by (auto simp: send_some_def outcome_simps)
    then have "ns_svc st1 = ns_svc st" "appends st1 st'"
      using Close_conn_svc send_ctx_appends by (fastforce simp: put_conn_def, blast)
    then show ?thesis by (blast intro: appends_trans appends_same)
  qed
qed

lemma InitNextSend_svc:
  assumes "InitNextSend c st = Done (b, st')"
  shows "ns_svc st' = ns_svc st"
proof -
  from assms obtain k where k: "read_conn_obj c st = Done k" by (auto simp: InitNextSend_def outcome_simps)
  show ?thesis
    by (cases "mToSendMsg k") (use assms k in \<open>auto simp: InitNextSend_def outcome_simps put_conn_def\<close>)
qed

lemma WriteData_appends:
  assumes "WriteData lib c st = Done (e, st')"
  shows "appends st st'"
proof -
  from assms obtain k where k: "read_conn_obj c st = Done k" by (auto simp: WriteData_def outcome_simps)
  show ?thesis
  proof (cases "mClosed_conn k \<or> NoOK (mSock k)")
    case True
    with assms k show ?thesis by (auto simp: WriteData_def intro: appends_same)
  next
    case False
    with assms k obtain has st1 where
      i: "(if mCurrentSendMsg k = None then InitNextSend c st else Done (True, st)) = Done (has, st1)"
      and s: "(if has then send_some lib c st1 else Done (E_OK, st1)) = Done (e, st')"
      by (auto simp: WriteData_def outcome_simps simp del: split_paired_Ex)
    have "ns_svc st1 = ns_svc st" using i InitNextSend_svc by (auto split: if_splits)
    moreover have "appends st1 st'" using s by (auto split: if_splits intro: appends_same send_some_appends)
    ultimately show ?thesis by (blast intro: appends_trans appends_same)
  qed
qed

lemma add_conn_svc: "add_conn lib s st = Done st' \<Longrightarrow> ns_svc st' = ns_svc st"
  by (auto simp: add_conn_def outcome_simps Let_def dest!: on_driver_svc)

lemma SendMsg_appends:
  assumes "SendMsg lib p st = Done st'"
  shows "appends st st'"
proof -
  from assms obtain ctx where ctx: "read_ctx p (ns_heap st) = Done ctx" by (auto simp: SendMsg_def outcome_simps)
  have "\<exists>st1. appends st st1 \<and> on_heap net_queue (modify_ctx p (SetMessage None)) st1 = Done st'"
  proof (cases "map_of (mConns st) (GetConnID ctx)")
    case None
    with assms ctx obtain h where "on_heap net_queue (modify_ctx p (SetMessage None)) (st\<lparr>msgs := h\<rparr>) = Done st'"
      by (auto simp: SendMsg_def outcome_simps)
    moreover have "appends st (st\<lparr>msgs := h\<rparr>)" by (rule appends_same) simp
    ultimately show ?thesis by blast
  next
    case (Some c)
    with assms ctx obtain q st1 e st2 where "Enqueue_conn q c st = Done st1" "WriteData lib c st1 = Done (e, st2)"
      "on_heap net_queue (modify_ctx p (SetMessage None)) st2 = Done st'"
      by (auto simp: SendMsg_def outcome_simps)
    moreover from this(1) have "ns_svc st1 = ns_svc st" by (auto simp: Enqueue_conn_def outcome_simps put_conn_def)
    ultimately show ?thesis by (blast intro: appends_trans appends_same WriteData_appends)
  qed
  then show ?thesis by (auto simp: on_heap_def outcome_simps appends_def)
qed

lemma DropConnection_svc: "DropConnection p st = Done st' \<Longrightarrow> ns_svc st' = ns_svc st"
  by (auto simp: DropConnection_def outcome_simps split: option.splits dest!: destroy_conn_svc)

lemma Enqueue_server_svc: "Enqueue server_queue p st = Done (b, st') \<Longrightarrow> ns_svc st' = ns_svc st"
  by (auto simp: Enqueue_def on_heap_def on_svc_def outcome_simps split: if_splits)

lemma AcceptConnection_svc: "AcceptConnection lib p st = Done st' \<Longrightarrow> ns_svc st' = ns_svc st"
  by (auto simp: AcceptConnection_def outcome_simps split: option.splits if_splits dest!: add_conn_svc)

lemma Net_Process_appends:
  assumes "Net_Process lib p st = Done (b, st')"
  shows "appends st st'"
proof -
  from assms obtain ctx where ctx: "read_ctx p (ns_heap st) = Done ctx"
    by (auto simp: Net_Process_def outcome_simps)
  show ?thesis
  proof (cases "GetType ctx")
    case OP_ACCEPT
    with assms ctx show ?thesis
      by (auto simp: Net_Process_def outcome_simps dest!: AcceptConnection_svc intro: appends_same)
  next
    case OP_RECV
    with assms ctx show ?thesis
      by (auto simp: Net_Process_def outcome_simps dest!: Enqueue_server_svc intro: appends_same)
  next
    case OP_SEND
    with assms ctx show ?thesis by (auto simp: Net_Process_def outcome_simps intro: SendMsg_appends)
  next
    case OP_DROP
    with assms ctx show ?thesis
      by (auto simp: Net_Process_def outcome_simps dest!: Enqueue_server_svc DropConnection_svc intro: appends_same)
  qed (use assms ctx in \<open>auto simp: Net_Process_def intro: appends_same\<close>)
qed

lemma StartListen_svc: "StartListen lib a st = Done (e, st') \<Longrightarrow> ns_svc st' = ns_svc st"
  by (auto simp: StartListen_def outcome_simps put_listen_def Let_def case_prod_unfold split: if_splits
      dest!: on_driver_svc)

lemma start_listeners_svc: "start_listeners lib as st = Done (e, st') \<Longrightarrow> ns_svc st' = ns_svc st"
proof (induction lib as st arbitrary: e st' rule: start_listeners.induct)
  case (2 lib key ip port as st)
  let ?a = "next_obj st"
  let ?st1 = "st\<lparr>acc_objs := (acc_objs st)(?a \<mapsto> new_Accepter ip port), next_obj := Suc ?a\<rparr>"
  from "2.prems" obtain err st2 where st2: "StartListen lib ?a ?st1 = Done (err, st2)"
    and rest: "(if err \<noteq> E_OK then Done (err, st2)
      else start_listeners lib as (st2\<lparr>mAccepters := smap_insert key ?a (mAccepters st2)\<rparr>)) = Done (e, st')"
    by (auto simp: outcome_simps Let_def simp del: split_paired_Ex)
  from StartListen_svc [OF st2] have "ns_svc st2 = ns_svc st" by simp
  moreover have "ns_svc st' = ns_svc st2"
  proof (cases "err = E_OK")
    case True
    with "2.IH" [OF refl refl st2 refl] rest show ?thesis by simp
  qed (use rest in simp)
  ultimately show ?case by simp
qed simp

lemma StopListen_svc: "StopListen lib a st = Done (e, st') \<Longrightarrow> ns_svc st' = ns_svc st"
  by (auto simp: StopListen_def outcome_simps put_listen_def case_prod_unfold Let_def dest!: on_driver_svc)

lemma stop_listeners_svc: "stop_listeners lib as st = Done st' \<Longrightarrow> ns_svc st' = ns_svc st"
  by (induction as arbitrary: st)
    (auto simp: outcome_simps destroy_Accepter_def case_prod_unfold dest!: StopListen_svc)

lemma drop_conns_svc: "drop_conns lib cs st = Done st' \<Longrightarrow> ns_svc st' = ns_svc st"
  by (induction cs arbitrary: st) (auto simp: outcome_simps dest!: Close_conn_svc destroy_conn_svc)

lemma Net_Init_svc: "Net_Init lib st = Done (e, st') \<Longrightarrow> ns_svc st' = ns_svc st"
  by (auto simp: Net_Init_def StartListener_def outcome_simps split: if_splits option.splits
      dest!: start_listeners_svc on_driver_svc)

lemma Net_Finit_svc: "Net_Finit lib st = Done st' \<Longrightarrow> ns_svc st' = ns_svc st"
  by (auto simp: Net_Finit_def StopListener_def DropAllConnections_def outcome_simps
      dest!: stop_listeners_svc drop_conns_svc on_driver_svc)

lemma only_enqueues_net: "only_enqueues (net_service lib) st st' \<longleftrightarrow> appends st st'"
  by (simp add: only_enqueues_def appends_def)

interpretation net: logic_service_laws "net_service lib"
  by unfold_locales
    (auto simp: only_enqueues_net base_Idle_def dest: Net_Init_svc Net_Finit_svc
      intro: appends_same Net_Process_appends)

end
