(* ===== verification/NetSafety.thy ===== *)
theory NetSafety
  imports NetService
begin

text \<open>
  What holds of the network service while it runs, whatever its clients, its driver, its peers and
  the service behind it do: the table of connections, the events of the driver and the contexts
  in the queue refer to connections that exist.
\<close>

section \<open>Steps\<close>

text \<open>The driver calls the connection or acceptor that an event was registered with.\<close>

definition deliver_read :: "'b event_lib \<Rightarrow> nat \<Rightarrow> 'b netst \<Rightarrow> (err \<times> 'b netst) outcome" where
  "deliver_read lib c st = (if acc_objs st c \<noteq> None then Accepter_ReadData c st else ReadData lib c st)"

definition deliver_write :: "'b event_lib \<Rightarrow> nat \<Rightarrow> 'b netst \<Rightarrow> (err \<times> 'b netst) outcome" where
  "deliver_write lib c st = (if acc_objs st c \<noteq> None then Accepter_WriteData c st else WriteData lib c st)"

text \<open>What the other holders of contexts do to the heap: release some, and change messages and counts.\<close>

definition heap_keeps :: "('m, 'a, 's) ctx_heap \<Rightarrow> ('m, 'a, 's) ctx_heap \<Rightarrow> bool" where
  "heap_keeps h h' \<longleftrightarrow> next_ctx h \<le> next_ctx h' \<and>
     (\<forall>p < next_ctx h. \<forall>c'. ctxs h' p = Some c' \<longrightarrow> (\<exists>c. ctxs h p = Some c \<and> mType c' = mType c \<and>
        mConnID c' = mConnID c \<and> mClientSocket c' = mClientSocket c))"

text \<open>
  One step: an event, a step of the thread of the service while it is running (fewer than
  \<^term>\<open>2 ^ 64\<close> connections were made so far), a client that posts a message, one that opens a connection to a remote
  address, anything the network does, anything the service behind does. Each is taken as atomic, although the
  table of connections and the driver are not behind a lock; stopping the service is not a step.
\<close>

inductive net_step :: "'b event_lib \<Rightarrow> 'b netst \<Rightarrow> 'b netst \<Rightarrow> bool" for lib where
  readable: "net_step lib st st'"
    if "drv st = Some d" "map_of (mEventsInfo d) fd = Some i" "read_ev i \<noteq> None" "read_conn i = Some c"
      "deliver_read lib c st = Done (e, st')"
| writable: "net_step lib st st'"
    if "drv st = Some d" "map_of (mEventsInfo d) fd = Some i" "write_ev i \<noteq> None" "write_conn i = Some c"
      "deliver_write lib c st = Done (e, st')"
| service: "net_step lib st st'"
    if "mRunning (ns_svc st)" "mMaxID st < - 1" "Run_step (net_service lib) st = Done (Some st')"
| client: "net_step lib st st'"
    if "post_ctx (SetConnID cid (SetMessage (Some (next_msg st)) (new_OperContext OP_SEND)))
      (st\<lparr>msgs := (msgs st)(next_msg st \<mapsto> m), next_msg := Suc (next_msg st)\<rparr>) = Done (b, st')"
| connect: "net_step lib st st'"
    if "mMaxID st < - 1" "StartConnectRemote lib ip port cid st = Some (Done (e, cid', st'))"
| network: "net_step lib st (st\<lparr>net := w\<rparr>)"
| server: "net_step lib st (st\<lparr>srv_svc := s, ns_heap := h, msgs := ms\<rparr>)" if "heap_keeps (ns_heap st) h"

inductive net_reach :: "'b event_lib \<Rightarrow> 'b netst \<Rightarrow> 'b netst \<Rightarrow> bool" for lib st where
  start: "net_reach lib st st"
| step: "net_reach lib st st1 \<Longrightarrow> net_step lib st1 st2 \<Longrightarrow> net_reach lib st st2"

section \<open>The invariant\<close>

text \<open>A context that drops a connection is for one that is closed; one that brings a socket, for an open one.\<close>

definition ctx_ok :: "'b netst \<Rightarrow> nat \<Rightarrow> bool" where
  "ctx_ok st p \<longleftrightarrow> p < next_ctx (ns_heap st) \<and> (\<forall>ctx. ctxs (ns_heap st) p = Some ctx \<longrightarrow>
     (mType ctx = OP_DROP \<longrightarrow> mConnID ctx < mMaxID st \<and>
        (\<forall>c k. conn_objs st c = Some k \<longrightarrow> mConnID_conn k = mConnID ctx \<longrightarrow> mClosed_conn k)) \<and>
     (mType ctx = OP_ACCEPT \<longrightarrow> (\<forall>s. mClientSocket ctx = Some s \<longrightarrow> \<not> NoOK s)))"

definition owns :: "'b netst \<Rightarrow> nat \<Rightarrow> int \<Rightarrow> bool" where
  "owns st c fd \<longleftrightarrow> (\<exists>k. conn_objs st c = Some k \<and> \<not> mClosed_conn k \<and> fd_of k = fd) \<or>
     (\<exists>x s. acc_objs st c = Some x \<and> mListenSocket x = Some s \<and> mSocket s = fd)"

definition table_ok :: "'b netst \<Rightarrow> bool" where
  "table_ok st \<longleftrightarrow> smap_sorted (mConns st) \<and>
     (\<forall>cid c. map_of (mConns st) cid = Some c \<longleftrightarrow> (\<exists>k. conn_objs st c = Some k \<and> mConnID_conn k = cid)) \<and>
     (\<forall>c k. conn_objs st c = Some k \<longrightarrow> c < next_obj st \<and> mConnID_conn k < mMaxID st) \<and>
     (\<forall>a. acc_objs st a \<noteq> None \<longrightarrow> a < next_obj st \<and> conn_objs st a = None)"

definition watched_ok :: "'b netst \<Rightarrow> bool" where
  "watched_ok st \<longleftrightarrow> (\<forall>d. drv st = Some d \<longrightarrow> events_ok d \<and>
     (\<forall>fd i c. map_of (mEventsInfo d) fd = Some i \<longrightarrow> read_conn i = Some c \<or> write_conn i = Some c \<longrightarrow> owns st c fd))"

text \<open>A connection whose socket failed is closed; those in \<open>E\<close> are just being closed.\<close>

definition net_inv :: "nat set \<Rightarrow> 'b netst \<Rightarrow> bool" where
  "net_inv E st \<longleftrightarrow> table_ok st \<and> watched_ok st \<and> (\<forall>p \<in> set (pending net_queue st). ctx_ok st p) \<and>
     (\<forall>c k. conn_objs st c = Some k \<longrightarrow> c \<notin> E \<longrightarrow> NoOK (mSock k) \<longrightarrow> mClosed_conn k)"

lemmas inv_defs = net_inv_def table_ok_def watched_ok_def ctx_ok_def owns_def pending_def

lemma net_inv_unrelated [simp]:
  "net_inv E (st\<lparr>net := w\<rparr>) = net_inv E st" "net_inv E (st\<lparr>msgs := h\<rparr>) = net_inv E st"
  "net_inv E (st\<lparr>next_msg := n\<rparr>) = net_inv E st" "net_inv E (st\<lparr>srv_svc := s\<rparr>) = net_inv E st"
  "net_inv E (st\<lparr>mAccepters := a\<rparr>) = net_inv E st"
  by (simp_all add: inv_defs)

lemma ctx_ok_unrelated [simp]:
  "ctx_ok (st\<lparr>net := w\<rparr>) p = ctx_ok st p" "ctx_ok (st\<lparr>msgs := h\<rparr>) p = ctx_ok st p"
  "ctx_ok (st\<lparr>next_msg := n\<rparr>) p = ctx_ok st p" "ctx_ok (st\<lparr>srv_svc := s\<rparr>) p = ctx_ok st p"
  "ctx_ok (st\<lparr>ns_svc := t\<rparr>) p = ctx_ok st p"
  by (simp_all add: ctx_ok_def)

lemma net_inv_mono: "net_inv E st \<Longrightarrow> E \<subseteq> E' \<Longrightarrow> net_inv E' st"
  unfolding net_inv_def by blast

subsection \<open>Contexts\<close>

lemma heap_keeps_refl: "heap_keeps h h"
  by (simp add: heap_keeps_def)

lemma heap_keeps_trans:
  assumes "heap_keeps h h1" "heap_keeps h1 h2"
  shows "heap_keeps h h2"
  unfolding heap_keeps_def
proof (intro conjI allI impI)
  show "next_ctx h \<le> next_ctx h2" using assms by (simp add: heap_keeps_def)
  fix p c2
  assume p: "p < next_ctx h" and c2: "ctxs h2 p = Some c2"
  have "p < next_ctx h1" using p assms(1) by (simp add: heap_keeps_def)
  with assms(2) c2 obtain c1 where c1: "ctxs h1 p = Some c1" "mType c2 = mType c1" "mConnID c2 = mConnID c1"
    "mClientSocket c2 = mClientSocket c1" unfolding heap_keeps_def by blast
  from assms(1) p c1(1) obtain c where "ctxs h p = Some c" "mType c1 = mType c" "mConnID c1 = mConnID c"
    "mClientSocket c1 = mClientSocket c" unfolding heap_keeps_def by blast
  with c1 show "\<exists>c. ctxs h p = Some c \<and> mType c2 = mType c \<and> mConnID c2 = mConnID c \<and> mClientSocket c2 = mClientSocket c"
    by simp
qed

lemma heap_keeps_update:
  "ctxs h p = Some c \<Longrightarrow> mType c' = mType c \<Longrightarrow> mConnID c' = mConnID c \<Longrightarrow> mClientSocket c' = mClientSocket c \<Longrightarrow>
    heap_keeps h (h\<lparr>ctxs := (ctxs h)(p \<mapsto> c')\<rparr>)"
  by (auto simp: heap_keeps_def)

lemma IncRef_keeps: "IncRef p h = Done h' \<Longrightarrow> heap_keeps h h'"
  by (auto simp: IncRef_def modify_ctx_def read_ctx_Done_iff outcome_simps
      intro!: heap_keeps_update split: option.splits if_splits)

lemma DecRef_keeps: "DecRef p h = Done h' \<Longrightarrow> heap_keeps h h'"
  by (auto simp: DecRef_def read_ctx_Done_iff outcome_simps Let_def heap_keeps_def split: if_splits)

lemma modify_keeps:
  assumes "modify_ctx p f h = Done h'" "\<And>c. mType (f c) = mType c \<and> mConnID (f c) = mConnID c \<and> mClientSocket (f c) = mClientSocket c"
  shows "heap_keeps h h'"
  using assms by (auto simp: modify_ctx_def intro!: heap_keeps_update split: option.splits)

lemma alloc_keeps: "alloc_ctx c h = (p, h') \<Longrightarrow> heap_keeps h h'"
  by (auto simp: alloc_ctx_def heap_keeps_def)

lemma ctx_ok_keeps:
  assumes "ctx_ok st p" "heap_keeps (ns_heap st) (ns_heap st')" "mMaxID st' = mMaxID st" "conn_objs st' = conn_objs st"
  shows "ctx_ok st' p"
proof -
  have p: "p < next_ctx (ns_heap st)" using assms(1) by (simp add: ctx_ok_def)
  then have "p < next_ctx (ns_heap st')" using assms(2) by (simp add: heap_keeps_def)
  moreover have "\<exists>ctx. ctxs (ns_heap st) p = Some ctx \<and> mType ctx' = mType ctx \<and>
      mConnID ctx' = mConnID ctx \<and> mClientSocket ctx' = mClientSocket ctx"
    if "ctxs (ns_heap st') p = Some ctx'" for ctx' using assms(2) p that by (simp add: heap_keeps_def)
  ultimately show ?thesis using assms(1,3,4) unfolding ctx_ok_def by metis
qed

text \<open>New contents of the heap and of the queue.\<close>

lemma net_inv_heap:
  assumes inv: "net_inv E st" and h: "heap_keeps (ns_heap st) h"
    and q: "set (ctxVec s) \<union> set (mQueue s) \<subseteq> set (pending net_queue st) \<union> P"
    and P: "\<forall>p \<in> P. ctx_ok (st\<lparr>ns_heap := h\<rparr>) p"
  shows "net_inv E (st\<lparr>ns_heap := h, ns_svc := s\<rparr>)"
proof -
  have "ctx_ok (st\<lparr>ns_heap := h\<rparr>) p" if "p \<in> set (pending net_queue st)" for p
    by (rule ctx_ok_keeps [of st]) (use inv that h in \<open>simp_all add: net_inv_def\<close>)
  with q P have "\<forall>p \<in> set (ctxVec s) \<union> set (mQueue s). ctx_ok (st\<lparr>ns_heap := h, ns_svc := s\<rparr>) p"
    by (auto simp del: Un_iff)
  with inv show ?thesis by (simp add: net_inv_def table_ok_def watched_ok_def owns_def pending_def)
qed

lemma net_inv_only_heap:
  assumes "net_inv E st" "heap_keeps (ns_heap st) h"
  shows "net_inv E (st\<lparr>ns_heap := h\<rparr>)"
  using net_inv_heap [OF assms, of "ns_svc st" "{}"] by (simp add: pending_def)

lemma net_inv_svc:
  assumes "net_inv E st" "set (ctxVec s) \<union> set (mQueue s) \<subseteq> set (pending net_queue st)"
  shows "net_inv E (st\<lparr>ns_svc := s\<rparr>)"
  using net_inv_heap [OF assms(1) heap_keeps_refl, of s "{}"] assms(2) by simp

definition ctx_fits :: "'b netst \<Rightarrow> (nat, nat, tcp_socket) oper_context \<Rightarrow> bool" where
  "ctx_fits st ctx \<longleftrightarrow> (mType ctx = OP_DROP \<longrightarrow> mConnID ctx < mMaxID st \<and>
        (\<forall>c k. conn_objs st c = Some k \<longrightarrow> mConnID_conn k = mConnID ctx \<longrightarrow> mClosed_conn k)) \<and>
     (mType ctx = OP_ACCEPT \<longrightarrow> (\<forall>s. mClientSocket ctx = Some s \<longrightarrow> \<not> NoOK s))"

text \<open>The frame of a post: contexts and the own queue.\<close>

definition same_conns :: "'b netst \<Rightarrow> 'b netst \<Rightarrow> bool" where
  "same_conns st st' \<longleftrightarrow> conn_objs st' = conn_objs st \<and> acc_objs st' = acc_objs st \<and> mMaxID st' = mMaxID st \<and>
     next_obj st' = next_obj st \<and> mConns st' = mConns st \<and> drv st' = drv st"

lemma Enqueue_alloc_inv:
  assumes inv: "net_inv E st" and fits: "mRunning (ns_svc st) \<Longrightarrow> ctx_fits st ctx" and a: "alloc_ctx ctx (ns_heap st) = (p, h)"
    and enq: "Enqueue net_queue p (st\<lparr>ns_heap := h\<rparr>) = Done (b, st1)"
  shows "net_inv E st1 \<and> same_conns st st1"
proof (cases "mRunning (ns_svc st)")
  case False
  with enq have "st1 = st\<lparr>ns_heap := h\<rparr>" by (simp add: Enqueue_def)
  with net_inv_only_heap [OF inv alloc_keeps [OF a]] show ?thesis by (simp add: same_conns_def)
next
  case True
  with enq obtain h1 where h1: "IncRef p h = Done h1"
    "st1 = st\<lparr>ns_heap := h1, ns_svc := (ns_svc st)\<lparr>mQueue := mQueue (ns_svc st) @ [p]\<rparr>\<rparr>"
    by (auto simp: Enqueue_def on_heap_def on_svc_def outcome_simps)
  have p: "p = next_ctx (ns_heap st)" "ctxs h p = Some ctx" "next_ctx h = Suc p"
    using a by (auto simp: alloc_ctx_def)
  have "ctx_ok (st\<lparr>ns_heap := h\<rparr>) p" using fits [OF True] p by (simp add: ctx_ok_def ctx_fits_def)
  then have ok: "ctx_ok (st\<lparr>ns_heap := h1\<rparr>) p"
    by (rule ctx_ok_keeps) (use IncRef_keeps [OF h1(1)] in simp_all)
  have "net_inv E st1" unfolding h1(2)
    by (rule net_inv_heap [OF inv heap_keeps_trans [OF alloc_keeps [OF a] IncRef_keeps [OF h1(1)]], where P = "{p}"])
      (use ok in \<open>auto simp: pending_def\<close>)
  then show ?thesis by (simp add: h1(2) same_conns_def)
qed

lemma send_ctx_inv:
  assumes "net_inv E st" "mRunning (ns_svc st) \<Longrightarrow> ctx_fits st ctx" "send_ctx net_queue ctx st = Done (b, st')"
  shows "net_inv E st' \<and> same_conns st st'"
proof -
  obtain p h where a: "alloc_ctx ctx (ns_heap st) = (p, h)" by fastforce
  with assms(3) obtain st1 h1 where st1: "Enqueue net_queue p (st\<lparr>ns_heap := h\<rparr>) = Done (b, st1)"
    "DecRef p (ns_heap st1) = Done h1" "st' = st1\<lparr>ns_heap := h1\<rparr>"
    by (auto simp: send_ctx_def on_heap_def outcome_simps)
  from Enqueue_alloc_inv [OF assms(1) assms(2) a st1(1)] net_inv_only_heap [OF _ DecRef_keeps [OF st1(2)]] show ?thesis
    by (simp add: st1(3) same_conns_def)
qed

lemma post_ctx_inv:
  assumes "net_inv E st" "mRunning (ns_svc st) \<Longrightarrow> ctx_fits st ctx" "post_ctx ctx st = Done (b, st')"
  shows "net_inv E st' \<and> same_conns st st'"
proof -
  obtain p h where a: "alloc_ctx ctx (ns_heap st) = (p, h)" by fastforce
  with assms(3) obtain st1 st2 h1 where st1: "Enqueue net_queue p (st\<lparr>ns_heap := h\<rparr>) = Done (b, st1)"
    and st2: "(if b then Done st1 else on_heap net_queue (modify_ctx p (SetMessage None)) st1) = Done st2"
    and h1: "DecRef p (ns_heap st2) = Done h1" "st' = st2\<lparr>ns_heap := h1\<rparr>"
    by (auto simp: post_ctx_def on_heap_def outcome_simps)
  note i1 = Enqueue_alloc_inv [OF assms(1) assms(2) a st1]
  have "net_inv E st2 \<and> same_conns st st2"
  proof (cases b)
    case False
    with st2 obtain h2 where h2: "modify_ctx p (SetMessage None) (ns_heap st1) = Done h2" "st2 = st1\<lparr>ns_heap := h2\<rparr>"
      by (auto simp: on_heap_def outcome_simps)
    have "heap_keeps (ns_heap st1) h2" by (rule modify_keeps [OF h2(1)]) (simp add: SetMessage_def)
    from net_inv_only_heap [OF _ this] i1 show ?thesis by (simp add: h2(2) same_conns_def)
  qed (use st2 i1 in simp)
  with net_inv_only_heap [OF _ DecRef_keeps [OF h1(1)]] show ?thesis by (simp add: h1(2) same_conns_def)
qed

subsection \<open>Events\<close>

lemma UnRegistRWEvent_removes:
  assumes ok: "events_ok d" and run: "UnRegistRWEvent lib fd d = Done d2"
  shows "events_ok d2 \<and> map_of (mEventsInfo d2) = (map_of (mEventsInfo d))(fd := None)"
proof -
  from run obtain d1 where d1: "UnRegistReadEvent lib fd d = Done (E_OK, d1)"
    and d2: "UnRegistWriteEvent lib fd d1 = Done (E_OK, d2)"
    by (auto simp: UnRegistRWEvent_def RW_UnRegistReadEvent_def RW_UnRegistWriteEvent_def outcome_simps)
  have ok1: "events_ok d1" by (rule UnRegistReadEvent_ok [OF ok d1])
  obtain i b where i: "map_of (mEventsInfo d) fd = Some i" and b: "base_of d = Done b"
    using d1 by (cases "map_of (mEventsInfo d) fd"; cases "base_of d") (auto simp: UnRegistReadEvent_def)
  have ne: "\<not> IsInvalid (i\<lparr>read_ev := None\<rparr>)"
  proof
    assume "IsInvalid (i\<lparr>read_ev := None\<rparr>)"
    then have "map_of (mEventsInfo d1) fd = None"
      using d1 i b by (auto simp: UnRegistReadEvent_def FreeReadEvent_def map_of_delete_sorted)
    with d2 show False by (simp add: UnRegistWriteEvent_def)
  qed
  then have m1: "mEventsInfo d1 = AList.update fd (i\<lparr>read_ev := None\<rparr>) (mEventsInfo d)"
    using d1 i b by (auto simp: UnRegistReadEvent_def FreeReadEvent_def)
  then have f1: "map_of (mEventsInfo d1) = (map_of (mEventsInfo d))(fd \<mapsto> i\<lparr>read_ev := None\<rparr>)"
    by (simp add: update_conv')
  obtain b1 where "base_of d1 = Done b1"
    using d2 f1 by (cases "base_of d1") (auto simp: UnRegistWriteEvent_def)
  then have "mEventsInfo d2 = AList.delete fd (mEventsInfo d1)"
    using d2 f1 by (auto simp: UnRegistWriteEvent_def FreeWriteEvent_def IsInvalid_def)
  then show ?thesis
    using f1 UnRegistWriteEvent_ok [OF ok1 d2] by (auto simp: map_of_delete_sorted fun_eq_iff)
qed

lemma RegistReadEvent_OK:
  assumes "RegistReadEvent lib fd c d = Done (E_OK, d1)"
  shows "\<not> (\<exists>i. map_of (mEventsInfo d) fd = Some i \<and> read_ev i \<noteq> None)" "\<exists>b. mEventBase d = Some b"
proof -
  show n: "\<not> (\<exists>i. map_of (mEventsInfo d) fd = Some i \<and> read_ev i \<noteq> None)"
  proof
    assume "\<exists>i. map_of (mEventsInfo d) fd = Some i \<and> read_ev i \<noteq> None"
    then have "RegistReadEvent lib fd c d = Done (EEXIST, d)" by (auto simp: RegistReadEvent_def)
    with assms show False by simp
  qed
  show "\<exists>b. mEventBase d = Some b"
  proof (cases "mEventBase d")
    case None
    with assms n show ?thesis
      by (cases "map_of (mEventsInfo d) fd") (auto simp: RegistReadEvent_def Let_def base_of_def)
  qed simp
qed

lemma RegistRWEvent_new:
  assumes ok: "events_ok d" and run: "RegistRWEvent lib fd c d = Done d2"
  shows "events_ok d2 \<and> registered fd c d2 \<and> (\<forall>g. g \<noteq> fd \<longrightarrow> map_of (mEventsInfo d2) g = map_of (mEventsInfo d) g)"
proof -
  from run obtain d1 where d1: "RegistReadEvent lib fd c d = Done (E_OK, d1)"
    and d2: "RegistWriteEvent lib fd c d1 = Done (E_OK, d2)"
    by (auto simp: RegistRWEvent_def RW_RegistReadEvent_def RW_RegistWriteEvent_def outcome_simps)
  from RegistReadEvent_OK [OF d1] obtain b where b: "mEventBase d = Some b"
    and r: "\<not> (\<exists>i. map_of (mEventsInfo d) fd = Some i \<and> read_ev i \<noteq> None)" by blast
  have new: "map_of (mEventsInfo d) fd = None"
  proof (cases "map_of (mEventsInfo d) fd")
    case (Some i)
    with r have ri: "read_ev i = None" by simp
    with events_ok_lookup [OF ok Some] have wi: "write_ev i \<noteq> None" by (simp add: info_ok_def IsInvalid_def)
    obtain ev b1 where ev: "event_new lib fd (EV_READ OR EV_PERSIST) ReadHandler c b = (ev, b1)" by fastforce
    have "mEventsInfo d1 = AList.update fd (i\<lparr>read_ev := Some ev, read_conn := Some c\<rparr>) (mEventsInfo d)"
      using d1 Some ri b ev by (auto simp: RegistReadEvent_def base_of_def)
    then have "map_of (mEventsInfo d1) fd = Some (i\<lparr>read_ev := Some ev, read_conn := Some c\<rparr>)"
      by (simp add: update_conv')
    with d2 wi show ?thesis by (simp add: RegistWriteEvent_def)
  qed simp
  from RegistRWEvent_run [OF ok new b, of lib c] run show ?thesis by auto
qed

lemma RW_RegistReadEvent_entry:
  assumes ok: "events_ok d" and run: "RW_RegistReadEvent lib fd c d = Done d1"
  shows "events_ok d1 \<and> (\<exists>i. map_of (mEventsInfo d1) = (map_of (mEventsInfo d))(fd \<mapsto> i) \<and> read_conn i = Some c \<and>
    (write_conn i = None \<or> (\<exists>j. map_of (mEventsInfo d) fd = Some j \<and> write_conn i = write_conn j)))"
proof -
  from run have d1: "RegistReadEvent lib fd c d = Done (E_OK, d1)"
    by (auto simp: RW_RegistReadEvent_def outcome_simps)
  from RegistReadEvent_OK [OF d1] obtain b where b: "base_of d = Done b"
    and r: "\<not> (\<exists>i. map_of (mEventsInfo d) fd = Some i \<and> read_ev i \<noteq> None)"
    by (auto simp: base_of_def)
  obtain ev b1 where ev: "event_new lib fd (EV_READ OR EV_PERSIST) ReadHandler c b = (ev, b1)" by fastforce
  have s: "smap_sorted (mEventsInfo d)" using ok by (simp add: events_ok_def)
  have ok1: "events_ok d1" by (rule RegistReadEvent_ok [OF ok d1])
  show ?thesis
  proof (cases "map_of (mEventsInfo d) fd")
    case None
    then have "mEventsInfo d1 = smap_insert fd (new_EventInfo\<lparr>read_ev := Some ev, read_conn := Some c\<rparr>) (mEventsInfo d)"
      using d1 b ev by (auto simp: RegistReadEvent_def)
    then have "map_of (mEventsInfo d1) = (map_of (mEventsInfo d))(fd \<mapsto> new_EventInfo\<lparr>read_ev := Some ev, read_conn := Some c\<rparr>)"
      using map_of_smap_insert [OF s] None by (auto simp: fun_eq_iff)
    with ok1 show ?thesis by (auto simp: new_EventInfo_def)
  next
    case (Some j)
    with r have "mEventsInfo d1 = AList.update fd (j\<lparr>read_ev := Some ev, read_conn := Some c\<rparr>) (mEventsInfo d)"
      using d1 b ev by (auto simp: RegistReadEvent_def)
    then have "map_of (mEventsInfo d1) = (map_of (mEventsInfo d))(fd \<mapsto> j\<lparr>read_ev := Some ev, read_conn := Some c\<rparr>)"
      by (simp add: update_conv')
    with ok1 Some show ?thesis by auto
  qed
qed

subsection \<open>Connections\<close>

lemma net_inv_put:
  assumes inv: "net_inv E st" and c: "conn_objs st c = Some k"
    and k': "mConnID_conn k' = mConnID_conn k" "mClosed_conn k' = mClosed_conn k" "fd_of k' = fd_of k"
    and E: "E \<subseteq> insert c E'" "c \<in> E' \<or> (NoOK (mSock k') \<longrightarrow> mClosed_conn k')"
  shows "net_inv E' (put_conn c k' st)"
proof -
  have "table_ok (put_conn c k' st)"
    using inv c k'(1) unfolding net_inv_def table_ok_def put_conn_def by auto
  moreover have "owns (put_conn c k' st) x fd" if "owns st x fd" for x fd
    using that c k'(2,3) by (auto simp: owns_def put_conn_def)
  then have "watched_ok (put_conn c k' st)"
    using inv unfolding net_inv_def watched_ok_def put_conn_def by simp
  moreover have "ctx_ok (put_conn c k' st) p" if "ctx_ok st p" for p
    using that c k'(1,2) by (auto simp: ctx_ok_def put_conn_def)
  then have "\<forall>p \<in> set (pending net_queue (put_conn c k' st)). ctx_ok (put_conn c k' st) p"
    using inv by (simp add: net_inv_def pending_def put_conn_def)
  moreover have "mClosed_conn k1" if "conn_objs (put_conn c k' st) x = Some k1" "x \<notin> E'" "NoOK (mSock k1)" for x k1
  proof (cases "x = c")
    case True
    with that E(2) show ?thesis by (simp add: put_conn_def)
  next
    case False
    with that E(1) have "x \<notin> E" "conn_objs st x = Some k1" by (auto simp: put_conn_def)
    with inv that(3) show ?thesis unfolding net_inv_def by blast
  qed
  ultimately show ?thesis unfolding net_inv_def by blast
qed

lemma net_inv_driver:
  assumes "net_inv E st" "events_ok d"
    "\<And>fd i c. map_of (mEventsInfo d) fd = Some i \<Longrightarrow> read_conn i = Some c \<or> write_conn i = Some c \<Longrightarrow> owns st c fd"
  shows "net_inv E (st\<lparr>drv := Some d\<rparr>)"
  using assms by (simp add: net_inv_def table_ok_def watched_ok_def ctx_ok_def owns_def pending_def)

text \<open>Closing a connection that nobody watches.\<close>

lemma net_inv_close:
  assumes inv: "net_inv E st" and c: "conn_objs st c = Some k" and k': "mConnID_conn k' = mConnID_conn k" "mClosed_conn k'"
    and unwatched: "\<And>d fd i. drv st = Some d \<Longrightarrow> map_of (mEventsInfo d) fd = Some i \<Longrightarrow> read_conn i \<noteq> Some c \<and> write_conn i \<noteq> Some c"
    and E: "E \<subseteq> {c}"
  shows "net_inv {} (put_conn c k' st)"
proof -
  have "table_ok (put_conn c k' st)"
    using inv c k'(1) unfolding net_inv_def table_ok_def put_conn_def by auto
  moreover have "owns (put_conn c k' st) x fd" if "owns st x fd" "x \<noteq> c" for x fd
    using that by (auto simp: owns_def put_conn_def)
  then have "watched_ok (put_conn c k' st)"
    using inv unwatched unfolding net_inv_def watched_ok_def put_conn_def by (simp, blast)
  moreover have "ctx_ok (put_conn c k' st) p" if "ctx_ok st p" for p
    using that c k' by (auto simp: ctx_ok_def put_conn_def)
  then have "\<forall>p \<in> set (pending net_queue (put_conn c k' st)). ctx_ok (put_conn c k' st) p"
    using inv by (simp add: net_inv_def pending_def put_conn_def)
  moreover have "mClosed_conn k1" if "conn_objs (put_conn c k' st) x = Some k1" "NoOK (mSock k1)" for x k1
  proof (cases "x = c")
    case True
    with that k'(2) show ?thesis by (simp add: put_conn_def)
  next
    case False
    with that E have "x \<notin> E" "conn_objs st x = Some k1" by (auto simp: put_conn_def)
    with inv that(2) show ?thesis unfolding net_inv_def by blast
  qed
  ultimately show ?thesis unfolding net_inv_def by blast
qed

lemma FreeNotSendMsg_inv:
  assumes "net_inv {} st" "FreeNotSendMsg c st = Done st'"
  shows "net_inv {} st' \<and> (\<exists>k h. conn_objs st c = Some k \<and> st' = put_conn c (k\<lparr>mToSendMsg := []\<rparr>) (st\<lparr>msgs := h\<rparr>))"
proof -
  from assms(2) obtain k h where k: "conn_objs st c = Some k" "st' = put_conn c (k\<lparr>mToSendMsg := []\<rparr>) (st\<lparr>msgs := h\<rparr>)"
    by (auto simp: FreeNotSendMsg_def read_conn_obj_def outcome_simps split: option.splits)
  have "NoOK (mSock k) \<longrightarrow> mClosed_conn k" using assms(1) k(1) by (auto simp: net_inv_def)
  then have "net_inv {} (put_conn c (k\<lparr>mToSendMsg := []\<rparr>) (st\<lparr>msgs := h\<rparr>))"
    by (intro net_inv_put [where k = k and E = "{}"]) (use assms(1) k(1) in simp_all)
  with k show ?thesis by blast
qed

text \<open>What the other connections see of a call on connection \<open>c\<close>.\<close>

definition conn_call :: "nat \<Rightarrow> 'b netst \<Rightarrow> 'b netst \<Rightarrow> bool" where
  "conn_call c st st' \<longleftrightarrow> (\<exists>k k'. conn_objs st c = Some k \<and> conn_objs st' = (conn_objs st)(c \<mapsto> k') \<and>
     mConnID_conn k' = mConnID_conn k) \<and> mMaxID st' = mMaxID st \<and> mConns st' = mConns st \<and>
     acc_objs st' = acc_objs st \<and> next_obj st' = next_obj st"

lemma conn_call_refl: "conn_objs st c = Some k \<Longrightarrow> conn_call c st st"
  unfolding conn_call_def by (metis fun_upd_triv)

lemma conn_call_trans: "conn_call c st st1 \<Longrightarrow> conn_call c st1 st2 \<Longrightarrow> conn_call c st st2"
  by (auto simp: conn_call_def)

lemma conn_call_same: "conn_call c st st1 \<Longrightarrow> same_conns st1 st2 \<Longrightarrow> conn_call c st st2"
  by (auto simp: conn_call_def same_conns_def)

lemma conn_call_put: "conn_objs st c = Some k \<Longrightarrow> mConnID_conn k' = mConnID_conn k \<Longrightarrow> conn_call c st (put_conn c k' st)"
  by (auto simp: conn_call_def put_conn_def)

lemma Close_conn_inv:
  assumes inv: "net_inv {c} st" and c: "conn_objs st c = Some k" and run: "Close_conn lib c st = Done (e, st')"
  shows "net_inv {} st' \<and> conn_call c st st' \<and> (\<exists>k'. conn_objs st' c = Some k' \<and> mClosed_conn k' \<and>
    mConnID_conn k' = mConnID_conn k \<and> mCurrentRecvMsg k' = mCurrentRecvMsg k)"
proof (cases "mClosed_conn k")
  case True
  then have "st' = st" using run c by (simp add: Close_conn_def read_conn_obj_def)
  moreover have "net_inv {} (put_conn c k st)"
    by (rule net_inv_put [OF inv c]) (use True in simp_all)
  moreover have "put_conn c k st = st" using c by (simp add: put_conn_def fun_upd_idem)
  moreover have "conn_call c st st" using c by (rule conn_call_refl)
  ultimately show ?thesis using True c by auto
next
  case False
  let ?st1 = "put_conn c (k\<lparr>mClosed_conn := True\<rparr>) st"
  let ?s1 = "\<lambda>w. fst (snd (Close_sock (mSock k, w)))" and ?w1 = "\<lambda>w. snd (snd (Close_sock (mSock k, w)))"
  from run c False obtain st2 st4 where st2: "on_driver (UnRegistRWEvent lib (fd_of k)) ?st1 = Done st2"
    and st4: "FreeNotSendMsg c (put_conn c (k\<lparr>mClosed_conn := True, mSock := ?s1 (net st2)\<rparr>) (st2\<lparr>net := ?w1 (net st2)\<rparr>)) = Done st4"
    and st': "st' = st4"
    by (auto simp: Close_conn_def read_conn_obj_def GetFd_def case_prod_unfold Let_def outcome_simps)
  from st2 obtain d d1 where d: "drv st = Some d" "UnRegistRWEvent lib (fd_of k) d = Done d1" "st2 = ?st1\<lparr>drv := Some d1\<rparr>"
    by (auto simp: on_driver_def put_conn_def outcome_simps split: option.splits)
  have w: "events_ok d" "\<And>fd i x. map_of (mEventsInfo d) fd = Some i \<Longrightarrow>
      read_conn i = Some x \<or> write_conn i = Some x \<Longrightarrow> owns st x fd"
    using inv d(1) unfolding net_inv_def watched_ok_def by auto
  from UnRegistRWEvent_removes [OF w(1) d(2)] have d1: "events_ok d1"
    "map_of (mEventsInfo d1) = (map_of (mEventsInfo d))(fd_of k := None)" by blast+
  let ?st = "st\<lparr>drv := Some d1, net := ?w1 (net st2)\<rparr>"
  have i1: "net_inv {c} ?st"
  proof -
    have "net_inv {c} (st\<lparr>drv := Some d1\<rparr>)"
    proof (rule net_inv_driver [OF inv d1(1)])
      fix fd i x
      assume "map_of (mEventsInfo d1) fd = Some i" and x: "read_conn i = Some x \<or> write_conn i = Some x"
      then have "map_of (mEventsInfo d) fd = Some i" using d1(2) by (simp split: if_splits)
      then show "owns st x fd" using x by (rule w(2))
    qed
    then show ?thesis by simp
  qed
  have acc: "acc_objs st c = None" using inv c by (auto simp: net_inv_def table_ok_def)
  let ?k = "k\<lparr>mClosed_conn := True, mSock := ?s1 (net st2)\<rparr>"
  have un: "read_conn i \<noteq> Some c \<and> write_conn i \<noteq> Some c" if "map_of (mEventsInfo d1) fd = Some i" for fd i
  proof (rule ccontr)
    assume "\<not> (read_conn i \<noteq> Some c \<and> write_conn i \<noteq> Some c)"
    moreover from that d1(2) have "map_of (mEventsInfo d) fd = Some i" "fd \<noteq> fd_of k" by (auto split: if_splits)
    ultimately have "owns st c fd" using w(2) by blast
    with c acc \<open>fd \<noteq> fd_of k\<close> show False by (simp add: owns_def)
  qed
  have i2: "net_inv {} (put_conn c ?k ?st)"
    by (rule net_inv_close [OF i1, where k = k]) (use c un in simp_all)
  have eq: "put_conn c ?k (st2\<lparr>net := ?w1 (net st2)\<rparr>) = put_conn c ?k ?st" by (simp add: d(3) put_conn_def)
  from FreeNotSendMsg_inv [OF i2 st4 [unfolded eq]] obtain h where
    i3: "net_inv {} st4" "st4 = put_conn c (?k\<lparr>mToSendMsg := []\<rparr>) ((put_conn c ?k ?st)\<lparr>msgs := h\<rparr>)"
    by (auto simp: put_conn_def)
  then show ?thesis using c st' by (auto simp: put_conn_def conn_call_def)
qed

lemma post_ctx_running:
  assumes "post_ctx ctx st = Done (b, st')"
  shows "b = mRunning (ns_svc st) \<and> mRunning (ns_svc st') = mRunning (ns_svc st)"
proof -
  obtain p h where a: "alloc_ctx ctx (ns_heap st) = (p, h)" by fastforce
  with assms obtain st1 st2 h1 where st1: "Enqueue net_queue p (st\<lparr>ns_heap := h\<rparr>) = Done (b, st1)"
    and st2: "(if b then Done st1 else on_heap net_queue (modify_ctx p (SetMessage None)) st1) = Done st2"
    and h1: "st' = st2\<lparr>ns_heap := h1\<rparr>"
    by (auto simp: post_ctx_def on_heap_def outcome_simps)
  have "b = mRunning (ns_svc st) \<and> mRunning (ns_svc st1) = mRunning (ns_svc st)"
    using st1 by (cases "mRunning (ns_svc st)") (auto simp: Enqueue_def on_heap_def on_svc_def outcome_simps)
  moreover have "ns_svc st2 = ns_svc st1" using st2 by (cases b) (auto simp: on_heap_def outcome_simps)
  ultimately show ?thesis using h1 by simp
qed

definition conn_closed :: "nat \<Rightarrow> 'b netst \<Rightarrow> bool" where
  "conn_closed c st \<longleftrightarrow> (\<exists>k. conn_objs st c = Some k \<and> mClosed_conn k)"

lemma drop_fits:
  assumes "net_inv E st" "conn_objs st c = Some k" "mClosed_conn k"
  shows "ctx_fits st (SetConnID (mConnID_conn k) (new_OperContext OP_DROP))"
proof -
  have t: "table_ok st" using assms(1) by (simp add: net_inv_def)
  then have m: "mConnID_conn k < mMaxID st" "map_of (mConns st) (mConnID_conn k) = Some c"
    using assms(2) unfolding table_ok_def by blast+
  have "mClosed_conn k1" if "conn_objs st c1 = Some k1" "mConnID_conn k1 = mConnID_conn k" for c1 k1
  proof -
    have "map_of (mConns st) (mConnID_conn k) = Some c1" using t that unfolding table_ok_def by blast
    with m(2) assms(2,3) that(1) show ?thesis by simp
  qed
  with m(1) show ?thesis by (auto simp: ctx_fits_def SetConnID_def new_OperContext_def)
qed

subsection \<open>ReadData\<close>

lemma PreRecv_sock:
  assumes "PreRecv len (s, w) = Done (e, n, s1, w1)"
  shows "mSocket s1 = mSocket s \<and> (e = E_OK \<longrightarrow> NoOK s1 = NoOK s)"
proof (cases "NoOK s \<or> mPreRecv s")
  case True
  with assms show ?thesis by (auto simp: PreRecv_def split: if_splits)
next
  case False
  have "NoOK (s\<lparr>mPreRecv := True\<rparr>) = NoOK s" by (simp add: NoOK_def)
  with assms False show ?thesis
    by (cases "recv_loop (mSocket s) 4 w") (auto simp: PreRecv_def RecvAll_def outcome_simps split: if_splits)
qed

lemma Recv_sock:
  assumes "Recv n r (s, w) = (e, x, d, s1, w1)"
  shows "mSocket s1 = mSocket s \<and> (e = E_OK \<longrightarrow> s1 = s)"
  using assms by (auto simp: Recv_def split: if_splits prod.splits sum.splits)

lemma Send_sock:
  assumes "Send buf x (s, w) = (e, n, s1, w1)"
  shows "mSocket s1 = mSocket s \<and> (e = E_OK \<longrightarrow> NoOK s1 = NoOK s)"
  using assms by (auto simp: Send_def NoOK_def split: if_splits prod.splits sum.splits)

lemma sock_open: "net_inv {} st \<Longrightarrow> conn_objs st c = Some k \<Longrightarrow> NoOK (mSock k) \<Longrightarrow> mClosed_conn k"
  by (auto simp: net_inv_def)

lemma read_head_inv:
  assumes inv: "net_inv {} st" and c: "conn_objs st c = Some k" and ok: "\<not> NoOK (mSock k)"
    and run: "read_head lib c st = Done (e, go, st')"
  shows "net_inv {} st' \<and> conn_call c st st' \<and> (go \<longrightarrow> e = E_OK) \<and> (e \<noteq> E_OK \<longrightarrow> conn_closed c st')"
proof (cases "mPreRecv (mSock k)")
  case True
  then show ?thesis
    using run c inv by (auto simp: read_head_def read_conn_obj_def HasPreRecv_def intro: conn_call_refl)
next
  case False
  from run c False obtain err len s1 w1 where p: "PreRecv 0 (mSock k, net st) = Done (err, len, s1, w1)"
    by (auto simp: read_head_def read_conn_obj_def HasPreRecv_def outcome_simps simp del: split_paired_Ex)
  let ?k1 = "k\<lparr>mSock := s1\<rparr>"
  let ?st1 = "put_conn c ?k1 (st\<lparr>net := w1\<rparr>)"
  note sk = PreRecv_sock [OF p]
  have i1: "net_inv {c} ?st1" by (rule net_inv_put [where k = k and E = "{}"]) (use inv c sk in simp_all)
  have cc: "conn_call c st ?st1" using c by (auto simp: conn_call_def put_conn_def)
  have c1: "conn_objs ?st1 c = Some ?k1" by (simp add: put_conn_def)
  show ?thesis
  proof (cases "err \<noteq> E_OK \<or> unat len < 4")
    case True
    with run c False p obtain e1 st2 where st2: "Close_conn lib c ?st1 = Done (e1, st2)" "e = err" "\<not> go" "st' = st2"
      by (auto simp: read_head_def read_conn_obj_def HasPreRecv_def outcome_simps)
    from Close_conn_inv [OF i1 c1 st2(1)] st2 conn_call_trans [OF cc] show ?thesis
      by (auto simp: conn_closed_def)
  next
    case len: False
    with run c False p obtain m1 where m1: "e = E_OK" "go" and st': "st' = put_conn c (?k1\<lparr>mCurrentRecvMsg := Some (next_msg st),
        mRecved := 4, mToRecv := len + of_nat HEAD_LENGTH\<rparr>)
        (?st1\<lparr>msgs := (msgs ?st1)(next_msg st \<mapsto> m1), next_msg := Suc (next_msg st)\<rparr>)"
      by (auto simp: read_head_def read_conn_obj_def HasPreRecv_def outcome_simps Let_def put_conn_def)
    have "net_inv {} st'" unfolding st'
      by (rule net_inv_put [where k = ?k1 and E = "{c}"]) (use i1 c1 sk ok len in simp_all)
    with m1 cc c show ?thesis by (auto simp: st' conn_call_def put_conn_def)
  qed
qed

lemma read_body_inv:
  assumes inv: "net_inv {} st" and run: "read_body lib c st = Done (e, st')"
  shows "net_inv {} st' \<and> conn_call c st st' \<and> (e \<noteq> E_OK \<longrightarrow> conn_closed c st')"
proof -
  from run obtain k p m where c: "conn_objs st c = Some k" and p: "mCurrentRecvMsg k = Some p" "msgs st p = Some m"
    by (auto simp: read_body_def read_conn_obj_def read_msg_def outcome_simps split: option.splits)
  obtain err recved d s1 w1 where r: "Recv (unat (mToRecv k - mRecved k)) 0 (mSock k, net st) = (err, recved, d, s1, w1)"
    by (metis prod_cases5)
  with run c p obtain buf where buf: "store_cells (unat (mRecved k)) d (mData m) = Done buf"
    by (auto simp: read_body_def read_conn_obj_def read_msg_def GetBuffer_def outcome_simps)
  let ?k1 = "k\<lparr>mSock := s1\<rparr>"
  let ?st0 = "st\<lparr>net := w1, msgs := (msgs st)(p \<mapsto> m\<lparr>mData := buf\<rparr>)\<rparr>"
  let ?st1 = "put_conn c ?k1 ?st0"
  note sk = Recv_sock [OF r]
  have c1: "conn_objs ?st1 c = Some ?k1" by (simp add: put_conn_def)
  have cc: "conn_call c st ?st1" using c by (auto simp: conn_call_def put_conn_def)
  show ?thesis
  proof (cases "err = E_OK")
    case False
    with run c p r buf obtain e1 st2 where st2: "Close_conn lib c ?st1 = Done (e1, st2)" "e = err" "st' = st2"
      by (auto simp: read_body_def read_conn_obj_def read_msg_def GetBuffer_def outcome_simps)
    have i1: "net_inv {c} ?st1" by (rule net_inv_put [where k = k and E = "{}"]) (use inv c sk in simp_all)
    from Close_conn_inv [OF i1 c1 st2(1)] st2 conn_call_trans [OF cc] show ?thesis
      by (auto simp: conn_closed_def)
  next
    case True
    with run c p r buf have st': "e = E_OK" "st' = put_conn c (?k1\<lparr>mRecved := mRecved k + recved\<rparr>) ?st1"
      by (simp_all add: read_body_def read_conn_obj_def read_msg_def GetBuffer_def Let_def)
    have "st' = put_conn c (?k1\<lparr>mRecved := mRecved k + recved\<rparr>) ?st0" by (simp add: st'(2) put_conn_def)
    moreover have "net_inv {} (put_conn c (?k1\<lparr>mRecved := mRecved k + recved\<rparr>) ?st0)"
      by (rule net_inv_put [where k = k and E = "{}"]) (use inv c sk True sock_open [OF inv c] in simp_all)
    ultimately show ?thesis using st'(1) cc c by (auto simp: conn_call_def put_conn_def)
  qed
qed

lemma ResetRecv_inv:
  assumes "net_inv {} st" "conn_objs st c = Some k"
  shows "net_inv {} (put_conn c (ResetRecv k) st)" "conn_call c st (put_conn c (ResetRecv k) st)"
proof -
  have "NoOK (mSock (ResetRecv k)) = NoOK (mSock k)" by (simp add: ResetRecv_def SetPreRecv_def NoOK_def)
  then show "net_inv {} (put_conn c (ResetRecv k) st)"
    using sock_open [OF assms]
    by (intro net_inv_put [OF assms]) (simp_all add: ResetRecv_def SetPreRecv_def)
  show "conn_call c st (put_conn c (ResetRecv k) st)"
    using assms(2) by (intro conn_call_put) (simp_all add: ResetRecv_def)
qed

lemma same_conns_call: "conn_objs st c = Some k \<Longrightarrow> same_conns st st' \<Longrightarrow> conn_call c st st'"
  by (rule conn_call_same [OF conn_call_refl])

lemma read_done_inv:
  assumes inv: "net_inv {} st" and run: "read_done c e st = Done (e1, st')"
    and e: "e \<noteq> E_OK \<longrightarrow> conn_closed c st"
  shows "net_inv {} st' \<and> conn_call c st st' \<and> (e1 \<noteq> E_OK \<longrightarrow> conn_closed c st' \<or> \<not> mRunning (ns_svc st'))"
proof -
  from run obtain k where c: "conn_objs st c = Some k"
    by (auto simp: read_done_def read_conn_obj_def outcome_simps split: option.splits)
  show ?thesis
  proof (cases "mRecved k = mToRecv k \<and> unat (mRecved k) > 4")
    case False
    with run c have "e1 = e" "st' = st" by (auto simp: read_done_def read_conn_obj_def)
    with inv e c show ?thesis by (auto intro: conn_call_refl)
  next
    case True
    with run c obtain port b st1 where
      p: "post_ctx (SetDest (GetClientIP k) port (SetConnID (mConnID_conn k)
             (SetMessage (mCurrentRecvMsg k) (new_OperContext OP_RECV)))) st = Done (b, st1)"
      and st': "e1 = (if b then e else EINVAL)" "st' = put_conn c (ResetRecv k) st1"
      by (auto simp: read_done_def read_conn_obj_def Let_def outcome_simps)
    have i1: "net_inv {} st1" "same_conns st st1"
      using post_ctx_inv [OF inv _ p] by (simp_all add: ctx_fits_def ctx_ops new_OperContext_def)
    have c1: "conn_objs st1 c = Some k" using i1(2) c by (simp add: same_conns_def)
    note r = ResetRecv_inv [OF i1(1) c1]
    have "mClosed_conn (ResetRecv k) = mClosed_conn k" by (simp add: ResetRecv_def)
    moreover have "mRunning (ns_svc st') = b" using post_ctx_running [OF p] st'(2) by (simp add: put_conn_def)
    ultimately have "e1 \<noteq> E_OK \<longrightarrow> conn_closed c st' \<or> \<not> mRunning (ns_svc st')"
      using e st' c by (auto simp: conn_closed_def put_conn_def)
    then show ?thesis
      using r conn_call_trans [OF same_conns_call [OF c i1(2)]] by (simp add: st'(2))
  qed
qed

lemma read_failed_inv:
  assumes inv: "net_inv {} st" and run: "read_failed c e st = Done st'" and c: "conn_objs st c = Some k"
    and e: "e \<noteq> E_OK \<longrightarrow> conn_closed c st \<or> \<not> mRunning (ns_svc st)"
  shows "net_inv {} st' \<and> conn_call c st st'"
proof (cases "e = E_OK")
  case True
  with run inv c show ?thesis by (auto simp: read_failed_def intro: conn_call_refl)
next
  case False
  with run c obtain h b where
    s: "send_ctx net_queue (SetConnID (mConnID_conn k) (new_OperContext OP_DROP))
      (put_conn c (ResetRecv k) (st\<lparr>msgs := h\<rparr>)) = Done (b, st')"
    by (auto simp: read_failed_def read_conn_obj_def Let_def outcome_simps)
  let ?st1 = "put_conn c (ResetRecv k) (st\<lparr>msgs := h\<rparr>)"
  have r: "net_inv {} ?st1" "conn_call c st ?st1"
    using ResetRecv_inv [of "st\<lparr>msgs := h\<rparr>" c k] inv c by (simp_all add: conn_call_def)
  have c1: "conn_objs ?st1 c = Some (ResetRecv k)" by (simp add: put_conn_def)
  have "ctx_fits ?st1 (SetConnID (mConnID_conn k) (new_OperContext OP_DROP))" if "mRunning (ns_svc ?st1)"
  proof -
    have "mClosed_conn (ResetRecv k)" using e False that c by (auto simp: conn_closed_def put_conn_def ResetRecv_def)
    from drop_fits [OF r(1) c1 this] show ?thesis by (simp add: ResetRecv_def)
  qed
  from send_ctx_inv [OF r(1) this s] conn_call_same [OF r(2)] show ?thesis by blast
qed

lemma ReadData_inv:
  assumes inv: "net_inv {} st" and run: "ReadData lib c st = Done (e, st')"
  shows "net_inv {} st' \<and> conn_call c st st'"
proof -
  from run obtain k where c: "conn_objs st c = Some k"
    by (auto simp: ReadData_def read_conn_obj_def outcome_simps split: option.splits)
  from run c obtain e1 st1 e2 st2 where
    body: "(if NoOK (mSock k) then Done (EINVAL, st) else obind (read_head lib c st) (\<lambda>(err, go, st1).
              if go then read_body lib c st1 else Done (err, st1))) = Done (e1, st1)"
    and rest: "read_done c e1 st1 = Done (e2, st2)" "read_failed c e2 st2 = Done st'"
    by (auto simp: ReadData_def read_conn_obj_def outcome_simps simp del: split_paired_Ex)
  have b: "net_inv {} st1 \<and> conn_call c st st1 \<and> (e1 \<noteq> E_OK \<longrightarrow> conn_closed c st1)"
  proof (cases "NoOK (mSock k)")
    case True
    with body inv c sock_open [OF inv c] show ?thesis by (auto simp: conn_closed_def intro: conn_call_refl)
  next
    case False
    with body obtain err go sth where h: "read_head lib c st = Done (err, go, sth)"
      and bd: "(if go then read_body lib c sth else Done (err, sth)) = Done (e1, st1)"
      by (auto simp: outcome_simps simp del: split_paired_Ex)
    note i = read_head_inv [OF inv c False h]
    show ?thesis
    proof (cases go)
      case True
      with bd have "read_body lib c sth = Done (e1, st1)" by simp
      from read_body_inv [OF _ this] i show ?thesis by (blast intro: conn_call_trans)
    qed (use bd i in auto)
  qed
  from read_done_inv [OF _ rest(1)] b have d: "net_inv {} st2" "conn_call c st1 st2"
    "e2 \<noteq> E_OK \<longrightarrow> conn_closed c st2 \<or> \<not> mRunning (ns_svc st2)" by blast+
  then obtain k2 where "conn_objs st2 c = Some k2" by (auto simp: conn_call_def)
  from read_failed_inv [OF d(1) rest(2) this d(3)] b d(2) show ?thesis by (blast intro: conn_call_trans)
qed

subsection \<open>WriteData\<close>

lemma InitNextSend_inv:
  assumes inv: "net_inv {} st" and c: "conn_objs st c = Some k" and run: "InitNextSend c st = Done (b, st')"
  shows "net_inv {} st' \<and> conn_call c st st'"
proof (cases "mToSendMsg k")
  case Nil
  with run c inv show ?thesis by (auto simp: InitNextSend_def read_conn_obj_def intro: conn_call_refl)
next
  case (Cons p ps)
  with run c obtain m where st': "st' = put_conn c (k\<lparr>mCurrentSendMsg := Some p, mToSend := sint (GetTotalLen m), mSent := 0\<rparr>) st"
    by (auto simp: InitNextSend_def read_conn_obj_def outcome_simps)
  show ?thesis unfolding st'
    by (intro conjI net_inv_put [OF inv c] conn_call_put [OF c]) (use sock_open [OF inv c] in simp_all)
qed

lemma send_some_inv:
  assumes inv: "net_inv {} st" and run: "send_some lib c st = Done (e, st')"
  shows "net_inv {} st' \<and> conn_call c st st'"
proof -
  from run obtain k p m buf where c: "conn_objs st c = Some k" and p: "mCurrentSendMsg k = Some p" "msgs st p = Some m"
    and buf: "buffer_at (mSent k) (mToSend k) (mData m) = Done buf"
    by (auto simp: send_some_def read_conn_obj_def read_msg_def GetBuffer_def outcome_simps split: option.splits)
  obtain err sent s1 w1 where s: "Send buf 0 (mSock k, net st) = (err, sent, s1, w1)" by (metis prod_cases4)
  note sk = Send_sock [OF s]
  let ?k1 = "k\<lparr>mSock := s1\<rparr>" and ?st0 = "st\<lparr>net := w1\<rparr>"
  have i0: "net_inv {} ?st0" "conn_objs ?st0 c = Some k" using inv c by simp_all
  have cc: "conn_call c st (put_conn c k2 (st\<lparr>net := w1, msgs := h\<rparr>))"
    "conn_call c st (put_conn c k2 ?st0)" if "mConnID_conn k2 = mConnID_conn k" for k2 h
    using c that by (auto simp: conn_call_def put_conn_def)
  show ?thesis
  proof (cases "err = E_OK")
    case False
    let ?k2 = "ResetSend ?k1" and ?ctx = "SetConnID (mConnID_conn k) (new_OperContext OP_DROP)"
    from run c p buf s False obtain e1 st2 b where
      st2: "Close_conn lib c (put_conn c ?k2 ?st0) = Done (e1, st2)" "send_ctx net_queue ?ctx st2 = Done (b, st')"
      by (auto simp: send_some_def read_conn_obj_def read_msg_def GetBuffer_def outcome_simps)
    have i1: "net_inv {c} (put_conn c ?k2 ?st0)"
      by (rule net_inv_put [OF i0]) (use sk in \<open>simp_all add: ResetSend_def\<close>)
    have "conn_objs (put_conn c ?k2 ?st0) c = Some ?k2" by (simp add: put_conn_def)
    from Close_conn_inv [OF i1 this st2(1)] obtain k' where i2: "net_inv {} st2"
      "conn_call c (put_conn c ?k2 ?st0) st2" "conn_objs st2 c = Some k'" "mClosed_conn k'" "mConnID_conn k' = mConnID_conn k"
      by (auto simp: ResetSend_def)
    from drop_fits [OF i2(1,3,4)] i2(5) have "ctx_fits st2 ?ctx" by simp
    from send_ctx_inv [OF i2(1) this st2(2)] conn_call_same [OF conn_call_trans [OF cc(2) i2(2)]]
    show ?thesis by (simp add: ResetSend_def)
  next
    case ok: True
    let ?k2 = "?k1\<lparr>mSent := mSent k + sent, mToSend := mToSend k - sent\<rparr>"
    show ?thesis
    proof (cases "mToSend k - sent = 0")
      case True
      with run c p buf s ok obtain h where
        st': "st' = put_conn c (ResetSend (?k2\<lparr>mToSendMsg := tl (mToSendMsg k)\<rparr>)) (st\<lparr>net := w1, msgs := h\<rparr>)"
        by (auto simp: send_some_def read_conn_obj_def read_msg_def GetBuffer_def outcome_simps Let_def)
      have "net_inv {} st'" unfolding st'
        by (rule net_inv_put [where k = k and E = "{}"])
          (use inv c sk ok sock_open [OF inv c] in \<open>simp_all add: ResetSend_def\<close>)
      then show ?thesis using cc(1) unfolding st' by (simp add: ResetSend_def)
    next
      case False
      with run c p buf s ok have st': "st' = put_conn c ?k2 ?st0"
        by (simp add: send_some_def read_conn_obj_def read_msg_def GetBuffer_def Let_def)
      have "net_inv {} st'" unfolding st'
        by (rule net_inv_put [OF i0]) (use sk ok sock_open [OF inv c] in simp_all)
      then show ?thesis using cc(2) unfolding st' by simp
    qed
  qed
qed

lemma WriteData_inv:
  assumes inv: "net_inv {} st" and run: "WriteData lib c st = Done (e, st')"
  shows "net_inv {} st' \<and> conn_call c st st'"
proof -
  from run obtain k where c: "conn_objs st c = Some k"
    by (auto simp: WriteData_def read_conn_obj_def outcome_simps split: option.splits)
  show ?thesis
  proof (cases "mClosed_conn k \<or> NoOK (mSock k)")
    case True
    with run c inv show ?thesis by (auto simp: WriteData_def read_conn_obj_def intro: conn_call_refl)
  next
    case False
    with run c obtain has st1 where
      i: "(if mCurrentSendMsg k = None then InitNextSend c st else Done (True, st)) = Done (has, st1)"
      and s: "(if has then send_some lib c st1 else Done (E_OK, st1)) = Done (e, st')"
      by (auto simp: WriteData_def read_conn_obj_def outcome_simps simp del: split_paired_Ex)
    have i1: "net_inv {} st1 \<and> conn_call c st st1"
    proof (cases "mCurrentSendMsg k = None")
      case True
      with i InitNextSend_inv [OF inv c] show ?thesis by simp
    qed (use i inv c conn_call_refl in auto)
    show ?thesis
    proof (cases has)
      case True
      with s have "send_some lib c st1 = Done (e, st')" by simp
      from send_some_inv [OF _ this] i1 show ?thesis by (blast intro: conn_call_trans)
    qed (use s i1 in simp)
  qed
qed

subsection \<open>New connections and acceptors\<close>

lemma next_id_greater: "(m :: u64) < - 1 \<Longrightarrow> m < m + 1"
proof -
  assume "m < - 1"
  then have "m \<noteq> - 1" by auto
  then have "m + 1 \<noteq> 0" by (metis add.inverse_unique add.commute)
  then have "unat (m + 1) = Suc (unat m)" by (simp add: unatSuc add.commute)
  then show ?thesis by (simp add: word_less_nat_alt)
qed

lemma add_conn_inv:
  assumes inv: "net_inv {} st" and s: "\<not> NoOK s" and max: "mMaxID st < - 1" and run: "add_conn lib s st = Done st'"
  shows "net_inv {} st'"
proof -
  let ?c = "next_obj st" and ?id = "mMaxID st"
  let ?k = "new_TcpConnection s ?id"
  let ?st1 = "st\<lparr>mMaxID := ?id + 1, next_obj := Suc ?c, conn_objs := (conn_objs st)(?c \<mapsto> ?k),
    mConns := smap_insert ?id ?c (mConns st)\<rparr>"
  from run obtain d d1 where new: "map_of (mConns st) ?id = None" and d: "drv st = Some d"
    and d1: "RegistRWEvent lib (mSocket s) ?c d = Done d1" and st': "st' = ?st1\<lparr>drv := Some d1\<rparr>"
    by (auto simp: add_conn_def on_driver_def GetFd_def Let_def outcome_simps split: option.splits)
  have t: "table_ok st" and w: "watched_ok st" using inv by (simp_all add: net_inv_def)
  have fresh: "conn_objs st ?c = None" "acc_objs st ?c = None"
    using t unfolding table_ok_def by (metis less_irrefl not_None_eq)+
  have lt: "mMaxID st < mMaxID st + 1" using max by (rule next_id_greater)
  have less: "i < mMaxID st + 1" if "i < mMaxID st" for i using that lt by simp
  have sorted: "smap_sorted (mConns st)" using t by (simp add: table_ok_def)
  have no: "conn_objs st x = Some k \<longrightarrow> mConnID_conn k \<noteq> mMaxID st" for x k
  proof
    assume "conn_objs st x = Some k"
    with t have "mConnID_conn k < mMaxID st" unfolding table_ok_def by blast
    then show "mConnID_conn k \<noteq> mMaxID st" by simp
  qed
  have c1: "smap_sorted (mConns st')" using smap_sorted_insert [OF sorted] by (simp add: st')
  have c2: "map_of (mConns st') cid = Some c \<longleftrightarrow> (\<exists>k. conn_objs st' c = Some k \<and> mConnID_conn k = cid)" for cid c
    using t new fresh(1) no unfolding table_ok_def
    by (auto simp: st' map_of_smap_insert [OF sorted] new_TcpConnection_def)
  have c3: "c < next_obj st' \<and> mConnID_conn k < mMaxID st'" if "conn_objs st' c = Some k" for c k
  proof (cases "c = ?c")
    case True
    with that lt show ?thesis by (auto simp: st' new_TcpConnection_def)
  next
    case False
    with that have "conn_objs st c = Some k" by (simp add: st')
    with t have "c < next_obj st" "mConnID_conn k < mMaxID st" unfolding table_ok_def by blast+
    with less show ?thesis by (simp add: st')
  qed
  have c4: "a < next_obj st' \<and> conn_objs st' a = None" if a: "acc_objs st' a \<noteq> None" for a
  proof -
    have a': "acc_objs st a \<noteq> None" using a by (simp add: st')
    with t have "a < next_obj st" "conn_objs st a = None" unfolding table_ok_def by blast+
    then show ?thesis by (simp add: st')
  qed
  have "table_ok st'" unfolding table_ok_def using c1 c2 c3 c4 by blast
  moreover have "watched_ok st'"
  proof -
    have ok: "events_ok d" and old: "\<And>fd i x. map_of (mEventsInfo d) fd = Some i \<Longrightarrow>
        read_conn i = Some x \<or> write_conn i = Some x \<Longrightarrow> owns st x fd"
      using w d unfolding watched_ok_def by auto
    from RegistRWEvent_new [OF ok d1] have d1': "events_ok d1" "registered (mSocket s) ?c d1"
      "\<forall>g. g \<noteq> mSocket s \<longrightarrow> map_of (mEventsInfo d1) g = map_of (mEventsInfo d) g" by blast+
    have "owns st' x fd" if i: "map_of (mEventsInfo d1) fd = Some i" "read_conn i = Some x \<or> write_conn i = Some x" for fd i x
    proof (cases "fd = mSocket s")
      case True
      with i d1'(2) have "x = ?c" by (auto simp: registered_def)
      with True show ?thesis by (simp add: owns_def st' new_TcpConnection_def)
    next
      case False
      with i d1'(3) old have "owns st x fd" by simp
      then show ?thesis using fresh by (auto simp: owns_def st')
    qed
    with d1'(1) show ?thesis by (simp add: watched_ok_def st')
  qed
  moreover have "ctx_ok st' p" if p: "ctx_ok st p" for p
    using p less unfolding ctx_ok_def by (auto simp: st' new_TcpConnection_def)
  then have "\<forall>p \<in> set (pending net_queue st'). ctx_ok st' p"
    using inv by (simp add: net_inv_def pending_def st')
  moreover have "NoOK (mSock k) \<longrightarrow> mClosed_conn k" if "conn_objs st' c = Some k" for c k
    using that inv s by (auto simp: st' net_inv_def new_TcpConnection_def split: if_splits)
  ultimately show ?thesis by (simp add: net_inv_def)
qed

lemma Accept_open:
  assumes "Accept (s, w) = (e, r, s1, w1)"
  shows "s1 = s"
  using assms by (auto simp: Accept_def Let_def split: prod.splits if_splits list.splits)

lemma Create_open:
  assumes "Create fd (new_TcpSocket, w) = (E_OK, s1, w1)"
  shows "\<not> NoOK s1"
  using assms by (auto simp: Create_def NoOK_def new_TcpSocket_def Let_def split: prod.splits if_splits)

lemma Connect_open:
  assumes "Connect ip port (s, w) = Some (E_OK, s2, w2)" "\<not> NoOK s"
  shows "\<not> NoOK s2"
  using assms by (auto simp: Connect_def NoOK_def Let_def split: prod.splits if_splits)

lemma net_inv_listen:
  assumes inv: "net_inv E st" and a: "acc_objs st a = Some x" "x' = x\<lparr>mListenSocket := Some s\<rparr>"
    and fd: "\<And>s0. mListenSocket x = Some s0 \<Longrightarrow> mSocket s0 = mSocket s"
  shows "net_inv E (st\<lparr>acc_objs := (acc_objs st)(a \<mapsto> x')\<rparr>)"
proof -
  let ?st = "st\<lparr>acc_objs := (acc_objs st)(a \<mapsto> x')\<rparr>"
  have "owns ?st c f" if "owns st c f" for c f
    using that a fd by (auto simp: owns_def)
  then have "watched_ok ?st" using inv unfolding net_inv_def watched_ok_def by simp
  moreover have "table_ok ?st" using inv a(1) unfolding net_inv_def table_ok_def by auto
  ultimately show ?thesis using inv by (simp add: net_inv_def pending_def ctx_ok_def)
qed

lemma Accepter_ReadData_inv:
  assumes inv: "net_inv {} st" and run: "Accepter_ReadData a st = Done (e, st')"
  shows "net_inv {} st'"
proof -
  from run obtain x s where x: "acc_objs st a = Some x" "mListenSocket x = Some s"
    by (auto simp: Accepter_ReadData_def read_acc_def listen_socket_def outcome_simps split: option.splits)
  obtain err client s1 w1 where acc: "Accept (s, net st) = (err, client, s1, w1)" by (metis prod_cases4)
  let ?st1 = "put_listen a x (s1, w1) st"
  have "net_inv {} (st\<lparr>acc_objs := (acc_objs st)(a \<mapsto> x\<lparr>mListenSocket := Some s1\<rparr>)\<rparr>)"
    by (rule net_inv_listen [OF inv x(1) refl]) (use x(2) Accept_open [OF acc] in simp)
  then have i1: "net_inv {} ?st1" by (simp add: put_listen_def)
  show ?thesis
  proof (cases client)
    case None
    with run x acc i1 show ?thesis
      by (simp add: Accepter_ReadData_def read_acc_def listen_socket_def)
  next
    case (Some c)
    obtain fd ip port where c: "c = (fd, ip, port)" by (metis prod_cases3)
    obtain err2 s2 w2 where cr: "Create fd (new_TcpSocket, net ?st1) = (err2, s2, w2)" by (metis prod_cases3)
    have i2: "net_inv {} (?st1\<lparr>net := w2\<rparr>)" using i1 by simp
    show ?thesis
    proof (cases "err2 = E_OK")
      case False
      with run x acc i2 Some c cr show ?thesis
        by (simp add: Accepter_ReadData_def read_acc_def listen_socket_def)
    next
      case True
      with run x acc Some c cr obtain b where
        "send_ctx net_queue (new_AcceptContext (SetAddr ip port s2)) (?st1\<lparr>net := w2\<rparr>) = Done (b, st')"
        by (auto simp: Accepter_ReadData_def read_acc_def listen_socket_def outcome_simps)
      moreover have "\<not> NoOK s2" using Create_open cr True by blast
      then have "ctx_fits st0 (new_AcceptContext (SetAddr ip port s2))" for st0 :: "'a netst"
        by (simp add: ctx_fits_def new_AcceptContext_def new_OperContext_def SetAddr_def NoOK_def)
      ultimately show ?thesis using send_ctx_inv [OF i2] by blast
    qed
  qed
qed

subsection \<open>Handlers\<close>

lemma on_heap_modify_inv:
  assumes "net_inv E st" "on_heap net_queue (modify_ctx p f) st = Done st'"
    "\<And>c. mType (f c) = mType c \<and> mConnID (f c) = mConnID c \<and> mClientSocket (f c) = mClientSocket c"
  shows "net_inv E st'"
proof -
  from assms(2) obtain h where h: "modify_ctx p f (ns_heap st) = Done h" "st' = st\<lparr>ns_heap := h\<rparr>"
    by (auto simp: on_heap_def outcome_simps)
  from net_inv_only_heap [OF assms(1) modify_keeps [OF h(1) assms(3)]] show ?thesis by (simp add: h(2))
qed

lemma SendMsg_inv:
  assumes inv: "net_inv {} st" and run: "SendMsg lib p st = Done st'"
  shows "net_inv {} st'"
proof -
  from run obtain ctx where ctx: "read_ctx p (ns_heap st) = Done ctx" by (auto simp: SendMsg_def outcome_simps)
  have "\<exists>st1. net_inv {} st1 \<and> on_heap net_queue (modify_ctx p (SetMessage None)) st1 = Done st'"
  proof (cases "map_of (mConns st) (GetConnID ctx)")
    case None
    with run ctx obtain h where "on_heap net_queue (modify_ctx p (SetMessage None)) (st\<lparr>msgs := h\<rparr>) = Done st'"
      by (auto simp: SendMsg_def outcome_simps)
    moreover have "net_inv {} (st\<lparr>msgs := h\<rparr>)" using inv by simp
    ultimately show ?thesis by blast
  next
    case (Some c)
    with run ctx obtain q st1 e st2 where s: "Enqueue_conn q c st = Done st1" "WriteData lib c st1 = Done (e, st2)"
      "on_heap net_queue (modify_ctx p (SetMessage None)) st2 = Done st'"
      by (auto simp: SendMsg_def outcome_simps)
    from s(1) obtain k where k: "conn_objs st c = Some k" "st1 = put_conn c (k\<lparr>mToSendMsg := mToSendMsg k @ [q]\<rparr>) st"
      by (auto simp: Enqueue_conn_def read_conn_obj_def outcome_simps split: option.splits)
    have "net_inv {} st1" unfolding k(2)
      by (rule net_inv_put [OF inv k(1)]) (use sock_open [OF inv k(1)] in simp_all)
    with WriteData_inv [OF _ s(2)] s(3) show ?thesis by blast
  qed
  then obtain st1 where "net_inv {} st1" "on_heap net_queue (modify_ctx p (SetMessage None)) st1 = Done st'" by blast
  then show ?thesis by (rule on_heap_modify_inv) (simp add: SetMessage_def)
qed

lemma AcceptConnection_inv:
  assumes inv: "net_inv {} st" and p: "ctx_ok st p" and max: "mMaxID st < - 1"
    and ty: "read_ctx p (ns_heap st) = Done ctx" "GetType ctx = OP_ACCEPT"
    and run: "AcceptConnection lib p st = Done st'"
  shows "net_inv {} st'"
proof -
  from run ty(1) obtain s where s: "mClientSocket ctx = Some s" "add_conn lib s st = Done st'"
    by (auto simp: AcceptConnection_def split: option.splits if_splits)
  have "\<not> NoOK s" using p ty s(1) by (auto simp: ctx_ok_def read_ctx_Done_iff GetType_def)
  from add_conn_inv [OF inv this max s(2)] show ?thesis .
qed

lemma net_inv_remove:
  assumes inv: "net_inv {} st" and c: "conn_objs st c = Some k" "mClosed_conn k"
  shows "net_inv {} (st\<lparr>conn_objs := (conn_objs st)(c := None), mConns := AList.delete (mConnID_conn k) (mConns st)\<rparr>)"
proof -
  let ?st = "st\<lparr>conn_objs := (conn_objs st)(c := None), mConns := AList.delete (mConnID_conn k) (mConns st)\<rparr>"
  have t: "table_ok st" and w: "watched_ok st" using inv by (simp_all add: net_inv_def)
  have acc: "acc_objs st c = None"
  proof (rule ccontr)
    assume "acc_objs st c \<noteq> None"
    with t have "conn_objs st c = None" by (simp add: table_ok_def)
    with c(1) show False by simp
  qed
  have at: "map_of (mConns st) cid = Some c1 \<longleftrightarrow> (\<exists>k1. conn_objs st c1 = Some k1 \<and> mConnID_conn k1 = cid)" for cid c1
    using t by (simp add: table_ok_def)
  have sorted: "smap_sorted (mConns st)" using t by (simp add: table_ok_def)
  have only: "c1 = c" if "conn_objs st c1 = Some k1" "mConnID_conn k1 = mConnID_conn k" for c1 k1
  proof -
    have "map_of (mConns st) (mConnID_conn k) = Some c1" using that at [of "mConnID_conn k" c1] by auto
    moreover have "map_of (mConns st) (mConnID_conn k) = Some c" using c(1) at [of "mConnID_conn k" c] by auto
    ultimately show ?thesis by simp
  qed
  have mine: "map_of (mConns ?st) cid = Some c1 \<longleftrightarrow> (\<exists>k1. conn_objs ?st c1 = Some k1 \<and> mConnID_conn k1 = cid)" for cid c1
  proof (cases "cid = mConnID_conn k")
    case True
    have "\<not> (\<exists>k1. conn_objs ?st c1 = Some k1 \<and> mConnID_conn k1 = mConnID_conn k)"
      using only [of c1] by auto
    then show ?thesis by (simp add: True map_of_delete_sorted)
  next
    case False
    have "(\<exists>k1. conn_objs ?st c1 = Some k1 \<and> mConnID_conn k1 = cid) \<longleftrightarrow> (\<exists>k1. conn_objs st c1 = Some k1 \<and> mConnID_conn k1 = cid)"
      using False c(1) by auto
    then show ?thesis using False at [of cid c1] by (simp add: map_of_delete_sorted)
  qed
  have "smap_sorted (mConns ?st)" by (simp add: smap_sorted_delete [OF sorted])
  moreover have "c1 < next_obj ?st \<and> mConnID_conn k1 < mMaxID ?st" if "conn_objs ?st c1 = Some k1" for c1 k1
    using t that by (simp add: table_ok_def split: if_splits)
  moreover have "a < next_obj ?st \<and> conn_objs ?st a = None" if "acc_objs ?st a \<noteq> None" for a
    using t that by (simp add: table_ok_def)
  ultimately have "table_ok ?st" using mine unfolding table_ok_def by blast
  moreover have "owns ?st x fd" if "owns st x fd" for x fd
    using that c acc by (auto simp: owns_def)
  then have "watched_ok ?st" using w by (simp add: watched_ok_def)
  moreover have "ctx_ok ?st p" if "ctx_ok st p" for p
    using that by (auto simp: ctx_ok_def)
  then have "\<forall>p \<in> set (pending net_queue ?st). ctx_ok ?st p"
    using inv by (simp add: net_inv_def pending_def)
  ultimately show ?thesis using inv by (simp add: net_inv_def)
qed

lemma DropConnection_inv:
  assumes inv: "net_inv {} st" and p: "ctx_ok st p"
    and ty: "read_ctx p (ns_heap st) = Done ctx" "GetType ctx = OP_DROP"
    and run: "DropConnection p st = Done st'"
  shows "net_inv {} st'"
proof (cases "map_of (mConns st) (mConnID ctx)")
  case None
  with run ty(1) inv show ?thesis by (simp add: DropConnection_def)
next
  case (Some c)
  have t: "table_ok st" using inv by (simp add: net_inv_def)
  with Some obtain k where k: "conn_objs st c = Some k" "mConnID_conn k = mConnID ctx"
    unfolding table_ok_def by blast
  have cl: "mClosed_conn k" using p ty k by (auto simp: ctx_ok_def read_ctx_Done_iff GetType_def)
  from run ty(1) Some k(1) obtain st1 where st1: "destroy_conn c st = Done st1"
    "st' = st1\<lparr>mConns := AList.delete (mConnID ctx) (mConns st1)\<rparr>"
    by (auto simp: DropConnection_def read_conn_obj_def outcome_simps)
  from st1(1) k(1) obtain w h where "st1 = (put_conn c (k\<lparr>mToSendMsg := []\<rparr>) (st\<lparr>net := w, msgs := h\<rparr>))
      \<lparr>conn_objs := (conn_objs (put_conn c (k\<lparr>mToSendMsg := []\<rparr>) st))(c := None)\<rparr>"
    by (auto simp: destroy_conn_def read_conn_obj_def FreeNotSendMsg_def put_conn_def case_prod_unfold Let_def outcome_simps)
  then have "st' = (st\<lparr>conn_objs := (conn_objs st)(c := None), mConns := AList.delete (mConnID_conn k) (mConns st)\<rparr>)
      \<lparr>net := w, msgs := h\<rparr>"
    by (simp add: st1(2) k(2) put_conn_def)
  with net_inv_remove [OF inv k(1) cl] show ?thesis by simp
qed

subsection \<open>The thread of the service\<close>

lemma Enqueue_server_inv:
  assumes "net_inv E st" "Enqueue server_queue p st = Done (b, st')"
  shows "net_inv E st' \<and> heap_keeps (ns_heap st) (ns_heap st') \<and> same_conns st st'"
proof (cases "mRunning (srv_svc st)")
  case False
  with assms show ?thesis by (simp add: Enqueue_def heap_keeps_refl same_conns_def)
next
  case True
  with assms(2) obtain h where h: "IncRef p (ns_heap st) = Done h"
    "st' = st\<lparr>ns_heap := h, srv_svc := (srv_svc st)\<lparr>mQueue := mQueue (srv_svc st) @ [p]\<rparr>\<rparr>"
    by (auto simp: Enqueue_def on_heap_def on_svc_def outcome_simps)
  with net_inv_only_heap [OF assms(1) IncRef_keeps [OF h(1)]] IncRef_keeps [OF h(1)] show ?thesis
    by (simp add: same_conns_def)
qed

lemma Net_Process_inv:
  assumes inv: "net_inv {} st" and p: "ctx_ok st p" and max: "mMaxID st < - 1"
    and run: "Net_Process lib p st = Done (b, st')"
  shows "net_inv {} st'"
proof -
  from run obtain ctx where ctx: "read_ctx p (ns_heap st) = Done ctx" by (auto simp: Net_Process_def outcome_simps)
  show ?thesis
  proof (cases "GetType ctx")
    case OP_ACCEPT
    with run ctx have "AcceptConnection lib p st = Done st'" by (auto simp: Net_Process_def outcome_simps)
    with AcceptConnection_inv [OF inv p max ctx OP_ACCEPT] show ?thesis .
  next
    case OP_RECV
    with run ctx obtain b1 where "Enqueue server_queue p st = Done (b1, st')" by (auto simp: Net_Process_def outcome_simps)
    with Enqueue_server_inv [OF inv] show ?thesis by blast
  next
    case OP_SEND
    with run ctx have "SendMsg lib p st = Done st'" by (auto simp: Net_Process_def outcome_simps)
    with SendMsg_inv [OF inv] show ?thesis .
  next
    case OP_DROP
    with run ctx obtain b1 st1 where e: "Enqueue server_queue p st = Done (b1, st1)" and d: "DropConnection p st1 = Done st'"
      by (auto simp: Net_Process_def outcome_simps)
    from Enqueue_server_inv [OF inv e] have i1: "net_inv {} st1" "heap_keeps (ns_heap st) (ns_heap st1)"
      "same_conns st st1" by blast+
    have p1: "ctx_ok st1 p" by (rule ctx_ok_keeps [OF p]) (use i1 in \<open>simp_all add: same_conns_def\<close>)
    from d obtain ctx1 where ctx1: "read_ctx p (ns_heap st1) = Done ctx1" by (auto simp: DropConnection_def outcome_simps)
    have "p < next_ctx (ns_heap st)" using p by (simp add: ctx_ok_def)
    with i1(2) ctx1 ctx have "mType ctx1 = mType ctx" unfolding heap_keeps_def read_ctx_Done_iff by fastforce
    then have "GetType ctx1 = OP_DROP" using OP_DROP by (simp add: GetType_def)
    from DropConnection_inv [OF i1(1) p1 ctx1 this d] show ?thesis .
  qed (use run ctx inv in \<open>auto simp: Net_Process_def\<close>)
qed

lemma net_inv_flags:
  assumes "net_inv E st" "ctxVec s = ctxVec (ns_svc st)" "mQueue s = mQueue (ns_svc st)"
  shows "net_inv E (st\<lparr>ns_svc := s\<rparr>)"
  by (rule net_inv_svc [OF assms(1)]) (use assms(2,3) in \<open>simp add: pending_def\<close>)

lemma signal_keeps: "heap_keeps h (signal_closure q h)"
  by (simp add: signal_closure_def heap_keeps_def)

lemma base_Process_inv:
  assumes inv: "net_inv {} st" and run: "base_Process (net_service lib) p st = Done (b, st')"
  shows "net_inv {} st' \<and> (b \<or> st' = st)"
proof -
  from run obtain ctx where ctx: "read_ctx p (ns_heap st) = Done ctx" by (auto simp: base_Process_def outcome_simps)
  show ?thesis
  proof (cases "GetType ctx")
    case OP_START
    with run ctx obtain sync h where b: b and h: "modify_ctx p (SetClosure None) (signal_closure sync (ns_heap st)) = Done h"
      "st' = st\<lparr>ns_heap := h, ns_svc := (ns_svc st)\<lparr>mRunning := True\<rparr>\<rparr>"
      by (auto simp: base_Process_def ProcessStart_def on_heap_def on_svc_def Let_def outcome_simps)
    have "heap_keeps (signal_closure sync (ns_heap st)) h"
      by (rule modify_keeps [OF h(1)]) (simp add: SetClosure_def)
    then have "heap_keeps (ns_heap st) h" by (rule heap_keeps_trans [OF signal_keeps])
    from net_inv_only_heap [OF inv this] have "net_inv {} (st\<lparr>ns_heap := h\<rparr>)" .
    from net_inv_flags [OF this, of "(ns_svc st)\<lparr>mRunning := True\<rparr>"] b show ?thesis by (simp add: h(2))
  next
    case OP_STOP
    with run ctx obtain sync where b: b
      and h: "st' = st\<lparr>ns_svc := (ns_svc st)\<lparr>mRunning := False\<rparr>, ns_heap := signal_closure sync (ns_heap st)\<rparr>"
      by (auto simp: base_Process_def ProcessStop_def on_svc_def Let_def outcome_simps)
    have "net_inv {} (st\<lparr>ns_svc := (ns_svc st)\<lparr>mRunning := False\<rparr>\<rparr>)"
      by (rule net_inv_flags [OF inv]) simp_all
    from net_inv_only_heap [OF this, of "signal_closure sync (ns_heap st)"] b show ?thesis
      by (simp add: h signal_keeps)
  qed (use run ctx inv in \<open>auto simp: base_Process_def\<close>)
qed

lemma Run_one_inv:
  assumes inv: "net_inv {} st" and p: "ctx_ok st p" and max: "mMaxID st < - 1"
    and run: "Run_one (net_service lib) p st = Done st'"
  shows "net_inv {} st'"
proof -
  have dec: "net_inv {} st'" if "net_inv {} st3" "on_heap (net_service lib) (DecRef p) st3 = Done st'" for st3
  proof -
    from that(2) obtain h where "DecRef p (ns_heap st3) = Done h" "st' = st3\<lparr>ns_heap := h\<rparr>"
      by (auto simp: on_heap_def outcome_simps)
    with net_inv_only_heap [OF that(1) DecRef_keeps] show ?thesis by simp
  qed
  show ?thesis
  proof (cases "mRunning (ns_svc st)")
    case False
    with run obtain st3 where st3: "on_heap (net_service lib) (modify_ctx p (SetMessage None)) st = Done st3"
      "on_heap (net_service lib) (DecRef p) st3 = Done st'" by (auto simp: Run_one_def outcome_simps)
    then obtain h where h: "modify_ctx p (SetMessage None) (ns_heap st) = Done h" "st3 = st\<lparr>ns_heap := h\<rparr>"
      by (auto simp: on_heap_def outcome_simps)
    have "heap_keeps (ns_heap st) h" by (rule modify_keeps [OF h(1)]) (simp add: SetMessage_def)
    with net_inv_only_heap [OF inv this] h(2) dec st3(2) show ?thesis by blast
  next
    case True
    with run obtain b st1 where b: "base_Process (net_service lib) p st = Done (b, st1)"
      and rest: "obind (if b then Done st1 else obind (vProcess (net_service lib) p st1) (\<lambda>(fine, st2). obind (assert_that fine) (\<lambda>_. Done st2)))
        (on_heap (net_service lib) (DecRef p)) = Done st'"
      by (auto simp: Run_one_def outcome_simps simp del: split_paired_Ex)
    note i1 = base_Process_inv [OF inv b]
    show ?thesis
    proof (cases b)
      case True
      with rest i1 dec show ?thesis by simp
    next
      case False
      with i1 have "st1 = st" by simp
      with rest False obtain f st2 where "Net_Process lib p st = Done (f, st2)" "on_heap (net_service lib) (DecRef p) st2 = Done st'"
        by (auto simp: outcome_simps)
      with Net_Process_inv [OF inv p max] dec show ?thesis by blast
    qed
  qed
qed

subsection \<open>The start of the service\<close>

text \<open>A socket that listens is watched for its acceptor only.\<close>

lemma StartListen_inv:
  assumes inv: "net_inv {} st" and a: "acc_objs st a = Some x" "mListenSocket x = None"
    and run: "StartListen lib a st = Done (e, st')"
  shows "net_inv {} st'"
proof -
  have listen: "net_inv {} (put_listen a x sw st)" for sw
    using net_inv_listen [OF inv a(1), of _ "fst sw"] a(2) by (simp add: put_listen_def)
  have twice: "put_listen a x sw2 (put_listen a x sw st) = put_listen a x sw2 st" for sw sw2
    by (simp add: put_listen_def)
  obtain e1 sw where cr: "Create (-1) (new_TcpSocket, net st) = (e1, sw)" by (cases "Create (-1) (new_TcpSocket, net st)")
  obtain e2 sw2 where li: "Listen (mIP_acc x) (mPort_acc x) sw = (e2, sw2)" by (cases "Listen (mIP_acc x) (mPort_acc x) sw")
  show ?thesis
  proof (cases "e1 = E_OK \<and> e2 = E_OK")
    case False
    have "st' = put_listen a x sw st \<or> st' = put_listen a x sw2 st"
    proof (cases "e1 = E_OK")
      case True
      with False have "e2 \<noteq> E_OK" by simp
      with True run a cr li show ?thesis by (simp add: StartListen_def read_acc_def Let_def twice)
    qed (use run a cr in \<open>simp add: StartListen_def read_acc_def Let_def\<close>)
    with listen [of sw] listen [of sw2] show ?thesis by blast
  next
    case True
    let ?st2 = "put_listen a x sw2 st"
    from True run a cr li obtain d d1 where d: "drv ?st2 = Some d"
      and d1: "RW_RegistReadEvent lib (GetFd (fst sw2)) a d = Done d1" "st' = ?st2\<lparr>drv := Some d1\<rparr>"
      by (auto simp: StartListen_def read_acc_def twice Let_def on_driver_def outcome_simps split: option.splits)
    have i2: "net_inv {} ?st2" by (rule listen)
    then have ok: "events_ok d" and old: "\<And>fd i c. map_of (mEventsInfo d) fd = Some i \<Longrightarrow>
        read_conn i = Some c \<or> write_conn i = Some c \<Longrightarrow> owns ?st2 c fd"
      using d by (auto simp: net_inv_def watched_ok_def)
    from RW_RegistReadEvent_entry [OF ok d1(1)] obtain i where ok1: "events_ok d1"
      and i: "map_of (mEventsInfo d1) = (map_of (mEventsInfo d))(GetFd (fst sw2) \<mapsto> i)" "read_conn i = Some a"
      "write_conn i = None \<or> (\<exists>j. map_of (mEventsInfo d) (GetFd (fst sw2)) = Some j \<and> write_conn i = write_conn j)"
      by blast
    have mine: "owns ?st2 a (GetFd (fst sw2))" by (simp add: owns_def put_listen_def GetFd_def)
    have "owns ?st2 c fd" if fd: "map_of (mEventsInfo d1) fd = Some i1" "read_conn i1 = Some c \<or> write_conn i1 = Some c" for fd i1 c
    proof (cases "fd = GetFd (fst sw2)")
      case True
      then have "i1 = i" using fd(1) i(1) by simp
      with fd(2) i(2) have "c = a \<or> write_conn i = Some c" by auto
      then show ?thesis
      proof
        assume "write_conn i = Some c"
        with i(3) old True show ?thesis by auto
      qed (use mine True in simp)
    next
      case False
      with fd i(1) old show ?thesis by simp
    qed
    from net_inv_driver [OF i2 ok1 this] show ?thesis by (simp add: d1(2))
  qed
qed

lemma net_inv_new_acceptor:
  assumes inv: "net_inv {} st" and x: "mListenSocket x = None"
  shows "net_inv {} (st\<lparr>acc_objs := (acc_objs st)(next_obj st \<mapsto> x), next_obj := Suc (next_obj st)\<rparr>)" (is "net_inv {} ?st")
proof -
  have t: "table_ok st" and w: "watched_ok st" using inv by (simp_all add: net_inv_def)
  have old: "c < next_obj st" if "conn_objs st c = Some k" for c k
    using t that by (simp add: table_ok_def)
  have new: "conn_objs st (next_obj st) = None" "acc_objs st (next_obj st) = None"
    using t old [of "next_obj st"] by (cases "conn_objs st (next_obj st)"; auto simp: table_ok_def)+
  have "c < Suc (next_obj st)" if "conn_objs st c = Some k" for c k
    using old [OF that] by simp
  then have "table_ok ?st" using t new(1) by (auto simp: table_ok_def less_Suc_eq)
  moreover have "owns ?st c fd" if "owns st c fd" for c fd
    using that new(2) by (auto simp: owns_def)
  then have "watched_ok ?st" using w by (simp add: watched_ok_def)
  moreover have "\<forall>p \<in> set (pending net_queue ?st). ctx_ok ?st p"
    using inv by (simp add: net_inv_def pending_def ctx_ok_def)
  ultimately show ?thesis using inv by (simp add: net_inv_def)
qed

lemma start_listeners_inv:
  "net_inv {} st \<Longrightarrow> start_listeners lib as st = Done (e, st') \<Longrightarrow> net_inv {} st'"
proof (induction lib as st arbitrary: e st' rule: start_listeners.induct)
  case (2 lib key ip port as st)
  let ?a = "next_obj st"
  let ?st1 = "st\<lparr>acc_objs := (acc_objs st)(?a \<mapsto> new_Accepter ip port), next_obj := Suc ?a\<rparr>"
  from "2.prems"(2) obtain err st2 where st2: "StartListen lib ?a ?st1 = Done (err, st2)"
    and rest: "(if err \<noteq> E_OK then Done (err, st2)
      else start_listeners lib as (st2\<lparr>mAccepters := smap_insert key ?a (mAccepters st2)\<rparr>)) = Done (e, st')"
    by (auto simp: outcome_simps Let_def simp del: split_paired_Ex)
  have "net_inv {} ?st1" by (rule net_inv_new_acceptor [OF "2.prems"(1)]) (simp add: new_Accepter_def)
  from StartListen_inv [OF this _ _ st2] have i2: "net_inv {} st2" by (simp add: new_Accepter_def)
  show ?case
  proof (cases "err = E_OK")
    case True
    have "net_inv {} (st2\<lparr>mAccepters := smap_insert key ?a (mAccepters st2)\<rparr>)" using i2 by simp
    with "2.IH" [OF refl refl st2 refl] True rest show ?thesis by simp
  qed (use rest i2 in simp)
qed simp

lemma Driver_Start_events: "Driver_Start lib d = Done (e, d1) \<Longrightarrow> mEventsInfo d1 = mEventsInfo d"
  by (auto simp: Driver_Start_def Driver_Run_begin_def Driver_Init_def outcome_simps Let_def case_prod_unfold
      split: option.splits if_splits)

lemma Net_Init_inv:
  assumes inv: "net_inv {} st" and run: "Net_Init lib st = Done (e, st')"
  shows "net_inv {} st'"
proof -
  from run obtain d err st1 where d: "new_Driver ''NetService driver'' (new_base st) = Done d"
    and st1: "StartListener lib (st\<lparr>drv := Some d\<rparr>) = Done (err, st1)"
    and rest: "(if err \<noteq> E_OK then Done (err, st1)
     else obind (on_driver (\<lambda>d. obind (Driver_Start lib d) (\<lambda>(e, d1).
            obind (assert_that (e = E_OK)) (\<lambda>_. Done d1))) st1) (\<lambda>st2.
          Done (E_OK, st2))) = Done (e, st')"
    by (auto simp: Net_Init_def outcome_simps simp del: split_paired_Ex)
  from d have "mEventsInfo d = []" by (auto simp: new_Driver_def outcome_simps)
  then have "net_inv {} (st\<lparr>drv := Some d\<rparr>)" by (intro net_inv_driver [OF inv]) (simp_all add: events_ok_def)
  then have i1: "net_inv {} st1" by (rule start_listeners_inv) (use st1 in \<open>simp add: StartListener_def\<close>)
  show ?thesis
  proof (cases "err = E_OK")
    case True
    with rest obtain d2 e3 d3 where d2: "drv st1 = Some d2" "Driver_Start lib d2 = Done (e3, d3)" "st' = st1\<lparr>drv := Some d3\<rparr>"
      by (auto simp: on_driver_def outcome_simps split: option.splits)
    have same: "mEventsInfo d3 = mEventsInfo d2" by (rule Driver_Start_events [OF d2(2)])
    have w: "events_ok d2" "\<And>fd i c. map_of (mEventsInfo d2) fd = Some i \<Longrightarrow>
        read_conn i = Some c \<or> write_conn i = Some c \<Longrightarrow> owns st1 c fd"
      using i1 d2(1) unfolding net_inv_def watched_ok_def by blast+
    have "events_ok d3" using w(1) by (simp add: events_ok_def same)
    moreover have "owns st1 c fd" if "map_of (mEventsInfo d3) fd = Some i" "read_conn i = Some c \<or> write_conn i = Some c" for c fd i
      using w(2) that unfolding same .
    ultimately show ?thesis unfolding d2(3) by (rule net_inv_driver [OF i1])
  qed (use rest i1 in simp)
qed

subsection \<open>Every step\<close>

lemma Run_step_inv:
  assumes inv: "net_inv {} st" and running: "mRunning (ns_svc st)" and max: "mMaxID st < - 1"
    and run: "Run_step (net_service lib) st = Done (Some st')"
  shows "net_inv {} st'"
proof (cases "run_pc (ns_svc st)")
  case Entering
  with run obtain e st1 where e: "Net_Init lib st = Done (e, st1)"
    "st' = st1\<lparr>ns_svc := (ns_svc st1)\<lparr>run_pc := (if e \<noteq> E_OK then Exited else AtHead), ctxVec := []\<rparr>\<rparr>"
    by (auto simp: Run_step_def Run_enter_def on_svc_def outcome_simps)
  show ?thesis unfolding e(2) by (rule net_inv_svc [OF Net_Init_inv [OF inv e(1)]]) (simp add: pending_def)
next
  case AtHead
  with run running have "st' = st\<lparr>ns_svc := (ns_svc st)\<lparr>run_pc := Waiting\<rparr>\<rparr>"
    by (simp add: Run_step_def on_svc_def)
  then show ?thesis using net_inv_flags [OF inv] by simp
next
  case Waiting
  with run have "st' = st\<lparr>ns_svc := (ns_svc st)\<lparr>ctxVec := mQueue (ns_svc st), mQueue := [], run_pc := InBatch\<rparr>\<rparr>"
    by (auto simp: Run_step_def Run_grab_def on_svc_def base_Idle_def Let_def outcome_simps split: option.splits if_splits)
  then show ?thesis using net_inv_svc [OF inv] by (simp add: pending_def)
next
  case InBatch
  show ?thesis
  proof (cases "ctxVec (ns_svc st)")
    case Nil
    with InBatch run have "st' = st\<lparr>ns_svc := (ns_svc st)\<lparr>run_pc := AtHead\<rparr>\<rparr>"
      by (simp add: Run_step_def on_svc_def)
    then show ?thesis using net_inv_flags [OF inv] by simp
  next
    case (Cons p ps)
    let ?st = "st\<lparr>ns_svc := (ns_svc st)\<lparr>ctxVec := ps\<rparr>\<rparr>"
    from InBatch Cons run have r: "Run_one (net_service lib) p ?st = Done st'"
      by (auto simp: Run_step_def on_svc_def outcome_simps)
    have "net_inv {} ?st" by (rule net_inv_svc [OF inv]) (auto simp: pending_def Cons)
    moreover have "ctx_ok ?st p" using inv by (simp add: net_inv_def pending_def Cons)
    ultimately show ?thesis by (rule Run_one_inv [OF _ _ _ r]) (use max in simp)
  qed
qed (use run in \<open>simp add: Run_step_def\<close>)

lemma StartConnectRemote_inv:
  assumes inv: "net_inv {} st" and max: "mMaxID st < - 1"
    and run: "StartConnectRemote lib ip port cid st = Some (Done (e, cid', st'))"
  shows "net_inv {} st'"
proof -
  obtain d where drv: "drv st = Some d" using run by (cases "drv st") (auto simp: StartConnectRemote_def)
  obtain e1 s1 w1 where c: "Create (-1) (new_TcpSocket, net st) = (e1, s1, w1)" by (metis prod_cases3)
  show ?thesis
  proof (cases "e1 = E_OK")
    case False
    with run drv c show ?thesis using inv by (auto simp: StartConnectRemote_def Let_def)
  next
    case True
    with run drv c obtain e2 s2 w2 where n: "Connect ip port (s1, w1) = Some (e2, s2, w2)"
      by (auto simp: StartConnectRemote_def Let_def)
    show ?thesis
    proof (cases "e2 = E_OK")
      case False
      with run drv c True n show ?thesis using inv by (auto simp: StartConnectRemote_def Let_def)
    next
      case ok: True
      have "\<not> NoOK s2"
        by (rule Connect_open [OF n [unfolded ok] Create_open [OF c [unfolded True]]])
      moreover have "add_conn lib s2 (st\<lparr>net := w2\<rparr>) = Done st'"
        using run drv c True n ok by (auto simp: StartConnectRemote_def Let_def outcome_simps)
      ultimately show ?thesis using add_conn_inv [of "st\<lparr>net := w2\<rparr>" s2 lib st'] inv max by simp
    qed
  qed
qed

lemma net_step_inv:
  assumes "net_step lib st st'" "net_inv {} st"
  shows "net_inv {} st'"
  using assms
proof cases
  case (readable d fd i c e)
  show ?thesis
  proof (cases "acc_objs st c")
    case None
    with readable(5) have "ReadData lib c st = Done (e, st')" by (simp add: deliver_read_def)
    with ReadData_inv [OF assms(2)] show ?thesis by blast
  next
    case (Some x)
    with readable(5) have "Accepter_ReadData c st = Done (e, st')" by (simp add: deliver_read_def)
    with Accepter_ReadData_inv [OF assms(2)] show ?thesis by blast
  qed
next
  case (writable d fd i c e)
  show ?thesis
  proof (cases "acc_objs st c")
    case None
    with writable(5) have "WriteData lib c st = Done (e, st')" by (simp add: deliver_write_def)
    with WriteData_inv [OF assms(2)] show ?thesis by blast
  qed (use writable(5) in \<open>simp add: deliver_write_def Accepter_WriteData_def\<close>)
next
  case service
  with Run_step_inv [OF assms(2)] show ?thesis by blast
next
  case (client cid m b)
  let ?st = "st\<lparr>msgs := (msgs st)(next_msg st \<mapsto> m), next_msg := Suc (next_msg st)\<rparr>"
  have "net_inv {} ?st" using assms(2) by simp
  moreover have "ctx_fits st0 (SetConnID cid (SetMessage (Some q) (new_OperContext OP_SEND)))" for st0 :: "'a netst" and q
    by (simp add: ctx_fits_def SetConnID_def SetMessage_def new_OperContext_def)
  ultimately show ?thesis using post_ctx_inv [OF _ _ client] by blast
next
  case (connect ip port cid e cid')
  with StartConnectRemote_inv [OF assms(2)] show ?thesis by blast
next
  case (network w)
  with assms(2) show ?thesis by simp
next
  case (server h ms s)
  have "net_inv {} (st\<lparr>srv_svc := s\<rparr>)" using assms(2) by simp
  from net_inv_only_heap [OF this, of h] server(2) have "net_inv {} (st\<lparr>srv_svc := s, ns_heap := h\<rparr>)" by simp
  then show ?thesis unfolding server(1) by simp
qed

lemma net_reach_inv: "net_reach lib st st' \<Longrightarrow> net_inv {} st \<Longrightarrow> net_inv {} st'"
  by (induction rule: net_reach.induct) (auto intro: net_step_inv)

text \<open>The state after \<^verbatim>\<open>AddListener\<close> and \<^verbatim>\<open>Start\<close>.\<close>

lemma started_inv:
  assumes "Start_begin (net_service lib) sync answer ((new_NetService name server w b)\<lparr>mLocalAddrs := as\<rparr>) = Done (pc, st)"
  shows "net_inv {} st"
proof -
  let ?st = "(new_NetService name server w b)\<lparr>mLocalAddrs := as\<rparr> :: 'a netst"
  have i: "net_inv {} ?st"
    by (simp add: inv_defs new_NetService_def new_LogicService_def)
  have no: "\<not> mRunning (ns_svc ?st)" by (simp add: new_NetService_def new_LogicService_def)
  from assms no obtain t where t: "Thread_Start answer (mThread (ns_svc ?st)) = Done (answer, t)"
    by (auto simp: Start_begin_def Thread_Start_def outcome_simps)
  let ?s = "(ns_svc ?st)\<lparr>mRunning := True, mThread := t, run_pc := Entering, ctxVec := []\<rparr>"
  let ?st1 = "?st\<lparr>ns_svc := ?s\<rparr>" and ?ctx = "SetClosure (Some sync) (new_OperContext OP_START) :: (nat, nat, tcp_socket) oper_context"
  obtain p h where a: "alloc_ctx ?ctx (ns_heap ?st1) = (p, h)" by fastforce
  from assms no t a obtain b1 where "Enqueue (net_service lib) p (?st1\<lparr>ns_heap := h\<rparr>) = Done (b1, st)"
    by (auto simp: Start_begin_def on_svc_def Let_def outcome_simps)
  then have e: "Enqueue net_queue p (?st1\<lparr>ns_heap := h\<rparr>) = Done (b1, st)"
    by (simp add: Enqueue_def net_queue_def net_service_def on_heap_def on_svc_def)
  have i1: "net_inv {} ?st1" by (rule net_inv_svc [OF i]) (simp add: new_NetService_def new_LogicService_def)
  have "ctx_fits ?st1 ?ctx" by (simp add: ctx_fits_def SetClosure_def new_OperContext_def)
  from Enqueue_alloc_inv [OF i1 this a e] show ?thesis by blast
qed

end
