(* ===== verification/NetTheorems.thy ===== *)
theory NetTheorems
  imports NetSafety
begin

text \<open>
  The properties of the network service as a whole: which objects its tables and events refer to,
  how a client is taken in, and what its users meet when a service is stopped or cannot start.
\<close>

section \<open>Frames\<close>

text \<open>The start of the service leaves the contexts alone.\<close>

lemma on_driver_heap: "on_driver f st = Done st' \<Longrightarrow> ns_heap st' = ns_heap st"
  by (auto simp: on_driver_def outcome_simps split: option.splits)

lemma StartListen_heap: "StartListen lib a st = Done (e, st') \<Longrightarrow> ns_heap st' = ns_heap st"
  by (auto simp: StartListen_def outcome_simps put_listen_def Let_def case_prod_unfold split: if_splits
      dest!: on_driver_heap)

lemma start_listeners_heap: "start_listeners lib as st = Done (e, st') \<Longrightarrow> ns_heap st' = ns_heap st"
proof (induction lib as st arbitrary: e st' rule: start_listeners.induct)
  case (2 lib key ip port as st)
  let ?a = "next_obj st"
  let ?st1 = "st\<lparr>acc_objs := (acc_objs st)(?a \<mapsto> new_Accepter ip port), next_obj := Suc ?a\<rparr>"
  from "2.prems" obtain err st2 where st2: "StartListen lib ?a ?st1 = Done (err, st2)"
    and rest: "(if err \<noteq> E_OK then Done (err, st2)
      else start_listeners lib as (st2\<lparr>mAccepters := smap_insert key ?a (mAccepters st2)\<rparr>)) = Done (e, st')"
    by (auto simp: outcome_simps Let_def simp del: split_paired_Ex)
  from StartListen_heap [OF st2] have "ns_heap st2 = ns_heap st" by simp
  moreover have "ns_heap st' = ns_heap st2"
  proof (cases "err = E_OK")
    case True
    with "2.IH" [OF refl refl st2 refl] rest show ?thesis by simp
  qed (use rest in simp)
  ultimately show ?case by simp
qed simp

lemma Net_Init_heap: "Net_Init lib st = Done (e, st') \<Longrightarrow> ns_heap st' = ns_heap st"
  by (auto simp: Net_Init_def StartListener_def outcome_simps split: if_splits option.splits
      dest!: start_listeners_heap on_driver_heap)

text \<open>\<^verbatim>\<open>Start\<close> leaves one request in the queue and signals nothing.\<close>

lemma Start_begin_posts:
  assumes "Start_begin (net_service lib) sync E_OK st = Done (Some p, st1)"
  shows "run_pc (ns_svc st1) = Entering \<and> mRunning (ns_svc st1) \<and> mQueue (ns_svc st1) = mQueue (ns_svc st) @ [p] \<and>
    signals (ns_heap st1) = signals (ns_heap st)"
proof -
  have no: "\<not> mRunning (ns_svc st)" using assms by (auto simp: Start_begin_def)
  let ?s = "(ns_svc st)\<lparr>mRunning := True, mThread := (mThread (ns_svc st))\<lparr>started := True\<rparr>, run_pc := Entering, ctxVec := []\<rparr>"
  let ?ctx = "SetClosure (Some sync) (new_OperContext OP_START) :: (nat, nat, tcp_socket) oper_context"
  let ?h = "(ns_heap st)\<lparr>ctxs := (ctxs (ns_heap st))(next_ctx (ns_heap st) \<mapsto> ?ctx), next_ctx := Suc (next_ctx (ns_heap st))\<rparr>"
  let ?st0 = "st\<lparr>ns_svc := ?s\<rparr>\<lparr>ns_heap := ?h\<rparr>"
  have "obind (Enqueue (net_service lib) (next_ctx (ns_heap st)) ?st0) (\<lambda>(pushed, st2). Done (Some (next_ctx (ns_heap st)), st2)) = Done (Some p, st1)"
    using assms no by (simp add: Start_begin_def Thread_Start_def on_svc_def alloc_ctx_def)
  then obtain b where e: "Enqueue (net_service lib) p ?st0 = Done (b, st1)" and p: "p = next_ctx (ns_heap st)"
    by (cases "Enqueue (net_service lib) (next_ctx (ns_heap st)) ?st0") auto
  have run: "mRunning (svc (net_service lib) ?st0)" by simp
  from e run obtain h1 where h1: "IncRef p ?h = Done h1" and st1: "st1 = ?st0\<lparr>ns_heap := h1, ns_svc := ?s\<lparr>mQueue := mQueue (ns_svc st) @ [p]\<rparr>\<rparr>"
    by (cases "IncRef p ?h") (simp_all add: Enqueue_def on_heap_def on_svc_def)
  have "signals h1 = signals ?h"
    using h1 by (auto simp: IncRef_def modify_ctx_def outcome_simps split: option.splits if_splits)
  then show ?thesis by (simp add: st1)
qed

section \<open>A started service\<close>

text \<open>A service that listens on one address, as it is after \<^verbatim>\<open>Start\<close>; its first step runs \<^verbatim>\<open>Init\<close>.\<close>

definition demo_service :: "sysresp list \<Rightarrow> (nat \<times> nat list) netst" where
  "demo_service as =
     (new_NetService ''net'' (new_LogicService ''server'' 0)
       \<lparr>incoming = (\<lambda>_. []), outgoing = (\<lambda>_. []), answers = as, selects = [], peers = [], fresh_fd = 3, errno = E_OK\<rparr>
       (Some (0, [])))\<lparr>mLocalAddrs := [([55], ([], 7))]\<rparr>"

lemmas demo_service_simps = demo_service_def new_NetService_def new_LogicService_def new_Thread_def

lemma demo_starts:
  "\<exists>st0. Start_begin (net_service list_lib) 9 E_OK (demo_service as) = Done (Some 0, st0) \<and>
     st0 = (demo_service as)\<lparr>ns_svc := \<lparr>mName = ''net'', mQueue = [0],
         mThread = \<lparr>mName_thread = ''net'', mDetach = False, started = True\<rparr>, mRunning = True, mSleepNanosec = 0,
         run_pc = Entering, ctxVec = []\<rparr>,
       ns_heap := empty_heap\<lparr>next_ctx := 1, ctxs := [0 \<mapsto> (SetClosure (Some 9) (new_OperContext OP_START))\<lparr>mRef := 2\<rparr>]\<rparr>\<rparr>"
  by (simp add: Start_begin_def demo_service_simps Thread_Start_def on_svc_def alloc_ctx_def empty_heap_def
      Enqueue_def on_heap_def IncRef_def modify_ctx_def read_ctx_def INT_MAX_def Let_def SetClosure_def new_OperContext_def fun_eq_iff)

lemma demo_init:
  assumes "Start_begin (net_service list_lib) 9 E_OK (demo_service []) = Done (Some 0, st0)"
  shows "\<exists>st d i. Run_step (net_service list_lib) st0 = Done (Some st) \<and> drv st = Some d \<and>
    map_of (mEventsInfo d) 3 = Some i \<and> read_conn i = Some 0 \<and> conn_objs st 0 = None"
proof -
  have st0: "st0 = (demo_service [])\<lparr>ns_svc := \<lparr>mName = ''net'', mQueue = [0],
         mThread = \<lparr>mName_thread = ''net'', mDetach = False, started = True\<rparr>, mRunning = True, mSleepNanosec = 0,
         run_pc = Entering, ctxVec = []\<rparr>,
       ns_heap := empty_heap\<lparr>next_ctx := 1, ctxs := [0 \<mapsto> (SetClosure (Some 9) (new_OperContext OP_START))\<lparr>mRef := 2\<rparr>]\<rparr>\<rparr>"
    using demo_starts [of "[]"] assms by auto
  show ?thesis
    by (simp add: st0 Run_step_def Run_enter_def Net_Init_def new_Driver_def StartListener_def demo_service_simps
        StartListen_def read_acc_def new_Accepter_def Create_def new_TcpSocket_def net_call_def next_answer_def
        Listen_def SetReuseAddr_def put_listen_def on_driver_def RW_RegistReadEvent_def RegistReadEvent_def
        GetFd_def list_lib_def base_of_def new_EventInfo_def Driver_Start_def Thread_Start_def
        Driver_Run_begin_def Driver_Init_def on_svc_def)
qed

section \<open>Properties\<close>

text \<open>C16: In every state a started network service can reach, whatever its clients, its peers, the
  driver and the service behind it do, an event of the driver is for a live connection that is not
  closed, is in the table under its number and has that descriptor, or for a live acceptor that
  listens on it: the driver never calls a freed object.\<close>

theorem connections_never_dangle:
  assumes started: "Start_begin (net_service lib) sync answer
      ((new_NetService name server w b)\<lparr>mLocalAddrs := as\<rparr>) = Done (pc, st0)"
    and reach: "net_reach lib st0 st"
    and watched: "drv st = Some d" "map_of (mEventsInfo d) fd = Some i" "read_conn i = Some c \<or> write_conn i = Some c"
  shows "(\<exists>k. conn_objs st c = Some k \<and> \<not> mClosed_conn k \<and> fd_of k = fd \<and>
      map_of (mConns st) (mConnID_conn k) = Some c) \<or>
    (\<exists>x s. acc_objs st c = Some x \<and> mListenSocket x = Some s \<and> mSocket s = fd)"
proof -
  have inv: "net_inv {} st" by (rule net_reach_inv [OF reach started_inv [OF started]])
  then have t: "\<And>cid c. map_of (mConns st) cid = Some c \<longleftrightarrow> (\<exists>k. conn_objs st c = Some k \<and> mConnID_conn k = cid)"
    by (simp add: net_inv_def table_ok_def)
  from inv watched have "owns st c fd" unfolding net_inv_def watched_ok_def by blast
  with t show ?thesis unfolding owns_def by blast
qed

lemma connections_never_dangle_witness:
  "\<exists>st0 st d i x s. Start_begin (net_service list_lib) 9 E_OK (demo_service []) = Done (Some 0, st0) \<and>
    Run_step (net_service list_lib) st0 = Done (Some st) \<and> drv st = Some d \<and> map_of (mEventsInfo d) 3 = Some i \<and>
    acc_objs st 0 = Some x \<and> mListenSocket x = Some s \<and> mSocket s = 3"
proof -
  from demo_starts [of "[]"] obtain st0 where st0: "Start_begin (net_service list_lib) 9 E_OK (demo_service []) = Done (Some 0, st0)"
    "mRunning (ns_svc st0)" "mMaxID st0 = 0" by (auto simp: demo_service_simps)
  from demo_init [OF st0(1)] obtain st d i where st: "Run_step (net_service list_lib) st0 = Done (Some st)" "drv st = Some d"
    "map_of (mEventsInfo d) 3 = Some i" "read_conn i = Some 0" "conn_objs st 0 = None" by blast
  have "net_reach list_lib st0 st"
    by (rule net_reach.step [OF net_reach.start], rule net_step.service) (use st0 st in \<open>simp_all add: word_gt_0\<close>)
  from connections_never_dangle [OF st0(1) [unfolded demo_service_def] this st(2,3), of 0] st st0 show ?thesis by auto
qed

text \<open>C18: In every state a started network service can reach, the table of connections is exact:
  a number stands for a connection if and only if that connection is live and bears the number,
  so no two live connections share one, and the number was given out already.\<close>

theorem connection_table_exact:
  assumes started: "Start_begin (net_service lib) sync answer
      ((new_NetService name server w b)\<lparr>mLocalAddrs := as\<rparr>) = Done (pc, st0)"
    and reach: "net_reach lib st0 st"
  shows "map_of (mConns st) cid = Some c \<longleftrightarrow>
    (\<exists>k. conn_objs st c = Some k \<and> mConnID_conn k = cid \<and> cid < mMaxID st \<and> c < next_obj st)"
proof -
  have "table_ok st" using net_reach_inv [OF reach started_inv [OF started]] by (simp add: net_inv_def)
  then have t: "map_of (mConns st) cid = Some c \<longleftrightarrow> (\<exists>k. conn_objs st c = Some k \<and> mConnID_conn k = cid)"
    and l: "c < next_obj st \<and> mConnID_conn k < mMaxID st" if "conn_objs st c = Some k" for k
    using that by (simp_all add: table_ok_def)
  show ?thesis
  proof (cases "conn_objs st c")
    case None
    with \<open>table_ok st\<close> show ?thesis by (simp add: table_ok_def)
  next
    case (Some k)
    with t [OF Some] l [OF Some] show ?thesis by auto
  qed
qed

lemma connection_table_exact_witness:
  "\<exists>st0. Start_begin (net_service list_lib) 9 E_OK (demo_service []) = Done (Some 0, st0) \<and> map_of (mConns st0) 0 = None"
proof -
  from demo_starts [of "[]"] obtain st0 where st0: "Start_begin (net_service list_lib) 9 E_OK (demo_service []) = Done (Some 0, st0)"
    "conn_objs st0 = Map.empty" by (auto simp: demo_service_simps)
  have "map_of (mConns st0) 0 = Some c \<longleftrightarrow> False" for c
    using connection_table_exact [OF st0(1) [unfolded demo_service_def] net_reach.start, of 0 c] st0(2) by simp
  then have "map_of (mConns st0) 0 = None" by (cases "map_of (mConns st0) 0") auto
  with st0(1) show ?thesis by blast
qed

text \<open>C19: A context with the socket of a new client makes a connection under the next number, with
  the socket, registered for reading and writing; the number goes up by one. Nothing else changes: the whole
  state but the numbers, the new object, the table of connections and the driver is the old one, messages,
  contexts, queues, listeners and sockets included; in the driver only its base and its table of events change,
  and in that the entries of all other descriptors stay.\<close>

theorem accepted_client_is_watched:
  assumes ctx: "ctxs (ns_heap st) p = Some ctx" "mType ctx = OP_ACCEPT" "mClientSocket ctx = Some s" "mPort s \<noteq> None"
    and d: "drv st = Some d" "events_ok d" "mEventBase d \<noteq> None" "map_of (mEventsInfo d) (mSocket s) = None"
    and new: "map_of (mConns st) (mMaxID st) = None" "smap_sorted (mConns st)"
  shows "\<exists>k cs b es. Net_Process lib p st = Done (True,
      st\<lparr>mMaxID := mMaxID st + 1, next_obj := Suc (next_obj st),
         conn_objs := (conn_objs st)(next_obj st \<mapsto> k), mConns := cs,
         drv := Some (d\<lparr>mEventBase := Some b, mEventsInfo := es\<rparr>)\<rparr>) \<and>
    mSock k = s \<and> mConnID_conn k = mMaxID st \<and> \<not> mClosed_conn k \<and>
    map_of cs = (map_of (mConns st))(mMaxID st \<mapsto> next_obj st) \<and> smap_sorted cs \<and>
    registered (mSocket s) (next_obj st) (d\<lparr>mEventBase := Some b, mEventsInfo := es\<rparr>) \<and>
    smap_sorted es \<and> (\<forall>g. g \<noteq> mSocket s \<longrightarrow> map_of es g = map_of (mEventsInfo d) g)"
proof -
  from d(3) obtain b0 where b0: "mEventBase d = Some b0" by blast
  from RegistRWEvent_run [OF d(2,4) b0, of lib "next_obj st"] obtain d1 where
    d1: "RegistRWEvent lib (mSocket s) (next_obj st) d = Done d1" "registered (mSocket s) (next_obj st) d1"
      "\<forall>g. g \<noteq> mSocket s \<longrightarrow> map_of (mEventsInfo d1) g = map_of (mEventsInfo d) g" "events_ok d1"
      "mEventBase d1 \<noteq> None" by blast
  then obtain b where b: "mEventBase d1 = Some b" by blast
  let ?d1 = "d\<lparr>mEventBase := Some b, mEventsInfo := mEventsInfo d1\<rparr>"
  have eq: "d1 = ?d1" using RegistRWEvent_frame [OF d1(1)] b by simp
  let ?k = "new_TcpConnection s (mMaxID st)" and ?cs = "smap_insert (mMaxID st) (next_obj st) (mConns st)"
  have "Net_Process lib p st = Done (True, st\<lparr>mMaxID := mMaxID st + 1, next_obj := Suc (next_obj st),
      conn_objs := (conn_objs st)(next_obj st \<mapsto> ?k), mConns := ?cs, drv := Some d1\<rparr>)"
    using ctx d(1) d1(1) new(1)
    by (auto simp: Net_Process_def AcceptConnection_def read_ctx_def GetType_def add_conn_def on_driver_def GetFd_def Let_def)
  moreover have "map_of ?cs = (map_of (mConns st))(mMaxID st \<mapsto> next_obj st)"
    using map_of_smap_insert [OF new(2)] new(1) by (auto simp: fun_eq_iff)
  moreover have "smap_sorted ?cs" by (rule smap_sorted_insert [OF new(2)])
  moreover have "registered (mSocket s) (next_obj st) ?d1" using d1(2) eq by metis
  moreover have "smap_sorted (mEventsInfo d1)" using d1(4) by (simp add: events_ok_def)
  ultimately show ?thesis using d1(3) eq
    by (intro exI [of _ ?k] exI [of _ ?cs] exI [of _ b] exI [of _ "mEventsInfo d1"]) (simp add: new_TcpConnection_def)
qed

definition demo_accept :: "(nat \<times> nat list) netst" where
  "demo_accept = (demo_netst demo_conn Map.empty [] (Some \<lparr>mEventBase = Some (0, []), mEventsInfo = [], mName_drv = [],
      mThread_drv = None, mTimerEvent = None, mRunning_drv = True\<rparr>))\<lparr>ns_heap := empty_heap\<lparr>ctxs := [0 \<mapsto>
    new_AcceptContext (new_TcpSocket\<lparr>mSocket := 7, mClosed := False, mPort := Some 81\<rparr>)]\<rparr>\<rparr>"

lemma accepted_client_is_watched_witness:
  "\<exists>st' d'. Net_Process list_lib 0 demo_accept = Done (True, st') \<and>
    map_of (mConns st') 1 = Some 1 \<and> mMaxID st' = 2 \<and> drv st' = Some d' \<and> registered 7 1 d' \<and>
    ns_heap st' = ns_heap demo_accept \<and> msgs st' = msgs demo_accept"
proof -
  let ?s = "new_TcpSocket\<lparr>mSocket := 7, mClosed := False, mPort := Some 81\<rparr>"
  let ?d = "\<lparr>mEventBase = Some (0, []), mEventsInfo = [], mName_drv = [], mThread_drv = None, mTimerEvent = None,
    mRunning_drv = True\<rparr>"
  have ctx: "ctxs (ns_heap demo_accept) 0 = Some (new_AcceptContext ?s)" "mType (new_AcceptContext ?s) = OP_ACCEPT"
    "mClientSocket (new_AcceptContext ?s) = Some ?s" "mPort ?s \<noteq> None"
    by (simp_all add: demo_accept_def demo_simps new_AcceptContext_def new_OperContext_def)
  have d: "drv demo_accept = Some ?d" "events_ok ?d" "mEventBase ?d \<noteq> None" "map_of (mEventsInfo ?d) (mSocket ?s) = None"
    by (simp_all add: demo_accept_def demo_simps events_ok_def)
  have new: "map_of (mConns demo_accept) (mMaxID demo_accept) = None" "smap_sorted (mConns demo_accept)"
    by (simp_all add: demo_accept_def demo_simps)
  from accepted_client_is_watched [OF ctx d new, of list_lib] obtain k cs b es where
    "Net_Process list_lib 0 demo_accept = Done (True,
      demo_accept\<lparr>mMaxID := mMaxID demo_accept + 1, next_obj := Suc (next_obj demo_accept),
         conn_objs := (conn_objs demo_accept)(next_obj demo_accept \<mapsto> k), mConns := cs,
         drv := Some (?d\<lparr>mEventBase := Some b, mEventsInfo := es\<rparr>)\<rparr>)"
    "map_of cs = (map_of (mConns demo_accept))(mMaxID demo_accept \<mapsto> next_obj demo_accept)"
    "registered (mSocket ?s) (next_obj demo_accept) (?d\<lparr>mEventBase := Some b, mEventsInfo := es\<rparr>)" by blast
  moreover have "mMaxID demo_accept = 1" "next_obj demo_accept = 1" by (simp_all add: demo_accept_def demo_simps)
  ultimately show ?thesis by simp
qed

text \<open>C40: A message that arrives after the other service was stopped ends the program: the network
  service hands it on without looking at the answer and drops its reference, and the context is
  destroyed with the message still in it, which its destructor asserts against.\<close>

theorem message_for_stopped_server_aborts:
  assumes ctx: "ctxs (ns_heap st) p = Some ctx" "mType ctx = OP_RECV" "mRef ctx = 1" "mUnion ctx = UMsg q"
    and running: "mRunning (ns_svc st)" and stopped: "\<not> mRunning (srv_svc st)"
  shows "Run_one (net_service lib) p st = Abort Assertion_failed"
proof -
  have "base_Process (net_service lib) p st = Done (False, st)"
    using ctx(1,2) by (simp add: base_Process_def read_ctx_def GetType_def)
  moreover have "Net_Process lib p st = Done (True, st)"
    using ctx(1,2) stopped by (simp add: Net_Process_def read_ctx_def GetType_def Enqueue_def)
  moreover have "DecRef p (ns_heap st) = Abort Assertion_failed"
    using ctx by (simp add: DecRef_def read_ctx_def destroy_ctx_def)
  ultimately show ?thesis using running by (simp add: Run_one_def on_heap_def)
qed

lemma message_for_stopped_server_aborts_witness:
  "Run_one (net_service list_lib) 0 ((demo_netst demo_conn Map.empty [] None)\<lparr>ns_heap := empty_heap\<lparr>ctxs := [0 \<mapsto>
    SetMessage (Some 3) (new_OperContext OP_RECV)]\<rparr>\<rparr>) = Abort Assertion_failed"
  by (rule message_for_stopped_server_aborts [where ctx = "SetMessage (Some 3) (new_OperContext OP_RECV)" and q = 3])
    (simp_all add: demo_simps SetMessage_def new_OperContext_def)

text \<open>When the listener of a network service cannot be set up, \<^verbatim>\<open>Start\<close> never returns: the
  thread has left its loop for good, the request it waits for stays in the queue of a service that
  still counts as running, and nothing signals the closure.\<close>

theorem failed_init_blocks_start:
  assumes started: "Start_begin (net_service lib) sync E_OK st = Done (Some p, st1)" "mQueue (ns_svc st) = []"
    and init: "Net_Init lib st1 = Done (e, st2)" "e \<noteq> E_OK"
  shows "\<exists>st3. Run_step (net_service lib) st1 = Done (Some st3) \<and> Run_step (net_service lib) st3 = Done None \<and>
    mRunning (ns_svc st3) \<and> mQueue (ns_svc st3) = [p] \<and> signals (ns_heap st3) = signals (ns_heap st)"
proof -
  from Start_begin_posts [OF started(1)] started(2) have s1: "run_pc (ns_svc st1) = Entering" "mRunning (ns_svc st1)"
    "mQueue (ns_svc st1) = [p]" and sig: "signals (ns_heap st1) = signals (ns_heap st)" by simp_all
  let ?st3 = "st2\<lparr>ns_svc := (ns_svc st2)\<lparr>run_pc := Exited, ctxVec := []\<rparr>\<rparr>"
  have "Run_step (net_service lib) st1 = Done (Some ?st3)"
    using s1(1) init by (simp add: Run_step_def Run_enter_def on_svc_def)
  then show ?thesis
    using s1 sig Net_Init_svc [OF init(1)] Net_Init_heap [OF init(1)] by (intro exI [of _ ?st3]) (simp add: Run_step_def)
qed

lemma failed_init_blocks_start_witness:
  "\<exists>st1 st3. Start_begin (net_service list_lib) 9 E_OK (demo_service [RFail EIO]) = Done (Some 0, st1) \<and>
    Run_step (net_service list_lib) st1 = Done (Some st3) \<and> Run_step (net_service list_lib) st3 = Done None \<and>
    mRunning (ns_svc st3) \<and> signals (ns_heap st3) = []"
proof -
  from demo_starts [of "[RFail EIO]"] obtain st1 where st1: "Start_begin (net_service list_lib) 9 E_OK (demo_service [RFail EIO]) = Done (Some 0, st1)"
    "mLocalAddrs st1 = [([55], ([], 7))]" "new_base st1 = Some (0, [])" "answers (net st1) = [RFail EIO]" "next_obj st1 = 0"
    by (auto simp: demo_service_simps)
  have "\<exists>st2. Net_Init list_lib st1 = Done (EIO, st2)"
    using st1(2-) by (simp add: Net_Init_def new_Driver_def StartListener_def StartListen_def read_acc_def new_Accepter_def
        Create_def new_TcpSocket_def net_call_def next_answer_def)
  then obtain st2 where st2: "Net_Init list_lib st1 = Done (EIO, st2)" by blast
  have "mQueue (ns_svc (demo_service [RFail EIO])) = []" "signals (ns_heap (demo_service [RFail EIO])) = []"
    by (simp_all add: demo_service_simps empty_heap_def)
  with failed_init_blocks_start [OF st1(1) _ st2] st1(1) show ?thesis by auto
qed

text \<open>C20: When sending fails, the connection is cleaned up in two steps and nothing of it is left.
  \<^verbatim>\<open>WriteData\<close> stops watching the descriptor, frees every message that waits to be sent and posts
  \<^verbatim>\<open>OP_DROP\<close>; when the service comes to it, the connection is freed and out of the table.\<close>

theorem failed_send_drops_the_connection:
  assumes c: "conn_objs st c = Some k" and up: "\<not> mClosed_conn k" "\<not> NoOK (mSock k)" "mPort (mSock k) \<noteq> None"
    and sending: "mCurrentSendMsg k = Some p" "msgs st p = Some m" "buffer_at (mSent k) (mToSend k) (GetBuffer m) = Done buf"
    and queued: "delete_msgs (mToSendMsg k) (msgs st) = Done h"
    and broken: "answers (net st) = RFail e # as" "e \<noteq> E_OK" "e \<noteq> EAGAIN"
    and watched: "drv st = Some d" "events_ok d" "registered (fd_of k) c d"
    and table: "map_of (mConns st) (mConnID_conn k) = Some c" and running: "mRunning (ns_svc st)"
  shows "\<exists>st1 d1 st2. WriteData lib c st = Done (e, st1) \<and>
    drv st1 = Some d1 \<and> map_of (mEventsInfo d1) = (map_of (mEventsInfo d))(fd_of k := None) \<and> msgs st1 = h \<and>
    mQueue (ns_svc st1) = mQueue (ns_svc st) @ [next_ctx (ns_heap st)] \<and>
    Run_one (net_service lib) (next_ctx (ns_heap st)) st1 = Done st2 \<and>
    conn_objs st2 = (conn_objs st)(c := None) \<and> map_of (mConns st2) = (map_of (mConns st))(mConnID_conn k := None)"
proof -
  let ?w = "(net st)\<lparr>answers := as, errno := e\<rparr>" and ?id = "mConnID_conn k" and ?q = "next_ctx (ns_heap st)"
  let ?k1 = "ResetSend (k\<lparr>mSock := (mSock k)\<lparr>mError := e\<rparr>\<rparr>)"
  let ?st1 = "put_conn c ?k1 (st\<lparr>net := ?w\<rparr>)"
  have "sys_send (mSocket (mSock k)) buf (net st) = (Inl e, ?w)"
    using broken by (simp add: sys_send_def next_answer_def)
  then have send: "Send buf 0 (mSock k, net st) = (e, -1, (mSock k)\<lparr>mError := e\<rparr>, ?w)"
    using up(2) broken(3) by (simp add: Send_def)
  from UnRegistRWEvent_run [OF watched(2,3)] obtain d1 where d1: "UnRegistRWEvent lib (fd_of k) d = Done d1"
    "map_of (mEventsInfo d1) = (map_of (mEventsInfo d))(fd_of k := None)" by blast
  obtain e2 s2 w2 where s2: "Close_sock ((mSock k)\<lparr>mError := e\<rparr>, ?w) = (e2, s2, w2)" by (metis prod_cases3)
  have port: "mPort s2 = mPort (mSock k)"
    using s2 by (auto simp: Close_sock_def split: if_splits prod.splits)
  let ?k2 = "?k1\<lparr>mClosed_conn := True, mSock := s2, mToSendMsg := []\<rparr>"
  have "\<exists>st2. Close_conn lib c ?st1 = Done (E_OK, st2) \<and> conn_objs st2 = (conn_objs st)(c \<mapsto> ?k2) \<and> drv st2 = Some d1 \<and>
      msgs st2 = h \<and> ns_svc st2 = ns_svc st \<and> ns_heap st2 = ns_heap st \<and> mConns st2 = mConns st \<and> srv_svc st2 = srv_svc st"
    using up(1) watched(1) d1(1) s2 queued
    by (simp add: Close_conn_def read_conn_obj_def put_conn_def on_driver_def GetFd_def FreeNotSendMsg_def ResetSend_def)
  then obtain st2 where st2: "Close_conn lib c ?st1 = Done (E_OK, st2)" "conn_objs st2 = (conn_objs st)(c \<mapsto> ?k2)"
    "drv st2 = Some d1" "msgs st2 = h" "ns_svc st2 = ns_svc st" "ns_heap st2 = ns_heap st" "mConns st2 = mConns st"
    "srv_svc st2 = srv_svc st" by blast
  let ?ctx = "SetConnID ?id (new_OperContext OP_DROP) :: (nat, nat, tcp_socket) oper_context"
  have one: "mRef ?ctx = 1" by (simp add: SetConnID_def new_OperContext_def)
  have post: "send_ctx net_queue ?ctx st2 = Done (True, posted ?ctx st2)"
    by (rule send_ctx_posted) (use running st2(5) one in simp_all)
  have wr: "WriteData lib c st = Done (e, posted ?ctx st2)"
    using c up(1,2) sending send st2(1) post broken(2)
    by (simp add: WriteData_def read_conn_obj_def send_some_def read_msg_def put_conn_def)
  let ?st3 = "posted ?ctx st2"
  have ctx3: "ctxs (ns_heap ?st3) ?q = Some ?ctx" using st2(6) by (simp add: posted_def)
  have base: "base_Process (net_service lib) ?q ?st3 = Done (False, ?st3)"
    using ctx3 by (simp add: base_Process_def read_ctx_def GetType_def SetConnID_def new_OperContext_def)
  have "\<exists>st4 ctx4. Enqueue server_queue ?q ?st3 = Done (mRunning (srv_svc st), st4) \<and> ctxs (ns_heap st4) ?q = Some ctx4 \<and>
      mConnID ctx4 = ?id \<and> mUnion ctx4 = UNull \<and> 0 < mRef ctx4 \<and> conn_objs st4 = conn_objs st2 \<and>
      mConns st4 = mConns st \<and> ns_svc st4 = ns_svc ?st3 \<and> msgs st4 = h"
    using ctx3 st2(4,7,8) by (simp add: Enqueue_def on_heap_def on_svc_def IncRef_def read_ctx_def modify_ctx_def posted_def
        SetConnID_def new_OperContext_def INT_MAX_def)
  then obtain st4 ctx4 where st4: "Enqueue server_queue ?q ?st3 = Done (mRunning (srv_svc st), st4)"
    "ctxs (ns_heap st4) ?q = Some ctx4" "mConnID ctx4 = ?id" "mUnion ctx4 = UNull" "0 < mRef ctx4"
    "conn_objs st4 = conn_objs st2" "mConns st4 = mConns st" by blast
  obtain port where pt: "mPort s2 = Some port" using port up(3) by auto
  have "\<exists>st5. DropConnection ?q st4 = Done st5 \<and> ns_heap st5 = ns_heap st4 \<and> conn_objs st5 = (conn_objs st)(c := None) \<and>
      map_of (mConns st5) = (map_of (mConns st))(?id := None)"
    using st4 st2(2) table pt
    by (simp add: DropConnection_def read_ctx_def read_conn_obj_def GetClientPort_def destroy_conn_def FreeNotSendMsg_def
        put_conn_def case_prod_unfold Let_def map_of_delete_sorted)
  then obtain st5 where st5: "DropConnection ?q st4 = Done st5" "ns_heap st5 = ns_heap st4"
    "conn_objs st5 = (conn_objs st)(c := None)" "map_of (mConns st5) = (map_of (mConns st))(?id := None)" by blast
  have "Net_Process lib ?q ?st3 = Done (True, st5)"
    using ctx3 st4(1) st5(1) by (simp add: Net_Process_def read_ctx_def GetType_def SetConnID_def new_OperContext_def)
  moreover have "\<exists>h5. DecRef ?q (ns_heap st5) = Done h5"
    using st4(2,4,5) st5(2) by (auto simp: DecRef_def read_ctx_def destroy_ctx_def Let_def)
  then obtain h5 where "DecRef ?q (ns_heap st5) = Done h5" by blast
  moreover have "mRunning (ns_svc ?st3)" using running st2(5) by (simp add: posted_def)
  ultimately have run: "Run_one (net_service lib) ?q ?st3 = Done (st5\<lparr>ns_heap := h5\<rparr>)"
    using base by (simp add: Run_one_def on_heap_def)
  show ?thesis
    by (rule exI [of _ ?st3], rule exI [of _ d1], rule exI [of _ "st5\<lparr>ns_heap := h5\<rparr>"])
      (use wr run d1(2) st5(3,4) st2(3-6) in \<open>simp add: posted_def\<close>)
qed

definition demo_sending :: tcp_connection where
  "demo_sending = demo_conn\<lparr>mCurrentSendMsg := Some 3, mToSendMsg := [3], mSent := 2, mToSend := 3\<rparr>"

definition demo_broken :: "(nat \<times> nat list) netst" where
  "demo_broken = (demo_netst demo_sending [3 \<mapsto> frame_msg 4 []] []
      (Some \<lparr>mEventBase = Some (2, [0, 1]), mEventsInfo = [(5, \<lparr>read_ev = Some 0, write_ev = Some 1,
        read_conn = Some 0, write_conn = Some 0\<rparr>)], mName_drv = [], mThread_drv = None, mTimerEvent = None,
        mRunning_drv = True\<rparr>))\<lparr>net := (net (demo_netst demo_conn Map.empty [] None))\<lparr>answers := [RFail ECONNRESET]\<rparr>\<rparr>"

lemma failed_send_drops_the_connection_witness:
  "\<exists>st1 d1 st2. WriteData list_lib 0 demo_broken = Done (ECONNRESET, st1) \<and>
    drv st1 = Some d1 \<and> map_of (mEventsInfo d1) 5 = None \<and> msgs st1 = Map.empty \<and>
    Run_one (net_service list_lib) 0 st1 = Done st2 \<and> conn_objs st2 = Map.empty \<and> map_of (mConns st2) 0 = None"
proof -
  obtain d where d: "drv demo_broken = Some d" "events_ok d" "registered 5 0 d"
    by (simp add: demo_broken_def demo_netst_def events_ok_def info_ok_def IsInvalid_def registered_def)
  have c: "conn_objs demo_broken = [0 \<mapsto> demo_sending]" "msgs demo_broken = [3 \<mapsto> frame_msg 4 []]"
    "next_ctx (ns_heap demo_broken) = 0" "mConns demo_broken = [(0, 0)]"
    by (simp_all add: demo_broken_def demo_netst_def empty_heap_def)
  have k: "fd_of demo_sending = 5" "mConnID_conn demo_sending = 0"
    by (simp_all add: demo_sending_def demo_simps)
  have b: "buffer_at (mSent demo_sending) (mToSend demo_sending) (GetBuffer (frame_msg 4 [])) =
      Done (take 3 (drop 2 (GetBuffer (frame_msg 4 []))))"
    by (simp add: demo_sending_def buffer_at_def load_cells_def GetBuffer_def frame_msg_def)
  have del: "delete_msgs (mToSendMsg demo_sending) (msgs demo_broken) = Done Map.empty"
    by (simp add: c(2)) (simp add: demo_sending_def delete_msg_def read_msg_def fun_eq_iff)
  from failed_send_drops_the_connection [of demo_broken 0 demo_sending 3 "frame_msg 4 []" _ Map.empty ECONNRESET "[]" d list_lib,
      OF _ _ _ _ _ _ b del _ _ _ d(1,2)] d(3) c k
  show ?thesis by (fastforce simp: demo_sending_def demo_broken_def demo_simps)
qed

section \<open>Listeners\<close>

text \<open>The key of a listener is its address followed by its port, with nothing between them.\<close>

lemma distinct_listeners_collide:
  assumes "AddListener ip 12 st = (E_OK, st1)" "smap_sorted (mLocalAddrs st)"
  shows "AddListener (ip @ [49]) 2 st1 = (EEXIST, st1)"
proof -
  have "i2s 12 = [49, 50]" "i2s 2 = [50]" by code_simp+
  then have same: "Addr_ToString (ip @ [49], 2) = Addr_ToString (ip, 12)" by (simp add: Addr_ToString_def)
  from assms(1) have "st1 = st\<lparr>mLocalAddrs := smap_insert (Addr_ToString (ip, 12)) (ip, 12) (mLocalAddrs st)\<rparr>"
    "map_of (mLocalAddrs st) (Addr_ToString (ip, 12)) = None"
    by (cases "map_of (mLocalAddrs st) (Addr_ToString (ip, 12))"; simp add: AddListener_def)+
  then have "map_of (mLocalAddrs st1) (Addr_ToString (ip, 12)) = Some (ip, 12)"
    using map_of_smap_insert [OF assms(2)] by simp
  then show ?thesis by (simp add: AddListener_def same)
qed

end
