(* ===== verification/KVTables.thy ===== *)
theory KVTables
  imports KVTheorems
begin

text \<open>
  What clients that fill one table can rely on. They put one value \<open>v\<close> under keys of a table
  \<open>t\<close>, once it exists, and neither they nor the log they started from delete from it, drop it or put
  anything else into it. Then the table stays, every put succeeds, and a key once put keeps the value.
  The last part bounds the log ids such clients use up by the number of posts.
\<close>

section \<open>Operations that spare a table\<close>

definition spares :: "bytes \<Rightarrow> bytes \<Rightarrow> u32 \<Rightarrow> bytes \<Rightarrow> bytes \<Rightarrow> bool" where
  "spares t v ty tb w \<longleftrightarrow> (tb = t \<longrightarrow> ty \<noteq> OP_drop_table \<and> ty \<noteq> OP_del \<and> (ty = OP_put \<longrightarrow> w = v))"

definition record_spares :: "bytes \<Rightarrow> bytes \<Rightarrow> log_record \<Rightarrow> bool" where
  "record_spares t v r \<longleftrightarrow>
     (\<forall>b. mBody r = Some b \<longrightarrow> spares t v (mOpType r) (log_body.mTableName b) (mValue b))"

definition request_spares :: "bytes \<Rightarrow> bytes \<Rightarrow> kv_request \<Rightarrow> bool" where
  "request_spares t v rq \<longleftrightarrow> spares t v (mOpType_rq rq) (mTableName_rq rq) (mValue_rq rq)"

definition asks_for :: "u32 \<Rightarrow> bytes \<Rightarrow> kv_request \<Rightarrow> bool" where
  "asks_for ty t rq \<longleftrightarrow> mOpType_rq rq = ty \<and> mTableName_rq rq = t"

definition loads :: "bytes \<Rightarrow> bytes \<Rightarrow> kvdb \<Rightarrow> kv_request \<Rightarrow> bool" where
  "loads t v st rq \<longleftrightarrow> polite st rq \<and> request_spares t v rq \<and>
     (asks_for OP_put t rq \<longrightarrow> t \<in> dom (mDataStore st))"

definition stored :: "bytes \<Rightarrow> data_store \<Rightarrow> bytes \<Rightarrow> bytes option" where
  "stored t ds k = cells (flatten ds) (t, k)"

definition grown :: "bytes \<Rightarrow> bytes \<Rightarrow> data_store \<Rightarrow> data_store \<Rightarrow> bool" where
  "grown t v ds ds' \<longleftrightarrow> (t \<in> dom ds \<longrightarrow> t \<in> dom ds') \<and> (\<forall>k. stored t ds k = Some v \<longrightarrow> stored t ds' k = Some v)"

lemma grown_refl [simp]: "grown t v ds ds"
  by (simp add: grown_def)

lemma grown_trans: "grown t v a b \<Longrightarrow> grown t v b c \<Longrightarrow> grown t v a c"
  by (simp add: grown_def)

lemma stored_Get: "stored t ds k = Some v \<Longrightarrow> Get t k d ds = (E_OK, v)"
  by (simp add: stored_def Get_flat dom_def split: bind_splits)

lemma exec_op_spares:
  assumes "x \<noteq> KDropTable t" "\<And>k. x \<noteq> KDel t k" "\<And>k w. x = KPut t k w \<Longrightarrow> w = v"
  shows "grown t v s (snd (exec_op x s))"
proof -
  have "stored t (snd (exec_op x s)) k = Some v" if "stored t s k = Some v" for k
    using that assms unfolding stored_def exec_op_flat_state
    by (cases x) (auto simp: flat_write_def simp del: flatten_simps split: option.splits)
  moreover have "t \<in> dom (snd (exec_op x s))" if "t \<in> dom s"
    using that assms(1) by (cases x) (auto simp: store_ops split_beta split: option.splits)
  ultimately show ?thesis by (simp add: grown_def)
qed

lemma exec_op_results:
  "t \<in> dom s \<Longrightarrow> fst (exec_op (KPut t k v) s) = E_OK"
  "t \<in> dom s \<Longrightarrow> stored t (snd (exec_op (KPut t k v) s)) k = Some v"
  "t \<in> dom (snd (exec_op (KAddTable t) s))"
  unfolding stored_def exec_op_flat_err exec_op_flat_state
  by (auto simp: flat_write_def store_ops split: option.splits)

lemma UpdateDataStore_table:
  assumes "UpdateDataStore r st = Done (e, st1)" "record_spares t v r"
  shows "grown t v (mDataStore st) (mDataStore st1)"
    and "carries r rq \<Longrightarrow> asks_for OP_put t rq \<Longrightarrow> t \<in> dom (mDataStore st) \<Longrightarrow>
      e = E_OK \<and> stored t (mDataStore st1) (mKey_rq rq) = Some v"
    and "carries r rq \<Longrightarrow> asks_for OP_add_table t rq \<Longrightarrow> t \<in> dom (mDataStore st1)"
proof -
  from assms(1) obtain b x where b: "mBody r = Some b" "record_op r b = Some x"
    "e = fst (exec_op x (mDataStore st))" "mDataStore st1 = snd (exec_op x (mDataStore st))"
    by (auto simp: UpdateDataStore_def split_beta split: if_splits option.splits)
  have sp: "spares t v (mOpType r) (log_body.mTableName b) (mValue b)"
    using assms(2) b(1) by (simp add: record_spares_def)
  show "grown t v (mDataStore st) (mDataStore st1)"
    unfolding b(4) by (rule exec_op_spares) (use sp b(2) in \<open>auto simp: spares_def record_op_def split: if_splits\<close>)
  show "e = E_OK \<and> stored t (mDataStore st1) (mKey_rq rq) = Some v"
    if "carries r rq" "asks_for OP_put t rq" "t \<in> dom (mDataStore st)"
  proof -
    have "x = KPut t (mKey_rq rq) v"
      using that(1,2) b(1,2) sp by (auto simp: carries_def asks_for_def record_op_def spares_def)
    with that(3) b(3,4) exec_op_results(1,2) show ?thesis by simp
  qed
  show "t \<in> dom (mDataStore st1)" if "carries r rq" "asks_for OP_add_table t rq"
  proof -
    have "x = KAddTable t"
      using that b(1,2) by (auto simp: carries_def asks_for_def record_op_def op_codes)
    with b(4) exec_op_results(3) show ?thesis by simp
  qed
qed

section \<open>The invariant\<close>

definition request_fine :: "bytes \<Rightarrow> bytes \<Rightarrow> data_store \<Rightarrow> kv_request \<Rightarrow> bool" where
  "request_fine t v ds rq \<longleftrightarrow>
     (if mSync rq then
        (asks_for OP_put t rq \<longrightarrow> mErr rq = E_OK \<and> stored t ds (mKey_rq rq) = Some v) \<and>
        (asks_for OP_add_table t rq \<longrightarrow> t \<in> dom ds)
      else request_spares t v rq \<and> (asks_for OP_put t rq \<longrightarrow> t \<in> dom ds))"

definition table_inv :: "bytes \<Rightarrow> bytes \<Rightarrow> kvdb \<Rightarrow> bool" where
  "table_inv t v st \<longleftrightarrow> (\<forall>a rq. requests st a = Some rq \<longrightarrow> request_fine t v (mDataStore st) rq)"

definition waiting :: "kvdb \<Rightarrow> nat set" where
  "waiting st = {a. \<exists>rq. requests st a = Some rq \<and> \<not> mSync rq}"

text \<open>A request that waits has a log id or will need one more.\<close>

definition ids_within :: "nat \<Rightarrow> kvdb \<Rightarrow> bool" where
  "ids_within N st \<longleftrightarrow> unat (mMaxLogId st) + card (waiting st) \<le> N + length (mRequests st)"

definition table_step :: "bytes \<Rightarrow> bytes \<Rightarrow> kvdb \<Rightarrow> kvdb \<Rightarrow> bool" where
  "table_step t v st st' \<longleftrightarrow> table_inv t v st' \<and> grown t v (mDataStore st) (mDataStore st') \<and>
     (\<forall>a rq. requests st a = Some rq \<longrightarrow> mSync rq \<longrightarrow> requests st' a = Some rq) \<and>
     (\<forall>N. ids_within N st \<longrightarrow> ids_within N st')"

lemma table_step_trans: "table_step t v a b \<Longrightarrow> table_step t v b c \<Longrightarrow> table_step t v a c"
  unfolding table_step_def using grown_trans by blast

lemma request_fine_mono: "request_fine t v ds rq \<Longrightarrow> grown t v ds ds' \<Longrightarrow> request_fine t v ds' rq"
  unfolding request_fine_def grown_def by (auto split: if_splits)

lemma table_inv_put:
  assumes "table_inv t v st" "grown t v (mDataStore st) ds" "request_fine t v ds rq"
    "requests st' = (requests st)(a \<mapsto> rq)" "mDataStore st' = ds"
  shows "table_inv t v st'"
  unfolding table_inv_def
proof (intro allI impI)
  fix b x
  assume b: "requests st' b = Some x"
  show "request_fine t v (mDataStore st') x"
  proof (cases "b = a")
    case True
    with b assms(3-5) show ?thesis by simp
  next
    case False
    with b assms(1,4) have "request_fine t v (mDataStore st) x" by (simp add: table_inv_def)
    from request_fine_mono [OF this assms(2)] show ?thesis unfolding assms(5) .
  qed
qed

lemma table_step_same:
  assumes "table_inv t v st" "requests st' = requests st" "grown t v (mDataStore st) (mDataStore st')"
    "unat (mMaxLogId st') + length (mRequests st) \<le> unat (mMaxLogId st) + length (mRequests st')"
  shows "table_step t v st st'"
proof -
  have "table_inv t v st'" unfolding table_inv_def assms(2)
    using assms(1,3) request_fine_mono unfolding table_inv_def by blast
  moreover have "waiting st' = waiting st" by (simp add: waiting_def assms(2))
  ultimately show ?thesis using assms(2-4) by (simp add: table_step_def ids_within_def)
qed

text \<open>A waiting request is answered.\<close>

lemma table_step_answer:
  assumes inv: "table_inv t v st" and x: "requests st a = Some x" "\<not> mSync x" and x': "mSync x'"
    and st1: "requests st1 = (requests st)(a \<mapsto> x')" and g: "grown t v (mDataStore st) (mDataStore st1)"
    and f: "request_fine t v (mDataStore st1) x'" and fin: "finite (dom (requests st))"
    and ids: "mMaxLogId st1 = mMaxLogId st" "length (mRequests st) \<le> Suc (length (mRequests st1))"
  shows "table_step t v st st1"
proof -
  have w: "waiting st1 = waiting st - {a}" "a \<in> waiting st"
    using x x' by (auto simp: waiting_def st1 split: if_splits)
  have "finite (waiting st)" by (rule finite_subset [OF _ fin]) (auto simp: waiting_def)
  then have "Suc (card (waiting st1)) = card (waiting st)" unfolding w(1) using w(2) by (rule card_Suc_Diff1)
  then have "\<forall>N. ids_within N st \<longrightarrow> ids_within N st1" using ids by (auto simp: ids_within_def)
  moreover have "table_inv t v st1" by (rule table_inv_put [OF inv g f st1 refl])
  moreover have "\<forall>b y. requests st b = Some y \<longrightarrow> mSync y \<longrightarrow> requests st1 b = Some y"
    using x by (auto simp: st1)
  ultimately show ?thesis using g unfolding table_step_def by blast
qed

lemma length_delete: "distinct (map fst m) \<Longrightarrow> length m \<le> Suc (length (AList.delete i m))"
proof (induction m)
  case (Cons p m)
  then show ?case by (cases p) (auto simp: delete_id)
qed simp

section \<open>Responses\<close>

lemma respond_Cons: "respond (p # ps) st = obind (respond [p] st) (respond ps)"
proof -
  obtain addr i r where p: "p = (addr, i, r)" by (cases p) auto
  show ?thesis
    by (cases "UpdateDataStore r st") (auto simp: p split: option.splits prod.splits)
qed

lemma respond_one_table:
  assumes core: "core dir w0 m0 R0 segs F rs ws (Resp \<lparr>pairs = [(addr, i, r)]\<rparr> # rq) st"
    and inv: "table_inv t v st" and run: "respond [(addr, i, r)] st = Done st1"
  shows "table_step t v st st1"
proof -
  have req: "requests_ok ((i, r) # outstanding m0 rq ws st) (news rq) st"
    using core by (simp add: core_def outstanding_def)
  then have "waits_for st (i, r)" by (simp add: requests_ok_def)
  then obtain a x where a: "map_of (mRequests st) i = Some a" "requests st a = Some x" "\<not> mSync x" "carries r x"
    by (auto simp: waits_for_def)
  from run a(1) obtain e st2 where u: "UpdateDataStore r st = Done (e, st2)"
    by (auto simp: outcome_simps)
  obtain ds where ds: "st2 = st\<lparr>mDataStore := ds\<rparr>" using UpdateDataStore_frame [OF u] by blast
  from run a(1,2) u ds have st1: "st1 = st2\<lparr>requests := (requests st)(a \<mapsto> Signal_rq (x\<lparr>mErr := e\<rparr>)),
      mRequests := AList.delete i (mRequests st)\<rparr>" by simp
  have f: "request_fine t v (mDataStore st) x" using inv a(2) by (simp add: table_inv_def)
  then have "request_spares t v x" using a(3) by (simp add: request_fine_def)
  then have "record_spares t v r" using a(4) by (auto simp: record_spares_def request_spares_def carries_def)
  note up = UpdateDataStore_table [OF u this]
  have "request_fine t v ds (Signal_rq (x\<lparr>mErr := e\<rparr>))"
    using f a(3) up(2,3) [OF a(4)] by (auto simp: request_fine_def Signal_rq_def asks_for_def ds)
  moreover have "length (mRequests st) \<le> Suc (length (AList.delete i (mRequests st)))"
    by (rule length_delete) (use req in \<open>simp add: requests_ok_def\<close>)
  moreover have "finite (dom (requests st))" using req by (simp add: requests_ok_def)
  ultimately show ?thesis using up(1)
    by (intro table_step_answer [OF inv a(2,3), of "Signal_rq (x\<lparr>mErr := e\<rparr>)"])
      (simp_all add: st1 ds Signal_rq_def)
qed

lemma table_step_refl: "table_inv t v st \<Longrightarrow> table_step t v st st"
  by (simp add: table_step_def)

lemma respond_table:
  "core dir w0 m0 R0 segs F rs ws (Resp \<lparr>pairs = ps\<rparr> # rq) st \<Longrightarrow> table_inv t v st \<Longrightarrow>
    respond ps st = Done st1 \<Longrightarrow> table_step t v st st1"
proof (induction ps arbitrary: st)
  case (Cons p ps)
  obtain addr i r where p: "p = (addr, i, r)" by (cases p) auto
  have c: "core dir w0 m0 R0 segs F rs ws (Resp \<lparr>pairs = [p]\<rparr> # Resp \<lparr>pairs = ps\<rparr> # rq) st"
    using Cons.prems(1) by (simp add: core_def outstanding_def)
  from core_respond [OF c] obtain st2 where st2: "respond [p] st = Done st2"
    "core dir w0 m0 R0 segs F rs ws (Resp \<lparr>pairs = ps\<rparr> # rq) st2" by blast
  have one: "table_step t v st st2" using respond_one_table [OF c [unfolded p] Cons.prems(2)] st2(1) p by simp
  then have "table_inv t v st2" by (simp add: table_step_def)
  moreover have "respond ps st2 = Done st1" using Cons.prems(3) respond_Cons [of p ps st] st2(1) by simp
  ultimately have "table_step t v st2 st1" by (rule Cons.IH [OF st2(2)])
  from table_step_trans [OF one this] show ?case .
qed (simp add: table_step_refl)

section \<open>Steps\<close>

lemma log_batch_table:
  assumes inv: "kv_inv_at dir w0 m0 R0 segs F rs ws rq st" and vec: "ctxVec (lc_svc st) = p # ps"
    and no: "\<forall>r \<in> set R0. record_spares t v r"
    and run: "Run_one log_center p (st\<lparr>lc_svc := (lc_svc st)\<lparr>ctxVec := ps\<rparr>\<rparr>) = Done st1"
  shows "grown t v (mDataStore st) (mDataStore st1)"
proof -
  let ?s = "st\<lparr>lc_svc := (lc_svc st)\<lparr>ctxVec := ps\<rparr>\<rparr>"
  have q: "queue_ok (kv_heap st) (p # ps @ mQueue (lc_svc st)) (pending request_center st)
      (lc_entries rs ws) (map rc_entry rq)"
    using inv vec by (simp add: kv_inv_at_def pending_def)
  obtain k a LQ where e: "lc_entries rs ws = (k, a) # LQ" "ctxs (kv_heap st) p = Some (local_ctx k a)"
    using queue_ok_head(1) [OF q] by blast
  have "mRunning (lc_svc ?s)" using inv by (simp add: kv_inv_at_def service_ok_def)
  with run e(2) obtain st2 where h: "HandleLocalContext \<lparr>mArg = Some a, mCtxType = k\<rparr> ?s = Done st2"
    and st1: "mDataStore st1 = mDataStore st2"
    by (auto simp: Run_one_def base_Process_def log_center_def lc_base_def read_ctx_def GetType_def LogCenter_Process_def
        GetArg_def on_heap_def outcome_simps)
  show ?thesis
  proof (cases rs)
    case (Cons r rs')
    with e(1) have ka: "k = LOG_recover_log" "a = RecordArg r" by (simp_all add: lc_entries_def)
    have "r \<in> set R0" using inv Cons by (simp add: kv_inv_at_def core_def)
    with no have nd: "record_spares t v r" by blast
    from h ka obtain e1 where "UpdateDataStore r ?s = Done (e1, st2)"
      by (auto simp: HandleLocalContext_def HandleRecoverLog_def log_ctx_ops arg_record_def outcome_simps)
    from UpdateDataStore_table(1) [OF this nd] show ?thesis by (simp add: st1)
  next
    case Nil
    with e(1) obtain r where ka: "k = LOG_write_log" "a = RecordArg r" by (cases ws) (auto simp: lc_entries_def)
    from h ka obtain e1 where w: "HandleWriteOper r ?s = Done (e1, st2)"
      by (auto simp: HandleLocalContext_def log_ctx_ops arg_record_def outcome_simps)
    have "mDataStore st2 = mDataStore ?s" by (subst HandleWriteOper_frame [OF w]) (simp add: set_plog_def)
    then show ?thesis by (simp add: st1)
  qed
qed

lemma LogCenter_Idle_store: "LogCenter_Idle s = Done s1 \<Longrightarrow> mDataStore s1 = mDataStore s"
  by (auto simp: LogCenter_Idle_def outcome_simps Let_def ReceiveKVResponse_def send_cases set_plog_def
      dest!: FlushLog_lc_frame collect_pairs_frame split: if_splits)

lemma log_step_store:
  assumes inv: "kv_inv dir w0 m0 R0 st" and no: "\<forall>r \<in> set R0. record_spares t v r"
    and run: "Run_step log_center st = Done (Some st1)"
  shows "grown t v (mDataStore st) (mDataStore st1)"
proof (cases "run_pc (lc_svc st) = InBatch \<and> ctxVec (lc_svc st) \<noteq> []")
  case True
  then obtain p ps where vec: "ctxVec (lc_svc st) = p # ps" by (cases "ctxVec (lc_svc st)") auto
  from inv obtain segs F rs ws rq where i: "kv_inv_at dir w0 m0 R0 segs F rs ws rq st" by (auto simp: kv_inv_def)
  from True run vec have "Run_one log_center p (st\<lparr>lc_svc := (lc_svc st)\<lparr>ctxVec := ps\<rparr>\<rparr>) = Done st1"
    by (auto simp: Run_step_def on_svc_def outcome_simps)
  from log_batch_table [OF i vec no this] show ?thesis .
next
  case False
  with run have "mDataStore st1 = mDataStore st"
    by (cases "run_pc (lc_svc st)")
      (auto simp: Run_step_def Run_enter_def Run_grab_def base_Init_def base_Finit_def
        on_svc_def outcome_simps Let_def split: if_splits list.splits dest!: LogCenter_Idle_store)
  then show ?thesis by simp
qed

text \<open>The log center hands out no log ids.\<close>

definition numbers :: "kvdb \<Rightarrow> u64 \<times> (u64 \<times> nat) list" where
  "numbers st = (mMaxLogId st, mRequests st)"

lemma LogCenter_Idle_numbers: "LogCenter_Idle s = Done s1 \<Longrightarrow> numbers s1 = numbers s"
  by (auto simp: numbers_def LogCenter_Idle_def outcome_simps Let_def ReceiveKVResponse_def send_cases set_plog_def
      dest!: FlushLog_lc_frame collect_pairs_frame split: if_splits)

lemma LogCenter_Process_numbers:
  assumes "LogCenter_Process p s = Done (b, s1)"
  shows "numbers s1 = numbers s"
proof -
  from assms obtain l s2 h where l: "HandleLocalContext l s = Done s2" "s1 = s2\<lparr>kv_heap := h\<rparr>"
    by (auto simp: LogCenter_Process_def outcome_simps split: if_splits)
  have w: "numbers s2 = numbers s" if "HandleWriteOper r s = Done (e, s2)" for r e
    by (subst HandleWriteOper_frame [OF that]) (simp add: set_plog_def numbers_def)
  have "numbers s2 = numbers s"
    by (cases "GetCtxType l") (use l(1) w in \<open>auto simp: HandleLocalContext_def HandleRecoverLog_def
      outcome_simps numbers_def dest!: UpdateDataStore_frame\<close>)
  with l(2) show ?thesis by (simp add: numbers_def)
qed

lemma log_center_base_numbers:
  assumes "base_Process log_center p s = Done (b, s1)"
  shows "numbers s1 = numbers s"
proof -
  from assms obtain c where c: "read_ctx p (kv_heap s) = Done c"
    by (auto simp: base_Process_def outcome_simps)
  show ?thesis
    by (cases "GetType c")
      (use assms c in \<open>auto simp: base_Process_def ProcessStart_def ProcessStop_def outcome_simps
        Let_def on_heap_def on_svc_def numbers_def\<close>)
qed

lemma log_step_numbers:
  assumes "Run_step log_center st = Done (Some st1)"
  shows "numbers st1 = numbers st"
proof (cases "run_pc (lc_svc st) = InBatch \<and> ctxVec (lc_svc st) \<noteq> []")
  case True
  let ?s = "st\<lparr>lc_svc := (lc_svc st)\<lparr>ctxVec := tl (ctxVec (lc_svc st))\<rparr>\<rparr>"
  from True assms have o: "Run_one log_center (hd (ctxVec (lc_svc st))) ?s = Done st1"
    by (cases "ctxVec (lc_svc st)") (auto simp: Run_step_def on_svc_def outcome_simps)
  have heap: "numbers (s\<lparr>kv_heap := h\<rparr>) = numbers s" for s h by (simp add: numbers_def)
  from o have "numbers st1 = numbers ?s"
    by (auto simp: Run_one_def outcome_simps on_heap_def heap split: if_splits
        dest!: LogCenter_Process_numbers log_center_base_numbers)
  then show ?thesis by (simp add: numbers_def)
next
  case False
  with assms show ?thesis
    by (cases "run_pc (lc_svc st)")
      (auto simp: Run_step_def Run_enter_def Run_grab_def base_Init_def base_Finit_def numbers_def
        on_svc_def outcome_simps Let_def split: if_splits list.splits dest!: LogCenter_Idle_numbers)
qed

lemma log_step_table:
  assumes "kv_inv dir w0 m0 R0 st" "table_inv t v st" "\<forall>r \<in> set R0. record_spares t v r"
    and run: "Run_step log_center st = Done (Some st1)"
  shows "table_step t v st st1"
  using table_step_same [OF assms(2) log_step_requests [OF run] log_step_store [OF assms(1,3) run]]
    log_step_numbers [OF run] by (simp add: numbers_def)

text \<open>A new request is answered from the store, or numbered; either way the store stays.\<close>

lemma HandleNewKVRequest_table:
  assumes core: "core dir w0 m0 R0 segs F rs ws (New a # rq') st" and inv: "table_inv t v st"
    and run: "HandleNewKVRequest a st = Done st1"
  shows "table_step t v st st1"
proof -
  have ids: "ids_ok m0 (concat (map snd segs) @ ws) (Suc (length (news rq'))) st" and
    req: "requests_ok (outstanding m0 (New a # rq') ws st) (a # news rq') st"
    using core by (simp_all add: core_def)
  then obtain rq where rq: "requests st a = Some rq" "\<not> mSync rq" by (auto simp: requests_ok_def)
  show ?thesis
  proof (cases "mOpType_rq rq = OP_get")
    case True
    let ?g = "Get (mTableName_rq rq) (mKey_rq rq) (mValue_rq rq) (mDataStore st)"
    let ?x = "Signal_rq (rq\<lparr>mErr := fst ?g, mValue_rq := snd ?g\<rparr>)"
    have st1: "st1 = st\<lparr>requests := (requests st)(a \<mapsto> ?x)\<rparr>"
      using run rq True by (simp add: HandleNewKVRequest_def GetOpType_rq_def split_beta)
    have "request_fine t v (mDataStore st) ?x"
      using True by (simp add: request_fine_def asks_for_def Signal_rq_def op_codes)
    then show ?thesis using req
      by (intro table_step_answer [OF inv rq, of ?x]) (simp_all add: st1 Signal_rq_def requests_ok_def)
  next
    case False
    let ?i = "mRequestID st + 1"
    have "?i \<notin> fst ` set (mRequests st)" using req new_log_id(4) [OF ids] by (auto simp: requests_ok_def)
    from arg_cong [OF mset_smap_insert [OF this, of a], of size]
    have l: "length (smap_insert ?i a (mRequests st)) = Suc (length (mRequests st))" by simp
    have eq: "requests st1 = requests st" "mDataStore st1 = mDataStore st" "mMaxLogId st1 = mMaxLogId st + 1"
      "mRequests st1 = smap_insert ?i a (mRequests st)"
      using run rq(1) False by (auto simp: HandleNewKVRequest_def GetOpType_rq_def ReceiveClientRequest_def
          GenerateLogId_def AppendLogRecord_lc_def send_cases outcome_simps Let_def split: if_splits)
    have "unat (mMaxLogId st + 1) \<le> Suc (unat (mMaxLogId st))"
      by (simp add: unat_word_ariths take_bit_nat_def)
    with l show ?thesis by (intro table_step_same [OF inv]) (simp_all add: eq)
  qed
qed

lemma request_batch_table:
  assumes inv: "kv_inv_at dir w0 m0 R0 segs F rs ws rq st" and vec: "ctxVec (rc_svc st) = p # ps"
    and t: "table_inv t v st"
    and run: "Run_one request_center p (st\<lparr>rc_svc := (rc_svc st)\<lparr>ctxVec := ps\<rparr>\<rparr>) = Done st1"
  shows "table_step t v st st1"
proof -
  let ?s = "st\<lparr>rc_svc := (rc_svc st)\<lparr>ctxVec := ps\<rparr>\<rparr>"
  have s: "table_step t v st ?s" by (rule table_step_same [OF t]) simp_all
  then have ts: "table_inv t v ?s" by (simp add: table_step_def)
  have q: "queue_ok (kv_heap st) (pending log_center st) (p # ps @ mQueue (rc_svc st))
      (lc_entries rs ws) (map rc_entry rq)"
    using inv vec by (simp add: kv_inv_at_def pending_def)
  obtain k a RQ where e: "map rc_entry rq = (k, a) # RQ" "ctxs (kv_heap st) p = Some (local_ctx k a)"
    using queue_ok_head(2) [OF q] by (elim exE conjE) (rule that)
  then obtain x rq' where rq: "rq = x # rq'" "rc_entry x = (k, a)" by auto
  have core: "core dir w0 m0 R0 segs F rs ws (x # rq') ?s"
    using inv rq(1) by (simp add: kv_inv_at_def)
  have "mRunning (rc_svc ?s)" using inv by (simp add: kv_inv_at_def service_ok_def)
  with run e(2) obtain st2 where h: "HandleLocalRequest \<lparr>mArg = Some a, mCtxType = k\<rparr> ?s = Done st2"
    and st1: "requests st1 = requests st2" "mDataStore st1 = mDataStore st2"
      "mRequests st1 = mRequests st2" "mMaxLogId st1 = mMaxLogId st2"
    by (auto simp: Run_one_def base_Process_def request_center_def rc_base_def read_ctx_def GetType_def
        RequestCenter_Process_def GetArg_def on_heap_def outcome_simps)
  have st2: "table_step t v ?s st2"
  proof (cases x)
    case (New b)
    with rq(2) h have "HandleNewKVRequest b ?s = Done st2"
      by (auto simp: HandleLocalRequest_def log_ctx_ops arg_request_def outcome_simps)
    from HandleNewKVRequest_table [OF core [unfolded New] ts this] show ?thesis .
  next
    case (Resp r)
    with rq(2) h have r: "respond (pairs r) ?s = Done st2"
      by (auto simp: HandleLocalRequest_def log_ctx_ops arg_response_def HandleKVResponse_def outcome_simps)
    have "r = \<lparr>pairs = pairs r\<rparr>" by (cases r) simp
    then have "core dir w0 m0 R0 segs F rs ws (Resp \<lparr>pairs = pairs r\<rparr> # rq') ?s" using core Resp by metis
    from respond_table [OF this ts r] show ?thesis .
  qed
  then have "table_inv t v st2" unfolding table_step_def by blast
  then have "table_step t v st2 st1" by (rule table_step_same) (simp_all add: st1)
  with table_step_trans [OF s table_step_trans [OF st2]] show ?thesis by blast
qed

lemma request_step_table:
  assumes inv: "kv_inv dir w0 m0 R0 st" and t: "table_inv t v st"
    and run: "Run_step request_center st = Done (Some st1)"
  shows "table_step t v st st1"
proof (cases "run_pc (rc_svc st) = InBatch \<and> ctxVec (rc_svc st) \<noteq> []")
  case True
  then obtain p ps where vec: "ctxVec (rc_svc st) = p # ps" by (cases "ctxVec (rc_svc st)") auto
  from inv obtain segs F rs ws rq where i: "kv_inv_at dir w0 m0 R0 segs F rs ws rq st" by (auto simp: kv_inv_def)
  from True run vec have "Run_one request_center p (st\<lparr>rc_svc := (rc_svc st)\<lparr>ctxVec := ps\<rparr>\<rparr>) = Done st1"
    by (auto simp: Run_step_def on_svc_def outcome_simps)
  from request_batch_table [OF i vec t this] show ?thesis .
next
  case False
  with run have "requests st1 = requests st \<and> mDataStore st1 = mDataStore st \<and>
      mRequests st1 = mRequests st \<and> mMaxLogId st1 = mMaxLogId st"
    by (cases "run_pc (rc_svc st)")
      (auto simp: Run_step_def Run_enter_def Run_grab_def base_Init_def base_Finit_def base_Idle_def
        on_svc_def outcome_simps Let_def split: if_splits list.splits)
  then show ?thesis by (intro table_step_same [OF t]) simp_all
qed

text \<open>A post adds one request that waits.\<close>

lemma post_table:
  assumes t: "table_inv t v st" and may: "loads t v st rq'" and x: "requests st a = Some rq" "mSync rq"
    and run: "PostKVRequest a (st\<lparr>requests := (requests st)(a \<mapsto> rq')\<rparr>) = Done st1"
  shows "table_inv t v st1" "mDataStore st1 = mDataStore st" "requests st1 = (requests st)(a \<mapsto> Wait_rq rq')"
    "ids_within N st \<Longrightarrow> ids_within (Suc N) st1"
proof -
  from run show st1: "requests st1 = (requests st)(a \<mapsto> Wait_rq rq')" "mDataStore st1 = mDataStore st"
    by (auto simp: PostKVRequest_def EnqueueKVRequest_def send_rc_cases outcome_simps split: if_splits)
  from run have ids: "mRequests st1 = mRequests st" "mMaxLogId st1 = mMaxLogId st"
    by (auto simp: PostKVRequest_def EnqueueKVRequest_def send_rc_cases outcome_simps split: if_splits)
  have "request_fine t v (mDataStore st) (Wait_rq rq')"
    using may by (simp add: loads_def request_fine_def asks_for_def Wait_rq_def request_spares_def)
  from table_inv_put [OF t _ this st1] show "table_inv t v st1" by simp
  have "waiting st1 = insert a (waiting st)" by (auto simp: waiting_def st1 Wait_rq_def)
  then have "card (waiting st1) \<le> Suc (card (waiting st))" by (simp add: card_insert_le_m1 card_insert_if)
  then show "ids_within (Suc N) st1" if "ids_within N st" using that by (simp add: ids_within_def ids)
qed

lemma ids_within_max:
  assumes "kv_inv dir w0 m0 R0 st" "ids_within N st"
  shows "unat (mMaxLogId st) \<le> N"
proof -
  from assms(1) obtain segs F rs ws rq where "core dir w0 m0 R0 segs F rs ws rq st"
    by (auto simp: kv_inv_def kv_inv_at_def)
  then have req: "requests_ok (outstanding m0 rq ws st) (news rq) st" by (simp add: core_def)
  have "snd ` set (mRequests st) \<subseteq> waiting st"
  proof
    fix a assume "a \<in> snd ` set (mRequests st)"
    with requests_ok_busy [OF req] show "a \<in> waiting st" by (auto simp: waiting_def)
  qed
  moreover have "finite (waiting st)"
    by (rule finite_subset [of _ "dom (requests st)"]) (use req in \<open>auto simp: waiting_def requests_ok_def\<close>)
  moreover have "card (snd ` set (mRequests st)) = length (mRequests st)"
  proof -
    have "distinct (map snd (mRequests st))" using req by (simp add: requests_ok_def)
    from distinct_card [OF this] show ?thesis by simp
  qed
  ultimately have "length (mRequests st) \<le> card (waiting st)" by (metis card_mono)
  with assms(2) show ?thesis by (simp add: ids_within_def)
qed

lemma loads_start:
  assumes d: "database dbDir dir w fs alloc cl st0" and no: "\<forall>r \<in> set (all_records fs). record_spares t v r"
  shows "table_inv t v st0 \<and> requests st0 = cl \<and>
    (\<exists>m0 R0. kv_inv dir (kv_world st0) m0 R0 st0 \<and> (\<forall>r \<in> set R0. record_spares t v r))"
proof -
  let ?R = "map sealed (all_records fs)"
  from d obtain st1 where d1: "idle_clients cl" "log_disk dir w fs" "inj alloc" "with_slash dbDir = Done dir"
    "KVDB_Instance dbDir w alloc cl = Done st1" "KVDB_Start st1 = Done (E_OK, st0)" by (auto simp: database_def)
  from KVDB_Start_ready [OF d1(2,1,3,4)] d1(5,6) obtain m0 where
    k0: "kv_inv dir (kv_world st0) m0 ?R st0" and cl: "requests st0 = cl"
    by (metis Pair_inject kv_invI outcome.inject(1))
  have "\<forall>r \<in> set ?R. record_spares t v r"
    using no by (auto simp: record_spares_def sealed_def split: option.splits)
  moreover have "table_inv t v st0"
    using d1(1) by (auto simp: table_inv_def cl idle_clients_def request_fine_def asks_for_def is_write_op_def op_codes)
  ultimately show ?thesis using k0 cl by blast
qed

end
