(* ===== verification/KVStop.thy ===== *)
theory KVStop
  imports KVTables
begin

text \<open>
  \<^verbatim>\<open>KVDB::Stop\<close> while both threads of the database run on. With no request waiting the stop is
  clean in every interleaving. With a write waiting that the request center has not numbered yet it is
  a race: the process may stop at an assertion, and the client may be left without an answer.
\<close>

section \<open>A service whose flag is cleared\<close>

lemma run_steps_Suc:
  "Run_step S st = Done (Some st1) \<Longrightarrow> run_steps (Suc n) S st = run_steps n S st1"
  by simp

lemma run_steps_Exited: "run_pc (svc S st) = Exited \<Longrightarrow> run_steps n S st = Done st"
  by (cases n) (simp_all add: Run_step_def)

text \<open>\<open>P\<close> stands for the parts of the program that lie outside the service and the heap.\<close>

definition outside :: "('m, 'a, 's, 'st) service \<Rightarrow> ('st \<Rightarrow> 'b) \<Rightarrow> bool" where
  "outside S P \<longleftrightarrow> (\<forall>s st. P (set_svc S s st) = P st) \<and> (\<forall>h st. P (set_heap S h st) = P st) \<and>
     (\<forall>st. vFinit S st = Done st)"

text \<open>The thread has left the loop, and touched only the contexts it was given.\<close>

definition leaves :: "nat \<Rightarrow> ('m, 'a, 's, 'st) service \<Rightarrow> nat set \<Rightarrow> 'st \<Rightarrow> 'st \<Rightarrow> bool" where
  "leaves k S A st st' \<longleftrightarrow> (\<forall>n \<ge> k. run_steps n S st = Done st') \<and> run_pc (svc S st') = Exited \<and>
     (\<forall>q. q \<notin> A \<longrightarrow> ctxs (heap S st') q = ctxs (heap S st) q)"

lemma leaves_step:
  assumes "Run_step S st = Done (Some st1)" "leaves k S A st1 st'"
    "\<And>q. q \<notin> B \<Longrightarrow> ctxs (heap S st1) q = ctxs (heap S st) q" "A \<subseteq> B"
  shows "leaves (Suc k) S B st st'"
proof -
  have "run_steps n S st = Done st'" if "Suc k \<le> n" for n
    using that assms(1,2) by (cases n) (simp_all add: leaves_def)
  with assms(2-4) show ?thesis unfolding leaves_def by auto
qed

context logic_service_laws
begin

lemma stopped_head:
  assumes "\<not> mRunning (svc S st)" "run_pc (svc S st) = AtHead" "outside S P"
  shows "\<exists>st'. leaves 1 S {} st st' \<and> P st' = P st"
proof -
  let ?st' = "on_svc S (\<lambda>s. s\<lparr>run_pc := Exited\<rparr>) st"
  have "Run_step S st = Done (Some ?st')" using assms by (simp add: Run_step_def outside_def)
  moreover have "leaves 0 S {} ?st' ?st'" by (simp add: leaves_def run_steps_Exited)
  ultimately have "leaves (Suc 0) S {} st ?st'" by (rule leaves_step) simp_all
  moreover have "P ?st' = P st" using assms(3) by (simp add: on_svc_def outside_def)
  ultimately show ?thesis by auto
qed

lemma stopped_one:
  assumes "\<not> mRunning (svc S st)" "ctxs (heap S st) p = Some c" "mRef c = 1"
  shows "Run_one S p st = Done (set_heap S ((heap S st)\<lparr>ctxs := (ctxs (heap S st))(p := None)\<rparr>) st)"
proof -
  let ?h1 = "(heap S st)\<lparr>ctxs := (ctxs (heap S st))(p \<mapsto> c\<lparr>mUnion := UNull\<rparr>)\<rparr>"
  have "modify_ctx p (SetMessage None) (heap S st) = Done ?h1"
    using assms by (simp add: modify_ctx_def SetMessage_def)
  moreover have "DecRef p ?h1 = Done ((heap S st)\<lparr>ctxs := (ctxs (heap S st))(p := None)\<rparr>)"
    using assms by (simp add: DecRef_def read_ctx_def destroy_ctx_def)
  ultimately show ?thesis using assms(1) by (simp add: Run_one_def on_heap_def layout set_heap_twice)
qed

lemma stopped_batch:
  "ctxVec (svc S st) = ps \<Longrightarrow> \<not> mRunning (svc S st) \<Longrightarrow> run_pc (svc S st) = InBatch \<Longrightarrow> outside S P \<Longrightarrow>
    distinct ps \<Longrightarrow> \<forall>p \<in> set ps. \<exists>c. ctxs (heap S st) p = Some c \<and> mRef c = 1 \<Longrightarrow>
    \<exists>st'. leaves (length ps + 2) S (set ps) st st' \<and> P st' = P st"
proof (induction ps arbitrary: st)
  case Nil
  let ?st1 = "on_svc S (\<lambda>s. s\<lparr>run_pc := AtHead\<rparr>) st"
  have step: "Run_step S st = Done (Some ?st1)" using Nil by (simp add: Run_step_def)
  from stopped_head [of ?st1 P] Nil obtain st' where st': "leaves 1 S {} ?st1 st'" "P st' = P ?st1" by auto
  have "leaves (Suc 1) S {} st st'" by (rule leaves_step [OF step st'(1)]) simp_all
  moreover have "P ?st1 = P st" using Nil(4) by (simp add: on_svc_def outside_def)
  ultimately show ?case using st'(2) by (auto simp: numeral_2_eq_2)
next
  case (Cons p ps)
  then obtain c where c: "ctxs (heap S st) p = Some c" "mRef c = 1" by auto
  let ?h2 = "(heap S st)\<lparr>ctxs := (ctxs (heap S st))(p := None)\<rparr>"
  let ?st0 = "on_svc S (\<lambda>s. s\<lparr>ctxVec := ps\<rparr>) st"
  let ?st1 = "set_heap S ?h2 ?st0"
  have one: "Run_one S p ?st0 = Done ?st1" using stopped_one [of ?st0 p c] c Cons.prems(2) by simp
  have step: "Run_step S st = Done (Some ?st1)"
    using Cons.prems(1,3) one by (simp add: Run_step_def)
  have "\<exists>st'. leaves (length ps + 2) S (set ps) ?st1 st' \<and> P st' = P ?st1"
    by (rule Cons.IH) (use Cons.prems in \<open>auto simp: layout\<close>)
  then obtain st' where st': "leaves (length ps + 2) S (set ps) ?st1 st'" "P st' = P ?st1" by blast
  have "leaves (Suc (length ps + 2)) S (set (p # ps)) st st'"
    by (rule leaves_step [OF step st'(1)]) (auto simp: layout)
  moreover have "P ?st1 = P st" using Cons.prems(4) by (simp add: on_svc_def outside_def)
  ultimately show ?case using st'(2) by auto
qed

text \<open>From anywhere in the loop, if an idle service that polls has nothing to do.\<close>

lemma stopped_leaves:
  assumes s: "\<not> mRunning (svc S st)" "loop_wf (svc S st)" "run_pc (svc S st) \<noteq> Entering" and P: "outside S P"
    and ctx: "distinct (pending S st)" "\<forall>p \<in> set (pending S st). \<exists>c. ctxs (heap S st) p = Some c \<and> mRef c = 1"
    and idle: "run_pc (svc S st) = Waiting \<longrightarrow> mQueue (svc S st) \<noteq> [] \<or> mSleepNanosec (svc S st) = 0 \<or>
      (\<forall>st1. P st1 = P st \<longrightarrow> vIdle S st1 = Done st1)"
  shows "\<exists>st'. leaves (length (pending S st) + 3) S (set (pending S st)) st st' \<and> P st' = P st"
proof (cases "run_pc (svc S st)")
  case AtHead
  from stopped_head [OF s(1) AtHead P] obtain st' where "leaves 1 S {} st st'" "P st' = P st" by blast
  then show ?thesis by (auto simp: leaves_def)
next
  case InBatch
  have "\<exists>st'. leaves (length (ctxVec (svc S st)) + 2) S (set (ctxVec (svc S st))) st st' \<and> P st' = P st"
    by (rule stopped_batch [OF refl s(1) InBatch P]) (use ctx in \<open>auto simp: pending_def\<close>)
  then show ?thesis by (auto simp: leaves_def pending_def)
next
  case Waiting
  let ?st1 = "on_svc S (\<lambda>s. s\<lparr>ctxVec := mQueue s, mQueue := [], run_pc := InBatch\<rparr>) st"
  have vec: "ctxVec (svc S st) = []" using s(2) Waiting by (simp add: loop_wf_def)
  have same: "P ?st1 = P st" using P by (simp add: on_svc_def outside_def)
  have step: "Run_step S st = Done (Some ?st1)"
    using Waiting s(1) idle same by (auto simp: Run_step_def Run_grab_def)
  have "\<exists>st'. leaves (length (mQueue (svc S st)) + 2) S (set (mQueue (svc S st))) ?st1 st' \<and> P st' = P ?st1"
    by (rule stopped_batch) (use s(1) P ctx vec in \<open>auto simp: pending_def\<close>)
  then obtain st' where st': "leaves (length (mQueue (svc S st)) + 2) S (set (mQueue (svc S st))) ?st1 st'"
    "P st' = P ?st1" by blast
  have "leaves (Suc (length (mQueue (svc S st)) + 2)) S (set (mQueue (svc S st))) st st'"
    by (rule leaves_step [OF step st'(1)]) simp_all
  with st'(2) same show ?thesis using vec by (auto simp: pending_def eval_nat_numeral)
next
  case Exited
  then show ?thesis by (intro exI [of _ st]) (simp add: leaves_def run_steps_Exited)
qed (use s(3) in simp)

end

section \<open>Stopping the database\<close>

definition answers_of :: "kvdb \<Rightarrow> (nat \<rightharpoonup> kv_request) \<times> data_store" where
  "answers_of st = (requests st, mDataStore st)"

lemma outside_centers:
  "outside log_center (\<lambda>st. (answers_of st, rc_svc st))" "outside request_center (\<lambda>st. (answers_of st, lc_svc st))"
  by (simp_all add: outside_def answers_of_def log_center_def lc_base_def request_center_def rc_base_def base_Finit_def)

text \<open>What the request center still has to do, when the log center has gone.\<close>

definition left_for_requests :: "nat \<Rightarrow> kvdb \<Rightarrow> bool" where
  "left_for_requests n st \<longleftrightarrow> service_ok 0 (rc_svc st) \<and> distinct (pending request_center st) \<and>
     (\<forall>p \<in> set (pending request_center st). \<exists>c. ctxs (kv_heap st) p = Some c \<and> mRef c = 1) \<and>
     length (pending request_center st) \<le> n"

lemma left_for_requestsI:
  assumes "queue_ok h lcp (pending request_center st) LQ RQ" "service_ok 0 (rc_svc st)"
    "length (pending request_center st) \<le> n" "\<And>q. q \<notin> set lcp \<Longrightarrow> ctxs (kv_heap st) q = ctxs h q"
  shows "left_for_requests n st"
proof -
  have "distinct (lcp @ pending request_center st)" "list_all2 (holds_item h) (pending request_center st) RQ"
    using assms(1) by (simp_all add: queue_ok_def)
  moreover from this(2) have "\<exists>c. ctxs h p = Some c \<and> mRef c = 1" if "p \<in> set (pending request_center st)" for p
    using that by (auto simp: list_all2_conv_all_nth in_set_conv_nth holds_item_def)
  ultimately show ?thesis using assms(2-4) by (fastforce simp: left_for_requests_def)
qed

lemma log_center_stops:
  assumes i: "kv_inv_at dir w0 m0 R0 segs F rs ws rq st"
  shows "\<exists>st1. (\<forall>n \<ge> length (pending log_center st) + 3. run_steps n log_center (Stop log_center st) = Done st1) \<and>
    run_pc (lc_svc st1) = Exited \<and> answers_of st1 = answers_of st \<and>
    left_for_requests (Suc (length (pending request_center st))) st1"
proof -
  let ?s = "(lc_svc st)\<lparr>mRunning := False\<rparr>"
  let ?st = "st\<lparr>lc_svc := ?s\<rparr>"
  have S: "Stop log_center st = ?st" by (simp add: Stop_def on_svc_def)
  have ok: "service_ok 5000 (lc_svc st)" "service_ok 0 (rc_svc st)" using i by (simp_all add: kv_inv_at_def)
  have q: "queue_ok (kv_heap st) (pending log_center st) (pending request_center st) (lc_entries rs ws) (map rc_entry rq)"
    using i by (simp add: kv_inv_at_def)
  have pend: "pending log_center ?st = pending log_center st" "pending request_center ?st = pending request_center st"
    by (simp_all add: pending_def)
  have held: "distinct (pending log_center st)"
    "\<forall>p \<in> set (pending log_center st). \<exists>c. ctxs (kv_heap st) p = Some c \<and> mRef c = 1"
    using q by (auto simp: queue_ok_def list_all2_conv_all_nth in_set_conv_nth holds_item_def)
  show ?thesis
  proof (cases "run_pc (lc_svc st) = Waiting \<and> mQueue (lc_svc st) = []")
    case False
    have "\<exists>st'. leaves (length (pending log_center ?st) + 3) log_center (set (pending log_center ?st)) ?st st' \<and>
        (answers_of st', rc_svc st') = (answers_of ?st, rc_svc ?st)"
      by (rule lc.stopped_leaves [OF _ _ _ outside_centers(1)])
        (use ok False held in \<open>auto simp: service_ok_def loop_wf_def pend\<close>)
    then obtain st1 where st1: "leaves (length (pending log_center st) + 3) log_center (set (pending log_center st)) ?st st1"
      "answers_of st1 = answers_of st" "rc_svc st1 = rc_svc st" by (auto simp: pend answers_of_def)
    have "left_for_requests (Suc (length (pending request_center st))) st1"
      by (rule left_for_requestsI [of "kv_heap st" "pending log_center st" _ "lc_entries rs ws" "map rc_entry rq"])
        (use q ok st1(1,3) in \<open>auto simp: pending_def leaves_def\<close>)
    with st1(1,2) S show ?thesis by (auto simp: leaves_def)
  next
    case True
    let ?s1 = "?s\<lparr>ctxVec := [], mQueue := [], run_pc := InBatch\<rparr>"
    let ?st1 = "st\<lparr>lc_svc := ?s1\<rparr>"
    have none: "pending log_center st = []" using True ok(1) by (simp add: pending_def service_ok_def loop_wf_def)
    have step: "Run_step log_center ?st = obind (LogCenter_Idle ?st1) (\<lambda>st2. Done (Some st2))"
      using True ok(1) by (simp add: Run_step_def Run_grab_def on_svc_def service_ok_def)
    have core: "core dir w0 m0 R0 segs F rs ws rq ?st1" using i by (simp add: kv_inv_at_def)
    have "\<exists>st2. LogCenter_Idle ?st1 = Done st2 \<and> lc_svc st2 = ?s1 \<and>
      left_for_requests (Suc (length (pending request_center st))) st2"
    proof (cases "mToFlushLog st = []")
      case e: True
      have "left_for_requests (Suc (length (pending request_center st))) ?st1"
        by (rule left_for_requestsI [of "kv_heap st" "pending log_center st" _ "lc_entries rs ws" "map rc_entry rq"])
          (use q ok in \<open>auto simp: pending_def\<close>)
      with e show ?thesis by (simp add: LogCenter_Idle_def)
    next
      case ne: False
      have run: "mRunning (rc_svc ?st1)" using ok(2) by (simp add: service_ok_def)
      from core_idle [OF core _ run] ne obtain response st2 where
        st2: "LogCenter_Idle ?st1 = Done st2" "lc_svc st2 = ?s1"
        "kv_heap st2 = snd (alloc_ctx (local_ctx REQUEST_finish_data_request (ResponseArg response)) (kv_heap st))"
        "rc_svc st2 = (rc_svc st)\<lparr>mQueue := mQueue (rc_svc st) @ [next_ctx (kv_heap st)]\<rparr>" by auto
      from queue_ok_send(2) [OF q, of REQUEST_finish_data_request "ResponseArg response"]
      have "left_for_requests (Suc (length (pending request_center st))) st2"
        by (intro left_for_requestsI [of _ _ st2])
          (use ok(2) st2(3,4) in \<open>auto simp: pending_def service_ok_def loop_wf_def\<close>)
      with st2(1,2) show ?thesis by blast
    qed
    then obtain st2 where st2: "LogCenter_Idle ?st1 = Done st2" "lc_svc st2 = ?s1"
      "left_for_requests (Suc (length (pending request_center st))) st2" by blast
    have "answers_of st2 = answers_of st"
      using LogCenter_Idle_requests [OF st2(1)] LogCenter_Idle_store [OF st2(1)] by (simp add: answers_of_def)
    have "\<exists>st'. leaves (length ([] :: nat list) + 2) log_center (set []) st2 st' \<and>
        (answers_of st', rc_svc st') = (answers_of st2, rc_svc st2)"
      by (rule lc.stopped_batch [OF _ _ _ outside_centers(1)]) (use st2(2) in simp_all)
    then obtain st3 where st3: "leaves 2 log_center {} st2 st3" "answers_of st3 = answers_of st2" "rc_svc st3 = rc_svc st2"
      by (auto simp: eval_nat_numeral)
    have "left_for_requests (Suc (length (pending request_center st))) st3"
      using st2(3) st3(1,3) by (simp add: left_for_requests_def leaves_def pending_def)
    moreover have "run_steps n log_center ?st = Done st3" if "3 \<le> n" for n
      using that step st2(1) st3(1) by (cases n) (simp_all add: leaves_def)
    moreover have "run_pc (lc_svc st3) = Exited" using st3(1) by (simp add: leaves_def)
    ultimately show ?thesis using S st3(2) \<open>answers_of st2 = answers_of st\<close> none by auto
  qed
qed

lemma request_center_stops:
  assumes "left_for_requests n st"
  shows "\<exists>st1. (\<forall>k \<ge> n + 3. run_steps k request_center (Stop request_center st) = Done st1) \<and>
    run_pc (rc_svc st1) = Exited \<and> lc_svc st1 = lc_svc st \<and> answers_of st1 = answers_of st"
proof -
  let ?st = "st\<lparr>rc_svc := (rc_svc st)\<lparr>mRunning := False\<rparr>\<rparr>"
  have S: "Stop request_center st = ?st" by (simp add: Stop_def on_svc_def)
  have pend: "pending request_center ?st = pending request_center st" by (simp add: pending_def)
  have "\<exists>st'. leaves (length (pending request_center ?st) + 3) request_center (set (pending request_center ?st)) ?st st' \<and>
      (answers_of st', lc_svc st') = (answers_of ?st, lc_svc ?st)"
    by (rule rc.stopped_leaves [OF _ _ _ outside_centers(2)])
      (use assms in \<open>auto simp: left_for_requests_def service_ok_def loop_wf_def pend\<close>)
  then obtain st1 where "leaves (length (pending request_center st) + 3) request_center (set (pending request_center st)) ?st st1"
    "answers_of st1 = answers_of st" "lc_svc st1 = lc_svc st" by (auto simp: pend answers_of_def)
  then show ?thesis using assms S by (auto simp: leaves_def left_for_requests_def)
qed


text \<open>What one thread does alone is a run of the program that stops.\<close>

lemma stop_reach_trans: "stop_reach mp y z \<Longrightarrow> stop_reach mp x y \<Longrightarrow> stop_reach mp x z"
  by (induction rule: stop_reach.induct) (auto intro: stop_reach.stop_next)

lemma run_steps_stop:
  assumes "\<And>st st'. Run_step S st = Done (Some st') \<Longrightarrow> kv_step mp st st'" "run_steps k S st = Done st'"
  shows "stop_reach mp (pc, st) (pc, st')"
  using assms(2)
proof (induction k arbitrary: st)
  case (Suc k)
  then obtain r where r: "Run_step S st = Done r"
    "(case r of None \<Rightarrow> Done st | Some st1 \<Rightarrow> run_steps k S st1) = Done st'" by (auto simp: outcome_simps)
  show ?case
  proof (cases r)
    case (Some st1)
    have "stop_reach mp (pc, st) (pc, st1)"
      by (rule stop_next [OF stop_start others]) (rule assms(1), use r(1) Some in simp)
    moreover have "stop_reach mp (pc, st1) (pc, st')" using Suc.IH [of st1] r(2) Some by simp
    ultimately show ?thesis by (rule stop_reach_trans [rotated])
  qed (use r(2) in \<open>simp add: stop_start\<close>)
qed (simp add: stop_start)

lemma log_runs_stop: "run_steps k log_center st = Done st' \<Longrightarrow> stop_reach mp (pc, st) (pc, st')"
  by (rule run_steps_stop [OF kv_step.log_thread])

lemma request_runs_stop: "run_steps k request_center st = Done st' \<Longrightarrow> stop_reach mp (pc, st) (pc, st')"
  by (rule run_steps_stop [OF kv_step.request_thread])

lemma Join_other: "Join S False st = Done E_OK" for S :: "(unit, log_context, unit, kvdb) service"
  by (simp add: Join_def Thread_Join_def join_answer_def)

lemma stop_caller_simps [simp]:
  "stop_caller Joining_log st =
     Done (if run_pc (lc_svc st) = Exited then Some (Joining_requests, Stop request_center st) else None)"
  "stop_caller Joining_requests st = Done (if run_pc (rc_svc st) = Exited then Some (Stopped, st) else None)"
  "stop_caller Stopped st = Done None"
  by (simp_all add: stop_caller_def joins_def Join_other)

abbreviation no_posts :: "kvdb \<Rightarrow> kv_request \<Rightarrow> bool" where
  "no_posts st rq \<equiv> False"

text \<open>From every state in which the database can be stopped, the log thread and then the request thread can run alone.\<close>

lemma kv_inv_can_stop:
  assumes "kv_inv dir w0 m0 R0 st"
  shows "\<exists>st'. stop_reach mp (KVDB_Stop_begin st) (Stopped, st') \<and> run_pc (lc_svc st') = Exited \<and>
    run_pc (rc_svc st') = Exited \<and> answers_of st' = answers_of st"
proof -
  from assms obtain segs F rs ws rq where i: "kv_inv_at dir w0 m0 R0 segs F rs ws rq st" by (auto simp: kv_inv_def)
  from log_center_stops [OF i] obtain st1 where
    st1: "\<forall>n \<ge> length (pending log_center st) + 3. run_steps n log_center (Stop log_center st) = Done st1"
      "run_pc (lc_svc st1) = Exited" "answers_of st1 = answers_of st"
      "left_for_requests (Suc (length (pending request_center st))) st1" by blast
  from request_center_stops [OF st1(4)] obtain st2 where
    st2: "\<forall>k \<ge> Suc (length (pending request_center st)) + 3. run_steps k request_center (Stop request_center st1) = Done st2"
      "run_pc (rc_svc st2) = Exited" "lc_svc st2 = lc_svc st1" "answers_of st2 = answers_of st1" by blast
  note a = log_runs_stop [OF st1(1) [rule_format, OF order_refl], of mp Joining_log]
    and c = request_runs_stop [OF st2(1) [rule_format, OF order_refl], of mp Joining_requests]
  have b: "stop_reach mp (Joining_log, st1) (Joining_requests, Stop request_center st1)"
    by (rule stop_next [OF stop_start caller]) (use st1(2) in simp)
  have d: "stop_reach mp (Joining_requests, st2) (Stopped, st2)"
    by (rule stop_next [OF stop_start caller]) (use st2(2) in simp)
  have "stop_reach mp (KVDB_Stop_begin st) (Stopped, st2)"
    unfolding KVDB_Stop_begin_def using a b c d stop_reach_trans by meson
  with st1(2,3) st2(2-4) show ?thesis by auto
qed

section \<open>A stop with nobody waiting\<close>

text \<open>
  The log center only throws away what it has left; the request center may have responses left, but
  they are empty.
\<close>

definition in_loop :: "logic_service \<Rightarrow> bool" where
  "in_loop s \<longleftrightarrow> loop_wf s \<and> run_pc s \<noteq> Entering"

fun stop_phase :: "stop_pc \<Rightarrow> kvdb \<Rightarrow> bool" where
  "stop_phase Joining_log st \<longleftrightarrow> mRunning (rc_svc st) \<and> run_pc (rc_svc st) \<noteq> Exited"
| "stop_phase Joining_requests st \<longleftrightarrow> run_pc (lc_svc st) = Exited \<and> \<not> mRunning (rc_svc st)"
| "stop_phase Stopped st \<longleftrightarrow> run_pc (lc_svc st) = Exited \<and> run_pc (rc_svc st) = Exited"

definition stop_quiet :: "stop_pc \<Rightarrow> kvdb \<Rightarrow> bool" where
  "stop_quiet pc st \<longleftrightarrow> in_loop (lc_svc st) \<and> \<not> mRunning (lc_svc st) \<and> in_loop (rc_svc st) \<and>
     mSleepNanosec (rc_svc st) = 0 \<and> mToFlushLog st = [] \<and>
     distinct (pending log_center st @ pending request_center st) \<and>
     (\<forall>p \<in> set (pending log_center st). \<exists>c. ctxs (kv_heap st) p = Some c \<and> mRef c = 1) \<and>
     (\<forall>p \<in> set (pending request_center st).
        ctxs (kv_heap st) p = Some (local_ctx REQUEST_finish_data_request (ResponseArg \<lparr>pairs = []\<rparr>))) \<and>
     stop_phase pc st"

definition kept :: "kvdb \<Rightarrow> (nat \<rightharpoonup> kv_request) \<times> data_store \<times> world" where
  "kept st = (requests st, mDataStore st, kv_world st)"

definition stop_steps :: "logic_service \<Rightarrow> nat" where
  "stop_steps s = (case run_pc s of Exited \<Rightarrow> 0 | AtHead \<Rightarrow> 1 | InBatch \<Rightarrow> 2 + length (ctxVec s)
     | _ \<Rightarrow> 3 + length (mQueue s))"

text \<open>A thread does one more step of its loop, or throws away or answers the context it took first.\<close>

lemma quiet_log:
  assumes q: "stop_quiet pc st" and r: "run_pc (lc_svc st) \<noteq> Exited"
  shows "\<exists>st1. Run_step log_center st = Done (Some st1) \<and> stop_quiet pc st1 \<and> kept st1 = kept st \<and>
    stop_steps (lc_svc st1) < stop_steps (lc_svc st) \<and> rc_svc st1 = rc_svc st"
proof -
  let ?s = "lc_svc st"
  have loop: ?thesis if "Run_step log_center st = Done (Some (st\<lparr>lc_svc := s1\<rparr>))"
    "in_loop s1" "\<not> mRunning s1" "ctxVec s1 @ mQueue s1 = pending log_center st" "stop_steps s1 < stop_steps ?s" for s1
    by (intro exI [of _ "st\<lparr>lc_svc := s1\<rparr>"])
      (use that q r in \<open>cases pc; simp add: stop_quiet_def kept_def pending_def\<close>)
  show ?thesis
  proof (cases "run_pc ?s")
    case AtHead
    show ?thesis
      by (rule loop [of "?s\<lparr>run_pc := Exited\<rparr>"])
        (use AtHead q in \<open>simp_all add: Run_step_def on_svc_def base_Finit_def stop_quiet_def in_loop_def loop_wf_def
          pending_def stop_steps_def\<close>)
  next
    case Waiting
    show ?thesis
      by (rule loop [of "?s\<lparr>ctxVec := mQueue ?s, mQueue := [], run_pc := InBatch\<rparr>"])
        (use Waiting q in \<open>simp_all add: Run_step_def Run_grab_def Let_def on_svc_def LogCenter_Idle_def stop_quiet_def
          in_loop_def loop_wf_def pending_def stop_steps_def\<close>)
  next
    case InBatch
    show ?thesis
    proof (cases "ctxVec ?s")
      case Nil
      show ?thesis
        by (rule loop [of "?s\<lparr>run_pc := AtHead\<rparr>"])
          (use InBatch Nil q in \<open>simp_all add: Run_step_def on_svc_def stop_quiet_def
            in_loop_def loop_wf_def pending_def stop_steps_def\<close>)
    next
      case (Cons p ps)
      let ?st0 = "st\<lparr>lc_svc := ?s\<lparr>ctxVec := ps\<rparr>\<rparr>"
      let ?st1 = "?st0\<lparr>kv_heap := drop_ctx p (kv_heap st)\<rparr>"
      from q Cons obtain c where c: "ctxs (kv_heap st) p = Some c" "mRef c = 1"
        by (auto simp: stop_quiet_def pending_def)
      have "Run_one log_center p ?st0 = Done ?st1"
        using lc.stopped_one [of ?st0 p c] c q by (simp add: stop_quiet_def drop_ctx_def)
      then have "Run_step log_center st = Done (Some ?st1)" using InBatch Cons by (simp add: Run_step_def on_svc_def)
      moreover have "stop_quiet pc ?st1"
        using q Cons InBatch r by (cases pc) (auto simp: stop_quiet_def pending_def in_loop_def loop_wf_def drop_ctx_def)
      ultimately show ?thesis by (simp add: kept_def stop_steps_def InBatch Cons)
    qed
  qed (use q r in \<open>auto simp: stop_quiet_def in_loop_def\<close>)
qed

lemma quiet_request:
  assumes q: "stop_quiet pc st" and r: "run_pc (rc_svc st) \<noteq> Exited"
  shows "Run_step request_center st = Done None \<and> mRunning (rc_svc st) \<or>
    (\<exists>st1. Run_step request_center st = Done (Some st1) \<and> stop_quiet pc st1 \<and> kept st1 = kept st \<and>
      (\<not> mRunning (rc_svc st) \<longrightarrow> stop_steps (rc_svc st1) < stop_steps (rc_svc st)) \<and>
      mRunning (rc_svc st1) = mRunning (rc_svc st))"
proof -
  let ?s = "rc_svc st"
  have loop: ?thesis if "Run_step request_center st = Done (Some (st\<lparr>rc_svc := s1\<rparr>))"
    "in_loop s1" "mRunning s1 = mRunning ?s" "mSleepNanosec s1 = 0" "mRunning ?s \<longrightarrow> run_pc s1 \<noteq> Exited"
    "ctxVec s1 @ mQueue s1 = pending request_center st" "\<not> mRunning ?s \<longrightarrow> stop_steps s1 < stop_steps ?s" for s1
    by (intro disjI2 exI [of _ "st\<lparr>rc_svc := s1\<rparr>"])
      (use that q r in \<open>cases pc; simp add: stop_quiet_def kept_def pending_def\<close>)
  show ?thesis
  proof (cases "run_pc ?s")
    case AtHead
    show ?thesis
      by (rule loop [of "?s\<lparr>run_pc := (if mRunning ?s then Waiting else Exited)\<rparr>"])
        (use AtHead q in \<open>simp_all add: Run_step_def on_svc_def base_Finit_def stop_quiet_def in_loop_def loop_wf_def
          pending_def stop_steps_def\<close>)
  next
    case Waiting
    show ?thesis
    proof (cases "mQueue ?s = [] \<and> mRunning ?s")
      case True
      then show ?thesis using Waiting q by (simp add: Run_step_def Run_grab_def stop_quiet_def)
    next
      case False
      show ?thesis
        by (rule loop [of "?s\<lparr>ctxVec := mQueue ?s, mQueue := [], run_pc := InBatch\<rparr>"])
          (use Waiting q False in \<open>simp_all add: Run_step_def Run_grab_def Let_def on_svc_def stop_quiet_def
            in_loop_def loop_wf_def pending_def stop_steps_def\<close>)
    qed
  next
    case InBatch
    show ?thesis
    proof (cases "ctxVec ?s")
      case Nil
      show ?thesis
        by (rule loop [of "?s\<lparr>run_pc := AtHead\<rparr>"])
          (use InBatch Nil q in \<open>simp_all add: Run_step_def on_svc_def stop_quiet_def
            in_loop_def loop_wf_def pending_def stop_steps_def\<close>)
    next
      case (Cons p ps)
      let ?st0 = "st\<lparr>rc_svc := ?s\<lparr>ctxVec := ps\<rparr>\<rparr>"
      let ?st1 = "?st0\<lparr>kv_heap := drop_ctx p (kv_heap st)\<rparr>"
      let ?c = "local_ctx REQUEST_finish_data_request (ResponseArg \<lparr>pairs = []\<rparr>)"
      from q Cons have c: "ctxs (kv_heap st) p = Some ?c" by (simp add: stop_quiet_def pending_def)
      have "Run_one request_center p ?st0 = Done ?st1"
      proof (cases "mRunning ?s")
        case True
        have "HandleLocalRequest \<lparr>mArg = Some (ResponseArg \<lparr>pairs = []\<rparr>), mCtxType = REQUEST_finish_data_request\<rparr> ?st0 =
            Done ?st0" by (rule HandleLocalRequest_response) simp
        from request_center_one [OF _ _ this] True c show ?thesis by simp
      next
        case False
        then show ?thesis using rc.stopped_one [of ?st0 p ?c] c by (simp add: drop_ctx_def)
      qed
      then have "Run_step request_center st = Done (Some ?st1)" using InBatch Cons by (simp add: Run_step_def on_svc_def)
      moreover have "stop_quiet pc ?st1"
        using q Cons InBatch by (cases pc) (auto simp: stop_quiet_def pending_def in_loop_def loop_wf_def drop_ctx_def)
      ultimately show ?thesis by (simp add: kept_def stop_steps_def InBatch Cons)
    qed
  qed (use q r in \<open>auto simp: stop_quiet_def in_loop_def\<close>)
qed

lemma Exited_stuck: "run_pc (svc S st) = Exited \<Longrightarrow> Run_step S st = Done None"
  by (simp add: Run_step_def)

lemma quiet_caller:
  "stop_quiet pc st \<Longrightarrow> stop_caller pc st = Done (Some (pc', st')) \<Longrightarrow> stop_quiet pc' st' \<and> kept st' = kept st"
  by (cases pc) (auto simp: stop_quiet_def kept_def pending_def Stop_def on_svc_def in_loop_def loop_wf_def split: if_splits)

lemma quiet_step:
  assumes "stop_step no_posts (pc, st) (pc', st')" "stop_quiet pc st"
  shows "stop_quiet pc' st' \<and> kept st' = kept st"
  using assms(1)
proof cases
  case caller
  then show ?thesis using quiet_caller [OF assms(2)] by simp
next
  case others
  from others(2) show ?thesis
  proof cases
    case log_thread
    then have "run_pc (lc_svc st) \<noteq> Exited" using Exited_stuck [of log_center st] by auto
    from quiet_log [OF assms(2) this] log_thread others(1) show ?thesis by auto
  next
    case request_thread
    then have "run_pc (rc_svc st) \<noteq> Exited" using Exited_stuck [of request_center st] by auto
    from quiet_request [OF assms(2) this] request_thread others(1) show ?thesis by auto
  qed simp
qed

lemma quiet_reach:
  "stop_reach no_posts x x' \<Longrightarrow> stop_quiet (fst x) (snd x) \<Longrightarrow>
    stop_quiet (fst x') (snd x') \<and> kept (snd x') = kept (snd x)"
proof (induction rule: stop_reach.induct)
  case (stop_next x x')
  then show ?case using quiet_step [of "fst x" "snd x" "fst x'" "snd x'"] by simp
qed simp

lemma quiet_no_fault:
  assumes "stop_quiet pc st"
  shows "\<not> stop_faults no_posts (pc, st)"
proof -
  have "Run_step log_center st \<noteq> Abort f" for f
    using quiet_log [OF assms] Exited_stuck [of log_center st] by (cases "run_pc (lc_svc st) = Exited") auto
  moreover have "Run_step request_center st \<noteq> Abort f" for f
    using quiet_request [OF assms] Exited_stuck [of request_center st] by (cases "run_pc (rc_svc st) = Exited") auto
  moreover have "stop_caller pc st \<noteq> Abort f" for f by (cases pc) simp_all
  ultimately show ?thesis by (simp add: stop_faults_def kv_faults_def)
qed

text \<open>From every point of a clean stop the way to its end is short.\<close>

lemma quiet_log_ends:
  "stop_quiet pc st \<Longrightarrow> \<exists>st'. stop_reach no_posts (pc, st) (pc, st') \<and> stop_quiet pc st' \<and> run_pc (lc_svc st') = Exited"
proof (induction "stop_steps (lc_svc st)" arbitrary: st rule: less_induct)
  case less
  show ?case
  proof (cases "run_pc (lc_svc st) = Exited")
    case True
    with less.prems stop_start show ?thesis by blast
  next
    case False
    from quiet_log [OF less.prems False] obtain st1 where st1: "Run_step log_center st = Done (Some st1)"
      "stop_quiet pc st1" "stop_steps (lc_svc st1) < stop_steps (lc_svc st)" by blast
    from less.hyps [OF st1(3,2)] stop_reach_trans [OF _ stop_next [OF stop_start others [OF log_thread [OF st1(1)]]]]
    show ?thesis by blast
  qed
qed

lemma quiet_request_ends:
  "stop_quiet Joining_requests st \<Longrightarrow> \<exists>st'. stop_reach no_posts (Joining_requests, st) (Joining_requests, st') \<and>
    stop_quiet Joining_requests st' \<and> run_pc (rc_svc st') = Exited"
proof (induction "stop_steps (rc_svc st)" arbitrary: st rule: less_induct)
  case less
  show ?case
  proof (cases "run_pc (rc_svc st) = Exited")
    case True
    with less.prems stop_start show ?thesis by blast
  next
    case False
    have "\<not> mRunning (rc_svc st)" using less.prems by (simp add: stop_quiet_def)
    with quiet_request [OF less.prems False] obtain st1 where st1: "Run_step request_center st = Done (Some st1)"
      "stop_quiet Joining_requests st1" "stop_steps (rc_svc st1) < stop_steps (rc_svc st)" by blast
    from less.hyps [OF st1(3,2)] stop_reach_trans [OF _ stop_next [OF stop_start others [OF request_thread [OF st1(1)]]]]
    show ?thesis by blast
  qed
qed

lemma quiet_can_stop:
  assumes "stop_quiet pc st"
  shows "\<exists>st'. stop_reach no_posts (pc, st) (Stopped, st')"
proof -
  have last: "\<exists>st'. stop_reach no_posts (Joining_requests, st) (Stopped, st')" if "stop_quiet Joining_requests st" for st
  proof -
    from quiet_request_ends [OF that] obtain st1 where
      st1: "stop_reach no_posts (Joining_requests, st) (Joining_requests, st1)" "run_pc (rc_svc st1) = Exited" by blast
    have "stop_reach no_posts (Joining_requests, st1) (Stopped, st1)"
      by (rule stop_next [OF stop_start caller]) (use st1(2) in simp)
    from stop_reach_trans [OF this st1(1)] show ?thesis by blast
  qed
  show ?thesis
  proof (cases pc)
    case Joining_log
    from quiet_log_ends [OF assms [unfolded Joining_log]] obtain st1 where
      st1: "stop_reach no_posts (Joining_log, st) (Joining_log, st1)" "stop_quiet Joining_log st1"
        "run_pc (lc_svc st1) = Exited" by blast
    let ?st2 = "Stop request_center st1"
    have c: "stop_caller Joining_log st1 = Done (Some (Joining_requests, ?st2))" using st1(3) by simp
    have "stop_reach no_posts (Joining_log, st) (Joining_requests, ?st2)"
      by (rule stop_reach_trans [OF stop_next [OF stop_start caller [OF c]] st1(1)])
    moreover from last [of ?st2] quiet_caller [OF st1(2) c] obtain st' where
      "stop_reach no_posts (Joining_requests, ?st2) (Stopped, st')" by blast
    ultimately show ?thesis using stop_reach_trans Joining_log by blast
  next
    case Joining_requests
    with assms last show ?thesis by blast
  qed (use stop_start in blast)
qed

lemma no_news_no_answers:
  "news rq = [] \<Longrightarrow> answers rq = [] \<Longrightarrow> x \<in> set rq \<Longrightarrow> rc_entry x = (REQUEST_finish_data_request, ResponseArg \<lparr>pairs = []\<rparr>)"
proof (induction rq)
  case (Cons y rq)
  then show ?case by (cases y) auto
qed simp

lemma answered_stop_quiet:
  assumes "kv_inv dir w0 m0 R0 st" "all_answered st"
  shows "stop_quiet Joining_log (Stop log_center st) \<and> kept (Stop log_center st) = kept st"
proof -
  from assms(1) obtain segs F rs ws rq where i: "kv_inv_at dir w0 m0 R0 segs F rs ws rq st" by (auto simp: kv_inv_def)
  then have "requests_ok (outstanding m0 rq ws st) (news rq) st" by (simp add: kv_inv_at_def core_def)
  from answered_nothing_out [OF this assms(2)] have none: "answers rq = []" "mToFlushLog st = []" "news rq = []"
    by (simp_all add: outstanding_def)
  have q: "queue_ok (kv_heap st) (pending log_center st) (pending request_center st) (lc_entries rs ws) (map rc_entry rq)"
    and ok: "service_ok 5000 (lc_svc st)" "service_ok 0 (rc_svc st)"
    using i by (simp_all add: kv_inv_at_def)
  have "\<exists>c. ctxs (kv_heap st) p = Some c \<and> mRef c = 1" if "p \<in> set (pending log_center st)" for p
    using that q by (auto simp: queue_ok_def list_all2_conv_all_nth in_set_conv_nth holds_item_def)
  moreover have "ctxs (kv_heap st) p = Some (local_ctx REQUEST_finish_data_request (ResponseArg \<lparr>pairs = []\<rparr>))"
    if "p \<in> set (pending request_center st)" for p
  proof -
    have "list_all2 (\<lambda>p x. holds_item (kv_heap st) p (rc_entry x)) (pending request_center st) rq"
      using q by (simp add: queue_ok_def list_all2_map2)
    with that obtain x where "x \<in> set rq" "holds_item (kv_heap st) p (rc_entry x)"
      by (metis in_set_conv_nth list_all2_conv_all_nth)
    with no_news_no_answers [OF none(3,1)] show ?thesis by (auto simp: holds_item_def)
  qed
  moreover have "distinct (pending log_center st @ pending request_center st)" using q by (simp add: queue_ok_def)
  ultimately show ?thesis using ok none(2)
    by (simp add: stop_quiet_def kept_def Stop_def on_svc_def in_loop_def service_ok_def loop_wf_def pending_def)
qed

text \<open>C10: A stop with nobody waiting is clean: if every request has been answered and none is posted
  meanwhile, then however the stopping thread and the two threads of the database interleave, none of them
  runs into a fault, the answers, the tables and the files stay as they were, and from every point on the
  way Stop can still return; when it has, both threads have left their loops.\<close>

theorem answered_database_stops_cleanly:
  assumes "database dbDir dir w fs alloc cl st0" "kv_reach polite st0 st" "all_answered st"
    and "stop_reach (\<lambda>st rq. False) (KVDB_Stop_begin st) (pc, st1)"
  shows "\<not> stop_faults (\<lambda>st rq. False) (pc, st1) \<and>
    requests st1 = requests st \<and> mDataStore st1 = mDataStore st \<and> kv_world st1 = kv_world st \<and>
    (pc = Stopped \<longrightarrow> run_pc (lc_svc st1) = Exited \<and> run_pc (rc_svc st1) = Exited) \<and>
    (\<exists>st2. stop_reach (\<lambda>st rq. False) (pc, st1) (Stopped, st2))"
proof -
  from database_inv [OF assms(1,2)] answered_stop_quiet [OF _ assms(3)]
  have "stop_quiet Joining_log (Stop log_center st)" "kept (Stop log_center st) = kept st" by blast+
  with quiet_reach [OF assms(4)] have q: "stop_quiet pc st1" "kept st1 = kept st" by (simp_all add: KVDB_Stop_begin_def)
  moreover have "pc = Stopped \<longrightarrow> run_pc (lc_svc st1) = Exited \<and> run_pc (rc_svc st1) = Exited"
    using q(1) by (auto simp: stop_quiet_def)
  ultimately show ?thesis using quiet_no_fault quiet_can_stop by (simp add: kept_def)
qed

theorem answered_database_stops_cleanly_witness:
  "\<exists>(st :: kvdb) st2. all_answered st \<and> stop_reach (\<lambda>st rq. False) (KVDB_Stop_begin st) (Stopped, st2) \<and>
    run_pc (rc_svc st2) = Exited \<and> requests st2 = requests st"
proof -
  from demo_database obtain st0 where d: "database ''/l/'' ''/l/'' empty_disk [] id one_client st0"
    "requests st0 = one_client" by blast
  have a: "all_answered st0" using d(2) by (simp add: all_answered_def new_KVRequest_def)
  note stops = answered_database_stops_cleanly [OF d(1) kv_reach.start a]
  from stops [of "fst (KVDB_Stop_begin st0)" "snd (KVDB_Stop_begin st0)"] stop_start obtain st2 where
    st2: "stop_reach no_posts (KVDB_Stop_begin st0) (Stopped, st2)" by auto
  from stops [OF st2] a st2 show ?thesis by blast
qed

section \<open>A stop with a write on its way\<close>

text \<open>
  \<^verbatim>\<open>Stop\<close> joins the log center before it tells the request center. If the request center handles
  a write in between, the log center no longer takes messages, and the assertion that it did fails.
\<close>

lemma write_during_stop_aborts:
  assumes "requests st a = Some rq" "mOpType_rq rq \<noteq> OP_get" "\<not> mRunning (lc_svc st)"
  shows "HandleNewKVRequest a st = Abort Assertion_failed"
  using assms by (simp add: HandleNewKVRequest_def GetOpType_rq_def ReceiveClientRequest_def GenerateLogId_def
      AppendLogRecord_lc_def send_cases Let_def)

text \<open>What the request center meets while the log center is being joined.\<close>

definition race_at :: "nat \<Rightarrow> kvdb \<Rightarrow> rc_item list \<Rightarrow> bool" where
  "race_at a st rq \<longleftrightarrow> a \<in> set (news rq) \<and> (\<exists>x. requests st a = Some x \<and> mOpType_rq x \<noteq> OP_get) \<and>
     \<not> mRunning (lc_svc st) \<and> service_ok 0 (rc_svc st) \<and>
     (\<exists>dir w0 m0 R0 segs F rs ws. core dir w0 m0 R0 segs F rs ws rq st \<and>
       queue_ok (kv_heap st) (pending log_center st) (pending request_center st) (lc_entries rs ws) (map rc_entry rq))"

lemma race_service:
  "race_at a st rq \<Longrightarrow> service_ok 0 s \<Longrightarrow> ctxVec s @ mQueue s = pending request_center st \<Longrightarrow>
    race_at a (st\<lparr>rc_svc := s\<rparr>) rq"
  unfolding race_at_def by (simp add: pending_def)

lemma race_batch:
  assumes r: "race_at a st rq" and pc: "run_pc (rc_svc st) = InBatch" and vec: "ctxVec (rc_svc st) = p # ps"
  shows "Run_step request_center st = Abort Assertion_failed \<or>
    (\<exists>st1 rq1. Run_step request_center st = Done (Some st1) \<and> race_at a st1 rq1 \<and> length rq1 < length rq)"
proof -
  let ?s0 = "(rc_svc st)\<lparr>ctxVec := ps\<rparr>"
  let ?st0 = "st\<lparr>rc_svc := ?s0\<rparr>"
  from r obtain dir w0 m0 R0 segs F rs ws y where
    q: "queue_ok (kv_heap st) (pending log_center st) (p # ps @ mQueue (rc_svc st)) (lc_entries rs ws) (map rc_entry rq)"
    and core: "core dir w0 m0 R0 segs F rs ws rq ?st0"
    and a: "a \<in> set (news rq)" "requests st a = Some y" "mOpType_rq y \<noteq> OP_get"
    and ok: "\<not> mRunning (lc_svc st)" "service_ok 0 (rc_svc st)"
    by (auto simp: race_at_def pending_def vec)
  obtain k c RQ where e: "map rc_entry rq = (k, c) # RQ" "ctxs (kv_heap st) p = Some (local_ctx k c)"
    using queue_ok_head(2) [OF q] by (elim exE conjE) (rule that)
  then obtain x rq' where rq: "rq = x # rq'" "rc_entry x = (k, c)" "RQ = map rc_entry rq'" by auto
  have run: "mRunning (rc_svc ?st0)" using ok(2) by (simp add: service_ok_def)
  have go: ?thesis if h: "HandleLocalRequest \<lparr>mArg = Some c, mCtxType = k\<rparr> ?st0 = Done st2"
    and c2: "core dir w0 m0 R0 segs F rs ws rq' st2" "lc_svc st2 = lc_svc st" "rc_svc st2 = ?s0" "kv_heap st2 = kv_heap st"
    and a2: "a \<in> set (news rq')" "same_questions ?st0 st2" for st2
  proof -
    let ?st1 = "st2\<lparr>kv_heap := drop_ctx p (kv_heap st2)\<rparr>"
    have "Run_one request_center p ?st0 = Done ?st1"
      by (rule request_center_one [OF run _ h]) (use e(2) c2(4) in simp_all)
    then have "Run_step request_center st = Done (Some ?st1)"
      using pc vec by (simp add: Run_step_def on_svc_def)
    moreover have "race_at a ?st1 rq'"
    proof -
      have "map_option asks (requests st2 a) = map_option asks (requests ?st0 a)"
        using a2(2) unfolding same_questions_def by blast
      then obtain y2 where y2: "requests st2 a = Some y2" "asks y2 = asks y" using a(2) by auto
      then have "mOpType_rq y2 \<noteq> OP_get" using a(3) by (auto simp: asks_def)
      moreover have "queue_ok (kv_heap ?st1) (pending log_center ?st1) (pending request_center ?st1)
          (lc_entries rs ws) (map rc_entry rq')"
        using queue_ok_drop(2) [OF q [unfolded e(1)]] c2(2-4) rq(3) by (simp add: pending_def)
      moreover have "core dir w0 m0 R0 segs F rs ws rq' ?st1" using c2(1) by simp
      ultimately show ?thesis unfolding race_at_def
        by (intro conjI exI) (use a2(1) y2(1) c2(2,3) ok pc in \<open>simp_all add: service_ok_def loop_wf_def\<close>)
    qed
    ultimately show ?thesis using rq(1) by auto
  qed
  show ?thesis
  proof (cases x)
    case (Resp rsp)
    have kc: "k = REQUEST_finish_data_request" "c = ResponseArg rsp" using rq(2) Resp by simp_all
    have "core dir w0 m0 R0 segs F rs ws (Resp \<lparr>pairs = pairs rsp\<rparr> # rq') ?st0"
      using core rq(1) Resp by (cases rsp) simp
    from core_respond [OF this] obtain st2 where st2: "respond (pairs rsp) ?st0 = Done st2"
      "core dir w0 m0 R0 segs F rs ws rq' st2" "lc_svc st2 = lc_svc st" "rc_svc st2 = ?s0"
      "kv_heap st2 = kv_heap st" by auto
    from go [OF _ st2(2-5) _ respond_questions [OF st2(1)]] HandleLocalRequest_response [OF st2(1)] kc a(1) rq(1) Resp
    show ?thesis by simp
  next
    case (New b)
    have kc: "k = REQUEST_recv_data_request" "c = RequestArg b" using rq(2) New by simp_all
    have coreb: "core dir w0 m0 R0 segs F rs ws (New b # rq') ?st0" using core rq(1) New by simp
    then obtain z where z: "requests ?st0 b = Some z" by (auto simp: core_def requests_ok_def)
    show ?thesis
    proof (cases "mOpType_rq z = OP_get")
      case True
      from core_new_read [OF coreb z True] obtain st2 where st2: "HandleNewKVRequest b ?st0 = Done st2"
        "core dir w0 m0 R0 segs F rs ws rq' st2" "lc_svc st2 = lc_svc st" "rc_svc st2 = ?s0"
        "kv_heap st2 = kv_heap st" by auto
      have "b \<noteq> a" using True z a(2,3) by auto
      then have "a \<in> set (news rq')" using a(1) rq(1) New by simp
      with go [OF _ st2(2-5) _ HandleNewKVRequest_questions [OF st2(1)]] HandleLocalRequest_new [OF st2(1)] kc
      show ?thesis by simp
    next
      case False
      have "HandleNewKVRequest b ?st0 = Abort Assertion_failed"
        by (rule write_during_stop_aborts [OF z False]) (use ok(1) in simp)
      then have "RequestCenter_Process p ?st0 = Abort Assertion_failed"
        using e(2) kc by (simp add: RequestCenter_Process_def read_ctx_def GetType_def GetArg_def
            HandleLocalRequest_def log_ctx_ops arg_request_def)
      then have "Run_one request_center p ?st0 = Abort Assertion_failed"
        using rc.Run_one_local [of ?st0 p "local_ctx k c"] run e(2) by simp
      then show ?thesis using pc vec by (simp add: Run_step_def on_svc_def)
    qed
  qed
qed

lemma race_step:
  assumes r: "race_at a st rq"
  shows "Run_step request_center st = Abort Assertion_failed \<or>
    (\<exists>st1 rq1. Run_step request_center st = Done (Some st1) \<and> race_at a st1 rq1 \<and>
      5 * length rq1 + loop_distance (rc_svc st1) < 5 * length rq + loop_distance (rc_svc st))"
proof -
  let ?s = "rc_svc st"
  have ok: "service_ok 0 ?s" using r by (simp add: race_at_def)
  have loop: ?thesis if "Run_step request_center st = Done (Some (st\<lparr>rc_svc := s1\<rparr>))" "service_ok 0 s1"
    "ctxVec s1 @ mQueue s1 = pending request_center st" "loop_distance s1 < loop_distance ?s" for s1
    by (intro disjI2 exI [of _ "st\<lparr>rc_svc := s1\<rparr>"] exI [of _ rq])
      (use that race_service [OF r that(2,3)] in simp)
  show ?thesis
  proof (cases "run_pc ?s")
    case AtHead
    show ?thesis
      by (rule loop [of "?s\<lparr>run_pc := Waiting\<rparr>"])
        (use AtHead ok in \<open>simp_all add: Run_step_def on_svc_def service_ok_def loop_wf_def pending_def loop_distance_def\<close>)
  next
    case Waiting
    have vec: "ctxVec ?s = []" using ok Waiting by (simp add: service_ok_def loop_wf_def)
    have "rq \<noteq> []" using r by (auto simp: race_at_def)
    with r vec have "mQueue ?s \<noteq> []" by (auto simp: race_at_def queue_ok_def pending_def)
    then show ?thesis
      by (intro loop [of "?s\<lparr>ctxVec := mQueue ?s, mQueue := [], run_pc := InBatch\<rparr>"])
        (use Waiting ok vec in \<open>simp_all add: Run_step_def Run_grab_def on_svc_def service_ok_def loop_wf_def pending_def
          loop_distance_def Let_def\<close>)
  next
    case InBatch
    show ?thesis
    proof (cases "ctxVec ?s")
      case Nil
      with InBatch show ?thesis
        by (intro loop [of "?s\<lparr>run_pc := AtHead\<rparr>"])
          (use ok in \<open>simp_all add: Run_step_def on_svc_def service_ok_def loop_wf_def pending_def loop_distance_def\<close>)
    next
      case (Cons p ps)
      have less: "5 * length rq1 + loop_distance (rc_svc st1) < 5 * length rq + loop_distance ?s"
        if "length rq1 < length rq" for st1 :: kvdb and rq1
        using that loop_distance_le [of "rc_svc st1"] by simp
      from race_batch [OF r InBatch Cons] less show ?thesis by blast
    qed
  qed (use ok in \<open>simp_all add: service_ok_def\<close>)
qed

lemma race_aborts:
  "race_at a st rq \<Longrightarrow> \<exists>st'. stop_reach mp (pc, st) (pc, st') \<and> Run_step request_center st' = Abort Assertion_failed"
proof (induction "5 * length rq + loop_distance (rc_svc st)" arbitrary: st rq rule: less_induct)
  case less
  from race_step [OF less.prems] consider "Run_step request_center st = Abort Assertion_failed"
    | st1 rq1 where "Run_step request_center st = Done (Some st1)" "race_at a st1 rq1"
      "5 * length rq1 + loop_distance (rc_svc st1) < 5 * length rq + loop_distance (rc_svc st)" by blast
  then show ?case
  proof cases
    case 1
    with stop_start show ?thesis by blast
  next
    case (2 st1 rq1)
    from less.hyps [OF 2(3,2)] stop_reach_trans [OF _ stop_next [OF stop_start others [OF request_thread [OF 2(1)]]]]
    show ?thesis by blast
  qed
qed

text \<open>C11: Stopping the database while a write is on its way is a race with the client: if a posted write has
  not been numbered yet, then without any further post there is an interleaving in which the request center
  hands it to the log center that is being joined, and the assertion in that thread ends the process; and there
  is one in which Stop returns with both threads gone and every waiting client, this one too, left without an answer.\<close>

theorem stop_races_with_a_write:
  assumes "database dbDir dir w fs alloc cl st0" "kv_reach polite st0 st"
    and "requests st a = Some rq" "\<not> mSync rq" "mOpType_rq rq \<noteq> OP_get" "a \<notin> snd ` set (mRequests st)"
  shows "(\<exists>st1. stop_reach (\<lambda>st rq. False) (KVDB_Stop_begin st) (Joining_log, st1) \<and>
      Run_step request_center st1 = Abort Assertion_failed) \<and>
    (\<exists>st2. stop_reach (\<lambda>st rq. False) (KVDB_Stop_begin st) (Stopped, st2) \<and>
      run_pc (lc_svc st2) = Exited \<and> run_pc (rc_svc st2) = Exited \<and>
      requests st2 = requests st \<and> mDataStore st2 = mDataStore st)"
proof -
  from database_inv [OF assms(1,2)] obtain w0 m0 R0 where inv: "kv_inv dir w0 m0 R0 st" by blast
  then obtain segs F rs ws q where i: "kv_inv_at dir w0 m0 R0 segs F rs ws q st" by (auto simp: kv_inv_def)
  then have "requests_ok (outstanding m0 q ws st) (news q) st" by (simp add: kv_inv_at_def core_def)
  with assms(3,4,6) have a: "a \<in> set (news q)" unfolding requests_ok_def by blast
  have "race_at a (Stop log_center st) q"
    unfolding race_at_def
  proof (intro conjI exI)
    show "core dir w0 m0 R0 segs F rs ws q (Stop log_center st)"
      using i by (simp add: kv_inv_at_def Stop_def on_svc_def)
    show "queue_ok (kv_heap (Stop log_center st)) (pending log_center (Stop log_center st))
        (pending request_center (Stop log_center st)) (lc_entries rs ws) (map rc_entry q)"
      using i by (simp add: kv_inv_at_def Stop_def on_svc_def pending_def)
  qed (use i a assms(3,5) in \<open>simp_all add: kv_inv_at_def Stop_def on_svc_def\<close>)
  from race_aborts [OF this, of no_posts Joining_log] kv_inv_can_stop [OF inv, of no_posts]
  show ?thesis by (simp add: KVDB_Stop_begin_def answers_of_def)
qed

theorem stop_races_with_a_write_witness:
  "\<exists>(st :: kvdb) st1 st2. requests st 0 = Some (Wait_rq put_request) \<and>
    stop_reach (\<lambda>st rq. False) (KVDB_Stop_begin st) (Joining_log, st1) \<and>
    Run_step request_center st1 = Abort Assertion_failed \<and>
    stop_reach (\<lambda>st rq. False) (KVDB_Stop_begin st) (Stopped, st2) \<and> requests st2 0 = Some (Wait_rq put_request)"
proof -
  from demo_posted obtain st0 st where d: "database ''/l/'' ''/l/'' empty_disk [] id one_client st0"
    "kv_reach polite st0 st" "requests st 0 = Some (Wait_rq put_request)" "mRequests st = []" by blast
  have w: "\<not> mSync (Wait_rq put_request)" "mOpType_rq (Wait_rq put_request) \<noteq> OP_get"
    by (simp_all add: Wait_rq_def put_request_def new_KVRequest_def op_codes)
  have "0 \<notin> snd ` set (mRequests st)" using d(4) by simp
  from stop_races_with_a_write [OF d(1-3) w this] d(3) obtain st1 st2 where
    st1: "stop_reach no_posts (KVDB_Stop_begin st) (Joining_log, st1)" "Run_step request_center st1 = Abort Assertion_failed"
    and st2: "stop_reach no_posts (KVDB_Stop_begin st) (Stopped, st2)" "requests st2 0 = Some (Wait_rq put_request)"
    by auto
  show ?thesis by (intro exI conjI) (rule d(3), rule st1(1), rule st1(2), rule st2(1), rule st2(2))
qed

end
