(* ===== verification/ThreadLogger.thy ===== *)
theory ThreadLogger
  imports Msg LogicService FileSys Common
begin

text \<open>
  \<^verbatim>\<open>src/Common/src/ThreadLogger.cpp\<close> and its header: the service that is to write the log lines of all
  other threads to one file. Both its \<^verbatim>\<open>Init\<close> and \<^verbatim>\<open>WriteLog\<close> clear 100 bytes of an array of 20 first, a
  fault here, so a logger never runs in this model, and what its loop does is lemmas only. The formatted times, the microseconds and the thread number are what
  the library and the kernel answer, and are arguments.
\<close>

section \<open>The state\<close>

text \<open>\<open>file_pos\<close> is the file offset the kernel keeps for the descriptor.\<close>

record logger =
  lg_svc :: logic_service
  lg_heap :: "(nat, unit, unit) ctx_heap"
  lg_msgs :: msg_heap
  lg_next_msg :: nat
  lg_world :: world
  mLogFileName :: string
  mLogCount :: u32
  mFileFd :: fd
  file_pos :: nat

definition new_ThreadLogger :: "string \<Rightarrow> world \<Rightarrow> logger" where
  "new_ThreadLogger filename w =
     \<lparr>lg_svc = new_LogicService ''ThreaLogger'' 0, lg_heap = empty_heap, lg_msgs = Map.empty, lg_next_msg = 0,
      lg_world = w, mLogFileName = filename, mLogCount = 0, mFileFd = None, file_pos = 0\<rparr>"

definition LogDir :: string where "LogDir = ''/tmp/''"

text \<open>\<^verbatim>\<open>memset\<close> on a local array of the given size.\<close>

definition clear_array :: "nat \<Rightarrow> nat \<Rightarrow> bytes outcome" where
  "clear_array size_of n = (if n \<le> size_of then Done (replicate n 0) else Abort Out_of_bounds)"

text \<open>\<^verbatim>\<open>sprintf\<close> into a local array: the text and its terminator have to fit.\<close>

definition sprintf_array :: "nat \<Rightarrow> bytes \<Rightarrow> bytes outcome" where
  "sprintf_array size_of cs = (if length cs < size_of then Done cs else Abort Out_of_bounds)"

section \<open>Start and end\<close>

text \<open>The file is opened at offset 0, and what it holds already is kept.\<close>

definition Logger_open :: "string \<Rightarrow> logger \<Rightarrow> err \<times> logger" where
  "Logger_open stamp l =
     (let (f, w) = sys_open (LogDir @ mLogFileName l @ ''-'' @ stamp @ ''.log'') True (lg_world l);
          l1 = l\<lparr>lg_world := w, mFileFd := f, file_pos := 0\<rparr> in
      (if f = None then (case fst (next_resp (lg_world l)) of RFail e \<Rightarrow> e | _ \<Rightarrow> E_OK) else E_OK, l1))"

definition Logger_Init :: "string \<Rightarrow> logger \<Rightarrow> (err \<times> logger) outcome" where
  "Logger_Init stamp l = obind (clear_array 20 100) (\<lambda>_. Done (Logger_open stamp l))"

text \<open>The descriptor is closed and kept.\<close>

definition Logger_Finit :: "logger \<Rightarrow> logger outcome" where
  "Logger_Finit l = Done l"

section \<open>Writing\<close>

text \<open>\<^verbatim>\<open>write\<close> at the kernel's offset.\<close>

definition sys_write :: "fd \<Rightarrow> nat \<Rightarrow> bytes \<Rightarrow> world \<Rightarrow> (err + nat) \<times> world" where
  "sys_write fd off d w =
     (case fd of None \<Rightarrow> (Inl EBADF, w)
      | Some name \<Rightarrow>
        (let (r, w1) = next_resp w in
         case r of RFail e \<Rightarrow> (Inl e, w1)
         | _ \<Rightarrow> (let k = transfer r (length d) in
                (Inr k, set_file name (write_at (file_of w1 name) off (take k d)) w1))))"

lemma sys_write_progress:
  "sys_write fd off d w = (Inr k, w1) \<Longrightarrow> d \<noteq> [] \<Longrightarrow> 0 < k \<and> k \<le> length d"
  using transfer_pos [of "length d"] transfer_le [of _ "length d"]
  by (auto simp: sys_write_def Let_def split: option.splits prod.splits sysresp.splits)

text \<open>The loop of \<^verbatim>\<open>HandleLog\<close>; it gives up at the first error.\<close>

function write_log_loop :: "bytes \<Rightarrow> logger \<Rightarrow> logger" where
  "write_log_loop d l =
     (if d = [] then l
      else case sys_write (mFileFd l) (file_pos l) d (lg_world l) of
        (Inl e, w1) \<Rightarrow> l\<lparr>lg_world := w1\<rparr>
      | (Inr k, w1) \<Rightarrow> write_log_loop (drop k d) (l\<lparr>lg_world := w1, file_pos := file_pos l + k\<rparr>))"
  by pat_completeness auto
termination
  by (relation "measure (\<lambda>(d, l). length d)") (auto dest!: sym [of _ "sys_write _ _ _ _"] dest: sys_write_progress)

declare write_log_loop.simps [simp del]

definition lg_queue :: "(nat, unit, unit, logger) service" where
  "lg_queue =
     \<lparr>svc = lg_svc, set_svc = (\<lambda>s l. l\<lparr>lg_svc := s\<rparr>), heap = lg_heap, set_heap = (\<lambda>h l. l\<lparr>lg_heap := h\<rparr>),
      vInit = base_Init, vFinit = base_Finit, vIdle = base_Idle, vProcess = (\<lambda>p l. Done (False, l))\<rparr>"

definition HandleLog :: "nat \<Rightarrow> logger \<Rightarrow> logger outcome" where
  "HandleLog p l =
     obind (read_ctx p (lg_heap l)) (\<lambda>ctx.
     obind (GetMessage ctx) (\<lambda>q.
     obind (read_msg q (lg_msgs l)) (\<lambda>m.
     obind (get_string m) (\<lambda>(log, m1).
     let l1 = write_log_loop log l; l2 = l1\<lparr>mLogCount := mLogCount l1 + 1\<rparr> in
     obind (delete_msg q (lg_msgs l2)) (\<lambda>h.
     on_heap lg_queue (modify_ctx p (SetMessage None)) (l2\<lparr>lg_msgs := h\<rparr>))))))"

definition Logger_Process :: "nat \<Rightarrow> logger \<Rightarrow> (bool \<times> logger) outcome" where
  "Logger_Process p l =
     obind (read_ctx p (lg_heap l)) (\<lambda>ctx.
     case GetType ctx of
       OP_RECV \<Rightarrow> obind (HandleLog p l) (\<lambda>l1. Done (True, l1))
     | _ \<Rightarrow> Abort Assertion_failed)"

text \<open>The service; \<open>stamp\<close> is the time \<^verbatim>\<open>Init\<close> finds.\<close>

definition logger_service :: "string \<Rightarrow> (nat, unit, unit, logger) service" where
  "logger_service stamp =
     lg_queue\<lparr>vInit := Logger_Init stamp, vFinit := Logger_Finit, vProcess := Logger_Process\<rparr>"

section \<open>Posting a line\<close>

definition ascii :: "string \<Rightarrow> bytes" where
  "ascii = map (\<lambda>c. of_nat (of_char c))"

text \<open>\<open>post_log\<close> is the last part of \<^verbatim>\<open>WriteLog\<close>, from the new context on.\<close>

definition post_log :: "bytes \<Rightarrow> logger \<Rightarrow> logger outcome" where
  "post_log log l =
     (let (p, h) = alloc_ctx (new_OperContext OP_RECV) (lg_heap l) in
      obind (put_string log new_Msg) (\<lambda>m.
      let q = lg_next_msg l;
          l1 = l\<lparr>lg_heap := h, lg_msgs := (lg_msgs l)(q \<mapsto> m), lg_next_msg := Suc q\<rparr> in
      obind (on_heap lg_queue (modify_ctx p (SetMessage (Some q))) l1) (\<lambda>l2.
      obind (Enqueue lg_queue p l2) (\<lambda>(pushed, l3).
      obind (assert_that pushed) (\<lambda>_.
      on_heap lg_queue (DecRef p) l3)))))"

definition Logger_WriteLog :: "string \<Rightarrow> nat \<Rightarrow> nat \<Rightarrow> bytes \<Rightarrow> logger \<Rightarrow> logger outcome" where
  "Logger_WriteLog stamp tv_usec pid log l =
     obind (clear_array 20 100) (\<lambda>_.
     obind (clear_array 9 9) (\<lambda>_.
     obind (sprintf_array 9 (ascii ''.'' @ i2s (int tv_usec) @ ascii '' '')) (\<lambda>usec.
     let threadStr = ascii ''- LWP: '' @ i2s (int pid) @ ascii '' '' in
     post_log (ascii stamp @ usec @ threadStr @ log) l)))"

section \<open>The laws of a service\<close>

lemma logger_service_simps [simp]:
  "svc (logger_service t) = lg_svc" "set_svc (logger_service t) = (\<lambda>s l. l\<lparr>lg_svc := s\<rparr>)"
  "heap (logger_service t) = lg_heap" "set_heap (logger_service t) = (\<lambda>h l. l\<lparr>lg_heap := h\<rparr>)"
  "vInit (logger_service t) = Logger_Init t" "vFinit (logger_service t) = Logger_Finit"
  "vProcess (logger_service t) = Logger_Process" "vIdle (logger_service t) = base_Idle"
  "svc lg_queue = lg_svc" "set_svc lg_queue = (\<lambda>s l. l\<lparr>lg_svc := s\<rparr>)"
  "heap lg_queue = lg_heap" "set_heap lg_queue = (\<lambda>h l. l\<lparr>lg_heap := h\<rparr>)"
  by (simp_all add: logger_service_def lg_queue_def)

lemma write_log_loop_frame:
  "lg_svc (write_log_loop d l) = lg_svc l \<and> lg_heap (write_log_loop d l) = lg_heap l \<and>
   lg_msgs (write_log_loop d l) = lg_msgs l \<and> mLogCount (write_log_loop d l) = mLogCount l \<and>
   mFileFd (write_log_loop d l) = mFileFd l \<and> lg_next_msg (write_log_loop d l) = lg_next_msg l"
  by (induction d l rule: write_log_loop.induct)
    (subst (1 2 3 4 5 6) write_log_loop.simps, auto split: prod.splits sum.splits)

lemma HandleLog_svc: "HandleLog p l = Done l' \<Longrightarrow> lg_svc l' = lg_svc l"
  using write_log_loop_frame by (auto simp: HandleLog_def on_heap_def Let_def outcome_simps)

lemma Logger_Process_svc:
  assumes "Logger_Process p l = Done (b, l')"
  shows "only_enqueues (logger_service t) l l'"
proof -
  from assms obtain ctx where "read_ctx p (lg_heap l) = Done ctx" by (auto simp: Logger_Process_def outcome_simps)
  with assms have "HandleLog p l = Done l'"
    by (cases "GetType ctx") (auto simp: Logger_Process_def outcome_simps)
  from HandleLog_svc [OF this] show ?thesis by (intro only_enqueues_same) simp
qed

interpretation logger: logic_service_laws "logger_service t"
  by unfold_locales
    (auto simp: base_Idle_def Logger_Finit_def Logger_Init_def clear_array_def intro: only_enqueues_refl Logger_Process_svc)

section \<open>What the calls do\<close>

text \<open>The arrays that are cleared have 20 bytes: neither call gets past that.\<close>

lemma logging_overruns_its_buffer:
  "Run_enter (logger_service t) l = Abort Out_of_bounds" "Logger_WriteLog stamp usec pid log l = Abort Out_of_bounds"
  by (simp_all add: Run_enter_def Logger_Init_def Logger_WriteLog_def clear_array_def)

lemma write_log_loop_writes:
  assumes "mFileFd l = Some f" "benign (lg_world l)"
  shows "file_of (lg_world (write_log_loop d l)) f = write_at (file_of (lg_world l) f) (file_pos l) d \<and>
    file_pos (write_log_loop d l) = file_pos l + length d \<or> d = [] \<and> write_log_loop d l = l"
  using assms
proof (induction d l rule: write_log_loop.induct)
  case (1 d l)
  show ?case
  proof (cases "d = []")
    case True
    then show ?thesis by (simp add: write_log_loop.simps)
  next
    case False
    obtain r w where r: "next_resp (lg_world l) = (r, w)" by fastforce
    let ?k = "transfer r (length d)"
    let ?c = "file_of (lg_world l) f"
    let ?w1 = "set_file f (write_at ?c (file_pos l) (take ?k d)) w"
    let ?l1 = "l\<lparr>lg_world := ?w1, file_pos := file_pos l + ?k\<rparr>"
    have "\<forall>e. r \<noteq> RFail e" using next_resp_world(7) [OF r "1.prems"(2)] by blast
    then have sw: "sys_write (mFileFd l) (file_pos l) d (lg_world l) = (Inr ?k, ?w1)"
      using r "1.prems"(1) next_resp_world(3) [OF r, of f]
      by (cases r) (simp_all add: sys_write_def Let_def)
    have k: "?k \<le> length d" by (rule transfer_le)
    have step: "write_log_loop d l = write_log_loop (drop ?k d) ?l1"
      using False sw by (subst write_log_loop.simps) simp
    have "benign ?w1" using next_resp_world(6) [OF r "1.prems"(2)] by simp
    with "1.IH" [OF False sw [symmetric] refl] "1.prems"(1)
    have "file_of (lg_world (write_log_loop (drop ?k d) ?l1)) f =
        write_at (write_at ?c (file_pos l) (take ?k d)) (file_pos l + ?k) (drop ?k d) \<and>
      file_pos (write_log_loop (drop ?k d) ?l1) = file_pos l + ?k + length (drop ?k d) \<or>
      drop ?k d = [] \<and> write_log_loop (drop ?k d) ?l1 = ?l1" by simp
    moreover have "write_at (write_at ?c (file_pos l) (take ?k d)) (file_pos l + ?k) (drop ?k d) = write_at ?c (file_pos l) d"
      using write_at_write_at [of ?c "file_pos l" "take ?k d" "drop ?k d"] k by (simp add: min_absorb2)
    ultimately show ?thesis using k step by auto
  qed
qed

text \<open>A line that fits into the page of a new message.\<close>

lemma put_string_new:
  assumes "length log \<le> 4080"
  shows "\<exists>m m1. put_string log new_Msg = Done m \<and> get_string m = Done (log, m1)"
proof -
  have wf: "msg_wf new_Msg" unfolding new_Msg_def by (rule raw_Msg_wf) (simp add: HEAD_LENGTH_def)
  have "length (concat (map wire [FStr log])) \<le> unat (LeftSize new_Msg)"
    using unat_LeftSize [OF wf] assms by (simp add: new_Msg_def raw_Msg_def)
  from put_fields_run [OF wf this] obtain m where m: "put_fields [FStr log] new_Msg = Done m" "msg_wf m"
    "msg_body m = map Some (concat (map wire [FStr log]))" by (auto simp: msg_body_def new_Msg_def raw_Msg_def)
  have "mReadOffset m = 0" using m(1) by (rule put_fields_read_offset) (simp add: new_Msg_def raw_Msg_def)
  from get_fields_run [OF msg_body_reads [OF m(2,3) this]] obtain m1 where "get_fields [TStr] m = Done ([FStr log], m1)" by auto
  with m(1) show ?thesis by (auto simp: outcome_simps)
qed

text \<open>One byte more and the line runs over the end of the page.\<close>

lemma long_line_overruns:
  assumes "4080 < length log" "length log \<le> 4096"
  shows "post_log log l = Abort Out_of_bounds"
proof -
  have wf: "msg_wf new_Msg" unfolding new_Msg_def by (rule raw_Msg_wf) (simp add: HEAD_LENGTH_def)
  have "length (le_bytes 8 (htonll (of_nat (length log)))) \<le> unat (LeftSize new_Msg)"
    using unat_LeftSize [OF wf] by (simp add: new_Msg_def raw_Msg_def)
  from WriteByte_run [OF wf this] obtain m where m: "put_u64 (of_nat (length log)) new_Msg = Done m" "msg_wf m"
    "unat (mWriteOffset m) = 8" "mMallocSize m = getpagesize"
    by (fastforce simp: put_u64_def new_Msg_def raw_Msg_def)
  have "length log < 2 ^ 32" using assms(2) by simp
  then have "unat (of_nat (length log) :: u32) = length log" by (simp add: unat_of_nat take_bit_nat_eq_self)
  then have "WriteByte log m = Abort Out_of_bounds"
    using assms unat_LeftSize [OF m(2)] m by (auto simp: WriteByte_def Reverse_def store_cells_def msg_wf_def HEAD_LENGTH_def
        word_less_nat_alt word_unat_eq_iff)
  with m(1) show ?thesis by (simp add: post_log_def put_string_def case_prod_unfold)
qed

end
