(* ===== verification/MainProgram.thy ===== *)
theory MainProgram
  imports KVTypes Common ThreadLogger
begin

text \<open>
  \<^verbatim>\<open>src/Main/Main.cpp\<close>: the load program. Modelled are the requests it makes: one that adds the
  table, and those of eight workers that each write ten thousand keys of it.
\<close>

definition first_request :: kv_request where
  "first_request = new_KVRequest\<lparr>mOpType_rq := OP_add_table, mTableName_rq := ascii ''testtable''\<rparr>"

text \<open>The loop of a worker over its numbers.\<close>

function worker_numbers :: "u32 \<Rightarrow> u32 \<Rightarrow> u32 list" where
  "worker_numbers i e = (if i < e then i # worker_numbers (i + 1) e else [])"
  by pat_completeness auto
termination
proof (relation "measure (\<lambda>(i, e). unat e - unat i)")
  fix i e :: u32
  assume l: "i < e"
  then have "unat (i + 1) = Suc (unat i)"
    by (simp add: word_less_nat_alt unat_word_ariths) (use unsigned_less [of e, where 'a = nat] l in
      \<open>simp add: word_less_nat_alt take_bit_nat_eq_self\<close>)
  with l show "((i + 1, e), (i, e)) \<in> measure (\<lambda>(i, e). unat e - unat i)"
    by (simp add: word_less_nat_alt)
qed simp

declare worker_numbers.simps [simp del]

text \<open>The key is the number as an \<^verbatim>\<open>int\<close>.\<close>

definition worker_request :: "u32 \<Rightarrow> kv_request" where
  "worker_request i = new_KVRequest\<lparr>mOpType_rq := OP_put, mTableName_rq := ascii ''testtable'',
     mKey_rq := i2s (sint i), mValue_rq := ascii ''value''\<rparr>"

definition worker_requests :: "u32 \<Rightarrow> u32 \<Rightarrow> kv_request list" where
  "worker_requests begin_n end_n = map worker_request (worker_numbers begin_n end_n)"

definition all_worker_requests :: "kv_request list list" where
  "all_worker_requests =
     map (\<lambda>n. let i = of_nat n :: u32 in worker_requests (i * 10000) ((i + 1) * 10000)) [0..<8]"

section \<open>The workers do not meet\<close>

lemma worker_numbers_run:
  "unat i + n = unat e \<Longrightarrow> map unat (worker_numbers i e) = [unat i..<unat e]"
proof (induction n arbitrary: i)
  case 0
  then show ?case by (subst worker_numbers.simps) (simp add: word_less_nat_alt)
next
  case (Suc n)
  then have l: "unat i < unat e" by simp
  then have "unat (i + 1) = Suc (unat i)"
    using unsigned_less [of e, where 'a = nat] by (simp add: unat_word_ariths take_bit_nat_eq_self)
  with Suc.IH [of "i + 1"] Suc.prems l show ?case
    by (subst worker_numbers.simps) (simp add: word_less_nat_alt upt_conv_Cons)
qed

lemma i2s_injective: "inj_on i2s {- (2 ^ 31)..<2 ^ 31}"
proof (rule inj_onI)
  fix x y :: int
  assume r: "x \<in> {- (2 ^ 31)..<2 ^ 31}" "y \<in> {- (2 ^ 31)..<2 ^ 31}" and e: "i2s x = i2s y"
  have "s2i (i2s z) = Done z" if "z \<in> {- (2 ^ 31)..<2 ^ 31}" for z :: int
    using number_text_roundtrip [of z] that unfolding atLeastLessThan_iff by blast
  from this [OF r(1)] this [OF r(2)] have "Done x = Done y" unfolding e by (rule trans [OF sym])
  then show "x = y" by (rule outcome.inject(1) [THEN iffD1])
qed

lemma worker_keys:
  assumes "n < 8"
  shows "map mKey_rq (worker_requests (of_nat n * 10000) ((of_nat n + 1) * 10000)) =
    map (\<lambda>k. i2s (int k)) [n * 10000..<(n + 1) * 10000]"
proof -
  let ?b = "of_nat n * 10000 :: u32" and ?e = "(of_nat n + 1) * 10000 :: u32"
  have b: "?b = of_nat (n * 10000)" "?e = of_nat ((n + 1) * 10000)" by simp_all
  have ub: "unat ?b = n * 10000" "unat ?e = (n + 1) * 10000"
    unfolding b using assms by (simp_all only: unat_of_nat) (simp_all add: take_bit_nat_eq_self)
  have nums: "map unat (worker_numbers ?b ?e) = [n * 10000..<(n + 1) * 10000]"
    using worker_numbers_run [of ?b 10000 ?e] ub by simp
  have "i2s (sint i) = i2s (int (unat i))" if "i \<in> set (worker_numbers ?b ?e)" for i
  proof -
    have "unat i \<in> set (map unat (worker_numbers ?b ?e))" using that by simp
    then have "unat i < 2 ^ 31" unfolding nums using assms by simp
    then show ?thesis by (simp add: sint_small)
  qed
  then have "map mKey_rq (worker_requests ?b ?e) = map (\<lambda>k. i2s (int k)) (map unat (worker_numbers ?b ?e))"
    by (simp add: worker_requests_def worker_request_def)
  then show ?thesis by (simp only: nums)
qed

text \<open>The eighty thousand keys are all different, so that every put of the program is a new key.\<close>

lemma workers_write_different_keys:
  "map mKey_rq (concat all_worker_requests) = map (\<lambda>k. i2s (int k)) [0..<80000]"
  "distinct (map mKey_rq (concat all_worker_requests))"
proof -
  have all: "concat (map (\<lambda>n. map (\<lambda>k. i2s (int k)) [n * 10000..<(n + 1) * 10000]) [0..<m]) =
      map (\<lambda>k. i2s (int k)) [0..<m * 10000]" for m :: nat
  proof (induction m)
    case (Suc m)
    have "[0..<Suc m * 10000] = [0..<m * 10000] @ [m * 10000..<(m + 1) * 10000]"
      using upt_add_eq_append [of 0 "m * 10000" 10000] by (simp add: add.commute)
    with Suc.IH show ?case by simp
  qed simp
  have "map mKey_rq (concat all_worker_requests) =
      concat (map (\<lambda>n. map mKey_rq (worker_requests (of_nat n * 10000) ((of_nat n + 1) * 10000))) [0..<8])"
    by (simp only: all_worker_requests_def map_concat map_map comp_def Let_def)
  also have "\<dots> = concat (map (\<lambda>n. map (\<lambda>k. i2s (int k)) [n * 10000..<(n + 1) * 10000]) [0..<8])"
    by (intro arg_cong [of _ _ concat] map_cong refl worker_keys) simp
  also have "\<dots> = map (\<lambda>k. i2s (int k)) [0..<80000]" using all [of 8] by simp
  finally show keys: "map mKey_rq (concat all_worker_requests) = map (\<lambda>k. i2s (int k)) [0..<80000]" .
  have "inj_on (\<lambda>k. i2s (int k)) {0..<80000}"
  proof (rule inj_onI)
    fix x y :: nat
    assume xy: "x \<in> {0..<80000}" "y \<in> {0..<80000}" "i2s (int x) = i2s (int y)"
    have "int x = int y" by (rule inj_onD [OF i2s_injective xy(3)]) (use xy in simp_all)
    then show "x = y" by simp
  qed
  then show "distinct (map mKey_rq (concat all_worker_requests))"
    unfolding keys by (simp add: distinct_map)
qed

end
