(* ===== verification/LoadRun.thy ===== *)
theory LoadRun
  imports KVStop MainProgram
begin

text \<open>
  \<^verbatim>\<open>src/Main/Main.cpp\<close> at work: the main thread, its eight workers and the two threads of the
  database as one step relation. Request object 0 is the one of \<^verbatim>\<open>main\<close>, object \<open>n + 1\<close> the one of
  worker \<open>n\<close>. After the last \<^verbatim>\<open>Join\<close> the main thread stops the database, while the threads of the
  database run on. Timing, printing and the logger are left out.
\<close>

section \<open>The program\<close>

text \<open>A worker is at the head of its loop, with the numbers it has left, or waits for an answer.\<close>

datatype worker_pc = Loop "u32 list" | Posted "u32 list"

datatype main_pc = Creating | Awaiting_table | Starting nat | Joining nat | Stopping stop_pc

record load_program =
  db :: kvdb
  main_at :: main_pc
  workers :: "nat \<rightharpoonup> worker_pc"

definition WORKERS :: nat where
  "WORKERS = 8"

definition worker_range :: "nat \<Rightarrow> u32 list" where
  "worker_range n = worker_numbers (of_nat n * 10000) ((of_nat n + 1) * 10000)"

definition fill_first :: "kv_request \<Rightarrow> kv_request" where
  "fill_first rq = rq\<lparr>mOpType_rq := OP_add_table, mTableName_rq := ascii ''testtable''\<rparr>"

definition worker_fill :: "u32 \<Rightarrow> kv_request \<Rightarrow> kv_request" where
  "worker_fill i rq = rq\<lparr>mOpType_rq := OP_put, mTableName_rq := ascii ''testtable'',
     mKey_rq := i2s (sint i), mValue_rq := ascii ''value''\<rparr>"

definition load_clients :: "nat \<rightharpoonup> kv_request" where
  "load_clients a = (if a \<le> WORKERS then Some new_KVRequest else None)"

text \<open>On a new object these make the requests of \<open>MainProgram\<close>.\<close>

lemma fill_new: "fill_first new_KVRequest = first_request" "worker_fill i new_KVRequest = worker_request i"
  by (simp_all add: fill_first_def first_request_def worker_fill_def worker_request_def)

text \<open>The main thread, once \<^verbatim>\<open>KVDB::Start\<close> has returned.\<close>

definition load_start :: "kvdb \<Rightarrow> load_program" where
  "load_start st0 = \<lparr>db = st0, main_at = Creating, workers = Map.empty\<rparr>"

definition post_request :: "nat \<Rightarrow> (kv_request \<Rightarrow> kv_request) \<Rightarrow> kvdb \<Rightarrow> kvdb outcome" where
  "post_request a fill st =
     (case requests st a of None \<Rightarrow> Abort Dangling_pointer
      | Some rq \<Rightarrow> PostKVRequest a (st\<lparr>requests := (requests st)(a \<mapsto> fill rq)\<rparr>))"

inductive main_step :: "load_program \<Rightarrow> load_program \<Rightarrow> bool" where
  create: "main_at m = Creating \<Longrightarrow> post_request 0 fill_first (db m) = Done st' \<Longrightarrow>
    main_step m (m\<lparr>db := st', main_at := Awaiting_table\<rparr>)"
| created: "main_at m = Awaiting_table \<Longrightarrow> requests (db m) 0 = Some rq \<Longrightarrow> mSync rq \<Longrightarrow>
    main_step m (m\<lparr>main_at := Starting 0\<rparr>)"
| start_worker: "main_at m = Starting n \<Longrightarrow> n < WORKERS \<Longrightarrow>
    main_step m (m\<lparr>main_at := Starting (Suc n), workers := (workers m)(n \<mapsto> Loop (worker_range n))\<rparr>)"
| all_started: "main_at m = Starting n \<Longrightarrow> \<not> n < WORKERS \<Longrightarrow> main_step m (m\<lparr>main_at := Joining 0\<rparr>)"
| join: "main_at m = Joining n \<Longrightarrow> n < WORKERS \<Longrightarrow> workers m n = Some (Loop []) \<Longrightarrow>
    main_step m (m\<lparr>main_at := Joining (Suc n)\<rparr>)"
| stop: "main_at m = Joining n \<Longrightarrow> \<not> n < WORKERS \<Longrightarrow>
    KVDB_Stop_begin (db m) = (pc, st') \<Longrightarrow> main_step m (m\<lparr>db := st', main_at := Stopping pc\<rparr>)"
| stopping: "main_at m = Stopping pc \<Longrightarrow> stop_caller pc (db m) = Done (Some (pc', st')) \<Longrightarrow>
    main_step m (m\<lparr>db := st', main_at := Stopping pc'\<rparr>)"
| worker_posts: "workers m n = Some (Loop (i # is)) \<Longrightarrow> post_request (Suc n) (worker_fill i) (db m) = Done st' \<Longrightarrow>
    main_step m (m\<lparr>db := st', workers := (workers m)(n \<mapsto> Posted is)\<rparr>)"
| worker_returns: "workers m n = Some (Posted is) \<Longrightarrow> requests (db m) (Suc n) = Some rq \<Longrightarrow> mSync rq \<Longrightarrow>
    mErr rq = E_OK \<Longrightarrow> main_step m (m\<lparr>workers := (workers m)(n \<mapsto> Loop is)\<rparr>)"
| db_log_thread: "Run_step log_center (db m) = Done (Some st') \<Longrightarrow> main_step m (m\<lparr>db := st'\<rparr>)"
| db_request_thread: "Run_step request_center (db m) = Done (Some st') \<Longrightarrow> main_step m (m\<lparr>db := st'\<rparr>)"

inductive main_reach :: "load_program \<Rightarrow> load_program \<Rightarrow> bool" for m0 where
  main_start: "main_reach m0 m0"
| main_next: "main_reach m0 m \<Longrightarrow> main_step m m' \<Longrightarrow> main_reach m0 m'"

text \<open>
  The process stops: a thread of the database or a post runs into a fault, or the assertion of a
  worker fails because its put was answered with an error.
\<close>

definition main_aborts :: "load_program \<Rightarrow> bool" where
  "main_aborts m \<longleftrightarrow>
     (\<exists>f. Run_step log_center (db m) = Abort f) \<or> (\<exists>f. Run_step request_center (db m) = Abort f) \<or>
     (\<exists>f. main_at m = Creating \<and> post_request 0 fill_first (db m) = Abort f) \<or>
     (\<exists>f pc. main_at m = Stopping pc \<and> stop_caller pc (db m) = Abort f) \<or>
     (\<exists>f n i is. workers m n = Some (Loop (i # is)) \<and> post_request (Suc n) (worker_fill i) (db m) = Abort f) \<or>
     (\<exists>n is rq. workers m n = Some (Posted is) \<and> requests (db m) (Suc n) = Some rq \<and> mSync rq \<and> mErr rq \<noteq> E_OK)"

definition main_done :: "load_program \<Rightarrow> bool" where
  "main_done m \<longleftrightarrow> main_at m = Stopping Stopped"

section \<open>The invariant\<close>

abbreviation T :: bytes where "T \<equiv> ascii ''testtable''"
abbreviation V :: bytes where "V \<equiv> ascii ''value''"

definition keys_stored :: "data_store \<Rightarrow> u32 list \<Rightarrow> bool" where
  "keys_stored ds is \<longleftrightarrow> (\<forall>i \<in> set is. stored T ds (i2s (sint i)) = Some V)"

text \<open>What a worker has done, and what its request object says.\<close>

fun worker_ok :: "data_store \<Rightarrow> kv_request \<Rightarrow> u32 list \<Rightarrow> worker_pc option \<Rightarrow> bool" where
  "worker_ok ds rq all None \<longleftrightarrow> mSync rq"
| "worker_ok ds rq all (Some (Loop is)) \<longleftrightarrow> mSync rq \<and> (\<exists>js. all = js @ is \<and> keys_stored ds js)"
| "worker_ok ds rq all (Some (Posted is)) \<longleftrightarrow> asks_for OP_put T rq \<and>
     (\<exists>js i. all = js @ i # is \<and> keys_stored ds js \<and> mKey_rq rq = i2s (sint i))"

fun main_ok :: "data_store \<Rightarrow> kv_request \<Rightarrow> (nat \<rightharpoonup> worker_pc) \<Rightarrow> main_pc \<Rightarrow> bool" where
  "main_ok ds rq ws Creating \<longleftrightarrow> rq = new_KVRequest \<and> ws = Map.empty"
| "main_ok ds rq ws Awaiting_table \<longleftrightarrow> asks_for OP_add_table T rq \<and> ws = Map.empty"
| "main_ok ds rq ws (Starting n) \<longleftrightarrow> mSync rq \<and> T \<in> dom ds \<and> n \<le> WORKERS \<and> dom ws = {..<n}"
| "main_ok ds rq ws (Joining n) \<longleftrightarrow> mSync rq \<and> T \<in> dom ds \<and> n \<le> WORKERS \<and> dom ws = {..<WORKERS} \<and>
     (\<forall>k < n. ws k = Some (Loop []))"
| "main_ok ds rq ws (Stopping pc) \<longleftrightarrow> False"

fun numbers_left :: "nat \<Rightarrow> worker_pc option \<Rightarrow> u32 list" where
  "numbers_left n None = worker_range n"
| "numbers_left n (Some (Loop is)) = is"
| "numbers_left n (Some (Posted is)) = is"

definition posts_left :: "main_pc \<Rightarrow> (nat \<rightharpoonup> worker_pc) \<Rightarrow> nat" where
  "posts_left pc ws = (if pc = Creating then 1 else 0) +
     (\<Sum>n < WORKERS. length (numbers_left n (ws n)))"

text \<open>Nobody else has a request object.\<close>

definition only_own :: "kvdb \<Rightarrow> bool" where
  "only_own st \<longleftrightarrow> dom (requests st) = {..WORKERS}"

definition load_inv :: "string \<Rightarrow> world \<Rightarrow> nat \<Rightarrow> log_record list \<Rightarrow> nat \<Rightarrow> load_program \<Rightarrow> bool" where
  "load_inv dir w0 m0 R0 K m \<longleftrightarrow>
     kv_inv dir w0 m0 R0 (db m) \<and> table_inv T V (db m) \<and> (\<forall>r \<in> set R0. record_spares T V r) \<and>
     (\<exists>N. ids_within N (db m) \<and> N + posts_left (main_at m) (workers m) \<le> K) \<and>
     only_own (db m) \<and>
     (\<exists>rq. requests (db m) 0 = Some rq \<and> main_ok (mDataStore (db m)) rq (workers m) (main_at m)) \<and>
     (\<forall>n < WORKERS. \<exists>rq. requests (db m) (Suc n) = Some rq \<and>
        worker_ok (mDataStore (db m)) rq (worker_range n) (workers m n))"

text \<open>
  While the database is stopped nobody waits, every worker is through, and the answers, the tables and the
  files are those of a state in which the database was still running.
\<close>

definition stopping_ok :: "string \<Rightarrow> world \<Rightarrow> nat \<Rightarrow> log_record list \<Rightarrow> load_program \<Rightarrow> bool" where
  "stopping_ok dir w0 m0 R0 m \<longleftrightarrow>
     (\<exists>pc. main_at m = Stopping pc \<and> stop_quiet pc (db m)) \<and>
     (\<exists>st. kv_inv dir w0 m0 R0 st \<and> kept (db m) = kept st) \<and>
     dom (workers m) = {..<WORKERS} \<and> (\<forall>n w. workers m n = Some w \<longrightarrow> w = Loop []) \<and>
     (\<forall>n < WORKERS. keys_stored (mDataStore (db m)) (worker_range n))"

lemma keys_stored_grown: "keys_stored ds is \<Longrightarrow> grown T V ds ds' \<Longrightarrow> keys_stored ds' is"
  by (simp add: keys_stored_def grown_def)

lemma worker_ok_grown: "worker_ok ds rq is w \<Longrightarrow> grown T V ds ds' \<Longrightarrow> worker_ok ds' rq is w"
  by (cases "(ds, rq, is, w)" rule: worker_ok.cases) (auto intro: keys_stored_grown)

lemma main_ok_grown: "main_ok ds rq ws pc \<Longrightarrow> grown T V ds ds' \<Longrightarrow> main_ok ds' rq ws pc"
  by (cases pc) (auto simp: grown_def)

text \<open>The threads change no object that is answered, and leave the question of the others.\<close>

definition object_kept :: "kv_request \<Rightarrow> kv_request \<Rightarrow> bool" where
  "object_kept rq rq' \<longleftrightarrow> (mSync rq \<longrightarrow> rq' = rq) \<and> asks rq' = asks rq"

lemma worker_ok_kept: "worker_ok ds rq is w \<Longrightarrow> object_kept rq rq' \<Longrightarrow> worker_ok ds rq' is w"
  by (cases "(ds, rq, is, w)" rule: worker_ok.cases) (auto simp: object_kept_def asks_def asks_for_def)

lemma main_ok_kept: "main_ok ds rq ws pc \<Longrightarrow> object_kept rq rq' \<Longrightarrow> main_ok ds rq' ws pc"
  by (cases pc) (auto simp: object_kept_def asks_def asks_for_def new_KVRequest_def)

lemma load_inv_thread:
  assumes inv: "load_inv dir w0 m0 R0 K m" and k: "kv_inv dir w0 m0 R0 st'"
    and t: "table_step T V (db m) st'" and q: "same_questions (db m) st'"
  shows "load_inv dir w0 m0 R0 K (m\<lparr>db := st'\<rparr>)"
proof -
  have g: "grown T V (mDataStore (db m)) (mDataStore st')" using t by (simp add: table_step_def)
  have obj: "\<exists>rq'. requests st' a = Some rq' \<and> object_kept rq rq'" if a: "requests (db m) a = Some rq" for a rq
  proof -
    have "map_option asks (requests st' a) = Some (asks rq)" using q a by (simp add: same_questions_def)
    moreover have "mSync rq \<longrightarrow> requests st' a = Some rq" using t a by (simp add: table_step_def)
    ultimately show ?thesis by (auto simp: object_kept_def)
  qed
  have "\<exists>rq. requests st' 0 = Some rq \<and> main_ok (mDataStore st') rq (workers m) (main_at m)"
    using inv obj main_ok_kept main_ok_grown [OF _ g] unfolding load_inv_def by blast
  moreover have "\<exists>rq. requests st' (Suc n) = Some rq \<and> worker_ok (mDataStore st') rq (worker_range n) (workers m n)"
    if "n < WORKERS" for n
    using inv that obj worker_ok_kept worker_ok_grown [OF _ g] unfolding load_inv_def by blast
  moreover have "\<exists>N. ids_within N st' \<and> N + posts_left (main_at m) (workers m) \<le> K"
    using inv t unfolding load_inv_def table_step_def by blast
  moreover have "table_inv T V st'" using t by (simp add: table_step_def)
  moreover have "only_own st'"
  proof -
    have "(requests st' a = None) = (requests (db m) a = None)" for a
    proof -
      have "map_option asks (requests st' a) = map_option asks (requests (db m) a)"
        using q unfolding same_questions_def by blast
      then show ?thesis by (cases "requests st' a"; cases "requests (db m) a") simp_all
    qed
    then have "dom (requests st') = dom (requests (db m))" by (simp add: dom_def)
    then show ?thesis using inv by (simp add: load_inv_def only_own_def)
  qed
  ultimately show ?thesis using inv k unfolding load_inv_def by simp
qed

lemma only_own_post:
  "load_inv dir w0 m0 R0 K m \<Longrightarrow> requests st' = (requests (db m))(a \<mapsto> rq) \<Longrightarrow> a \<le> WORKERS \<Longrightarrow> only_own st'"
  by (auto simp: load_inv_def only_own_def)

section \<open>The requests are well formed\<close>

lemma digits_length: "n < 10 ^ Suc k \<Longrightarrow> length (digits_of n) \<le> Suc k"
proof (induction k arbitrary: n)
  case 0
  then show ?case by (simp add: digits_of.simps)
next
  case (Suc k)
  then have "n div 10 < 10 ^ Suc k" by (simp add: less_mult_imp_div_less mult.commute)
  from Suc.IH [OF this] show ?case by (subst digits_of.simps) simp
qed

lemma worker_range_below:
  assumes "n < WORKERS" "i \<in> set (worker_range n)"
  shows "unat i < 80000" "sint i = int (unat i)"
proof -
  let ?b = "of_nat n * 10000 :: u32" and ?e = "(of_nat n + 1) * 10000 :: u32"
  have n: "n < 8" using assms(1) by (simp add: WORKERS_def)
  have "?b = of_nat (n * 10000)" "?e = of_nat ((n + 1) * 10000)" by simp_all
  then have ub: "unat ?b = n * 10000" "unat ?e = (n + 1) * 10000"
    using n by (simp_all only: unat_of_nat) (simp_all add: take_bit_nat_eq_self)
  have "map unat (worker_range n) = [n * 10000..<(n + 1) * 10000]"
    using worker_numbers_run [of ?b 10000 ?e] ub by (simp add: worker_range_def)
  then have "unat i \<in> set [n * 10000..<(n + 1) * 10000]" using assms(2) by (metis image_eqI list.set_map)
  then show b: "unat i < 80000" using n by simp
  then show "sint i = int (unat i)" by (simp add: sint_small)
qed

lemma i2s_small: "k < 80000 \<Longrightarrow> length (i2s (int k)) \<le> 5"
  using digits_length [of k 4] by (simp add: i2s_def)

lemma worker_fill_good:
  assumes "n < WORKERS" "i \<in> set (worker_range n)"
  shows "good_request (worker_fill i rq)"
proof -
  have "length (i2s (sint i)) \<le> 5" unfolding worker_range_below(2) [OF assms]
    by (rule i2s_small) (rule worker_range_below(1) [OF assms])
  then show ?thesis
    by (simp add: good_request_def worker_fill_def is_write_op_def body_fits_def body_bytes_def str_bytes_def ascii_def)
qed

section \<open>The steps\<close>

definition ids_left :: "nat \<Rightarrow> bool" where
  "ids_left K \<longleftrightarrow> K + FLUSH_COUNTERS < 2 ^ 32"

text \<open>What a post does to a database whose clients fill the table.\<close>

lemma post_loads:
  assumes k: "kv_inv dir w0 m0 R0 st" and t: "table_inv T V st" and N: "ids_within N st" "N \<le> K" "ids_left K"
    and x: "requests st a = Some rq" "mSync rq"
    and f: "good_request (fill rq)" "request_spares T V (fill rq)" "asks_for OP_put T (fill rq) \<longrightarrow> T \<in> dom (mDataStore st)"
  shows "\<exists>st'. post_request a fill st = Done st' \<and> kv_inv dir w0 m0 R0 st' \<and> table_inv T V st' \<and>
    mDataStore st' = mDataStore st \<and> requests st' = (requests st)(a \<mapsto> Wait_rq (fill rq)) \<and> ids_within (Suc N) st'"
proof -
  have pol: "polite st (fill rq)"
    using ids_within_max [OF k N(1)] N(2,3) f(1) by (simp add: polite_def ids_left_def)
  with f(2,3) have may: "loads T V st (fill rq)" by (simp add: loads_def)
  from kv_inv_post [OF k x pol] obtain st' where
    st': "PostKVRequest a (st\<lparr>requests := (requests st)(a \<mapsto> fill rq)\<rparr>) = Done st'" "kv_inv dir w0 m0 R0 st'" by blast
  note p = post_table [OF t may x st'(1)]
  have "post_request a fill st = Done st'" using x(1) st'(1) by (simp add: post_request_def)
  with st'(2) p(1-3) p(4) [OF N(1)] show ?thesis by blast
qed

lemma sum_upd:
  "(k :: nat) < n \<Longrightarrow> (\<Sum>j < n. f j ((g(k := x)) j)) + f k (g k) = (\<Sum>j < n. f j (g j)) + (f k x :: nat)"
proof -
  assume "k < n"
  then have k: "finite {..<n}" "k \<in> {..<n}" by simp_all
  have "(\<Sum>j \<in> {..<n} - {k}. f j ((g(k := x)) j)) = (\<Sum>j \<in> {..<n} - {k}. f j (g j))"
    by (rule sum.cong) auto
  then show ?thesis
    using sum.remove [OF k, of "\<lambda>j. f j ((g(k := x)) j)"] sum.remove [OF k, of "\<lambda>j. f j (g j)"] by simp
qed

lemma posts_left_upd:
  assumes "n < WORKERS" "pc \<noteq> Creating" "pc' \<noteq> Creating"
  shows "posts_left pc' (ws(n \<mapsto> w)) + length (numbers_left n (ws n)) =
    posts_left pc ws + length (numbers_left n (Some w))"
  using sum_upd [OF assms(1), of "\<lambda>n w. length (numbers_left n w)" ws "Some w"] assms(2,3)
  by (simp add: posts_left_def)

lemma main_ok_worker:
  "main_ok ds rq ws pc \<Longrightarrow> ws n = Some w \<Longrightarrow> n < WORKERS \<and> T \<in> dom ds \<and> pc \<noteq> Creating"
proof -
  assume a: "main_ok ds rq ws pc" "ws n = Some w"
  then have "n \<in> dom ws" "ws \<noteq> Map.empty" by auto
  then show ?thesis using a(1) by (cases pc) auto
qed

lemma main_ok_worker_upd:
  assumes "main_ok ds rq ws pc" "ws n = Some w" "w \<noteq> Loop []"
  shows "main_ok ds rq (ws(n \<mapsto> w')) pc"
proof -
  have d: "dom (ws(n \<mapsto> w')) = dom ws" "ws \<noteq> Map.empty" using assms(2) by auto
  show ?thesis
  proof (cases pc)
    case (Joining j)
    with assms have "\<not> n < j" by auto
    with assms(1) d(1) Joining show ?thesis by (simp del: dom_fun_upd)
  qed (use assms(1) d in \<open>simp_all del: dom_fun_upd\<close>)
qed

lemma load_invD:
  assumes "load_inv dir w0 m0 R0 K m" "n < WORKERS"
  shows "\<exists>rq. requests (db m) (Suc n) = Some rq \<and>
    worker_ok (mDataStore (db m)) rq (worker_range n) (workers m n)"
  using assms unfolding load_inv_def by blast

lemma create_step:
  assumes inv: "load_inv dir w0 m0 R0 K m" and K: "ids_left K" and pc: "main_at m = Creating"
  shows "\<exists>st'. post_request 0 fill_first (db m) = Done st' \<and>
    load_inv dir w0 m0 R0 K (m\<lparr>db := st', main_at := Awaiting_table\<rparr>)"
proof -
  from inv pc obtain N where N: "ids_within N (db m)" "N + posts_left Creating (workers m) \<le> K"
    and k: "kv_inv dir w0 m0 R0 (db m)" "table_inv T V (db m)" "\<forall>r \<in> set R0. record_spares T V r"
    and w: "workers m = Map.empty" "requests (db m) 0 = Some new_KVRequest"
    unfolding load_inv_def by auto
  let ?x = "fill_first new_KVRequest"
  have x: "good_request ?x" "request_spares T V ?x" "asks_for OP_add_table T (Wait_rq ?x)"
    "\<not> asks_for OP_put T ?x" "mSync new_KVRequest"
    by (simp_all add: good_request_def fill_first_def new_KVRequest_def is_write_op_def body_fits_def body_bytes_def
        str_bytes_def ascii_def request_spares_def spares_def asks_for_def op_codes Wait_rq_def)
  from N have "N \<le> K" by simp
  from post_loads [where fill = fill_first, OF k(1,2) N(1) this K w(2) x(5,1,2)] x(4) obtain st' where
    st': "post_request 0 fill_first (db m) = Done st'" "kv_inv dir w0 m0 R0 st'" "table_inv T V st'"
    "mDataStore st' = mDataStore (db m)" "requests st' = (requests (db m))(0 \<mapsto> Wait_rq ?x)" "ids_within (Suc N) st'" by blast
  have "\<exists>N. ids_within N st' \<and> N + posts_left Awaiting_table (workers m) \<le> K"
    using st'(6) N(2) by (intro exI [of _ "Suc N"]) (simp add: posts_left_def)
  moreover have "\<exists>rq. requests st' (Suc n) = Some rq \<and> worker_ok (mDataStore st') rq (worker_range n) (workers m n)"
    if "n < WORKERS" for n
    using load_invD [OF inv that] st'(4,5) by auto
  moreover have "only_own st'" by (rule only_own_post [OF inv st'(5)]) simp
  ultimately show ?thesis using st' k(3) w(1) x(3) by (intro exI [of _ st']) (simp add: load_inv_def)
qed

lemma worker_posts_step:
  assumes inv: "load_inv dir w0 m0 R0 K m" and K: "ids_left K" and w: "workers m n = Some (Loop (i # is))"
  shows "\<exists>st'. post_request (Suc n) (worker_fill i) (db m) = Done st' \<and>
    load_inv dir w0 m0 R0 K (m\<lparr>db := st', workers := (workers m)(n \<mapsto> Posted is)\<rparr>)"
proof -
  from inv obtain N r0 where N: "ids_within N (db m)" "N + posts_left (main_at m) (workers m) \<le> K"
    and k: "kv_inv dir w0 m0 R0 (db m)" "table_inv T V (db m)" "\<forall>r \<in> set R0. record_spares T V r"
    and r0: "requests (db m) 0 = Some r0" "main_ok (mDataStore (db m)) r0 (workers m) (main_at m)"
    unfolding load_inv_def by blast
  note n = main_ok_worker [OF r0(2) w]
  from load_invD [OF inv] n w obtain rq js where
    rq: "requests (db m) (Suc n) = Some rq" "mSync rq" "worker_range n = js @ i # is" "keys_stored (mDataStore (db m)) js"
    by (metis worker_ok.simps(2))
  let ?x = "worker_fill i rq"
  have x: "good_request ?x" by (rule worker_fill_good [of n]) (use n rq(3) in simp_all)
  have x2: "request_spares T V ?x" "asks_for OP_put T (Wait_rq ?x)" "mKey_rq (Wait_rq ?x) = i2s (sint i)"
    by (simp_all add: worker_fill_def request_spares_def spares_def asks_for_def op_codes Wait_rq_def)
  from N have "N \<le> K" by simp
  from post_loads [where fill = "worker_fill i", OF k(1,2) N(1) this K rq(1,2) x x2(1)] n obtain st' where
    st': "post_request (Suc n) (worker_fill i) (db m) = Done st'" "kv_inv dir w0 m0 R0 st'" "table_inv T V st'"
    "mDataStore st' = mDataStore (db m)" "requests st' = (requests (db m))(Suc n \<mapsto> Wait_rq ?x)" "ids_within (Suc N) st'" by blast
  let ?ws = "(workers m)(n \<mapsto> Posted is)"
  have "Suc (posts_left (main_at m) ?ws) = posts_left (main_at m) (workers m)"
    using posts_left_upd [of n "main_at m" "main_at m" "workers m" "Posted is"] n w by simp
  then have "\<exists>N. ids_within N st' \<and> N + posts_left (main_at m) ?ws \<le> K"
    using st'(6) N(2) by (intro exI [of _ "Suc N"]) simp
  moreover have "\<exists>rq. requests st' (Suc j) = Some rq \<and> worker_ok (mDataStore st') rq (worker_range j) (?ws j)"
    if "j < WORKERS" for j
    using load_invD [OF inv that] st'(4,5) rq(3,4) x2(2,3) by (cases "j = n") auto
  moreover have "main_ok (mDataStore st') r0 ?ws (main_at m)"
    unfolding st'(4) by (rule main_ok_worker_upd [OF r0(2) w]) simp
  moreover have "only_own st'" by (rule only_own_post [OF inv st'(5)]) (use n in simp)
  ultimately show ?thesis using st' k(3) r0(1) by (intro exI [of _ st']) (simp add: load_inv_def)
qed

text \<open>An answered put was successful, and its key is in the table.\<close>

lemma answered_put:
  assumes inv: "load_inv dir w0 m0 R0 K m" and w: "workers m n = Some (Posted is)"
    and rq: "requests (db m) (Suc n) = Some rq" "mSync rq"
  shows "mErr rq = E_OK" "load_inv dir w0 m0 R0 K (m\<lparr>workers := (workers m)(n \<mapsto> Loop is)\<rparr>)"
proof -
  from inv obtain N r0 where N: "ids_within N (db m)" "N + posts_left (main_at m) (workers m) \<le> K"
    and k: "kv_inv dir w0 m0 R0 (db m)" "table_inv T V (db m)" "\<forall>r \<in> set R0. record_spares T V r"
    and r0: "requests (db m) 0 = Some r0" "main_ok (mDataStore (db m)) r0 (workers m) (main_at m)"
    unfolding load_inv_def by blast
  note n = main_ok_worker [OF r0(2) w]
  from load_invD [OF inv] n rq(1) w obtain js i where
    ok: "asks_for OP_put T rq" "worker_range n = js @ i # is" "keys_stored (mDataStore (db m)) js"
      "mKey_rq rq = i2s (sint i)" by force
  from k(2) rq(1) have "request_fine T V (mDataStore (db m)) rq" by (simp add: table_inv_def)
  with ok(1,4) rq(2) have st: "mErr rq = E_OK" "stored T (mDataStore (db m)) (i2s (sint i)) = Some V"
    by (simp_all add: request_fine_def)
  show "mErr rq = E_OK" by (fact st(1))
  let ?ws = "(workers m)(n \<mapsto> Loop is)"
  have "posts_left (main_at m) ?ws = posts_left (main_at m) (workers m)"
    using posts_left_upd [of n "main_at m" "main_at m" "workers m" "Loop is"] n w by simp
  moreover have "main_ok (mDataStore (db m)) r0 ?ws (main_at m)"
    by (rule main_ok_worker_upd [OF r0(2) w]) simp
  moreover have "\<exists>x. requests (db m) (Suc j) = Some x \<and> worker_ok (mDataStore (db m)) x (worker_range j) (?ws j)"
    if "j < WORKERS" for j
  proof (cases "j = n")
    case True
    have "worker_range n = (js @ [i]) @ is" "keys_stored (mDataStore (db m)) (js @ [i])"
      using ok(2,3) st(2) by (simp_all add: keys_stored_def)
    then have "worker_ok (mDataStore (db m)) rq (worker_range n) (Some (Loop is))"
      unfolding worker_ok.simps using rq(2) by blast
    with True rq(1) show ?thesis by simp
  next
    case False
    with load_invD [OF inv that] show ?thesis by simp
  qed
  ultimately show "load_inv dir w0 m0 R0 K (m\<lparr>workers := ?ws\<rparr>)"
    using N k r0(1) inv unfolding load_inv_def by auto
qed

lemma load_inv_main:
  assumes inv: "load_inv dir w0 m0 R0 K m"
    and p: "posts_left pc ws \<le> posts_left (main_at m) (workers m)"
    and ok: "\<And>rq. requests (db m) 0 = Some rq \<Longrightarrow> main_ok (mDataStore (db m)) rq (workers m) (main_at m) \<Longrightarrow>
      main_ok (mDataStore (db m)) rq ws pc"
    and w: "\<And>n rq. worker_ok (mDataStore (db m)) rq (worker_range n) (workers m n) \<Longrightarrow>
      worker_ok (mDataStore (db m)) rq (worker_range n) (ws n)"
  shows "load_inv dir w0 m0 R0 K (m\<lparr>main_at := pc, workers := ws\<rparr>)"
proof -
  from inv obtain N where "ids_within N (db m)" "N + posts_left (main_at m) (workers m) \<le> K"
    unfolding load_inv_def by blast
  with p have "\<exists>N. ids_within N (db m) \<and> N + posts_left pc ws \<le> K" by (intro exI [of _ N]) simp
  moreover have "\<exists>rq. requests (db m) 0 = Some rq \<and> main_ok (mDataStore (db m)) rq ws pc"
    using inv ok unfolding load_inv_def by blast
  moreover have "\<exists>rq. requests (db m) (Suc n) = Some rq \<and> worker_ok (mDataStore (db m)) rq (worker_range n) (ws n)"
    if "n < WORKERS" for n using load_invD [OF inv that] w by blast
  ultimately show ?thesis using inv unfolding load_inv_def by simp
qed

lemma created_step:
  assumes inv: "load_inv dir w0 m0 R0 K m" and pc: "main_at m = Awaiting_table"
    and rq: "requests (db m) 0 = Some rq" "mSync rq"
  shows "load_inv dir w0 m0 R0 K (m\<lparr>main_at := Starting 0\<rparr>)"
proof -
  from inv rq(1) have "request_fine T V (mDataStore (db m)) rq" by (simp add: load_inv_def table_inv_def)
  with rq(2) have f: "asks_for OP_add_table T rq \<longrightarrow> T \<in> dom (mDataStore (db m))" by (simp add: request_fine_def)
  have "load_inv dir w0 m0 R0 K (m\<lparr>main_at := Starting 0, workers := workers m\<rparr>)"
    by (rule load_inv_main [OF inv]) (use f rq pc in \<open>auto simp: posts_left_def\<close>)
  then show ?thesis by simp
qed

lemma start_worker_step:
  assumes inv: "load_inv dir w0 m0 R0 K m" and pc: "main_at m = Starting n" "n < WORKERS"
  shows "load_inv dir w0 m0 R0 K (m\<lparr>main_at := Starting (Suc n), workers := (workers m)(n \<mapsto> Loop (worker_range n))\<rparr>)"
proof (rule load_inv_main [OF inv])
  from inv pc have "dom (workers m) = {..<n}" by (auto simp: load_inv_def)
  then have new: "workers m n = None" by (metis domIff lessThan_iff less_irrefl)
  show "posts_left (Starting (Suc n)) ((workers m)(n \<mapsto> Loop (worker_range n))) \<le> posts_left (main_at m) (workers m)"
    using posts_left_upd [OF pc(2), of "main_at m" "Starting (Suc n)" "workers m" "Loop (worker_range n)"] pc new by simp
  show "main_ok (mDataStore (db m)) rq ((workers m)(n \<mapsto> Loop (worker_range n))) (Starting (Suc n))"
    if "main_ok (mDataStore (db m)) rq (workers m) (main_at m)" for rq
    using that pc by (auto simp: lessThan_Suc)
  show "worker_ok (mDataStore (db m)) rq (worker_range j) (((workers m)(n \<mapsto> Loop (worker_range n))) j)"
    if "worker_ok (mDataStore (db m)) rq (worker_range j) (workers m j)" for j rq
    using that new by (auto simp: keys_stored_def)
qed

lemma all_joined:
  assumes inv: "load_inv dir w0 m0 R0 K m" and pc: "main_at m = Joining WORKERS"
  shows "workers m n = Some w \<Longrightarrow> w = Loop []"
    and "n < WORKERS \<Longrightarrow> keys_stored (mDataStore (db m)) (worker_range n)"
proof -
  from inv pc have ok: "dom (workers m) = {..<WORKERS}" "\<forall>k < WORKERS. workers m k = Some (Loop [])"
    by (auto simp: load_inv_def)
  show "w = Loop []" if "workers m n = Some w"
  proof -
    have "n \<in> dom (workers m)" using that by auto
    with ok that show ?thesis by simp
  qed
  show "keys_stored (mDataStore (db m)) (worker_range n)" if "n < WORKERS"
    using load_invD [OF inv that] ok(2) that by auto
qed

lemma joined_answered:
  assumes inv: "load_inv dir w0 m0 R0 K m" and pc: "main_at m = Joining WORKERS"
  shows "all_answered (db m)"
  unfolding all_answered_def
proof (intro allI impI)
  fix a rq assume rq: "requests (db m) a = Some rq"
  then have "a \<in> dom (requests (db m))" by blast
  then have a: "a \<le> WORKERS" using inv by (simp add: load_inv_def only_own_def)
  show "mSync rq"
  proof (cases a)
    case 0
    with inv pc rq show ?thesis by (auto simp: load_inv_def)
  next
    case (Suc n)
    then have n: "n < WORKERS" using a by simp
    then have "workers m n = Some (Loop [])" using inv pc by (auto simp: load_inv_def)
    with load_invD [OF inv n] rq Suc show ?thesis by auto
  qed
qed

lemma stop_begins:
  assumes inv: "load_inv dir w0 m0 R0 K m" and pc: "main_at m = Joining WORKERS"
  shows "stopping_ok dir w0 m0 R0 (m\<lparr>db := Stop log_center (db m), main_at := Stopping Joining_log\<rparr>)"
proof -
  have k: "kv_inv dir w0 m0 R0 (db m)" using inv by (simp add: load_inv_def)
  from answered_stop_quiet [OF k joined_answered [OF inv pc]]
  have q: "stop_quiet Joining_log (Stop log_center (db m))" "kept (Stop log_center (db m)) = kept (db m)" by auto
  then have "mDataStore (Stop log_center (db m)) = mDataStore (db m)" by (simp add: kept_def)
  moreover have "dom (workers m) = {..<WORKERS}" using inv pc by (auto simp: load_inv_def)
  ultimately show ?thesis using q k all_joined [OF inv pc] by (auto simp: stopping_ok_def)
qed

lemma main_ok_Joining: "main_ok ds rq ws (Joining n) \<Longrightarrow> \<not> n < WORKERS \<Longrightarrow> n = WORKERS"
  by simp

lemma stopping_db:
  assumes "stopping_ok dir w0 m0 R0 m" "main_at m = Stopping pc" "stop_step no_posts (pc, db m) (pc', st')"
  shows "stopping_ok dir w0 m0 R0 (m\<lparr>db := st', main_at := Stopping pc'\<rparr>)"
proof -
  from assms(1,2) have q: "stop_quiet pc (db m)" by (auto simp: stopping_ok_def)
  from quiet_step [OF assms(3) q] have "stop_quiet pc' st'" and k: "kept st' = kept (db m)" by auto
  moreover from k have "mDataStore st' = mDataStore (db m)" by (simp add: kept_def)
  ultimately show ?thesis using assms(1) unfolding stopping_ok_def by auto
qed

lemma stopping_step:
  assumes "main_step m m'" "stopping_ok dir w0 m0 R0 m"
  shows "stopping_ok dir w0 m0 R0 m'"
proof -
  from assms(2) obtain pc where pc: "main_at m = Stopping pc" unfolding stopping_ok_def by blast
  from assms(2) have idle: "w = Loop []" if "workers m n = Some w" for n w using that unfolding stopping_ok_def by blast
  from assms(1) show ?thesis
  proof cases
    case (stopping pc1 pc' st')
    with pc have "stop_step no_posts (pc, db m) (pc', st')" by (simp add: stop_step.caller)
    from stopping_db [OF assms(2) pc this] stopping(1) show ?thesis by simp
  next
    case (db_log_thread st')
    from stopping_db [OF assms(2) pc stop_step.others [OF kv_step.log_thread [OF db_log_thread(2)]]] db_log_thread(1) pc
    show ?thesis by (cases m) simp
  next
    case (db_request_thread st')
    from stopping_db [OF assms(2) pc stop_step.others [OF kv_step.request_thread [OF db_request_thread(2)]]]
      db_request_thread(1) pc show ?thesis by (cases m) simp
  qed (use pc idle in auto)
qed

lemma main_step_inv:
  assumes "main_step m m'" "load_inv dir w0 m0 R0 K m" "ids_left K"
  shows "load_inv dir w0 m0 R0 K m' \<or> stopping_ok dir w0 m0 R0 m'"
  using assms(1)
proof cases
  case (create st')
  with create_step [OF assms(2,3)] show ?thesis by auto
next
  case (created rq)
  with created_step [OF assms(2)] show ?thesis by simp
next
  case (start_worker n)
  with start_worker_step [OF assms(2)] show ?thesis by simp
next
  case (all_started n)
  have "load_inv dir w0 m0 R0 K (m\<lparr>main_at := Joining 0, workers := workers m\<rparr>)"
    by (rule load_inv_main [OF assms(2)]) (use all_started in \<open>auto simp: posts_left_def\<close>)
  with all_started show ?thesis by simp
next
  case (join n)
  have "load_inv dir w0 m0 R0 K (m\<lparr>main_at := Joining (Suc n), workers := workers m\<rparr>)"
    by (rule load_inv_main [OF assms(2)]) (use join in \<open>auto simp: posts_left_def less_Suc_eq\<close>)
  with join show ?thesis by simp
next
  case (stop n pc st')
  from assms(2) stop(2,3) have pc: "main_at m = Joining WORKERS"
    unfolding load_inv_def using main_ok_Joining by metis
  from stop_begins [OF assms(2) pc] stop(1,4) show ?thesis by (auto simp: KVDB_Stop_begin_def)
next
  case (stopping pc pc' st')
  with assms(2) show ?thesis by (auto simp: load_inv_def)
next
  case (worker_posts n i "is" st')
  from worker_posts_step [OF assms(2,3) worker_posts(2)] worker_posts(1,3) show ?thesis by auto
next
  case (worker_returns n "is" rq)
  with answered_put(2) [OF assms(2)] show ?thesis by simp
next
  case (db_log_thread st')
  have k: "kv_inv dir w0 m0 R0 (db m)" "table_inv T V (db m)" "\<forall>r \<in> set R0. record_spares T V r"
    using assms(2) by (auto simp: load_inv_def)
  have "kv_inv dir w0 m0 R0 st'" by (rule kv_inv_step [OF kv_step.log_thread [OF db_log_thread(2)] k(1)])
  moreover have "same_questions (db m) st'" by (rule same_questions_refl [OF log_step_requests [OF db_log_thread(2)]])
  ultimately show ?thesis
    using load_inv_thread [OF assms(2) _ log_step_table [OF k db_log_thread(2)]] db_log_thread(1) by simp
next
  case (db_request_thread st')
  have k: "kv_inv dir w0 m0 R0 (db m)" "table_inv T V (db m)"
    using assms(2) by (auto simp: load_inv_def)
  have "kv_inv dir w0 m0 R0 st'" by (rule kv_inv_step [OF kv_step.request_thread [OF db_request_thread(2)] k(1)])
  with load_inv_thread [OF assms(2) _ request_step_table [OF k db_request_thread(2)]
      request_step_questions [OF db_request_thread(2)]] db_request_thread(1)
  show ?thesis by simp
qed

definition program_ok :: "string \<Rightarrow> world \<Rightarrow> nat \<Rightarrow> log_record list \<Rightarrow> nat \<Rightarrow> load_program \<Rightarrow> bool" where
  "program_ok dir w0 m0 R0 K m \<longleftrightarrow> (load_inv dir w0 m0 R0 K m \<or> stopping_ok dir w0 m0 R0 m) \<and> ids_left K"

lemma program_ok_step: "main_step m m' \<Longrightarrow> program_ok dir w0 m0 R0 K m \<Longrightarrow> program_ok dir w0 m0 R0 K m'"
  unfolding program_ok_def using main_step_inv stopping_step by blast

lemma program_ok_reach: "main_reach a b \<Longrightarrow> program_ok dir w0 m0 R0 K a \<Longrightarrow> program_ok dir w0 m0 R0 K b"
  by (induction rule: main_reach.induct) (auto intro: program_ok_step)

lemma load_inv_no_abort:
  assumes inv: "load_inv dir w0 m0 R0 K m" and K: "ids_left K"
  shows "\<not> main_aborts m"
proof -
  have k: "kv_inv dir w0 m0 R0 (db m)" using inv by (simp add: load_inv_def)
  have "\<not> kv_faults polite (db m)" by (rule kv_inv_no_fault [OF k])
  moreover have "post_request 0 fill_first (db m) \<noteq> Abort f" if "main_at m = Creating" for f
    using create_step [OF inv K that] by auto
  moreover have "post_request (Suc n) (worker_fill i) (db m) \<noteq> Abort f" if "workers m n = Some (Loop (i # is))" for f n i "is"
    using worker_posts_step [OF inv K that] by auto
  moreover have "main_at m \<noteq> Stopping pc" for pc using inv by (auto simp: load_inv_def)
  ultimately show ?thesis using answered_put(1) [OF inv] unfolding main_aborts_def kv_faults_def by blast
qed

lemma stopping_no_abort:
  assumes "stopping_ok dir w0 m0 R0 m"
  shows "\<not> main_aborts m"
proof -
  from assms obtain pc where pc: "main_at m = Stopping pc" "stop_quiet pc (db m)" unfolding stopping_ok_def by blast
  from quiet_no_fault [OF pc(2)] have "\<not> stop_faults no_posts (pc, db m)" .
  moreover have "w = Loop []" if "workers m n = Some w" for n w using assms that unfolding stopping_ok_def by blast
  ultimately show ?thesis using pc(1) by (auto simp: main_aborts_def stop_faults_def kv_faults_def)
qed

section \<open>Progress\<close>

fun work_of :: "nat \<Rightarrow> worker_pc option \<Rightarrow> nat" where
  "work_of n None = 2 * length (worker_range n)"
| "work_of n (Some (Loop is)) = 2 * length is"
| "work_of n (Some (Posted is)) = Suc (2 * length is)"

fun main_work :: "main_pc \<Rightarrow> nat" where
  "main_work Creating = 5 + 2 * WORKERS"
| "main_work Awaiting_table = 4 + 2 * WORKERS"
| "main_work (Starting n) = 3 + 2 * WORKERS - n"
| "main_work (Joining n) = Suc WORKERS - n"
| "main_work (Stopping pc) = 0"

definition load_work :: "load_program \<Rightarrow> nat" where
  "load_work m = main_work (main_at m) + (\<Sum>n < WORKERS. work_of n (workers m n))"

lemma work_upd:
  "n < WORKERS \<Longrightarrow> (\<Sum>j < WORKERS. work_of j ((ws(n \<mapsto> w)) j)) + work_of n (ws n) =
    (\<Sum>j < WORKERS. work_of j (ws j)) + work_of n (Some w)"
  using sum_upd [of n WORKERS work_of ws "Some w"] by simp

lemma load_work_less:
  assumes "n < WORKERS" "work_of n (Some w) < work_of n (workers m n)"
  shows "load_work (m\<lparr>workers := (workers m)(n \<mapsto> w)\<rparr>) < load_work m"
    "load_work (m\<lparr>db := st', workers := (workers m)(n \<mapsto> w)\<rparr>) < load_work m"
  using work_upd [OF assms(1), of "workers m" w] assms(2) by (simp_all add: load_work_def)

lemma worker_progress:
  assumes inv: "load_inv dir w0 m0 R0 K m" and K: "ids_left K" and all: "all_answered (db m)"
    and n: "n < WORKERS" and w: "workers m n = Some w" "w \<noteq> Loop []"
  shows "\<exists>m'. main_step m m' \<and> load_work m' < load_work m"
proof (cases w)
  case (Posted "is")
  from load_invD [OF inv n] obtain rq where rq: "requests (db m) (Suc n) = Some rq" by blast
  with all have sync: "mSync rq" by (simp add: all_answered_def)
  have wp: "workers m n = Some (Posted is)" using w(1) Posted by simp
  have "main_step m (m\<lparr>workers := (workers m)(n \<mapsto> Loop is)\<rparr>)"
    by (rule main_step.worker_returns [OF wp rq sync answered_put(1) [OF inv wp rq sync]])
  moreover have "load_work (m\<lparr>workers := (workers m)(n \<mapsto> Loop is)\<rparr>) < load_work m"
    by (rule load_work_less(1) [OF n]) (simp add: wp)
  ultimately show ?thesis by blast
next
  case (Loop xs)
  with w obtain i "is" where wl: "workers m n = Some (Loop (i # is))" by (cases xs) auto
  from worker_posts_step [OF inv K wl] obtain st' where
    st': "post_request (Suc n) (worker_fill i) (db m) = Done st'" by blast
  have "load_work (m\<lparr>db := st', workers := (workers m)(n \<mapsto> Posted is)\<rparr>) < load_work m"
    by (rule load_work_less(2) [OF n]) (simp add: wl)
  with main_step.worker_posts [OF wl st'] show ?thesis by blast
qed

lemma main_progress:
  assumes inv: "load_inv dir w0 m0 R0 K m" and K: "ids_left K" and all: "all_answered (db m)"
  shows "\<exists>m'. main_step m m' \<and> load_work m' < load_work m"
proof -
  from inv obtain r0 where r0: "requests (db m) 0 = Some r0" "main_ok (mDataStore (db m)) r0 (workers m) (main_at m)"
    unfolding load_inv_def by blast
  have sync: "mSync r0" using all r0(1) by (simp add: all_answered_def)
  show ?thesis
  proof (cases "main_at m")
    case Creating
    with create_step [OF inv K] obtain st' where "post_request 0 fill_first (db m) = Done st'" by blast
    note step = main_step.create [OF Creating this]
    have "load_work (m\<lparr>db := st', main_at := Awaiting_table\<rparr>) < load_work m" by (simp add: load_work_def Creating)
    with step show ?thesis by blast
  next
    case Awaiting_table
    note step = main_step.created [OF this r0(1) sync]
    have "load_work (m\<lparr>main_at := Starting 0\<rparr>) < load_work m" by (simp add: load_work_def Awaiting_table)
    with step show ?thesis by blast
  next
    case (Starting n)
    show ?thesis
    proof (cases "n < WORKERS")
      case True
      have new: "workers m n = None" using r0(2) Starting by (simp, metis domIff lessThan_iff less_irrefl)
      from work_upd [OF True, of "workers m" "Loop (worker_range n)"] new True
      have "load_work (m\<lparr>main_at := Starting (Suc n), workers := (workers m)(n \<mapsto> Loop (worker_range n))\<rparr>) < load_work m"
        by (simp add: load_work_def Starting)
      with main_step.start_worker [OF Starting True] show ?thesis by blast
    next
      case False
      have "n \<le> WORKERS" using r0(2) Starting by simp
      with False main_step.all_started [OF Starting False] show ?thesis
        by (intro exI [of _ "m\<lparr>main_at := Joining 0\<rparr>"]) (simp add: load_work_def Starting)
    qed
  next
    case (Joining n)
    then have le: "n \<le> WORKERS" using r0(2) by simp
    show ?thesis
    proof (cases "n < WORKERS")
      case False
      with le Joining have pc: "main_at m = Joining WORKERS" by simp
      let ?m = "m\<lparr>db := Stop log_center (db m), main_at := Stopping Joining_log\<rparr>"
      have "main_step m ?m" by (rule main_step.stop [OF pc]) (simp_all add: KVDB_Stop_begin_def)
      moreover have "load_work ?m < load_work m" by (simp add: load_work_def pc)
      ultimately show ?thesis by blast
    next
      case n: True
      have "n \<in> dom (workers m)" using r0(2) Joining n by simp
      then obtain w where w: "workers m n = Some w" by blast
      show ?thesis
      proof (cases "w = Loop []")
        case True
        with w have "workers m n = Some (Loop [])" by simp
        from main_step.join [OF Joining n this] n show ?thesis
          by (intro exI [of _ "m\<lparr>main_at := Joining (Suc n)\<rparr>"]) (simp add: load_work_def Joining)
      next
        case False
        from worker_progress [OF inv K all n w False] show ?thesis .
      qed
    qed
  next
    case (Stopping pc)
    with r0(2) show ?thesis by simp
  qed
qed

lemma main_reach_trans: "main_reach b c \<Longrightarrow> main_reach a b \<Longrightarrow> main_reach a c"
  by (induction rule: main_reach.induct) (auto intro: main_reach.main_next)

lemma round_reach:
  assumes "run_round st = Done st'"
  shows "main_reach (m\<lparr>db := st\<rparr>) (m\<lparr>db := st'\<rparr>)"
proof -
  from assms obtain r1 r2 where r: "Run_step log_center st = Done r1"
    "Run_step request_center (case r1 of None \<Rightarrow> st | Some st1 \<Rightarrow> st1) = Done r2"
    "st' = (case r2 of None \<Rightarrow> (case r1 of None \<Rightarrow> st | Some st1 \<Rightarrow> st1) | Some st2 \<Rightarrow> st2)"
    by (auto simp: run_round_def outcome_simps Let_def)
  let ?st1 = "case r1 of None \<Rightarrow> st | Some st1 \<Rightarrow> st1"
  have one: "main_reach (m\<lparr>db := st\<rparr>) (m\<lparr>db := ?st1\<rparr>)"
    using main_next [OF main_start db_log_thread [of "m\<lparr>db := st\<rparr>"]] r(1) main_start
    by (cases r1) auto
  have "main_reach (m\<lparr>db := ?st1\<rparr>) (m\<lparr>db := st'\<rparr>)"
    using main_next [OF main_start db_request_thread [of "m\<lparr>db := ?st1\<rparr>"]] r(2,3) main_start
    by (cases r2) auto
  from main_reach_trans [OF this one] show ?thesis .
qed

lemma rounds_reach:
  "run_rounds k st = Done st' \<Longrightarrow> main_reach (m\<lparr>db := st\<rparr>) (m\<lparr>db := st'\<rparr>)"
proof (induction k arbitrary: st)
  case (Suc k)
  from Suc.prems obtain st1 where st1: "run_round st = Done st1" "run_rounds k st1 = Done st'"
    by (auto simp: outcome_simps)
  from main_reach_trans [OF Suc.IH [OF st1(2)] round_reach [OF st1(1)]] show ?case .
qed (simp add: main_start)

lemma drain:
  assumes "load_inv dir w0 m0 R0 K m"
  shows "\<exists>st'. main_reach m (m\<lparr>db := st'\<rparr>) \<and> all_answered st'"
proof -
  from assms have "kv_inv dir w0 m0 R0 (db m)" by (simp add: load_inv_def)
  then obtain n where "kv_work dir w0 m0 R0 n (db m)" unfolding kv_inv_work by blast
  from rounds_answer [OF this kv_reach.start] obtain k st' where
    st': "run_rounds k (db m) = Done st'" "\<forall>a rq. requests st' a = Some rq \<longrightarrow> mSync rq" by blast
  from rounds_reach [OF st'(1), of m] st'(2) show ?thesis by (auto simp: all_answered_def)
qed

text \<open>A stop of the database is one of the program.\<close>

lemma stop_reach_main:
  "stop_reach no_posts x x' \<Longrightarrow> main_reach (m\<lparr>db := snd x, main_at := Stopping (fst x)\<rparr>)
    (m\<lparr>db := snd x', main_at := Stopping (fst x')\<rparr>)"
proof (induction rule: stop_reach.induct)
  case (stop_next y z)
  obtain pc st pc' st' where yz: "y = (pc, st)" "z = (pc', st')" by (cases y, cases z)
  let ?m = "m\<lparr>db := st, main_at := Stopping pc\<rparr>"
  from stop_next(2) have "main_step ?m (m\<lparr>db := st', main_at := Stopping pc'\<rparr>)"
    unfolding yz
  proof cases
    case caller
    have "main_at ?m = Stopping pc" "stop_caller pc (db ?m) = Done (Some (pc', st'))" using caller by simp_all
    from main_step.stopping [OF this] show ?thesis by simp
  next
    case others
    from others(2) show ?thesis
    proof cases
      case log_thread
      with main_step.db_log_thread [of ?m st'] others(1) show ?thesis by (cases m) simp
    next
      case request_thread
      with main_step.db_request_thread [of ?m st'] others(1) show ?thesis by (cases m) simp
    qed simp
  qed
  with stop_next(3) show ?case using main_next unfolding yz fst_conv snd_conv by blast
qed (rule main_start)

lemma stopping_finishes:
  assumes "stopping_ok dir w0 m0 R0 m"
  shows "\<exists>m'. main_reach m m' \<and> main_done m'"
proof -
  from assms obtain pc where pc: "main_at m = Stopping pc" "stop_quiet pc (db m)" unfolding stopping_ok_def by blast
  from quiet_can_stop [OF pc(2)] obtain st' where st': "stop_reach no_posts (pc, db m) (Stopped, st')" by blast
  have "m\<lparr>db := db m, main_at := Stopping pc\<rparr> = m" using pc(1) by (cases m) simp
  with stop_reach_main [OF st', of m] show ?thesis by (auto simp: main_done_def)
qed

lemma load_inv_not_done: "load_inv dir w0 m0 R0 K m \<Longrightarrow> \<not> main_done m"
  by (auto simp: load_inv_def main_done_def)

lemma load_finishes:
  "program_ok dir w0 m0 R0 K m \<Longrightarrow> \<exists>m'. main_reach m m' \<and> main_done m'"
proof (induction "load_work m" arbitrary: m rule: less_induct)
  case less
  show ?case
  proof (cases "load_inv dir w0 m0 R0 K m")
    case False
    with less.prems show ?thesis using stopping_finishes unfolding program_ok_def by blast
  next
    case True
    from drain [OF True] obtain st' where
      st': "main_reach m (m\<lparr>db := st'\<rparr>)" "all_answered st'" by blast
    let ?m = "m\<lparr>db := st'\<rparr>"
    note ok = program_ok_reach [OF st'(1) less.prems]
    show ?thesis
    proof (cases "load_inv dir w0 m0 R0 K ?m")
      case False
      with ok show ?thesis using stopping_finishes main_reach_trans [OF _ st'(1)] unfolding program_ok_def by blast
    next
      case inv: True
      from ok have K: "ids_left K" by (simp add: program_ok_def)
      from main_progress [OF inv K] st'(2) obtain m1 where
        m1: "main_step ?m m1" "load_work m1 < load_work ?m" by auto
      have "load_work m1 < load_work m" using m1(2) by (simp add: load_work_def)
      from less.hyps [OF this program_ok_step [OF m1(1) ok]] obtain m' where "main_reach m1 m'" "main_done m'" by blast
      with main_reach_trans [OF _ main_next [OF st'(1) m1(1)]] show ?thesis by blast
    qed
  qed
qed

end
