(* ===== verification/LoadTheorems.thy ===== *)
theory LoadTheorems
  imports LoadRun
begin

text \<open>
  The properties of the load program: it never aborts, it can always finish, what it has put is in the
  table and in the log.
\<close>

section \<open>The run\<close>

text \<open>
  A run on a log directory in which nothing was done to the table but what this program does, such
  as its own log, and with enough log ids left for the 80001 requests.
\<close>

definition load_run ::
  "string \<Rightarrow> string \<Rightarrow> world \<Rightarrow> (u32 \<times> u32 \<times> log_record list) list \<Rightarrow> (nat \<Rightarrow> nat) \<Rightarrow>
   load_program \<Rightarrow> bool" where
  "load_run dbDir dir w fs alloc m \<longleftrightarrow>
     (\<exists>st0. database dbDir dir w fs alloc load_clients st0 \<and> main_reach (load_start st0) m \<and>
        unat (mMaxLogId st0) + 80001 + FLUSH_COUNTERS < 2 ^ 32) \<and>
     (\<forall>r \<in> set (all_records fs). record_spares T V r)"

lemma worker_range_keys:
  "n < WORKERS \<Longrightarrow> map (\<lambda>i. i2s (sint i)) (worker_range n) = map (\<lambda>k. i2s (int k)) [n * 10000..<(n + 1) * 10000]"
  using worker_keys [of n] by (simp add: WORKERS_def worker_range_def worker_requests_def worker_request_def comp_def)

lemma length_worker_range: "n < WORKERS \<Longrightarrow> length (worker_range n) = 10000"
  using arg_cong [OF worker_range_keys [of n], of length] by simp

lemma posts_at_start: "posts_left Creating Map.empty = 80001"
  by (simp add: posts_left_def length_worker_range) (simp add: WORKERS_def)

lemma only_own_load: "requests st = load_clients \<Longrightarrow> only_own st"
  by (auto simp: only_own_def load_clients_def split: if_splits)

lemma load_start_ok:
  assumes d: "database dbDir dir w fs alloc load_clients st0" "unat (mMaxLogId st0) + 80001 + FLUSH_COUNTERS < 2 ^ 32"
    "\<forall>r \<in> set (all_records fs). record_spares T V r"
  shows "\<exists>m0 R0 K. program_ok dir (kv_world st0) m0 R0 K (load_start st0)"
proof -
  let ?K = "unat (mMaxLogId st0) + 80001"
  from loads_start [OF d(1,3)] obtain m0 R0 where s: "table_inv T V st0" "requests st0 = load_clients"
    "kv_inv dir (kv_world st0) m0 R0 st0" "\<forall>r \<in> set R0. record_spares T V r" by blast
  have "waiting st0 = {}" by (auto simp: waiting_def s(2) load_clients_def new_KVRequest_def split: if_splits)
  then have "ids_within (unat (mMaxLogId st0)) st0" by (simp add: ids_within_def)
  then have "\<exists>N. ids_within N st0 \<and> N + posts_left Creating Map.empty \<le> ?K"
    using posts_at_start by (intro exI [of _ "unat (mMaxLogId st0)"]) simp
  then have "load_inv dir (kv_world st0) m0 R0 ?K (load_start st0)"
    using s by (simp add: load_inv_def load_start_def load_clients_def new_KVRequest_def only_own_load)
  moreover have "ids_left ?K" using d(2) by (simp add: ids_left_def)
  ultimately show ?thesis unfolding program_ok_def by blast
qed

lemma load_run_inv:
  assumes "load_run dbDir dir w fs alloc m"
  shows "\<exists>w0 m0 R0 K. program_ok dir w0 m0 R0 K m"
  using assms load_start_ok program_ok_reach unfolding load_run_def by meson

lemma finished_keys:
  assumes "program_ok dir w0 m0 R0 K m" and fin: "main_done m" and k: "k < 80000"
  shows "stored T (mDataStore (db m)) (i2s (int k)) = Some V"
proof -
  let ?n = "k div 10000"
  have n: "?n < WORKERS" using k by (simp add: WORKERS_def less_mult_imp_div_less)
  have "stopping_ok dir w0 m0 R0 m" using assms(1) fin load_inv_not_done unfolding program_ok_def by blast
  then have ks: "keys_stored (mDataStore (db m)) (worker_range ?n)" using n by (simp add: stopping_ok_def)
  have "i2s (int k) \<in> set (map (\<lambda>i. i2s (sint i)) (worker_range ?n))"
    unfolding worker_range_keys [OF n] using div_mult_mod_eq [of k 10000] mod_less_divisor [of 10000 k]
    by (simp del: div_mult_mod_eq)
  with ks show ?thesis unfolding keys_stored_def by auto
qed

text \<open>The program on an empty disk.\<close>

lemma demo_load_database:
  "\<exists>st0. database ''/l/'' ''/l/'' empty_disk [] id load_clients st0 \<and> mMaxLogId st0 = 0 \<and>
    (\<forall>n. prefix (durable_of (kv_world st0) n) (file_of (kv_world st0) n))"
proof -
  have "dom load_clients = {..WORKERS}" by (auto simp: load_clients_def split: if_splits)
  then have "idle_clients load_clients"
    by (auto simp: idle_clients_def FLUSH_COUNTERS_def WORKERS_def load_clients_def new_KVRequest_def is_write_op_def
        op_codes split: if_splits)
  from database_exists [OF demo_disk this inj_on_id, of "''/l/''"] show ?thesis by (auto simp: with_slash_def)
qed

lemma demo_load_run:
  "database ''/l/'' ''/l/'' empty_disk [] id load_clients st0 \<Longrightarrow> mMaxLogId st0 = 0 \<Longrightarrow>
    main_reach (load_start st0) m \<Longrightarrow> load_run ''/l/'' ''/l/'' empty_disk [] id m"
  unfolding load_run_def by (auto simp: FLUSH_COUNTERS_def all_records_def)

lemma demo_load:
  "\<exists>st0. database ''/l/'' ''/l/'' empty_disk [] id load_clients st0 \<and>
    load_run ''/l/'' ''/l/'' empty_disk [] id (load_start st0)"
  using demo_load_database demo_load_run main_start by blast

lemma load_run_reach: "load_run dbDir dir w fs alloc m \<Longrightarrow> main_reach m m' \<Longrightarrow> load_run dbDir dir w fs alloc m'"
  unfolding load_run_def using main_reach_trans by blast

lemma demo_finished: "\<exists>m. load_run ''/l/'' ''/l/'' empty_disk [] id m \<and> main_done m"
  using demo_load load_run_inv load_finishes load_run_reach by meson

text \<open>A crash that destroys nothing, when the program is through.\<close>

lemma demo_stopped:
  "\<exists>m. load_run ''/l/'' ''/l/'' empty_disk [] id m \<and> main_done m \<and> workers m 0 = Some (Loop []) \<and>
    crash (kv_world (db m)) (kv_world (db m)) \<and> benign (kv_world (db m))"
proof -
  from demo_load_database obtain st0 where st0: "database ''/l/'' ''/l/'' empty_disk [] id load_clients st0"
    "mMaxLogId st0 = 0" "\<forall>n. prefix (durable_of (kv_world st0) n) (file_of (kv_world st0) n)" by blast
  have "\<exists>m0 R0 K. program_ok ''/l/'' (kv_world st0) m0 R0 K (load_start st0)"
    by (rule load_start_ok [OF st0(1)]) (simp_all add: st0(2) FLUSH_COUNTERS_def all_records_def)
  then obtain m0 R0 K where ok: "program_ok ''/l/'' (kv_world st0) m0 R0 K (load_start st0)" by blast
  from load_finishes [OF ok] obtain m where m: "main_reach (load_start st0) m" "main_done m" by blast
  from program_ok_reach [OF m(1) ok] load_inv_not_done m(2) have s: "stopping_ok ''/l/'' (kv_world st0) m0 R0 m"
    unfolding program_ok_def by blast
  then obtain st where st: "kv_inv ''/l/'' (kv_world st0) m0 R0 st" "kv_world (db m) = kv_world st"
    unfolding stopping_ok_def kept_def by blast
  have "dom (workers m) = {..<WORKERS}" using s unfolding stopping_ok_def by blast
  then have "0 \<in> dom (workers m)" by (simp add: WORKERS_def)
  with s have "workers m 0 = Some (Loop [])" unfolding stopping_ok_def by blast
  moreover note demo_load_run [OF st0(1,2) m(1)] m(2)
  moreover have "crash (kv_world (db m)) (kv_world (db m)) \<and> benign (kv_world (db m))"
    unfolding st(2) by (rule crash_self [OF st(1) st0(3)])
  ultimately show ?thesis by (intro exI [of _ m]) simp
qed

text \<open>C6: The load program never aborts: however its main thread, its eight workers and the two
  threads of the database interleave, no assertion fails, no pointer dangles, every put a worker
  waits for is answered with success, and stopping the database works.\<close>

theorem load_program_never_aborts:
  assumes "load_run dbDir dir w fs alloc m"
  shows "\<not> main_aborts m"
  using load_run_inv [OF assms] load_inv_no_abort stopping_no_abort unfolding program_ok_def by blast

theorem load_program_never_aborts_witness:
  "\<exists>m. main_done m \<and> \<not> main_aborts m"
  using demo_finished load_program_never_aborts by blast

text \<open>C7: When the program has joined all workers and stopped the database, each of the eighty thousand keys reads back
  the value that was put.\<close>

theorem load_program_stores_every_key:
  assumes "load_run dbDir dir w fs alloc m" "main_done m" "k < 80000"
  shows "Get (ascii ''testtable'') (i2s (int k)) d (mDataStore (db m)) = (E_OK, ascii ''value'')"
  using load_run_inv [OF assms(1)] finished_keys [OF _ assms(2,3)] stored_Get by blast

theorem load_program_stores_every_key_witness:
  "\<exists>m. main_done m \<and>
    Get (ascii ''testtable'') (i2s 79999) [] (mDataStore (db m)) = (E_OK, ascii ''value'')"
proof -
  from demo_finished obtain m where m: "load_run ''/l/'' ''/l/'' empty_disk [] id m" "main_done m" by blast
  from load_program_stores_every_key [OF m, of 79999 "[]"] m(2) show ?thesis by auto
qed

text \<open>C9: The load program never gets stuck: from every state it can reach, its threads can be
  scheduled so that all workers finish, are joined, and the database is stopped.\<close>

theorem load_program_can_finish:
  assumes "load_run dbDir dir w fs alloc m"
  shows "\<exists>m'. main_reach m m' \<and> main_done m'"
  using load_run_inv [OF assms] load_finishes by blast

theorem load_program_can_finish_witness:
  "\<exists>st0 m'. database ''/l/'' ''/l/'' empty_disk [] id load_clients st0 \<and>
    main_reach (load_start st0) m' \<and> main_done m'"
  using demo_load load_program_can_finish by blast

text \<open>What a worker has behind it is in the tables of a database that has not been stopped yet, with the same files.\<close>

lemma program_ok_behind:
  assumes ok: "program_ok dir w0 m0 R0 K m" and w: "workers m n = Some (Loop is)" "worker_range n = js @ is" "i \<in> set js"
  shows "\<exists>st. kv_inv dir w0 m0 R0 st \<and> kv_world (db m) = kv_world st \<and> stored T (mDataStore st) (i2s (sint i)) = Some V"
proof (cases "load_inv dir w0 m0 R0 K m")
  case True
  then have "n < WORKERS" using main_ok_worker w(1) unfolding load_inv_def by blast
  from load_invD [OF True this] w(1,2) have "keys_stored (mDataStore (db m)) js" by auto
  with w(3) True show ?thesis by (auto simp: keys_stored_def load_inv_def)
next
  case False
  with ok have s: "stopping_ok dir w0 m0 R0 m" by (simp add: program_ok_def)
  then obtain st where st: "kv_inv dir w0 m0 R0 st" "kv_world (db m) = kv_world st" "mDataStore (db m) = mDataStore st"
    unfolding stopping_ok_def kept_def by blast
  have "n < WORKERS" using s w(1) unfolding stopping_ok_def by blast
  then have "keys_stored (mDataStore (db m)) (worker_range n)" using s unfolding stopping_ok_def by blast
  with w(2,3) st show ?thesis by (auto simp: keys_stored_def)
qed

text \<open>C8: What a worker has put behind it is safe at any time of the run, while the database is stopped and
  afterwards too: whatever a crash destroys of what was not yet synced, recovery succeeds and hands out a record
  that sets the key to the value.\<close>

theorem finished_puts_survive_a_crash:
  assumes "load_run dbDir dir w fs alloc m"
    and "workers m n = Some (Loop is)" "worker_range n = js @ is" "i \<in> set js"
    and "crash (kv_world (db m)) wc" "benign wc"
  shows "\<exists>rv' w'. RecoverFromLog dir (rv, wc) = Done (E_OK, rv', w') \<and>
    (\<exists>r \<in> set (rv_records rv'). record_sets r (ascii ''testtable'') (i2s (sint i)) (ascii ''value''))"
proof -
  from load_run_inv [OF assms(1)] obtain w0 m0 R0 K where "program_ok dir w0 m0 R0 K m" by blast
  from program_ok_behind [OF this assms(2-4)] obtain st where
    st: "kv_inv dir w0 m0 R0 st" "kv_world (db m) = kv_world st" "stored T (mDataStore st) (i2s (sint i)) = Some V" by blast
  from st(3) have "cells (flatten (mDataStore st)) (T, i2s (sint i)) = Some V" by (simp add: stored_def)
  from kv_inv_visible [OF st(1) this _ assms(6)] assms(5) st(2) show ?thesis by simp
qed

theorem finished_puts_survive_a_crash_witness:
  "\<exists>(m :: load_program) (i :: u32) rv' w' r. workers m 0 = Some (Loop []) \<and>
    RecoverFromLog ''/l/'' (\<lparr>rv_records = [], rv_max_id = 0, rv_epoch = 0\<rparr>, kv_world (db m)) =
      Done (E_OK, rv', w') \<and> r \<in> set (rv_records rv') \<and>
    record_sets r (ascii ''testtable'') (i2s (sint i)) (ascii ''value'')"
proof -
  from demo_stopped obtain m where m: "load_run ''/l/'' ''/l/'' empty_disk [] id m"
    "workers m 0 = Some (Loop [])" "crash (kv_world (db m)) (kv_world (db m))" "benign (kv_world (db m))" by blast
  have "worker_range 0 \<noteq> []" using length_worker_range [of 0] by (auto simp: WORKERS_def)
  then have "hd (worker_range 0) \<in> set (worker_range 0)" by (rule hd_in_set)
  note i = this
  let ?rv = "\<lparr>rv_records = [], rv_max_id = 0, rv_epoch = 0\<rparr>"
  have "worker_range 0 = worker_range 0 @ []" by simp
  from finished_puts_survive_a_crash [OF m(1-2) this i m(3,4), of ?rv] obtain rv' w' r where
    r: "RecoverFromLog ''/l/'' (?rv, kv_world (db m)) = Done (E_OK, rv', w')" "r \<in> set (rv_records rv')"
      "record_sets r T (i2s (sint (hd (worker_range 0)))) V" by blast
  show ?thesis by (intro exI conjI) (rule m(2), rule r(1), rule r(2), rule r(3))
qed

end
