(* ===== verification/Spec2Isabelle.thy ===== *)
theory Spec2Isabelle
  imports KVTheorems Closure NetTheorems LoadTheorems
begin

text \<open>
  Verification development for SyncLogs, a log-based key-value database in one process, and for the
  network library that lives beside it (\<^verbatim>\<open>src/SyncLog\<close>, \<^verbatim>\<open>src/Common\<close>, \<^verbatim>\<open>src/Main\<close>).

  \<^bold>\<open>The program.\<close> A client thread fills in a \<^verbatim>\<open>KVRequest\<close> and calls \<^verbatim>\<open>KVDB::PostKVRequest\<close>, which
  enqueues it at the request center and waits on the closure of the request. The request center
  answers reads from the data store and hands every other operation to the log center, which numbers
  it, writes a record to the log and, once its queue is empty, flushes the log and sends the numbers
  back. Only then does the request center apply the operations to the data store and signal the
  clients. On a start the log center first replays all log files. Both centers are subclasses of
  \<^verbatim>\<open>LogicService\<close>, a thread with a queue of reference-counted contexts. The network service is another
  subclass: a driver over libevent calls connections and acceptors when descriptors are ready, these
  post contexts to the service, and the service keeps the table of connections and passes messages on
  to a server behind it. The logger is a fourth one. The database and the network library share
  contexts, services and byte codecs and are not connected in the sources.

  \<^bold>\<open>How the code is modelled.\<close> An operation is a function on an explicit state that returns an
  \<open>outcome\<close>: \<open>Done\<close> with a result, or \<open>Abort\<close> with the fault that ends the process (a failed
  assertion, an access outside an object, a freed or null pointer, the use of a variable nobody set,
  signed overflow). Error codes are the datatype \<open>err\<close>. Integers have the width of the source, and
  buffers are lists whose bounds are checked at each access. Objects that are shared or freed live in
  maps from addresses.

  \<^bold>\<open>Theories, bottom up.\<close>
  \<^item> \<open>SyncPrelude\<close>: widths, outcomes, errors (\<^verbatim>\<open>Err.hpp\<close>), \<^verbatim>\<open>std::map\<close> as a sorted list. \<open>FileSys\<close>: the file
    calls over files with a durable part and the answers the kernel will give. \<open>ByteBuffer\<close>:
    \<^verbatim>\<open>Util.cpp\<close>. \<open>Crc\<close>: \<^verbatim>\<open>CRC.c\<close>, proved equal to the bitwise reference. \<open>Base64\<close>: \<^verbatim>\<open>Base64.hpp\<close>.
    \<open>Common\<close>: \<^verbatim>\<open>Common.cpp\<close>.
  \<^item> The log. \<open>AppendLog\<close> is the contract of a log that is appended to and flushed, interpreted by
    \<open>FileHandler\<close> (\<^verbatim>\<open>FileHandler.cpp\<close>) and by \<open>FileLog\<close> (\<^verbatim>\<open>FileLog.cpp\<close>: records, checksums, torn
    tails). \<open>DirUtil\<close>, \<open>LogNames\<close> and \<open>PersistLogger\<close> (\<^verbatim>\<open>DirUtil.cpp\<close>, \<^verbatim>\<open>PersistLogger.cpp\<close>) are the
    sequence of log files and recovery: what was flushed survives any crash.
  \<^item> Threads. \<open>Context\<close> and \<open>LogicService\<close> (\<^verbatim>\<open>Context.hpp\<close>, \<^verbatim>\<open>LogicService.cpp\<close>, \<^verbatim>\<open>Thread.hpp\<close>): the loop
    of a service cut into steps; the locale \<open>logic_service_laws\<close> has what every subclass owes, and is
    interpreted for both centers, the network service and the logger. \<open>Closure\<close>: the steps of mutex
    and condition variable of \<^verbatim>\<open>Closure.hpp\<close>.
  \<^item> The database. \<open>DataStore\<close> refines a flat map; the abstract \<^verbatim>\<open>DataTable\<close> is the locale
    \<open>data_table\<close>. \<open>KVTypes\<close>, \<open>LogCenter\<close>, \<open>RequestCenter\<close> and \<open>KVDB\<close> are the classes of those
    names, the last one with the step relation of the whole database. \<open>KVInvariant\<close> is its invariant
    in five parts, \<open>KVSafety\<close> what follows from it, \<open>KVTheorems\<close> the properties. \<open>KVTables\<close>: what
    clients that fill one table can rely on, step by step; \<open>KVStop\<close>: \<^verbatim>\<open>KVDB::Stop\<close>, as the steps of the
    caller between those of the two threads (\<open>stop_step\<close> in \<open>KVDB\<close>).
  \<^item> The network. \<open>Msg\<close> (\<^verbatim>\<open>Msg.cpp\<close>): message buffers byte by byte; the locale \<open>ref_counted\<close> covers
    messages and contexts. \<open>TcpSocket\<close> (\<^verbatim>\<open>TcpSocket.hpp\<close>): over streams that arrive in pieces.
    \<open>Driver\<close> (\<^verbatim>\<open>Driver.cpp\<close>, \<^verbatim>\<open>RWConnection.hpp\<close>): the table of events. \<open>TcpConnection\<close>: frames in and
    out. \<open>NetService\<close> (\<^verbatim>\<open>NetService.cpp\<close>, \<^verbatim>\<open>Accepter.hpp\<close>): the service. \<open>NetSafety\<close>: its step
    relation and the invariant on tables, events and queued contexts; \<open>NetTheorems\<close>: the properties.
  \<^item> \<open>ThreadLogger\<close> (\<^verbatim>\<open>ThreadLogger.cpp\<close>). \<^verbatim>\<open>Init\<close> and \<^verbatim>\<open>WriteLog\<close> both begin by clearing more of an array than it
    has, so in this model the logger faults when it starts; there are lemmas and findings about it, no property.
  \<^item> The program (\<^verbatim>\<open>Main.cpp\<close>). \<open>MainProgram\<close>: its requests. \<open>LoadRun\<close>: the main thread, the eight
    workers and the threads of the database as one step relation, with an invariant on top of the one
    of the database and a measure; \<open>LoadTheorems\<close>: the properties.

  \<^bold>\<open>What is shown.\<close> For the database: no reachable state faults, every posted request is answered, an
  acknowledged write is found by recovery after any crash, readers see durable data only, and a start
  rebuilds the store from the log. A stop with nobody waiting is clean in every interleaving; one with a write on
  its way may end the process at an assertion or leave the client waiting. For the program on top: it never
  aborts, it can always finish, and then every key it wrote is in the table; what a worker has put
  behind it survives a crash at any time, during the stop and after it too. For the log layers the corresponding contracts, down to the
  codecs. For the network: messages queued on one connection arrive on the other in order however the
  stream is cut, and in every reachable state each registered event is for a live connection or
  acceptor with that descriptor and the table of connections is exact; no event of libevent is leaked or used after it
  was freed. \<^verbatim>\<open>SendAll\<close>, which nothing calls, returns unless the descriptor blocks for ever. Where the code does not do
  what it means to, the property states what it does: short frames leak connections, announced
  lengths are not checked, a failed initialisation blocks the start, and so on.

  \<^bold>\<open>Assumptions.\<close> They are premises of the theorems that need them.
  \<^item> A handler is one step: the queues and connections are locked, and the unlocked data the two
    centers share is taken to be accessed one handler at a time.
  \<^item> A crash keeps of each file at least its durable part and any part of the rest (\<open>crash\<close>); a kernel is
    \<open>benign\<close> when it may transfer less than asked but reports no error. Memory is always granted.
  \<^item> \<open>polite\<close> clients post well-formed requests, fewer than fifty at a time (the size of
    \<^verbatim>\<open>mFlushCount\<close>), and stop before the 32-bit log ids run out; what happens otherwise is shown
    apart. Pairs in a response are ordered by address, which is an argument.
  \<^item> In \<open>net_step\<close> an event of the driver, a context the service processes and a client that opens a connection are
    each one atomic step. The code takes the lock of a connection in its handlers only: \<^verbatim>\<open>DropConnection\<close> takes none,
    nor does anything that uses the table of connections or the driver. Stopping the service is not a step: it leaves
    stale pointers in the tables (a finding).
  \<^item> A write to a socket fails with an error. The signal the kernel sends on a connection that was reset, which nothing
    ignores (a finding), is not modelled, so \<^verbatim>\<open>EPIPE\<close> is none of the errors.
  \<^item> The network service makes fewer than \<open>2 ^ 64 - 1\<close> connections. The server behind it and the clients
    may do what the interface lets them: post messages, release contexts, change messages.
  \<^item> libevent is a record of functions over a base of any type; \<open>library_ok\<close>, where it is used, says
    that an event that was made is live until it is freed, and that using one that is not live is a misuse that can
    be seen afterwards; a list of live events with a flag is an instance.
    \<^verbatim>\<open>inet_addr\<close>, \<^verbatim>\<open>inet_ntoa\<close>, the clock and the answers of system calls are arguments.

  \<^bold>\<open>Bounds and fuel.\<close> Loops over buffers and files are total functions with a measure. Two loops of the code need
  not end, and \<open>None\<close> is a call that does not return: waiting for a connection to be made (\<open>check_connect\<close>, over the
  answers of \<^verbatim>\<open>select\<close>), and sending all of a buffer (\<open>send_loop\<close>, a partial function of an endless sequence of answers).
  What a descriptor will receive is a finite list of pieces and failures, after which the peer has closed it, so a
  \<^verbatim>\<open>recv\<close> that is never answered is not represented. Only starting a service runs its thread for a fixed number of
  steps, four, while nobody else has anything to do; a stop has no fuel, its threads step in any interleaving. The
  load program needs 80001 log ids.

  \<^bold>\<open>Not modelled.\<close> \<^verbatim>\<open>Cmdline.hpp\<close> is a third-party parser nobody includes, and \<^verbatim>\<open>include/\<close> holds the
  declarations of libevent. The macros of \<^verbatim>\<open>Log.hpp\<close> only format lines, and the calls of them are left
  out of the operations that log; \<^verbatim>\<open>Mutex.hpp\<close> wraps what makes the steps atomic. \<^verbatim>\<open>DumpStats\<close> prints.
  Of \<^verbatim>\<open>Main.cpp\<close> timing, printing and the logger are left out, with its \<^verbatim>\<open>Start\<close> and \<^verbatim>\<open>Stop\<close>: since the model of the
  logger faults in \<^verbatim>\<open>Init\<close>, the properties of the load program are about a build whose logger does not. The
  destructors of static objects, which run after \<^verbatim>\<open>main\<close>, are left out too. Code under \<^verbatim>\<open>#if 0\<close> is not
  compiled.
\<close>

end
